(* ===== verification/Prelude.thy ===== *)
theory Prelude
  imports Complex_Main "HOL-Library.Word"
begin

text \<open>
  The shared base of the development: the machine types of the simulator (\<open>base/types.hh\<close>),
  the result type for the simulator's \<open>assert\<close>, \<open>fatal\<close> and \<open>panic\<close>, the generic facts on
  scans for an extremal element (the victim loops of the replacement policies are such scans)
  and the word facts used by the address computations.
\<close>

unbundle bit_operations_syntax

named_theorems res_simps \<open>unfolding the result monad\<close>
named_theorems vtable_simps \<open>unfolding the operation tables of the policies\<close>

type_synonym Tick = "64 word"
type_synonym Addr = "64 word"
type_synonym u8 = "8 word"
type_synonym u32 = "32 word"
type_synonym u64 = "64 word"
type_synonym i32 = "32 word"   \<comment> \<open>\<open>int\<close>: read by \<open>sint\<close>\<close>

subsection \<open>Results\<close>

datatype sim_error =
    AssertFailed    \<comment> \<open>a failing \<open>assert\<close>\<close>
  | FatalError      \<comment> \<open>\<open>fatal\<close>, \<open>fatal_if\<close>: the user's configuration is wrong\<close>
  | PanicError      \<comment> \<open>\<open>panic\<close>, \<open>panic_if\<close>: the simulator itself is wrong\<close>
  | OutOfRange      \<comment> \<open>the exception of \<open>std::vector::at\<close>, or an index past the end\<close>
  | DivByZero       \<comment> \<open>an integer division by zero\<close>
  | NullDeref       \<comment> \<open>a null or dangling pointer is followed\<close>
  | UndefinedShift  \<comment> \<open>a shift whose result the language leaves undefined\<close>
  | SignedOverflow  \<comment> \<open>signed arithmetic that leaves its type\<close>
  | Uninitialised   \<comment> \<open>a member is read that was never written\<close>

type_synonym 'a res = "sim_error + 'a"

fun rbind :: "'a res \<Rightarrow> ('a \<Rightarrow> 'b res) \<Rightarrow> 'b res" where
  "rbind (Inl e) f = Inl e"
| "rbind (Inr x) f = f x"

lemma rbind_eq_Inr: "rbind m f = Inr y \<longleftrightarrow> (\<exists>x. m = Inr x \<and> f x = Inr y)"
  by (cases m) auto

lemma rbind_InrE:
  assumes "rbind m f = Inr y"
  obtains x where "m = Inr x" and "f x = Inr y"
  using assms by (auto simp: rbind_eq_Inr)

lemma rbind_assoc: "rbind (rbind m f) g = rbind m (\<lambda>x. rbind (f x) g)"
  by (cases m) auto

lemma rbind_cong [fundef_cong]:
  "m = m' \<Longrightarrow> (\<And>x. m' = Inr x \<Longrightarrow> f x = f' x) \<Longrightarrow> rbind m f = rbind m' f'"
  by (cases m') auto

declare rbind_eq_Inr [res_simps]

text \<open>An operation that succeeds and establishes \<open>P\<close>.\<close>

definition succeeds :: "'a res \<Rightarrow> ('a \<Rightarrow> bool) \<Rightarrow> bool" where
  "succeeds m P \<longleftrightarrow> (\<exists>x. m = Inr x \<and> P x)"

lemma succeedsI [intro]: "m = Inr x \<Longrightarrow> P x \<Longrightarrow> succeeds m P"
  by (auto simp: succeeds_def)

lemma succeedsE:
  assumes "succeeds m P"
  obtains x where "m = Inr x" and "P x"
  using assms by (auto simp: succeeds_def)

lemma succeeds_Inr [simp]: "succeeds (Inr x) P \<longleftrightarrow> P x"
  by (auto simp: succeeds_def)

lemma succeeds_Inl [simp]: "\<not> succeeds (Inl e) P"
  by (auto simp: succeeds_def)

lemma succeeds_mono: "succeeds m P \<Longrightarrow> (\<And>x. m = Inr x \<Longrightarrow> P x \<Longrightarrow> Q x) \<Longrightarrow> succeeds m Q"
  by (auto simp: succeeds_def)

lemma succeeds_bind:
  "succeeds m Q \<Longrightarrow> (\<And>x. m = Inr x \<Longrightarrow> Q x \<Longrightarrow> succeeds (f x) P) \<Longrightarrow> succeeds (rbind m f) P"
  by (auto simp: succeeds_def)

text \<open>\<open>std::vector::operator[]\<close>: reading and writing an element that must exist.\<close>

definition vget :: "'a list \<Rightarrow> nat \<Rightarrow> 'a res" where
  "vget xs i = (if i < length xs then Inr (xs ! i) else Inl OutOfRange)"

definition vset :: "'a list \<Rightarrow> nat \<Rightarrow> 'a \<Rightarrow> 'a list res" where
  "vset xs i x = (if i < length xs then Inr (xs[i := x]) else Inl OutOfRange)"

lemma vget_eq_Inr [simp]: "vget xs i = Inr x \<longleftrightarrow> i < length xs \<and> x = xs ! i"
  by (auto simp: vget_def)

lemma vset_eq_Inr [simp]: "vset xs i x = Inr ys \<longleftrightarrow> i < length xs \<and> ys = xs[i := x]"
  by (auto simp: vset_def)

lemma vget_in [simp]: "i < length xs \<Longrightarrow> rbind (vget xs i) f = f (xs ! i)"
  by (simp add: vget_def)

lemma vset_in [simp]: "i < length xs \<Longrightarrow> rbind (vset xs i x) f = f (xs[i := x])"
  by (simp add: vset_def)

subsection \<open>Scans for a leftmost extremal element\<close>

text \<open>
  \<open>leftmost_min f xs v\<close>: \<open>v\<close> is the first element of \<open>xs\<close> whose key is minimal. This is what
  a loop computes that starts from \<open>xs[0]\<close> and replaces its victim on a strictly smaller key.
\<close>

definition leftmost_min :: "('a \<Rightarrow> 'k::linorder) \<Rightarrow> 'a list \<Rightarrow> 'a \<Rightarrow> bool" where
  "leftmost_min f xs v \<longleftrightarrow>
     (\<exists>ys zs. xs = ys @ v # zs \<and> (\<forall>y \<in> set ys. f v < f y) \<and> (\<forall>z \<in> set zs. f v \<le> f z))"

definition leftmost_max :: "('a \<Rightarrow> 'k::linorder) \<Rightarrow> 'a list \<Rightarrow> 'a \<Rightarrow> bool" where
  "leftmost_max f xs v \<longleftrightarrow>
     (\<exists>ys zs. xs = ys @ v # zs \<and> (\<forall>y \<in> set ys. f y < f v) \<and> (\<forall>z \<in> set zs. f z \<le> f v))"

fun scan :: "('a \<Rightarrow> 'a \<Rightarrow> bool) \<Rightarrow> 'a \<Rightarrow> 'a list \<Rightarrow> 'a" where
  "scan better v [] = v"
| "scan better v (c # cs) = scan better (if better c v then c else v) cs"

lemma leftmost_min_mem: "leftmost_min f xs v \<Longrightarrow> v \<in> set xs"
  by (auto simp: leftmost_min_def)

lemma leftmost_max_mem: "leftmost_max f xs v \<Longrightarrow> v \<in> set xs"
  by (auto simp: leftmost_max_def)

lemma leftmost_min_le: "leftmost_min f xs v \<Longrightarrow> x \<in> set xs \<Longrightarrow> f v \<le> f x"
  by (auto simp: leftmost_min_def less_imp_le)

lemma leftmost_max_ge: "leftmost_max f xs v \<Longrightarrow> x \<in> set xs \<Longrightarrow> f x \<le> f v"
  by (auto simp: leftmost_max_def less_imp_le)

lemma leftmost_min_singleton: "leftmost_min f [v] v"
  by (simp add: leftmost_min_def Cons_eq_append_conv)

lemma leftmost_max_singleton: "leftmost_max f [v] v"
  by (simp add: leftmost_max_def Cons_eq_append_conv)

lemma leftmost_min_filter:
  assumes "leftmost_min f xs v" and "P v"
  shows "leftmost_min f (filter P xs) v"
proof -
  from assms(1) obtain ys zs where
    "xs = ys @ v # zs" "\<forall>y \<in> set ys. f v < f y" "\<forall>z \<in> set zs. f v \<le> f z"
    by (auto simp: leftmost_min_def)
  then show ?thesis using assms(2)
    unfolding leftmost_min_def by (intro exI [of _ "filter P ys"] exI [of _ "filter P zs"]) auto
qed

lemma leftmost_min_cong:
  assumes "leftmost_min f xs v" and "\<And>x. x \<in> set xs \<Longrightarrow> f x = g x"
  shows "leftmost_min g xs v"
proof -
  from assms(1) obtain ys zs where
    "xs = ys @ v # zs" "\<forall>y \<in> set ys. f v < f y" "\<forall>z \<in> set zs. f v \<le> f z"
    by (auto simp: leftmost_min_def)
  then show ?thesis using assms(2)
    unfolding leftmost_min_def by (intro exI [of _ ys] exI [of _ zs]) auto
qed

lemma leftmost_min_snoc:
  assumes "leftmost_min f xs v"
  shows "leftmost_min f (xs @ [c]) (if f c < f v then c else v)"
proof (cases "f c < f v")
  case True
  have "\<forall>y \<in> set xs. f c < f y"
    using True leftmost_min_le [OF assms] by (auto intro: less_le_trans)
  then have "leftmost_min f (xs @ [c]) c"
    unfolding leftmost_min_def by (intro exI [of _ xs] exI [of _ "[]"]) simp
  with True show ?thesis by simp
next
  case False
  from assms obtain ys zs where "xs = ys @ v # zs" "\<forall>y \<in> set ys. f v < f y" "\<forall>z \<in> set zs. f v \<le> f z"
    by (auto simp: leftmost_min_def)
  with False have "leftmost_min f (xs @ [c]) v"
    unfolding leftmost_min_def by (intro exI [of _ ys] exI [of _ "zs @ [c]"]) auto
  with False show ?thesis by simp
qed

lemma leftmost_max_snoc:
  assumes "leftmost_max f xs v"
  shows "leftmost_max f (xs @ [c]) (if f c > f v then c else v)"
proof (cases "f c > f v")
  case True
  have "\<forall>y \<in> set xs. f y < f c"
    using True leftmost_max_ge [OF assms] by (auto intro: le_less_trans)
  then have "leftmost_max f (xs @ [c]) c"
    unfolding leftmost_max_def by (intro exI [of _ xs] exI [of _ "[]"]) simp
  with True show ?thesis by simp
next
  case False
  from assms obtain ys zs where "xs = ys @ v # zs" "\<forall>y \<in> set ys. f y < f v" "\<forall>z \<in> set zs. f z \<le> f v"
    by (auto simp: leftmost_max_def)
  with False have "leftmost_max f (xs @ [c]) v"
    unfolding leftmost_max_def by (intro exI [of _ ys] exI [of _ "zs @ [c]"]) auto
  with False show ?thesis by simp
qed

lemma scan_min_gen:
  "leftmost_min f ys v \<Longrightarrow> leftmost_min f (ys @ xs) (scan (\<lambda>c w. f c < f w) v xs)"
proof (induction xs arbitrary: ys v)
  case (Cons c cs)
  from leftmost_min_snoc [OF Cons.prems, of c]
  have "leftmost_min f ((ys @ [c]) @ cs) (scan (\<lambda>c w. f c < f w) (if f c < f v then c else v) cs)"
    by (rule Cons.IH)
  then show ?case by simp
qed simp

lemma scan_first: "better (hd xs) (hd xs) = False \<Longrightarrow> xs \<noteq> [] \<Longrightarrow>
    scan better (xs ! 0) xs = scan better (hd xs) (tl xs)"
  by (cases xs) auto

lemma scan_leftmost_min:
  assumes "xs \<noteq> []"
  shows "leftmost_min f xs (scan (\<lambda>c w. f c < f w) (xs ! 0) xs)"
proof -
  have "leftmost_min f ([hd xs] @ tl xs) (scan (\<lambda>c w. f c < f w) (hd xs) (tl xs))"
    by (rule scan_min_gen [OF leftmost_min_singleton])
  with assms show ?thesis by (simp add: scan_first)
qed

lemma scan_max_gen:
  "leftmost_max f ys v \<Longrightarrow> leftmost_max f (ys @ xs) (scan (\<lambda>c w. f c > f w) v xs)"
proof (induction xs arbitrary: ys v)
  case (Cons c cs)
  from leftmost_max_snoc [OF Cons.prems, of c]
  have "leftmost_max f ((ys @ [c]) @ cs) (scan (\<lambda>c w. f c > f w) (if f c > f v then c else v) cs)"
    by (rule Cons.IH)
  then show ?case by simp
qed simp

lemma scan_leftmost_max:
  assumes "xs \<noteq> []"
  shows "leftmost_max f xs (scan (\<lambda>c w. f c > f w) (xs ! 0) xs)"
proof -
  have "leftmost_max f ([hd xs] @ tl xs) (scan (\<lambda>c w. f c > f w) (hd xs) (tl xs))"
    by (rule scan_max_gen [OF leftmost_max_singleton])
  with assms show ?thesis by (simp add: scan_first)
qed

lemma scan_mem: "scan better v xs \<in> insert v (set xs)"
proof (induction xs arbitrary: v)
  case (Cons c cs)
  from Cons.IH [of "if better c v then c else v"] show ?case by (auto split: if_splits)
qed simp

lemma scan_nth_mem: "xs \<noteq> [] \<Longrightarrow> scan better (xs ! 0) xs \<in> set xs"
  using scan_mem [of better "xs ! 0" xs] by (auto simp: nth_mem)

subsection \<open>Words\<close>

lemma unat_less_2p64: "unat (x :: 64 word) < 2 ^ 64"
  using unsigned_less [of x, where ?'a = nat] by simp

lemma word_inc_less:
  fixes x y :: "'a::len word"
  assumes "x < y"
  shows "unat (x + 1) = Suc (unat x)"
proof -
  have "unat x < unat y" using assms by (simp add: word_less_nat_alt)
  moreover have "unat y < 2 ^ LENGTH('a)" by (rule unsigned_less)
  ultimately have "Suc (unat x) < 2 ^ LENGTH('a)" by (meson Suc_leI le_less_trans)
  then show ?thesis by (simp add: unat_word_ariths)
qed

lemma word_dec_pos: "x \<noteq> 0 \<Longrightarrow> unat (x - 1) = unat x - 1"
  by (rule unat_minus_one)

lemma uint_less_unat: "uint a < uint b \<longleftrightarrow> unat a < unat b" for a b :: "'a::len word"
  by (simp flip: word_less_def word_less_nat_alt)

lemma unat_and_ones: "unat (x AND (2 ^ k - 1)) = unat x mod 2 ^ k" for x :: "'a::len word"
proof -
  have "x AND (2 ^ k - 1) = take_bit k x" by (simp add: take_bit_eq_mask mask_eq_exp_minus_1)
  then have "unat (x AND (2 ^ k - 1)) = take_bit k (unat x)" by (simp only: unsigned_take_bit_eq)
  then show ?thesis by (simp add: take_bit_eq_mod)
qed

lemma unat_2p: "k < LENGTH('a) \<Longrightarrow> unat (2 ^ k :: 'a::len word) = 2 ^ k"
proof -
  assume "k < LENGTH('a)"
  then have "(2::nat) ^ k < 2 ^ LENGTH('a)" by simp
  then have "unat (of_nat (2 ^ k) :: 'a word) = 2 ^ k" by (simp only: unat_of_nat mod_less)
  then show ?thesis by simp
qed

lemma unat_not_and_ones:
  fixes x :: "'a::len word"
  assumes "k < LENGTH('a)"
  shows "unat (NOT x AND (2 ^ k - 1)) = 2 ^ k - 1 - unat x mod 2 ^ k"
proof -
  have e: "NOT x AND (2 ^ k - 1) = (2 ^ k - 1) - (x AND (2 ^ k - 1))"
    using take_bit_not_eq_mask_diff [of k x] by (simp add: take_bit_eq_mask mask_eq_exp_minus_1)
  have o: "unat (2 ^ k - 1 :: 'a word) = 2 ^ k - 1"
    using unat_2p [OF assms] unat_minus_one [of "2 ^ k :: 'a word"]
    by (metis power_not_zero unat_0 zero_neq_numeral)
  have "(x AND (2 ^ k - 1)) \<le> 2 ^ k - 1" by (simp add: word_le_nat_alt unat_and_ones o less_Suc_eq_le [symmetric])
  then have "unat ((2 ^ k - 1) - (x AND (2 ^ k - 1))) = unat (2 ^ k - 1 :: 'a word) - unat (x AND (2 ^ k - 1))"
    by (rule unat_sub)
  then show ?thesis by (simp add: e o unat_and_ones)
qed

end
