(* ===== verification/ReplPolicy.thy ===== *)
theory ReplPolicy
  imports Prelude
begin

text \<open>
  The interface of the replacement policies (\<open>mem/cache/replacement_policies/base.hh\<close> and
  \<open>replaceable_entry.hh\<close>). An entry is named by a number; its \<open>replacementData\<close> pointer is a
  partial map, undefined until \<open>instantiateEntry\<close> has been called for the entry. The virtual
  functions of \<open>BaseReplacementPolicy\<close> are the fields of \<open>rp_vtable\<close>, and every policy of the
  development gives one value of that record. The simulated time and the random generator are
  read through \<open>rp_env\<close>.

  Two locales state the contract. \<open>replacement_policy\<close>: no operation fails on an instantiated
  entry, \<open>getVictim\<close> returns one of its candidates. \<open>invalid_first_policy\<close>: in addition
  an invalid candidate is chosen before any valid one; the locale derives from it that an entry
  that was invalidated and not used since is found by the next victim search, whatever
  other entries did in between.
\<close>

type_synonym entry_id = nat

record ReplacementData =
  set_num :: "u32 option"

text \<open>\<open>curTick()\<close> and \<open>random_mt.random<unsigned>(lo, hi)\<close> at the moment of a call.\<close>

record rp_env =
  curTick :: Tick
  random_mt :: "nat \<Rightarrow> nat \<Rightarrow> nat"

definition env_ok :: "rp_env \<Rightarrow> bool" where
  "env_ok env \<longleftrightarrow> (\<forall>lo hi. lo \<le> hi \<longrightarrow> lo \<le> random_mt env lo hi \<and> random_mt env lo hi \<le> hi)"

record 's rp_vtable =
  rp_invalidate :: "rp_env \<Rightarrow> 's \<Rightarrow> entry_id \<Rightarrow> 's res"
  rp_touch :: "rp_env \<Rightarrow> 's \<Rightarrow> entry_id \<Rightarrow> 's res"
  rp_reset :: "rp_env \<Rightarrow> 's \<Rightarrow> entry_id \<Rightarrow> 's res"
  rp_getVictim :: "rp_env \<Rightarrow> 's \<Rightarrow> entry_id list \<Rightarrow> (entry_id \<times> 's) res"
  rp_instantiateEntry :: "'s \<Rightarrow> entry_id \<Rightarrow> 's res"
  rp_set_set_num :: "'s \<Rightarrow> entry_id \<Rightarrow> u32 \<Rightarrow> 's res"

type_synonym 'rd rp_store = "entry_id \<rightharpoonup> 'rd"

text \<open>Following an entry's \<open>replacementData\<close> pointer, and updating through it.\<close>

definition rd_get :: "'rd rp_store \<Rightarrow> entry_id \<Rightarrow> 'rd res" where
  "rd_get s e = (case s e of None \<Rightarrow> Inl NullDeref | Some d \<Rightarrow> Inr d)"

definition rd_upd :: "('rd \<Rightarrow> 'rd) \<Rightarrow> 'rd rp_store \<Rightarrow> entry_id \<Rightarrow> 'rd rp_store res" where
  "rd_upd f s e = rbind (rd_get s e) (\<lambda>d. Inr (s(e \<mapsto> f d)))"

definition all_live :: "'rd rp_store \<Rightarrow> entry_id list \<Rightarrow> bool" where
  "all_live s cs \<longleftrightarrow> list_all (\<lambda>c. s c \<noteq> None) cs"

lemma all_live_iff: "all_live s cs \<longleftrightarrow> set cs \<subseteq> dom s"
  by (auto simp: all_live_def list_all_iff)

lemma rd_get_live: "s e = Some d \<Longrightarrow> rd_get s e = Inr d"
  by (simp add: rd_get_def)

lemma rd_get_Inr: "rd_get s e = Inr d \<longleftrightarrow> s e = Some d"
  by (auto simp: rd_get_def split: option.splits)

lemma rd_upd_live: "s e = Some d \<Longrightarrow> rd_upd f s e = Inr (s(e \<mapsto> f d))"
  by (simp add: rd_upd_def rd_get_live)

lemma dom_rd_upd: "rd_upd f s e = Inr s' \<Longrightarrow> dom s' = dom s"
  by (auto simp: rd_upd_def rd_get_Inr rbind_eq_Inr split: if_splits)

definition store_cands :: "'rd rp_store \<Rightarrow> entry_id list \<Rightarrow> bool" where
  "store_cands s cs \<longleftrightarrow> cs \<noteq> [] \<and> set cs \<subseteq> dom s"

lemma store_cands_cong: "dom s = dom s' \<Longrightarrow> store_cands s = store_cands s'"
  by (auto simp: store_cands_def fun_eq_iff)

subsection \<open>The contract of a policy\<close>

locale replacement_policy =
  fixes ops :: "'s rp_vtable"
    and rp_inv :: "'s \<Rightarrow> bool"
    and rp_cands :: "'s \<Rightarrow> entry_id list \<Rightarrow> bool"
  assumes cands_nonempty: "rp_cands s cs \<Longrightarrow> cs \<noteq> []"
    and invalidate_ok: "rp_inv s \<Longrightarrow> rp_cands s cs \<Longrightarrow> e \<in> set cs \<Longrightarrow>
        succeeds (rp_invalidate ops env s e) (\<lambda>s'. rp_inv s' \<and> rp_cands s' = rp_cands s)"
    and touch_ok: "rp_inv s \<Longrightarrow> rp_cands s cs \<Longrightarrow> e \<in> set cs \<Longrightarrow>
        succeeds (rp_touch ops env s e) (\<lambda>s'. rp_inv s' \<and> rp_cands s' = rp_cands s)"
    and reset_ok: "rp_inv s \<Longrightarrow> rp_cands s cs \<Longrightarrow> e \<in> set cs \<Longrightarrow>
        succeeds (rp_reset ops env s e) (\<lambda>s'. rp_inv s' \<and> rp_cands s' = rp_cands s)"
    and getVictim_ok: "env_ok env \<Longrightarrow> rp_inv s \<Longrightarrow> rp_cands s cs \<Longrightarrow>
        succeeds (rp_getVictim ops env s cs)
          (\<lambda>(v, s'). v \<in> set cs \<and> rp_inv s' \<and> rp_cands s' = rp_cands s)"

text \<open>What a client of the policy does with its entries, and a whole history of such calls.\<close>

datatype rp_call = Invalidate entry_id | Touch entry_id | Reset entry_id

fun call_entry :: "rp_call \<Rightarrow> entry_id" where
  "call_entry (Invalidate e) = e"
| "call_entry (Touch e) = e"
| "call_entry (Reset e) = e"

fun rp_do :: "'s rp_vtable \<Rightarrow> rp_env \<Rightarrow> rp_call \<Rightarrow> 's \<Rightarrow> 's res" where
  "rp_do ops env (Invalidate e) s = rp_invalidate ops env s e"
| "rp_do ops env (Touch e) s = rp_touch ops env s e"
| "rp_do ops env (Reset e) s = rp_reset ops env s e"

fun rp_history :: "'s rp_vtable \<Rightarrow> (rp_env \<times> rp_call) list \<Rightarrow> 's \<Rightarrow> 's res" where
  "rp_history ops [] s = Inr s"
| "rp_history ops ((env, c) # h) s = rbind (rp_do ops env c s) (rp_history ops h)"

lemma rp_history_append:
  "rp_history ops (h @ k) s = rbind (rp_history ops h s) (rp_history ops k)"
  by (induction ops h s rule: rp_history.induct) (auto simp: rbind_assoc intro!: rbind_cong)

context replacement_policy
begin

lemma do_ok:
  assumes "rp_inv s" and "rp_cands s cs" and "call_entry c \<in> set cs"
  shows "succeeds (rp_do ops env c s) (\<lambda>s'. rp_inv s' \<and> rp_cands s' = rp_cands s)"
  using assms invalidate_ok touch_ok reset_ok by (cases c) auto

lemma history_ok:
  "rp_inv s \<Longrightarrow> rp_cands s cs \<Longrightarrow> \<forall>(env, c) \<in> set h. call_entry c \<in> set cs \<Longrightarrow>
   succeeds (rp_history ops h s) (\<lambda>s'. rp_inv s' \<and> rp_cands s' = rp_cands s)"
proof (induction h arbitrary: s)
  case (Cons x h)
  obtain env c where x: "x = (env, c)" by (cases x)
  from Cons.prems(1,2) Cons.prems(3) x obtain t where t: "rp_do ops env c s = Inr t" "rp_inv t"
      "rp_cands t = rp_cands s"
    by (auto elim!: succeedsE [OF do_ok [of s cs c env]])
  from Cons.IH [of t] t Cons.prems show ?case by (auto simp: x)
qed auto

text \<open>After any history on the candidates, a victim search answers with a candidate.\<close>

lemma history_victim:
  assumes "rp_inv s" and "rp_cands s cs" and "\<forall>(env, c) \<in> set h. call_entry c \<in> set cs"
    and "env_ok env"
  shows "succeeds (rbind (rp_history ops h s) (\<lambda>s'. rp_getVictim ops env s' cs))
           (\<lambda>(v, s'). v \<in> set cs \<and> rp_inv s')"
proof -
  from history_ok [OF assms(1-3)] obtain t where "rp_history ops h s = Inr t" "rp_inv t" "rp_cands t cs"
    using assms(2) by (auto elim!: succeedsE)
  then show ?thesis using getVictim_ok [OF assms(4), of t cs] by (auto simp: succeeds_def)
qed

end

subsection \<open>Policies that evict invalid entries first\<close>

locale invalid_first_policy = replacement_policy +
  fixes rp_invalid :: "'a \<Rightarrow> entry_id \<Rightarrow> bool"
  assumes invalidate_invalid: "rp_inv s \<Longrightarrow> rp_invalidate ops env s e = Inr s' \<Longrightarrow>
        rp_invalid s' e \<and> (\<forall>x. x \<noteq> e \<longrightarrow> rp_invalid s' x = rp_invalid s x)"
    and touch_frame: "rp_inv s \<Longrightarrow> rp_touch ops env s e = Inr s' \<Longrightarrow> x \<noteq> e \<Longrightarrow>
        rp_invalid s' x = rp_invalid s x"
    and reset_frame: "rp_inv s \<Longrightarrow> rp_reset ops env s e = Inr s' \<Longrightarrow> x \<noteq> e \<Longrightarrow>
        rp_invalid s' x = rp_invalid s x"
    and reset_valid: "rp_inv s \<Longrightarrow> curTick env \<noteq> 0 \<Longrightarrow> rp_reset ops env s e = Inr s' \<Longrightarrow>
        \<not> rp_invalid s' e"
    and victim_invalid: "rp_inv s \<Longrightarrow> rp_cands s cs \<Longrightarrow> c \<in> set cs \<Longrightarrow> rp_invalid s c \<Longrightarrow>
        rp_getVictim ops env s cs = Inr (v, s') \<Longrightarrow> rp_invalid s v"
begin

lemma do_frame:
  "rp_inv s \<Longrightarrow> rp_do ops env c s = Inr s' \<Longrightarrow> call_entry c \<noteq> x \<Longrightarrow> rp_invalid s' x = rp_invalid s x"
  using invalidate_invalid touch_frame reset_frame by (cases c) auto

lemma history_frame:
  "rp_inv s \<Longrightarrow> rp_cands s cs \<Longrightarrow> \<forall>(env, c) \<in> set h. call_entry c \<in> set cs \<and> call_entry c \<noteq> x \<Longrightarrow>
   rp_history ops h s = Inr s' \<Longrightarrow> rp_invalid s' x = rp_invalid s x"
proof (induction h arbitrary: s)
  case (Cons y h)
  obtain env c where y: "y = (env, c)" by (cases y)
  from Cons.prems y obtain t where t: "rp_do ops env c s = Inr t" "rp_history ops h t = Inr s'"
    by (auto elim: rbind_InrE)
  have "call_entry c \<in> set cs" "call_entry c \<noteq> x" using Cons.prems(3) y by auto
  with do_ok [OF Cons.prems(1,2), of c env] t(1)
  have "rp_inv t" "rp_cands t cs" using Cons.prems(2) by (auto simp: succeeds_def)
  with Cons.IH [of t] t(2) Cons.prems(3) y have "rp_invalid s' x = rp_invalid t x" by auto
  also have "\<dots> = rp_invalid s x"
    using do_frame [OF Cons.prems(1) t(1)] \<open>call_entry c \<noteq> x\<close> by simp
  finally show ?case .
qed auto

text \<open>
  The contract as the tags use it: an entry that was invalidated, and on which nothing was
  called since, keeps the next victim search from choosing a valid entry.
\<close>

lemma invalidated_first:
  assumes "rp_inv s" and "rp_cands s cs" and "e \<in> set cs"
    and "\<forall>(env, c) \<in> set h. call_entry c \<in> set cs \<and> call_entry c \<noteq> e"
    and "env_ok env"
  shows "succeeds (rbind (rp_history ops ((env0, Invalidate e) # h) s)
                     (\<lambda>t. rbind (rp_getVictim ops env t cs) (\<lambda>(v, t'). Inr (v, t))))
           (\<lambda>(v, t). v \<in> set cs \<and> rp_invalid t v)"
proof -
  from invalidate_ok [OF assms(1-3), of env0] obtain s1 where
    s1: "rp_invalidate ops env0 s e = Inr s1" "rp_inv s1" "rp_cands s1 cs"
    using assms(2) by (auto elim!: succeedsE)
  have inv1: "rp_invalid s1 e" using invalidate_invalid [OF assms(1) s1(1)] by simp
  have "\<forall>(env, c) \<in> set h. call_entry c \<in> set cs" using assms(4) by auto
  from history_ok [OF s1(2,3) this] obtain t where
    t: "rp_history ops h s1 = Inr t" "rp_inv t" "rp_cands t cs"
    using s1(3) by (auto elim!: succeedsE)
  have "rp_invalid t e" using history_frame [OF s1(2,3) assms(4) t(1)] inv1 by simp
  with getVictim_ok [OF assms(5) t(2,3)] victim_invalid [OF t(2,3) assms(3)]
  show ?thesis by (auto simp: s1(1) t(1) succeeds_def)
qed

end

subsection \<open>Policies whose state is the replacement data alone\<close>

definition store_all :: "('rd \<Rightarrow> bool) \<Rightarrow> 'rd rp_store \<Rightarrow> bool" where
  "store_all P s \<longleftrightarrow> (\<forall>d \<in> ran s. P d)"

definition store_some :: "('rd \<Rightarrow> bool) \<Rightarrow> 'rd rp_store \<Rightarrow> entry_id \<Rightarrow> bool" where
  "store_some Q s e \<longleftrightarrow> (\<exists>d. s e = Some d \<and> Q d)"

lemma store_allD: "store_all P s \<Longrightarrow> s e = Some d \<Longrightarrow> P d"
  by (auto simp: store_all_def ran_def)

lemma store_all_upd: "store_all P s \<Longrightarrow> P d \<Longrightarrow> store_all P (s(e \<mapsto> d))"
  by (auto simp: store_all_def ran_def split: if_splits)

lemma store_some_upd: "store_some Q (s(e \<mapsto> d)) x = (if x = e then Q d else store_some Q s x)"
  by (auto simp: store_some_def)

lemma store_cands_live: "store_cands s cs \<Longrightarrow> e \<in> set cs \<Longrightarrow> \<exists>d. s e = Some d"
  by (auto simp: store_cands_def)

lemma store_cands_first: "store_cands s cs \<Longrightarrow> \<exists>d. s (cs ! 0) = Some d"
  by (cases cs) (auto simp: store_cands_def)

lemma rd_upd_ok:
  assumes "store_cands s cs" and "e \<in> set cs" and "store_all P s" and "\<And>d. P d \<Longrightarrow> P (f d)"
  shows "succeeds (rd_upd f s e) (\<lambda>s'. store_all P s' \<and> store_cands s' = store_cands s)"
proof -
  obtain d where d: "s e = Some d" using store_cands_live assms(1,2) by blast
  have "store_all P (s(e \<mapsto> f d))" using assms(3,4) d store_allD store_all_upd by metis
  moreover have "store_cands (s(e \<mapsto> f d)) = store_cands s"
    by (rule store_cands_cong) (use d in auto)
  ultimately show ?thesis by (simp add: rd_upd_live [of s, OF d])
qed

lemma rd_upd_some:
  "rd_upd f s e = Inr s' \<Longrightarrow> store_some Q s' x = (if x = e then \<exists>d. s e = Some d \<and> Q (f d) else store_some Q s x)"
  by (auto simp: rd_upd_def rd_get_Inr rbind_eq_Inr store_some_upd)

text \<open>
  A policy that keeps one record per entry and updates it by functions of that record: it is
  enough to say what the functions do and what the victim search returns.
\<close>

locale data_policy =
  fixes ops :: "'rd rp_store rp_vtable"
    and f_invalidate f_touch f_reset :: "rp_env \<Rightarrow> 'rd \<Rightarrow> 'rd"
    and P Q :: "'rd \<Rightarrow> bool"
  assumes invalidate_eq: "rp_invalidate ops env s e = rd_upd (f_invalidate env) s e"
    and touch_eq: "rp_touch ops env s e = rd_upd (f_touch env) s e"
    and reset_eq: "rp_reset ops env s e = rd_upd (f_reset env) s e"
    and P_keeps: "P d \<Longrightarrow> P (f_invalidate env d) \<and> P (f_touch env d) \<and> P (f_reset env d)"
    and Q_invalidate: "P d \<Longrightarrow> Q (f_invalidate env d)"
    and Q_reset: "P d \<Longrightarrow> curTick env \<noteq> 0 \<Longrightarrow> \<not> Q (f_reset env d)"
    and victim_ok: "env_ok env \<Longrightarrow> store_all P s \<Longrightarrow> store_cands s cs \<Longrightarrow>
        succeeds (rp_getVictim ops env s cs) (\<lambda>(v, s'). v \<in> set cs \<and> store_all P s' \<and> dom s' = dom s)"
    and victim_Q: "store_all P s \<Longrightarrow> store_cands s cs \<Longrightarrow> c \<in> set cs \<Longrightarrow> store_some Q s c \<Longrightarrow>
        rp_getVictim ops env s cs = Inr (v, s') \<Longrightarrow> store_some Q s v"

sublocale data_policy \<subseteq> invalid_first_policy ops "store_all P" store_cands "store_some Q"
proof unfold_locales
  fix s :: "'rd rp_store" and cs
  assume "store_cands s cs"
  then show "cs \<noteq> []" by (simp add: store_cands_def)
next
  fix env and s :: "'rd rp_store" and cs
  assume "env_ok env" "store_all P s" "store_cands s cs"
  then show "succeeds (rp_getVictim ops env s cs)
      (\<lambda>(v, s'). v \<in> set cs \<and> store_all P s' \<and> store_cands s' = store_cands s)"
    by (rule succeeds_mono [OF victim_ok]) (auto intro: store_cands_cong)
next
  fix env and s s' :: "'rd rp_store" and e
  assume "store_all P s" and r: "rp_invalidate ops env s e = Inr s'"
  moreover obtain d where "s e = Some d"
    using r by (auto simp: invalidate_eq rd_upd_def rd_get_Inr rbind_eq_Inr)
  ultimately show "store_some Q s' e \<and> (\<forall>x. x \<noteq> e \<longrightarrow> store_some Q s' x = store_some Q s x)"
    using r by (auto simp: invalidate_eq rd_upd_some Q_invalidate dest: store_allD)
qed (auto simp: invalidate_eq touch_eq reset_eq P_keeps rd_upd_some Q_reset victim_Q
      intro!: rd_upd_ok dest: store_allD)

context data_policy
begin

lemma policy_contract: "invalid_first_policy ops (store_all P) store_cands (store_some Q)"
  by unfold_locales

end

end
