(* ===== verification/TickPolicies.thy ===== *)
theory TickPolicies
  imports ReplPolicy "HOL-Library.Product_Lexorder"
begin

text \<open>
  The replacement policies that keep a timestamp, a reference count or a valid bit per entry:
  \<open>lru_rp\<close>, \<open>bip_rp\<close>, \<open>mru_rp\<close>, \<open>fifo_rp\<close>, \<open>second_chance_rp\<close>, \<open>lfu_rp\<close>, \<open>random_rp\<close> and
  \<open>weighted_lru_rp\<close>. The replacement data are records that extend \<open>ReplacementData\<close> as the
  C++ structures do; each policy is a value of \<open>rp_vtable\<close> and an interpretation of the
  contract it keeps.
\<close>

subsection \<open>LRU\<close>

record LRUReplData = ReplacementData +
  lastTouchTick :: Tick

definition LRUReplData_new :: LRUReplData where
  "LRUReplData_new = \<lparr>set_num = None, lastTouchTick = 0\<rparr>"

definition lru_invalidate :: "LRUReplData \<Rightarrow> LRUReplData" where
  "lru_invalidate d = d\<lparr>lastTouchTick := 0\<rparr>"

definition lru_touch :: "rp_env \<Rightarrow> LRUReplData \<Rightarrow> LRUReplData" where
  "lru_touch env d = d\<lparr>lastTouchTick := curTick env\<rparr>"

definition lru_reset :: "rp_env \<Rightarrow> LRUReplData \<Rightarrow> LRUReplData" where
  "lru_reset env d = d\<lparr>lastTouchTick := curTick env\<rparr>"

definition lru_getVictim :: "LRUReplData rp_store \<Rightarrow> entry_id list \<Rightarrow> entry_id res" where
  "lru_getVictim s candidates =
     (if candidates = [] then Inl AssertFailed
      else if \<not> all_live s candidates then Inl NullDeref
      else Inr (scan (\<lambda>candidate victim.
                   lastTouchTick (the (s candidate)) < lastTouchTick (the (s victim)))
                 (candidates ! 0) candidates))"

definition LRURP :: "LRUReplData rp_store rp_vtable" where
  "LRURP = \<lparr>rp_invalidate = (\<lambda>env. rd_upd lru_invalidate),
            rp_touch = (\<lambda>env. rd_upd (lru_touch env)),
            rp_reset = (\<lambda>env. rd_upd (lru_reset env)),
            rp_getVictim = (\<lambda>env s cs. rbind (lru_getVictim s cs) (\<lambda>v. Inr (v, s))),
            rp_instantiateEntry = (\<lambda>s e. Inr (s(e \<mapsto> LRUReplData_new))),
            rp_set_set_num = (\<lambda>s e n. rd_upd (\<lambda>d. d\<lparr>set_num := Some n\<rparr>) s e)\<rparr>"

subsection \<open>BIP: LRU with a bimodal insertion\<close>

definition bip_reset :: "nat \<Rightarrow> rp_env \<Rightarrow> LRUReplData \<Rightarrow> LRUReplData" where
  "bip_reset btp env d =
     (if random_mt env 1 100 \<le> btp then d\<lparr>lastTouchTick := curTick env\<rparr>
      else d\<lparr>lastTouchTick := 1\<rparr>)"

definition BIPRP :: "nat \<Rightarrow> LRUReplData rp_store rp_vtable" where
  "BIPRP btp = LRURP\<lparr>rp_reset := (\<lambda>env. rd_upd (bip_reset btp env))\<rparr>"

subsection \<open>MRU\<close>

record MRUReplData = ReplacementData +
  mru_lastTouchTick :: Tick

definition MRUReplData_new :: MRUReplData where
  "MRUReplData_new = \<lparr>set_num = None, mru_lastTouchTick = 0\<rparr>"

definition mru_invalidate :: "MRUReplData \<Rightarrow> MRUReplData" where
  "mru_invalidate d = d\<lparr>mru_lastTouchTick := 0\<rparr>"

definition mru_touch :: "rp_env \<Rightarrow> MRUReplData \<Rightarrow> MRUReplData" where
  "mru_touch env d = d\<lparr>mru_lastTouchTick := curTick env\<rparr>"

definition mru_reset :: "rp_env \<Rightarrow> MRUReplData \<Rightarrow> MRUReplData" where
  "mru_reset env d = d\<lparr>mru_lastTouchTick := curTick env\<rparr>"

fun mru_loop :: "MRUReplData rp_store \<Rightarrow> entry_id \<Rightarrow> entry_id list \<Rightarrow> entry_id res" where
  "mru_loop s victim [] = Inr victim"
| "mru_loop s victim (candidate # cs) =
     rbind (rd_get s candidate) (\<lambda>d.
       if mru_lastTouchTick d = 0 then Inr candidate
       else rbind (rd_get s victim) (\<lambda>vd.
         mru_loop s (if mru_lastTouchTick d > mru_lastTouchTick vd then candidate else victim) cs))"

definition mru_getVictim :: "MRUReplData rp_store \<Rightarrow> entry_id list \<Rightarrow> entry_id res" where
  "mru_getVictim s candidates =
     (if candidates = [] then Inl AssertFailed else mru_loop s (candidates ! 0) candidates)"

definition MRURP :: "MRUReplData rp_store rp_vtable" where
  "MRURP = \<lparr>rp_invalidate = (\<lambda>env. rd_upd mru_invalidate),
            rp_touch = (\<lambda>env. rd_upd (mru_touch env)),
            rp_reset = (\<lambda>env. rd_upd (mru_reset env)),
            rp_getVictim = (\<lambda>env s cs. rbind (mru_getVictim s cs) (\<lambda>v. Inr (v, s))),
            rp_instantiateEntry = (\<lambda>s e. Inr (s(e \<mapsto> MRUReplData_new))),
            rp_set_set_num = (\<lambda>s e n. rd_upd (\<lambda>d. d\<lparr>set_num := Some n\<rparr>) s e)\<rparr>"

subsection \<open>FIFO\<close>

record FIFOReplData = ReplacementData +
  tickInserted :: Tick

definition FIFOReplData_new :: FIFOReplData where
  "FIFOReplData_new = \<lparr>set_num = None, tickInserted = 0\<rparr>"

definition fifo_invalidate :: "'a FIFOReplData_scheme \<Rightarrow> 'a FIFOReplData_scheme" where
  "fifo_invalidate d = d\<lparr>tickInserted := 0\<rparr>"

definition fifo_touch :: "'a FIFOReplData_scheme \<Rightarrow> 'a FIFOReplData_scheme" where
  "fifo_touch d = d"

definition fifo_reset :: "rp_env \<Rightarrow> 'a FIFOReplData_scheme \<Rightarrow> 'a FIFOReplData_scheme" where
  "fifo_reset env d = d\<lparr>tickInserted := curTick env\<rparr>"

definition fifo_getVictim :: "'a FIFOReplData_scheme rp_store \<Rightarrow> entry_id list \<Rightarrow> entry_id res" where
  "fifo_getVictim s candidates =
     (if candidates = [] then Inl AssertFailed
      else if \<not> all_live s candidates then Inl NullDeref
      else Inr (scan (\<lambda>candidate victim.
                   tickInserted (the (s candidate)) < tickInserted (the (s victim)))
                 (candidates ! 0) candidates))"

definition FIFORP :: "FIFOReplData rp_store rp_vtable" where
  "FIFORP = \<lparr>rp_invalidate = (\<lambda>env. rd_upd fifo_invalidate),
             rp_touch = (\<lambda>env. rd_upd fifo_touch),
             rp_reset = (\<lambda>env. rd_upd (fifo_reset env)),
             rp_getVictim = (\<lambda>env s cs. rbind (fifo_getVictim s cs) (\<lambda>v. Inr (v, s))),
             rp_instantiateEntry = (\<lambda>s e. Inr (s(e \<mapsto> FIFOReplData_new))),
             rp_set_set_num = (\<lambda>s e n. rd_upd (\<lambda>d. d\<lparr>set_num := Some n\<rparr>) s e)\<rparr>"

lemma fifo_getVictim_Inr:
  "fifo_getVictim s cs = Inr v \<Longrightarrow> v \<in> set cs \<and> all_live s cs"
  by (auto simp: fifo_getVictim_def scan_nth_mem split: if_splits)

subsection \<open>Second chance: FIFO with one reprieve\<close>

record SecondChanceReplData = FIFOReplData +
  hasSecondChance :: bool

definition SecondChanceReplData_new :: SecondChanceReplData where
  "SecondChanceReplData_new = \<lparr>set_num = None, tickInserted = 0, hasSecondChance = False\<rparr>"

definition useSecondChance :: "rp_env \<Rightarrow> SecondChanceReplData \<Rightarrow> SecondChanceReplData" where
  "useSecondChance env d = (fifo_reset env d)\<lparr>hasSecondChance := False\<rparr>"

definition sc_invalidate :: "SecondChanceReplData \<Rightarrow> SecondChanceReplData" where
  "sc_invalidate d = (fifo_invalidate d)\<lparr>hasSecondChance := False\<rparr>"

definition sc_touch :: "SecondChanceReplData \<Rightarrow> SecondChanceReplData" where
  "sc_touch d = (fifo_touch d)\<lparr>hasSecondChance := True\<rparr>"

definition sc_reset :: "rp_env \<Rightarrow> SecondChanceReplData \<Rightarrow> SecondChanceReplData" where
  "sc_reset env d = (fifo_reset env d)\<lparr>hasSecondChance := False\<rparr>"

text \<open>The first loop of \<open>getVictim\<close>: the first invalid candidate, if there is one.\<close>

fun sc_find_invalid :: "SecondChanceReplData rp_store \<Rightarrow> entry_id list \<Rightarrow> entry_id option res" where
  "sc_find_invalid s [] = Inr None"
| "sc_find_invalid s (candidate # cs) =
     rbind (rd_get s candidate) (\<lambda>d.
       if tickInserted d = 0 \<and> \<not> hasSecondChance d then Inr (Some candidate)
       else sc_find_invalid s cs)"

definition chances :: "SecondChanceReplData rp_store \<Rightarrow> entry_id list \<Rightarrow> entry_id set" where
  "chances s cs = {c \<in> set cs. hasSecondChance (the (s c))}"

text \<open>The \<open>while (search_victim)\<close> loop.\<close>

function sc_search :: "rp_env \<Rightarrow> SecondChanceReplData rp_store \<Rightarrow> entry_id list \<Rightarrow>
    (entry_id \<times> SecondChanceReplData rp_store) res" where
  "sc_search env s candidates =
     rbind (fifo_getVictim s candidates) (\<lambda>victim.
       if hasSecondChance (the (s victim))
       then sc_search env (s(victim \<mapsto> useSecondChance env (the (s victim)))) candidates
       else Inr (victim, s))"
  by pat_completeness auto
termination
proof (relation "measure (\<lambda>(env, s, cs). card (chances s cs))")
  fix env and s :: "SecondChanceReplData rp_store" and cs v
  assume "fifo_getVictim s cs = Inr v" and "hasSecondChance (the (s v))"
  then have "v \<in> chances s cs" by (auto simp: chances_def dest: fifo_getVictim_Inr)
  moreover have "chances (s(v \<mapsto> useSecondChance env (the (s v)))) cs = chances s cs - {v}"
    by (auto simp: chances_def useSecondChance_def)
  moreover have "finite (chances s cs)" by (simp add: chances_def)
  ultimately have "card (chances (s(v \<mapsto> useSecondChance env (the (s v)))) cs) < card (chances s cs)"
    by (metis card_Diff1_less)
  then show "((env, s(v \<mapsto> useSecondChance env (the (s v))), cs), env, s, cs)
      \<in> measure (\<lambda>(env, s, cs). card (chances s cs))"
    by (simp only: in_measure prod.case)
qed simp

declare sc_search.simps [simp del]

definition sc_getVictim :: "rp_env \<Rightarrow> SecondChanceReplData rp_store \<Rightarrow> entry_id list \<Rightarrow>
    (entry_id \<times> SecondChanceReplData rp_store) res" where
  "sc_getVictim env s candidates =
     (if candidates = [] then Inl AssertFailed
      else rbind (sc_find_invalid s candidates) (\<lambda>r.
        case r of Some candidate \<Rightarrow> Inr (candidate, s)
                | None \<Rightarrow> sc_search env s candidates))"

definition SecondChanceRP :: "SecondChanceReplData rp_store rp_vtable" where
  "SecondChanceRP = \<lparr>rp_invalidate = (\<lambda>env. rd_upd sc_invalidate),
             rp_touch = (\<lambda>env. rd_upd sc_touch),
             rp_reset = (\<lambda>env. rd_upd (sc_reset env)),
             rp_getVictim = sc_getVictim,
             rp_instantiateEntry = (\<lambda>s e. Inr (s(e \<mapsto> SecondChanceReplData_new))),
             rp_set_set_num = (\<lambda>s e n. rd_upd (\<lambda>d. d\<lparr>set_num := Some n\<rparr>) s e)\<rparr>"

subsection \<open>LFU\<close>

record LFUReplData = ReplacementData +
  refCount :: u32

definition LFUReplData_new :: LFUReplData where
  "LFUReplData_new = \<lparr>set_num = None, refCount = 0\<rparr>"

definition lfu_invalidate :: "LFUReplData \<Rightarrow> LFUReplData" where
  "lfu_invalidate d = d\<lparr>refCount := 0\<rparr>"

definition lfu_touch :: "LFUReplData \<Rightarrow> LFUReplData" where
  "lfu_touch d = d\<lparr>refCount := refCount d + 1\<rparr>"

definition lfu_reset :: "LFUReplData \<Rightarrow> LFUReplData" where
  "lfu_reset d = d\<lparr>refCount := 1\<rparr>"

definition lfu_getVictim :: "LFUReplData rp_store \<Rightarrow> entry_id list \<Rightarrow> entry_id res" where
  "lfu_getVictim s candidates =
     (if candidates = [] then Inl AssertFailed
      else if \<not> all_live s candidates then Inl NullDeref
      else Inr (scan (\<lambda>candidate victim.
                   refCount (the (s candidate)) < refCount (the (s victim)))
                 (candidates ! 0) candidates))"

definition LFURP :: "LFUReplData rp_store rp_vtable" where
  "LFURP = \<lparr>rp_invalidate = (\<lambda>env. rd_upd lfu_invalidate),
            rp_touch = (\<lambda>env. rd_upd lfu_touch),
            rp_reset = (\<lambda>env. rd_upd lfu_reset),
            rp_getVictim = (\<lambda>env s cs. rbind (lfu_getVictim s cs) (\<lambda>v. Inr (v, s))),
            rp_instantiateEntry = (\<lambda>s e. Inr (s(e \<mapsto> LFUReplData_new))),
            rp_set_set_num = (\<lambda>s e n. rd_upd (\<lambda>d. d\<lparr>set_num := Some n\<rparr>) s e)\<rparr>"

subsection \<open>Random\<close>

record RandomReplData = ReplacementData +
  rnd_valid :: bool

definition RandomReplData_new :: RandomReplData where
  "RandomReplData_new = \<lparr>set_num = None, rnd_valid = False\<rparr>"

definition rnd_invalidate :: "RandomReplData \<Rightarrow> RandomReplData" where
  "rnd_invalidate d = d\<lparr>rnd_valid := False\<rparr>"

definition rnd_touch :: "RandomReplData \<Rightarrow> RandomReplData" where
  "rnd_touch d = d"

definition rnd_reset :: "RandomReplData \<Rightarrow> RandomReplData" where
  "rnd_reset d = d\<lparr>rnd_valid := True\<rparr>"

fun rnd_loop :: "RandomReplData rp_store \<Rightarrow> entry_id \<Rightarrow> entry_id list \<Rightarrow> entry_id res" where
  "rnd_loop s victim [] = Inr victim"
| "rnd_loop s victim (candidate # cs) =
     rbind (rd_get s candidate) (\<lambda>d. if \<not> rnd_valid d then Inr candidate else rnd_loop s victim cs)"

definition rnd_getVictim :: "rp_env \<Rightarrow> RandomReplData rp_store \<Rightarrow> entry_id list \<Rightarrow> entry_id res" where
  "rnd_getVictim env s candidates =
     (if candidates = [] then Inl AssertFailed
      else let i = random_mt env 0 (length candidates - 1) in
        if i < length candidates then rnd_loop s (candidates ! i) candidates else Inl OutOfRange)"

definition RandomRP :: "RandomReplData rp_store rp_vtable" where
  "RandomRP = \<lparr>rp_invalidate = (\<lambda>env. rd_upd rnd_invalidate),
            rp_touch = (\<lambda>env. rd_upd rnd_touch),
            rp_reset = (\<lambda>env. rd_upd rnd_reset),
            rp_getVictim = (\<lambda>env s cs. rbind (rnd_getVictim env s cs) (\<lambda>v. Inr (v, s))),
            rp_instantiateEntry = (\<lambda>s e. Inr (s(e \<mapsto> RandomReplData_new))),
            rp_set_set_num = (\<lambda>s e n. rd_upd (\<lambda>d. d\<lparr>set_num := Some n\<rparr>) s e)\<rparr>"

subsection \<open>Weighted LRU\<close>

record WeightedLRUReplData = ReplacementData +
  last_occ_ptr :: int
  last_touch_tick :: Tick

definition WeightedLRUReplData_new :: WeightedLRUReplData where
  "WeightedLRUReplData_new = \<lparr>set_num = Some 0, last_occ_ptr = 0, last_touch_tick = 0\<rparr>"

definition wlru_touch :: "rp_env \<Rightarrow> WeightedLRUReplData \<Rightarrow> WeightedLRUReplData" where
  "wlru_touch env d = d\<lparr>last_touch_tick := curTick env\<rparr>"

definition wlru_touch_occ :: "rp_env \<Rightarrow> int \<Rightarrow> WeightedLRUReplData \<Rightarrow> WeightedLRUReplData" where
  "wlru_touch_occ env occupancy d = d\<lparr>last_touch_tick := curTick env, last_occ_ptr := occupancy\<rparr>"

definition wlru_reset :: "rp_env \<Rightarrow> WeightedLRUReplData \<Rightarrow> WeightedLRUReplData" where
  "wlru_reset env d = d\<lparr>last_touch_tick := curTick env\<rparr>"

definition wlru_invalidate :: "WeightedLRUReplData \<Rightarrow> WeightedLRUReplData" where
  "wlru_invalidate d = d\<lparr>last_touch_tick := 0\<rparr>"

definition wlru_better :: "WeightedLRUReplData \<Rightarrow> WeightedLRUReplData \<Rightarrow> bool" where
  "wlru_better cd vd \<longleftrightarrow>
     (if last_occ_ptr cd < last_occ_ptr vd then True
      else if last_occ_ptr cd = last_occ_ptr vd
      then (let time = last_touch_tick cd in time < last_touch_tick vd)
      else False)"

definition wlru_getVictim :: "WeightedLRUReplData rp_store \<Rightarrow> entry_id list \<Rightarrow> entry_id res" where
  "wlru_getVictim s candidates =
     (if candidates = [] then Inl AssertFailed
      else if \<not> all_live s candidates then Inl NullDeref
      else Inr (scan (\<lambda>candidate victim. wlru_better (the (s candidate)) (the (s victim)))
                 (candidates ! 0) candidates))"

definition WeightedLRUPolicy :: "WeightedLRUReplData rp_store rp_vtable" where
  "WeightedLRUPolicy = \<lparr>rp_invalidate = (\<lambda>env. rd_upd wlru_invalidate),
            rp_touch = (\<lambda>env. rd_upd (wlru_touch env)),
            rp_reset = (\<lambda>env. rd_upd (wlru_reset env)),
            rp_getVictim = (\<lambda>env s cs. rbind (wlru_getVictim s cs) (\<lambda>v. Inr (v, s))),
            rp_instantiateEntry = (\<lambda>s e. Inr (s(e \<mapsto> WeightedLRUReplData_new))),
            rp_set_set_num = (\<lambda>s e n. rd_upd (\<lambda>d. d\<lparr>set_num := Some n\<rparr>) s e)\<rparr>"

subsection \<open>The contracts\<close>

lemmas rp_ops_simps = rp_vtable.simps

lemma all_live_cands: "store_cands s cs \<Longrightarrow> all_live s cs \<and> cs \<noteq> []"
  by (simp add: all_live_iff store_cands_def)

lemma lru_victim:
  "store_cands s cs \<Longrightarrow> \<exists>v. lru_getVictim s cs = Inr v \<and>
     leftmost_min (\<lambda>c. lastTouchTick (the (s c))) cs v"
  using all_live_cands [of s cs] by (auto simp: lru_getVictim_def intro: scan_leftmost_min)

lemma lru_victim_zero:
  assumes "store_cands s cs" and "c \<in> set cs" and "store_some (\<lambda>d. lastTouchTick d = 0) s c"
    and "lru_getVictim s cs = Inr v"
  shows "store_some (\<lambda>d. lastTouchTick d = 0) s v"
proof -
  from lru_victim [OF assms(1)] assms(4)
  have v: "leftmost_min (\<lambda>c. lastTouchTick (the (s c))) cs v" by auto
  from assms(3) obtain d where "s c = Some d" "lastTouchTick d = 0" by (auto simp: store_some_def)
  with leftmost_min_le [OF v assms(2)] have "lastTouchTick (the (s v)) = 0"
    by (simp add: word_le_0_iff)
  moreover obtain e where "s v = Some e"
    using store_cands_live [OF assms(1)] leftmost_min_mem [OF v] by blast
  ultimately show ?thesis by (auto simp: store_some_def)
qed

interpretation lru: data_policy LRURP "\<lambda>env. lru_invalidate" lru_touch lru_reset
  "\<lambda>_. True" "\<lambda>d. lastTouchTick d = 0"
proof unfold_locales
  fix env and s :: "LRUReplData rp_store" and cs
  assume c: "store_cands s cs"
  from lru_victim [OF this] show "succeeds (rp_getVictim LRURP env s cs)
      (\<lambda>(v, s'). v \<in> set cs \<and> store_all (\<lambda>_. True) s' \<and> dom s' = dom s)"
    by (auto simp: LRURP_def store_all_def dest: leftmost_min_mem)
qed (auto simp: LRURP_def lru_invalidate_def lru_reset_def rbind_eq_Inr dest: lru_victim_zero)

interpretation bip: data_policy "BIPRP btp" "\<lambda>env. lru_invalidate" lru_touch "bip_reset btp"
  "\<lambda>_. True" "\<lambda>d. lastTouchTick d = 0"
proof unfold_locales
  fix env and s :: "LRUReplData rp_store" and cs
  assume c: "store_cands s cs"
  from lru_victim [OF this] show "succeeds (rp_getVictim (BIPRP btp) env s cs)
      (\<lambda>(v, s'). v \<in> set cs \<and> store_all (\<lambda>_. True) s' \<and> dom s' = dom s)"
    by (auto simp: BIPRP_def LRURP_def store_all_def dest: leftmost_min_mem)
qed (auto simp: BIPRP_def LRURP_def lru_invalidate_def bip_reset_def rbind_eq_Inr
       dest: lru_victim_zero split: if_splits)

lemma fifo_victim:
  "store_cands s cs \<Longrightarrow> \<exists>v. fifo_getVictim s cs = Inr v \<and>
     leftmost_min (\<lambda>c. tickInserted (the (s c))) cs v"
  using all_live_cands [of s cs] by (auto simp: fifo_getVictim_def intro: scan_leftmost_min)

lemma fifo_victim_zero:
  assumes "store_cands s cs" and "c \<in> set cs" and "store_some (\<lambda>d. tickInserted d = 0) s c"
    and "fifo_getVictim s cs = Inr v"
  shows "store_some (\<lambda>d. tickInserted d = 0) s v"
proof -
  from fifo_victim [OF assms(1)] assms(4)
  have v: "leftmost_min (\<lambda>c. tickInserted (the (s c))) cs v" by auto
  from assms(3) obtain d where "s c = Some d" "tickInserted d = 0" by (auto simp: store_some_def)
  with leftmost_min_le [OF v assms(2)] have "tickInserted (the (s v)) = 0"
    by (simp add: word_le_0_iff)
  moreover obtain e where "s v = Some e"
    using store_cands_live [OF assms(1)] leftmost_min_mem [OF v] by blast
  ultimately show ?thesis by (auto simp: store_some_def)
qed

interpretation fifo: data_policy FIFORP "\<lambda>env. fifo_invalidate" "\<lambda>env. fifo_touch" fifo_reset
  "\<lambda>_. True" "\<lambda>d. tickInserted d = 0"
proof unfold_locales
  fix env and s :: "FIFOReplData rp_store" and cs
  assume c: "store_cands s cs"
  from fifo_victim [OF this] show "succeeds (rp_getVictim FIFORP env s cs)
      (\<lambda>(v, s'). v \<in> set cs \<and> store_all (\<lambda>_. True) s' \<and> dom s' = dom s)"
    by (auto simp: FIFORP_def store_all_def dest: leftmost_min_mem)
qed (auto simp: FIFORP_def fifo_invalidate_def fifo_touch_def fifo_reset_def rbind_eq_Inr
       dest: fifo_victim_zero)

lemma lfu_victim:
  "store_cands s cs \<Longrightarrow> \<exists>v. lfu_getVictim s cs = Inr v \<and>
     leftmost_min (\<lambda>c. refCount (the (s c))) cs v"
  using all_live_cands [of s cs] by (auto simp: lfu_getVictim_def intro: scan_leftmost_min)

lemma lfu_victim_zero:
  assumes "store_cands s cs" and "c \<in> set cs" and "store_some (\<lambda>d. refCount d = 0) s c"
    and "lfu_getVictim s cs = Inr v"
  shows "store_some (\<lambda>d. refCount d = 0) s v"
proof -
  from lfu_victim [OF assms(1)] assms(4)
  have v: "leftmost_min (\<lambda>c. refCount (the (s c))) cs v" by auto
  from assms(3) obtain d where "s c = Some d" "refCount d = 0" by (auto simp: store_some_def)
  with leftmost_min_le [OF v assms(2)] have "refCount (the (s v)) = 0"
    by (simp add: word_le_0_iff)
  moreover obtain e where "s v = Some e"
    using store_cands_live [OF assms(1)] leftmost_min_mem [OF v] by blast
  ultimately show ?thesis by (auto simp: store_some_def)
qed

interpretation lfu: data_policy LFURP "\<lambda>env. lfu_invalidate" "\<lambda>env. lfu_touch" "\<lambda>env. lfu_reset"
  "\<lambda>_. True" "\<lambda>d. refCount d = 0"
proof unfold_locales
  fix env and s :: "LFUReplData rp_store" and cs
  assume c: "store_cands s cs"
  from lfu_victim [OF this] show "succeeds (rp_getVictim LFURP env s cs)
      (\<lambda>(v, s'). v \<in> set cs \<and> store_all (\<lambda>_. True) s' \<and> dom s' = dom s)"
    by (auto simp: LFURP_def store_all_def dest: leftmost_min_mem)
qed (auto simp: LFURP_def lfu_invalidate_def lfu_touch_def lfu_reset_def rbind_eq_Inr
       dest: lfu_victim_zero)

lemma mru_loop_ok:
  "set cs \<subseteq> dom s \<Longrightarrow> v \<in> dom s \<Longrightarrow>
   succeeds (mru_loop s v cs) (\<lambda>w. w \<in> insert v (set cs) \<and>
     ((\<exists>c \<in> set cs. mru_lastTouchTick (the (s c)) = 0) \<longrightarrow> mru_lastTouchTick (the (s w)) = 0))"
proof (induction cs arbitrary: v)
  case (Cons c cs)
  then obtain d vd where d: "s c = Some d" "s v = Some vd" by auto
  let ?v = "if mru_lastTouchTick vd < mru_lastTouchTick d then c else v"
  have "?v \<in> dom s" using d by auto
  with Cons.IH [of ?v] Cons.prems
  have "succeeds (mru_loop s ?v cs) (\<lambda>w. w \<in> insert ?v (set cs) \<and>
     ((\<exists>c \<in> set cs. mru_lastTouchTick (the (s c)) = 0) \<longrightarrow> mru_lastTouchTick (the (s w)) = 0))"
    by simp
  then show ?case using d
    by (auto simp: rd_get_live succeeds_def split: if_splits)
qed simp

lemma mru_victim:
  assumes "store_cands s cs"
  shows "succeeds (mru_getVictim s cs) (\<lambda>w. w \<in> set cs \<and>
     ((\<exists>c \<in> set cs. mru_lastTouchTick (the (s c)) = 0) \<longrightarrow> mru_lastTouchTick (the (s w)) = 0))"
proof -
  have "cs \<noteq> []" "set cs \<subseteq> dom s" using assms by (auto simp: store_cands_def)
  moreover from this have "cs ! 0 \<in> set cs" "cs ! 0 \<in> dom s" by (auto intro!: nth_mem)
  ultimately show ?thesis using mru_loop_ok [of cs s "cs ! 0"]
    by (auto simp: mru_getVictim_def succeeds_def)
qed

interpretation mru: data_policy MRURP "\<lambda>env. mru_invalidate" mru_touch mru_reset
  "\<lambda>_. True" "\<lambda>d. mru_lastTouchTick d = 0"
proof unfold_locales
  fix env and s :: "MRUReplData rp_store" and cs
  assume c: "store_cands s cs"
  from mru_victim [OF this] show "succeeds (rp_getVictim MRURP env s cs)
      (\<lambda>(v, s'). v \<in> set cs \<and> store_all (\<lambda>_. True) s' \<and> dom s' = dom s)"
    by (auto simp: MRURP_def store_all_def succeeds_def)
next
  fix s s' :: "MRUReplData rp_store" and cs c env v
  assume c: "store_cands s cs" "c \<in> set cs" "store_some (\<lambda>d. mru_lastTouchTick d = 0) s c"
    and v: "rp_getVictim MRURP env s cs = Inr (v, s')"
  from c(2,3) have z: "\<exists>c \<in> set cs. mru_lastTouchTick (the (s c)) = 0"
    by (force simp: store_some_def)
  with mru_victim [OF c(1)] v have "v \<in> set cs" "mru_lastTouchTick (the (s v)) = 0"
    by (auto simp: MRURP_def rbind_eq_Inr)
  with store_cands_live [OF c(1)] show "store_some (\<lambda>d. mru_lastTouchTick d = 0) s v"
    by (fastforce simp: store_some_def)
qed (auto simp: MRURP_def mru_invalidate_def mru_touch_def mru_reset_def)

lemma rnd_loop_ok:
  "set cs \<subseteq> dom s \<Longrightarrow>
   succeeds (rnd_loop s v cs) (\<lambda>w. w \<in> insert v (set cs) \<and>
     ((\<exists>c \<in> set cs. \<not> rnd_valid (the (s c))) \<longrightarrow> \<not> rnd_valid (the (s w)) \<and> w \<in> set cs))"
proof (induction cs)
  case (Cons c cs)
  then obtain d where d: "s c = Some d" by auto
  from Cons show ?case using d by (auto simp: rd_get_live succeeds_def)
qed simp

lemma rnd_victim:
  assumes "store_cands s cs" and "rnd_getVictim env s cs = Inr v"
    and "c \<in> set cs" and "store_some (\<lambda>d. \<not> rnd_valid d) s c"
  shows "store_some (\<lambda>d. \<not> rnd_valid d) s v"
proof -
  have "set cs \<subseteq> dom s" using assms(1) by (auto simp: store_cands_def)
  moreover have "\<exists>c \<in> set cs. \<not> rnd_valid (the (s c))"
    using assms(3,4) by (force simp: store_some_def)
  ultimately have "v \<in> set cs" "\<not> rnd_valid (the (s v))"
    using rnd_loop_ok [of cs s "cs ! random_mt env 0 (length cs - 1)"] assms(2)
    by (auto simp: rnd_getVictim_def succeeds_def Let_def split: if_splits)
  with store_cands_live [OF assms(1)] show ?thesis by (fastforce simp: store_some_def)
qed

interpretation rnd: data_policy RandomRP "\<lambda>env. rnd_invalidate" "\<lambda>env. rnd_touch" "\<lambda>env. rnd_reset"
  "\<lambda>_. True" "\<lambda>d. \<not> rnd_valid d"
proof unfold_locales
  fix env and s :: "RandomReplData rp_store" and cs
  assume c: "env_ok env" "store_cands s cs"
  then have cs: "set cs \<subseteq> dom s" "cs \<noteq> []" by (auto simp: store_cands_def)
  let ?i = "random_mt env 0 (length cs - 1)"
  have "?i \<le> length cs - 1" using c(1) by (simp add: env_ok_def)
  then have i: "?i < length cs" using cs(2) by (cases cs) auto
  then have "cs ! ?i \<in> set cs" by simp
  with rnd_loop_ok [OF cs(1), of "cs ! ?i"] i cs(2) show "succeeds (rp_getVictim RandomRP env s cs)
      (\<lambda>(v, s'). v \<in> set cs \<and> store_all (\<lambda>_. True) s' \<and> dom s' = dom s)"
    by (auto simp: RandomRP_def store_all_def succeeds_def rnd_getVictim_def Let_def)
qed (auto simp: RandomRP_def rnd_invalidate_def rnd_touch_def rnd_reset_def rbind_eq_Inr
       dest: rnd_victim)

abbreviation sc_invalid :: "SecondChanceReplData \<Rightarrow> bool" where
  "sc_invalid d \<equiv> tickInserted d = 0 \<and> \<not> hasSecondChance d"

lemma sc_find_invalid_ok:
  "set cs \<subseteq> dom s \<Longrightarrow> \<exists>r. sc_find_invalid s cs = Inr r \<and>
     (case r of None \<Rightarrow> \<forall>c \<in> set cs. \<not> sc_invalid (the (s c))
              | Some c \<Rightarrow> c \<in> set cs \<and> sc_invalid (the (s c)))"
proof (induction cs)
  case (Cons c cs)
  then obtain d where "s c = Some d" by auto
  with Cons show ?case by (auto simp: rd_get_live split: option.splits)
qed simp

lemma store_cands_upd: "store_cands s cs \<Longrightarrow> store_cands (s(e \<mapsto> d)) cs"
  by (auto simp: store_cands_def)

text \<open>The search ends, at a candidate without a second chance that is the oldest of the final state.\<close>

lemma sc_search_ok:
  "store_cands s cs \<Longrightarrow> succeeds (sc_search env s cs)
     (\<lambda>(v, s'). v \<in> set cs \<and> dom s' = dom s \<and> \<not> hasSecondChance (the (s' v)) \<and>
       leftmost_min (\<lambda>c. tickInserted (the (s' c))) cs v)"
proof (induction env s cs rule: sc_search.induct)
  case (1 env s cs)
  from fifo_victim [OF "1.prems"] obtain v where v: "fifo_getVictim s cs = Inr v"
    "leftmost_min (\<lambda>c. tickInserted (the (s c))) cs v" by auto
  have mem: "v \<in> set cs" using leftmost_min_mem [OF v(2)] .
  show ?case
  proof (cases "hasSecondChance (the (s v))")
    case True
    have "dom (s(v \<mapsto> useSecondChance env (the (s v)))) = dom s"
      using mem "1.prems" by (auto simp: store_cands_def)
    moreover have "sc_search env s cs = sc_search env (s(v \<mapsto> useSecondChance env (the (s v)))) cs"
      using True v(1) by (simp add: sc_search.simps [of env s cs])
    ultimately show ?thesis
      using "1.IH" [OF v(1) True store_cands_upd [OF "1.prems"]] by (simp only:)
  next
    case False
    with v mem show ?thesis by (simp add: sc_search.simps [of env s cs])
  qed
qed

interpretation second_chance: data_policy SecondChanceRP "\<lambda>env. sc_invalidate" "\<lambda>env. sc_touch" sc_reset
  "\<lambda>_. True" sc_invalid
proof unfold_locales
  fix env and s :: "SecondChanceReplData rp_store" and cs
  assume c: "store_cands s cs"
  then have "set cs \<subseteq> dom s" "cs \<noteq> []" by (auto simp: store_cands_def)
  with sc_find_invalid_ok [of cs s] sc_search_ok [OF c, of env]
  show "succeeds (rp_getVictim SecondChanceRP env s cs)
      (\<lambda>(v, s'). v \<in> set cs \<and> store_all (\<lambda>_. True) s' \<and> dom s' = dom s)"
    by (auto simp: SecondChanceRP_def sc_getVictim_def store_all_def succeeds_def split: option.splits)
next
  fix s s' :: "SecondChanceReplData rp_store" and cs c env v
  assume c: "store_cands s cs" "c \<in> set cs" "store_some sc_invalid s c"
    and v: "rp_getVictim SecondChanceRP env s cs = Inr (v, s')"
  have "\<exists>c \<in> set cs. sc_invalid (the (s c))" using c(2,3) by (force simp: store_some_def)
  moreover have "set cs \<subseteq> dom s" "cs \<noteq> []" using c(1) by (auto simp: store_cands_def)
  ultimately have "v \<in> set cs" "sc_invalid (the (s v))"
    using sc_find_invalid_ok [of cs s] v
    by (auto simp: SecondChanceRP_def sc_getVictim_def split: option.splits)
  with store_cands_live [OF c(1)] show "store_some sc_invalid s v"
    by (fastforce simp: store_some_def)
qed (auto simp: SecondChanceRP_def sc_invalidate_def sc_touch_def sc_reset_def
       fifo_invalidate_def fifo_touch_def fifo_reset_def)

text \<open>
  The search gives the reprieve its meaning: with a candidate left that has no second chance and is
  older than the current tick, the victim is the oldest of the candidates without one.
\<close>

lemma sc_search_oldest:
  assumes "store_cands s cs" and "\<forall>c \<in> set cs. tickInserted (the (s c)) \<le> curTick env"
    and "\<exists>c \<in> set cs. \<not> hasSecondChance (the (s c)) \<and> tickInserted (the (s c)) < curTick env"
    and "sc_search env s cs = Inr (v, s')"
  shows "leftmost_min (\<lambda>c. tickInserted (the (s c))) (filter (\<lambda>c. \<not> hasSecondChance (the (s c))) cs) v"
  using assms
proof (induction env s cs rule: sc_search.induct)
  case (1 env s cs)
  let ?key = "\<lambda>c. tickInserted (the (s c))" and ?free = "\<lambda>c. \<not> hasSecondChance (the (s c))"
  from fifo_victim [OF "1.prems"(1)] obtain w where w: "fifo_getVictim s cs = Inr w"
    "leftmost_min ?key cs w" by auto
  show ?case
  proof (cases "hasSecondChance (the (s w))")
    case False
    then have "v = w" using "1.prems"(4) w(1) by (simp add: sc_search.simps [of env s cs])
    with leftmost_min_filter [OF w(2), of ?free] False show ?thesis by simp
  next
    case True
    let ?s = "s(w \<mapsto> useSecondChance env (the (s w)))"
    let ?key' = "\<lambda>c. tickInserted (the (?s c))" and ?free' = "\<lambda>c. \<not> hasSecondChance (the (?s c))"
    have run: "sc_search env ?s cs = Inr (v, s')"
      using "1.prems"(4) w(1) True by (simp add: sc_search.simps [of env s cs])
    from "1.prems"(3) obtain c where c: "c \<in> set cs" "?free c" "?key c < curTick env" by blast
    with True have "c \<noteq> w" by blast
    have key': "?key' w = curTick env" by (simp add: useSecondChance_def fifo_reset_def)
    have "leftmost_min ?key' (filter ?free' cs) v"
    proof (rule "1.IH" [OF w(1) True store_cands_upd [OF "1.prems"(1)] _ _ run])
      show "\<forall>c \<in> set cs. ?key' c \<le> curTick env"
        using "1.prems"(2) by (auto simp: useSecondChance_def fifo_reset_def)
      show "\<exists>c \<in> set cs. ?free' c \<and> ?key' c < curTick env"
        using c \<open>c \<noteq> w\<close> by (intro bexI [of _ c]) auto
    qed
    moreover have "v \<noteq> w"
    proof
      assume "v = w"
      have "c \<in> set (filter ?free' cs)" using c \<open>c \<noteq> w\<close> by simp
      with leftmost_min_le [OF calculation] have "?key' v \<le> ?key' c" .
      with c key' \<open>c \<noteq> w\<close> \<open>v = w\<close> show False by simp
    qed
    ultimately have "leftmost_min ?key' (filter (\<lambda>c. c \<noteq> w) (filter ?free' cs)) v"
      by (rule leftmost_min_filter)
    moreover have "filter (\<lambda>c. c \<noteq> w) (filter ?free' cs) = filter ?free cs"
      using True by (auto intro!: filter_cong)
    ultimately have "leftmost_min ?key' (filter ?free cs) v" by simp
    then show ?thesis
      by (rule leftmost_min_cong) (use True in auto)
  qed
qed

subsection \<open>Timestamps against the history of calls\<close>

text \<open>
  \<open>recency P h e\<close> counts the calls since the last call of kind \<open>P\<close> on entry \<open>e\<close> in the history
  \<open>h\<close> (all of them, if there was none): the specification of "least recently" without any clock.
  \<open>stamps\<close> is the clock's view: the tick of that call.
\<close>

definition recency :: "(rp_call \<Rightarrow> bool) \<Rightarrow> (rp_env \<times> rp_call) list \<Rightarrow> entry_id \<Rightarrow> nat" where
  "recency P h e = length (takeWhile (\<lambda>(env, c). \<not> (P c \<and> call_entry c = e)) (rev h))"

fun stamps :: "(rp_call \<Rightarrow> bool) \<Rightarrow> (rp_env \<times> rp_call) list \<Rightarrow> (entry_id \<Rightarrow> Tick) \<Rightarrow> entry_id \<Rightarrow> Tick" where
  "stamps P [] f = f"
| "stamps P ((env, c) # h) f = stamps P h (if P c then f(call_entry c := curTick env) else f)"

definition is_reset :: "rp_call \<Rightarrow> bool" where
  "is_reset c \<longleftrightarrow> (\<exists>e. c = Reset e)"

definition is_use :: "rp_call \<Rightarrow> bool" where
  "is_use c \<longleftrightarrow> (\<forall>e. c \<noteq> Invalidate e)"

text \<open>A history of uses of the candidates at increasing ticks.\<close>

definition use_history :: "entry_id list \<Rightarrow> (rp_env \<times> rp_call) list \<Rightarrow> bool" where
  "use_history cs h \<longleftrightarrow>
     (\<forall>(env, c) \<in> set h. call_entry c \<in> set cs \<and> 0 < curTick env \<and> is_use c) \<and>
     sorted_wrt (<) (map (curTick \<circ> fst) h)"

lemma stamps_snoc:
  "stamps P (h @ [(env, c)]) f =
     (if P c then (stamps P h f)(call_entry c := curTick env) else stamps P h f)"
  by (induction P h f rule: stamps.induct) auto

lemma recency_snoc:
  "recency P (h @ [(env, c)]) e = (if P c \<and> call_entry c = e then 0 else Suc (recency P h e))"
  by (simp add: recency_def)

lemma stamps_below:
  "\<forall>(env, c) \<in> set h. curTick env < t \<Longrightarrow> f e < t \<Longrightarrow> stamps P h f e < t"
proof (induction h rule: rev_induct)
  case (snoc x h)
  obtain env c where "x = (env, c)" by (cases x)
  with snoc show ?case by (auto simp: stamps_snoc)
qed simp

lemma stamps_recency:
  assumes "sorted_wrt (<) (map (curTick \<circ> fst) h)" and "\<forall>(env, c) \<in> set h. 0 < curTick env"
    and "f a = 0" and "f b = 0" and "recency P h a < recency P h b"
  shows "stamps P h f b < stamps P h f a"
  using assms
proof (induction h rule: rev_induct)
  case Nil
  then show ?case by (simp add: recency_def)
next
  case (snoc x h)
  obtain env c where x: "x = (env, c)" by (cases x)
  have tick: "\<forall>(env', c') \<in> set h. curTick env' < curTick env" "0 < curTick env"
    using snoc.prems(1,2) by (auto simp: x sorted_wrt_append)
  have below: "stamps P h f b < curTick env"
    by (rule stamps_below [OF tick(1)]) (use tick(2) snoc.prems(4) in simp)
  have IH: "recency P h a < recency P h b \<Longrightarrow> stamps P h f b < stamps P h f a"
    using snoc.prems by (intro snoc.IH) (auto simp: sorted_wrt_append)
  show ?case using IH below snoc.prems(5)
    by (auto simp: x stamps_snoc recency_snoc split: if_splits)
qed

lemma lru_history_stamps:
  "rp_history LRURP h s = Inr s' \<Longrightarrow> \<forall>(env, c) \<in> set h. is_use c \<Longrightarrow>
   lastTouchTick (the (s' e)) = stamps is_use h (\<lambda>e. lastTouchTick (the (s e))) e"
proof (induction h arbitrary: s)
  case (Cons x h)
  obtain env c where x: "x = (env, c)" by (cases x)
  from Cons.prems obtain t where t: "rp_do LRURP env c s = Inr t" "rp_history LRURP h t = Inr s'"
    by (auto simp: x elim: rbind_InrE)
  have use: "is_use c" using Cons.prems(2) x by auto
  have "(\<lambda>e. lastTouchTick (the (t e))) = (\<lambda>e. lastTouchTick (the (s e)))(call_entry c := curTick env)"
    using t(1) use by (cases c)
      (auto simp: LRURP_def rd_upd_def rd_get_Inr rbind_eq_Inr lru_touch_def lru_reset_def is_use_def)
  with Cons.IH [OF t(2)] Cons.prems(2) use show ?case by (simp add: x)
qed simp

lemma fifo_history_stamps:
  "rp_history FIFORP h s = Inr s' \<Longrightarrow> \<forall>(env, c) \<in> set h. is_use c \<Longrightarrow>
   tickInserted (the (s' e)) = stamps is_reset h (\<lambda>e. tickInserted (the (s e))) e"
proof (induction h arbitrary: s)
  case (Cons x h)
  obtain env c where x: "x = (env, c)" by (cases x)
  from Cons.prems obtain t where t: "rp_do FIFORP env c s = Inr t" "rp_history FIFORP h t = Inr s'"
    by (auto simp: x elim: rbind_InrE)
  have use: "is_use c" using Cons.prems(2) x by auto
  have "(\<lambda>e. tickInserted (the (t e))) =
      (if is_reset c then (\<lambda>e. tickInserted (the (s e)))(call_entry c := curTick env)
       else (\<lambda>e. tickInserted (the (s e))))"
    using t(1) use by (cases c)
      (auto simp: FIFORP_def rd_upd_def rd_get_Inr rbind_eq_Inr fifo_touch_def fifo_reset_def
         is_use_def is_reset_def)
  with Cons.IH [OF t(2)] Cons.prems(2) show ?case by (simp add: x)
qed simp

lemma use_historyD:
  assumes "use_history cs h"
  shows "sorted_wrt (<) (map (curTick \<circ> fst) h)" "\<forall>(env, c) \<in> set h. 0 < curTick env"
    "\<forall>(env, c) \<in> set h. is_use c" "\<forall>(env, c) \<in> set h. call_entry c \<in> set cs"
  using assms by (auto simp: use_history_def)

lemma min_stamp_max_recency:
  assumes "leftmost_min g cs v" and "\<And>e. e \<in> set cs \<Longrightarrow> g e = stamps P h f e"
    and "sorted_wrt (<) (map (curTick \<circ> fst) h)" and "\<forall>(env, c) \<in> set h. 0 < curTick env"
    and "\<forall>e \<in> set cs. f e = 0" and "c \<in> set cs"
  shows "recency P h c \<le> recency P h v"
proof (rule ccontr)
  assume "\<not> recency P h c \<le> recency P h v"
  then have "recency P h v < recency P h c" by simp
  from stamps_recency [OF assms(3,4) _ _ this, of f] leftmost_min_mem [OF assms(1)] assms(5,6)
  have "stamps P h f c < stamps P h f v" by simp
  with leftmost_min_le [OF assms(1,6)] assms(2) [OF assms(6)] assms(2) [OF leftmost_min_mem [OF assms(1)]]
  show False by simp
qed

text \<open>An environment at a given tick, for the examples.\<close>

definition env_at :: "Tick \<Rightarrow> rp_env" where
  "env_at t = \<lparr>curTick = t, random_mt = (\<lambda>lo hi. lo)\<rparr>"

lemma wlru_better_key:
  "wlru_better cd vd \<longleftrightarrow> (last_occ_ptr cd, last_touch_tick cd) < (last_occ_ptr vd, last_touch_tick vd)"
  by (auto simp: wlru_better_def Let_def less_prod_def)

lemma wlru_victim:
  "store_cands s cs \<Longrightarrow> \<exists>v. wlru_getVictim s cs = Inr v \<and>
     leftmost_min (\<lambda>c. (last_occ_ptr (the (s c)), last_touch_tick (the (s c)))) cs v"
proof -
  assume c: "store_cands s cs"
  let ?f = "\<lambda>c. (last_occ_ptr (the (s c)), last_touch_tick (the (s c)))"
  have "leftmost_min ?f cs (scan (\<lambda>c v. ?f c < ?f v) (cs ! 0) cs)"
    using all_live_cands [OF c] by (intro scan_leftmost_min) simp
  then show ?thesis
    using all_live_cands [OF c] unfolding wlru_getVictim_def wlru_better_key by (simp only: simp_thms if_False) blast
qed

interpretation wlru: replacement_policy WeightedLRUPolicy "store_all (\<lambda>_. True)" store_cands
proof unfold_locales
  fix env and s :: "WeightedLRUReplData rp_store" and cs
  assume c: "store_cands s cs"
  from wlru_victim [OF this] show "succeeds (rp_getVictim WeightedLRUPolicy env s cs)
      (\<lambda>(v, s'). v \<in> set cs \<and> store_all (\<lambda>_. True) s' \<and> store_cands s' = store_cands s)"
    by (auto simp: WeightedLRUPolicy_def store_all_def dest: leftmost_min_mem)
qed (auto simp: WeightedLRUPolicy_def store_cands_def [of _ "[]"] intro!: rd_upd_ok)

text \<open>
  \<open>evicts_invalidated ops Q\<close>: whatever happens to other entries after \<open>e\<close> was invalidated, the next
  victim search among candidates that contain \<open>e\<close> succeeds with an entry whose data satisfy \<open>Q\<close>.
\<close>

definition evicts_invalidated :: "'rd rp_store rp_vtable \<Rightarrow> ('rd \<Rightarrow> bool) \<Rightarrow> bool" where
  "evicts_invalidated ops Q \<longleftrightarrow>
     (\<forall>s cs e h env0 env. store_cands s cs \<longrightarrow> e \<in> set cs \<longrightarrow> env_ok env \<longrightarrow>
        (\<forall>(env, c) \<in> set h. call_entry c \<in> set cs \<and> call_entry c \<noteq> e) \<longrightarrow>
        succeeds (rbind (rp_history ops ((env0, Invalidate e) # h) s)
                    (\<lambda>t. rbind (rp_getVictim ops env t cs) (\<lambda>(v, t'). Inr (v, t))))
          (\<lambda>(v, t). v \<in> set cs \<and> store_some Q t v))"

lemma evicts_invalidatedI:
  assumes "data_policy ops fi ft fr (\<lambda>_. True) Q"
  shows "evicts_invalidated ops Q"
  using invalid_first_policy.invalidated_first [OF data_policy.policy_contract [OF assms]]
  unfolding evicts_invalidated_def by (simp add: store_all_def)

subsection \<open>Properties\<close>

text \<open>
  C33 LRU: after any history of touches and resets of a set's entries at increasing ticks, starting
  from fresh replacement data, the victim is a candidate on which the longest run of
  calls has gone by since its last use.
\<close>

theorem lru_evicts_least_recent:
  assumes "store_cands s cs" and "\<forall>c \<in> set cs. lastTouchTick (the (s c)) = 0" and "use_history cs h"
  shows "\<exists>s' v. rp_history LRURP h s = Inr s' \<and> rp_getVictim LRURP env s' cs = Inr (v, s') \<and>
           v \<in> set cs \<and> (\<forall>c \<in> set cs. recency is_use h c \<le> recency is_use h v)"
proof -
  note h = use_historyD [OF assms(3)]
  from lru.history_ok [of s cs h] assms(1) h(4) obtain s' where
    s': "rp_history LRURP h s = Inr s'" "store_cands s' cs"
    by (auto simp: succeeds_def store_all_def)
  from lru_victim [OF s'(2)] obtain v where
    v: "lru_getVictim s' cs = Inr v" "leftmost_min (\<lambda>c. lastTouchTick (the (s' c))) cs v" by auto
  have "\<forall>c \<in> set cs. recency is_use h c \<le> recency is_use h v"
    using min_stamp_max_recency [OF v(2) lru_history_stamps [OF s'(1) h(3)] h(1,2) assms(2)] by blast
  moreover have "rp_getVictim LRURP env s' cs = Inr (v, s')" by (simp add: LRURP_def v(1))
  ultimately show ?thesis using s'(1) leftmost_min_mem [OF v(2)] by blast
qed

theorem lru_evicts_least_recent_witness:
  "\<exists>s'. rp_history LRURP [(env_at 1, Reset 0), (env_at 2, Reset 1), (env_at 3, Touch 0)]
           [0 \<mapsto> LRUReplData_new, 1 \<mapsto> LRUReplData_new] = Inr s' \<and>
        rp_getVictim LRURP (env_at 4) s' [0, 1] = Inr (1, s')"
proof -
  let ?h = "[(env_at 1, Reset 0), (env_at 2, Reset 1), (env_at 3, Touch 0)]"
  have "store_cands [0 \<mapsto> LRUReplData_new, 1 \<mapsto> LRUReplData_new] [0, 1]"
    by (simp add: store_cands_def)
  moreover have "\<forall>c \<in> set [0, 1]. lastTouchTick (the ([0 \<mapsto> LRUReplData_new, 1 \<mapsto> LRUReplData_new] c)) = 0"
    by (simp add: LRUReplData_new_def)
  moreover have "use_history [0, 1] ?h" by (simp add: use_history_def env_at_def is_use_def)
  ultimately obtain s' v where "rp_history LRURP ?h [0 \<mapsto> LRUReplData_new, 1 \<mapsto> LRUReplData_new] = Inr s'"
    "rp_getVictim LRURP (env_at 4) s' [0, 1] = Inr (v, s')" "v \<in> set [0, 1]"
    "\<forall>c \<in> set [0, 1]. recency is_use ?h c \<le> recency is_use ?h v"
    using lru_evicts_least_recent by blast
  moreover have "recency is_use ?h 0 = 0" "recency is_use ?h 1 = 1"
    by (simp_all add: recency_def is_use_def)
  ultimately show ?thesis by auto
qed

text \<open>
  FIFO: under the same conditions the victim is a candidate whose last insertion (\<open>reset\<close>) lies
  the longest run of calls back; touches do not count.
\<close>

lemma fifo_evicts_first_in:
  assumes "store_cands s cs" and "\<forall>c \<in> set cs. tickInserted (the (s c)) = 0" and "use_history cs h"
  shows "\<exists>s' v. rp_history FIFORP h s = Inr s' \<and> rp_getVictim FIFORP env s' cs = Inr (v, s') \<and>
           v \<in> set cs \<and> (\<forall>c \<in> set cs. recency is_reset h c \<le> recency is_reset h v)"
proof -
  note h = use_historyD [OF assms(3)]
  from fifo.history_ok [of s cs h] assms(1) h(4) obtain s' where
    s': "rp_history FIFORP h s = Inr s'" "store_cands s' cs"
    by (auto simp: succeeds_def store_all_def)
  from fifo_victim [OF s'(2)] obtain v where
    v: "fifo_getVictim s' cs = Inr v" "leftmost_min (\<lambda>c. tickInserted (the (s' c))) cs v" by auto
  have "\<forall>c \<in> set cs. recency is_reset h c \<le> recency is_reset h v"
    using min_stamp_max_recency [OF v(2) fifo_history_stamps [OF s'(1) h(3)] h(1,2) assms(2)] by blast
  moreover have "rp_getVictim FIFORP env s' cs = Inr (v, s')" by (simp add: FIFORP_def v(1))
  ultimately show ?thesis using s'(1) leftmost_min_mem [OF v(2)] by blast
qed

text \<open>
  C36 Second chance: the victim search terminates; when no candidate is invalid and one without a second
  chance is older than the current tick, the victim is the oldest candidate without a second
  chance (leftmost on ties).
\<close>

theorem second_chance_evicts_oldest_unused:
  assumes "store_cands s cs" and "\<forall>c \<in> set cs. \<not> (tickInserted (the (s c)) = 0 \<and> \<not> hasSecondChance (the (s c)))"
    and "\<forall>c \<in> set cs. tickInserted (the (s c)) \<le> curTick env"
    and "\<exists>c \<in> set cs. \<not> hasSecondChance (the (s c)) \<and> tickInserted (the (s c)) < curTick env"
  shows "\<exists>v s'. sc_getVictim env s cs = Inr (v, s') \<and> dom s' = dom s \<and>
           leftmost_min (\<lambda>c. tickInserted (the (s c))) (filter (\<lambda>c. \<not> hasSecondChance (the (s c))) cs) v"
proof -
  have cs: "set cs \<subseteq> dom s" "cs \<noteq> []" using assms(1) by (auto simp: store_cands_def)
  from sc_search_ok [OF assms(1), of env] obtain v s' where
    v: "sc_search env s cs = Inr (v, s')" "dom s' = dom s" by (auto simp: succeeds_def)
  have "sc_find_invalid s cs = Inr None"
    using sc_find_invalid_ok [OF cs(1)] assms(2) by (auto split: option.splits)
  with v cs(2) have "sc_getVictim env s cs = Inr (v, s')" by (simp add: sc_getVictim_def)
  with v(2) sc_search_oldest [OF assms(1,3,4) v(1)] show ?thesis by blast
qed

theorem second_chance_evicts_oldest_unused_witness:
  "\<exists>v s'. sc_getVictim (env_at 9)
      [0 \<mapsto> \<lparr>set_num = None, tickInserted = 3, hasSecondChance = True\<rparr>,
       1 \<mapsto> \<lparr>set_num = None, tickInserted = 5, hasSecondChance = False\<rparr>] [0, 1] = Inr (v, s') \<and> v = 1"
proof -
  let ?s = "[0 \<mapsto> \<lparr>set_num = None, tickInserted = 3, hasSecondChance = True\<rparr>,
       1 \<mapsto> \<lparr>set_num = None, tickInserted = 5, hasSecondChance = False\<rparr>] :: SecondChanceReplData rp_store"
  have "store_cands ?s [0, 1]" by (simp add: store_cands_def)
  then obtain v s' where v: "sc_getVictim (env_at 9) ?s [0, 1] = Inr (v, s')"
    "leftmost_min (\<lambda>c. tickInserted (the (?s c))) (filter (\<lambda>c. \<not> hasSecondChance (the (?s c))) [0, 1]) v"
    using second_chance_evicts_oldest_unused [of ?s "[0, 1]" "env_at 9"] by (auto simp: env_at_def)
  from leftmost_min_mem [OF v(2)] have "v = 1" by simp
  with v(1) show ?thesis by blast
qed

text \<open>
  LRU, BIP, MRU, FIFO, second chance, LFU and random replacement evict invalid entries first: after
  an entry is invalidated, and whatever is called on the other entries since, the next victim
  among candidates that contain it is an invalid entry.
\<close>

lemma tick_policies_evict_invalid_first:
  "evicts_invalidated LRURP (\<lambda>d. lastTouchTick d = 0) \<and>
   evicts_invalidated (BIPRP btp) (\<lambda>d. lastTouchTick d = 0) \<and>
   evicts_invalidated MRURP (\<lambda>d. mru_lastTouchTick d = 0) \<and>
   evicts_invalidated FIFORP (\<lambda>d. tickInserted d = 0) \<and>
   evicts_invalidated SecondChanceRP (\<lambda>d. tickInserted d = 0 \<and> \<not> hasSecondChance d) \<and>
   evicts_invalidated LFURP (\<lambda>d. refCount d = 0) \<and>
   evicts_invalidated RandomRP (\<lambda>d. \<not> rnd_valid d)"
  using lru.data_policy_axioms bip.data_policy_axioms mru.data_policy_axioms fifo.data_policy_axioms
    second_chance.data_policy_axioms lfu.data_policy_axioms rnd.data_policy_axioms
  by (intro conjI evicts_invalidatedI)

text \<open>
  Weighted LRU does not: its victim is the leftmost candidate with the least occupancy weight and,
  among those, the oldest touch, so an invalidated entry with a larger weight survives a valid
  one with a smaller weight.
\<close>

lemma wlru_keeps_invalidated:
  "rbind (rp_history WeightedLRUPolicy [(env_at 8, Invalidate 0)]
       [0 \<mapsto> \<lparr>set_num = Some 0, last_occ_ptr = 5, last_touch_tick = 3\<rparr>,
        1 \<mapsto> \<lparr>set_num = Some 0, last_occ_ptr = 2, last_touch_tick = 7\<rparr>])
     (\<lambda>s. wlru_getVictim s [0, 1]) = Inr 1"
  by (simp add: WeightedLRUPolicy_def rd_upd_def rd_get_def wlru_invalidate_def wlru_getVictim_def
      all_live_def wlru_better_def)

end
