(* ===== verification/TreePLRU.thy ===== *)
theory TreePLRU
  imports ReplPolicy
begin

text \<open>
  The tree pseudo-LRU policy (\<open>tree_plru_rp.cc\<close>). A tree is a list of bits in breadth-first
  order, shared by the \<open>numLeaves\<close> entries of a set; the heap of trees is a list and an entry's data
  hold the number of its tree and its leaf index. The lemmas follow the path from the root to a leaf:
  a search ends at a leaf exactly when every bit on its path points to it, a touch turns the
  path away, and each later touch of another leaf turns at most one bit back.
\<close>

subsection \<open>Index arithmetic\<close>

text \<open>
  Indices are \<open>uint64_t\<close>. The subtraction in \<open>parentIndex\<close> wraps at 0, which is written out; the
  way through \<open>std::floor\<close> and \<open>double\<close> is exact on the indices of a tree (below \<open>2^53\<close>).
\<close>

definition parentIndex :: "nat \<Rightarrow> nat" where
  "parentIndex index = (if index = 0 then (2 ^ 64 - 1) div 2 else (index - 1) div 2)"

definition leftSubtreeIndex :: "nat \<Rightarrow> nat" where
  "leftSubtreeIndex index = 2 * index + 1"

definition rightSubtreeIndex :: "nat \<Rightarrow> nat" where
  "rightSubtreeIndex index = 2 * index + 2"

definition isRightSubtree :: "nat \<Rightarrow> bool" where
  "isRightSubtree index \<longleftrightarrow> index mod 2 = 0"

type_synonym PLRUTree = "bool list"

subsection \<open>The walks\<close>

lemma parentIndex_less: "index \<noteq> 0 \<Longrightarrow> parentIndex index < index"
  by (auto simp: parentIndex_def)

text \<open>The \<open>do ... while (tree_index != 0)\<close> loop of \<open>invalidate\<close>.\<close>

function plru_point_to :: "nat \<Rightarrow> PLRUTree \<Rightarrow> PLRUTree res" where
  "plru_point_to tree_index tree =
     (let right = isRightSubtree tree_index;
          i = parentIndex tree_index
      in if i < length tree
         then (let tree' = tree[i := right] in
               if i \<noteq> 0 then plru_point_to i tree' else Inr tree')
         else Inl OutOfRange)"
  by pat_completeness auto
termination
  by (relation "measure (\<lambda>(i, t). if i = 0 then 2 ^ 64 else i)")
    (auto simp: parentIndex_def)

text \<open>The same loop in \<open>touch\<close>, with the negated direction.\<close>

function plru_point_away :: "nat \<Rightarrow> PLRUTree \<Rightarrow> PLRUTree res" where
  "plru_point_away tree_index tree =
     (let right = isRightSubtree tree_index;
          i = parentIndex tree_index
      in if i < length tree
         then (let tree' = tree[i := (\<not> right)] in
               if i \<noteq> 0 then plru_point_away i tree' else Inr tree')
         else Inl OutOfRange)"
  by pat_completeness auto
termination
  by (relation "measure (\<lambda>(i, t). if i = 0 then 2 ^ 64 else i)")
    (auto simp: parentIndex_def)

text \<open>The \<open>while\<close> loop of \<open>getVictim\<close>.\<close>

function plru_descend :: "PLRUTree \<Rightarrow> nat \<Rightarrow> nat" where
  "plru_descend tree tree_index =
     (if tree_index < length tree
      then plru_descend tree (if tree ! tree_index then rightSubtreeIndex tree_index
                              else leftSubtreeIndex tree_index)
      else tree_index)"
  by pat_completeness auto
termination
  by (relation "measure (\<lambda>(t, i). length t - i)") (auto simp: rightSubtreeIndex_def leftSubtreeIndex_def)

declare plru_point_to.simps [simp del] plru_point_away.simps [simp del] plru_descend.simps [simp del]

subsection \<open>The policy\<close>

record TreePLRUReplData = ReplacementData +
  leaf_index :: nat
  tree_ptr :: nat

record plru_state =
  plru_count :: nat
  treeInstance :: "nat option"
  plru_trees :: "PLRUTree list"
  plru_data :: "TreePLRUReplData rp_store"

definition plru_init :: plru_state where
  "plru_init = \<lparr>plru_count = 0, treeInstance = None, plru_trees = [], plru_data = Map.empty\<rparr>"

definition TreePLRURP_new :: "nat \<Rightarrow> plru_state res" where
  "TreePLRURP_new numLeaves =
     (if \<not> (numLeaves \<noteq> 0 \<and> (of_nat numLeaves :: u64) AND (of_nat numLeaves - 1) = 0) then Inl FatalError
      else Inr plru_init)"

text \<open>Updating the shared tree of an entry.\<close>

definition plru_on_tree :: "(nat \<Rightarrow> PLRUTree \<Rightarrow> PLRUTree res) \<Rightarrow> plru_state \<Rightarrow> entry_id \<Rightarrow> plru_state res" where
  "plru_on_tree f st e =
     rbind (rd_get (plru_data st) e) (\<lambda>d.
       if tree_ptr d < length (plru_trees st)
       then rbind (f (leaf_index d) (plru_trees st ! tree_ptr d)) (\<lambda>t.
              Inr (st\<lparr>plru_trees := (plru_trees st)[tree_ptr d := t]\<rparr>))
       else Inl NullDeref)"

definition plru_invalidate :: "plru_state \<Rightarrow> entry_id \<Rightarrow> plru_state res" where
  "plru_invalidate st e = plru_on_tree plru_point_to st e"

definition plru_touch :: "plru_state \<Rightarrow> entry_id \<Rightarrow> plru_state res" where
  "plru_touch st e = plru_on_tree plru_point_away st e"

definition plru_reset :: "plru_state \<Rightarrow> entry_id \<Rightarrow> plru_state res" where
  "plru_reset st e = plru_touch st e"

definition plru_getVictim :: "nat \<Rightarrow> plru_state \<Rightarrow> entry_id list \<Rightarrow> entry_id res" where
  "plru_getVictim numLeaves st candidates =
     (if candidates = [] then Inl AssertFailed
      else rbind (rd_get (plru_data st) (candidates ! 0)) (\<lambda>d.
        if tree_ptr d < length (plru_trees st)
        then (let tree_index = plru_descend (plru_trees st ! tree_ptr d) 0;
                  i = tree_index - (numLeaves - 1)
              in if i < length candidates then Inr (candidates ! i) else Inl OutOfRange)
        else Inl NullDeref))"

definition plru_instantiateEntry :: "nat \<Rightarrow> plru_state \<Rightarrow> entry_id \<Rightarrow> plru_state res" where
  "plru_instantiateEntry numLeaves st e =
     (let st = (if plru_count st mod numLeaves = 0
                then st\<lparr>treeInstance := Some (length (plru_trees st)),
                        plru_trees := plru_trees st @ [replicate (numLeaves - 1) False]\<rparr>
                else st)
      in case treeInstance st of
           None \<Rightarrow> Inl NullDeref
         | Some t \<Rightarrow>
             Inr (st\<lparr>plru_data := (plru_data st)(e \<mapsto>
                       \<lparr>set_num = None, leaf_index = plru_count st mod numLeaves + numLeaves - 1, tree_ptr = t\<rparr>),
                     plru_count := plru_count st + 1\<rparr>))"

definition TreePLRU :: "nat \<Rightarrow> plru_state rp_vtable" where
  "TreePLRU numLeaves = \<lparr>rp_invalidate = (\<lambda>env. plru_invalidate),
              rp_touch = (\<lambda>env. plru_touch),
              rp_reset = (\<lambda>env. plru_reset),
              rp_getVictim = (\<lambda>env st cs. rbind (plru_getVictim numLeaves st cs) (\<lambda>v. Inr (v, st))),
              rp_instantiateEntry = plru_instantiateEntry numLeaves,
              rp_set_set_num = (\<lambda>st e n. rbind (rd_upd (\<lambda>d. d\<lparr>set_num := Some n\<rparr>) (plru_data st) e)
                                  (\<lambda>s. Inr (st\<lparr>plru_data := s\<rparr>)))\<rparr>"

subsection \<open>Paths\<close>

text \<open>The nodes above an index, each with the side the path leaves it by.\<close>

function ancestors :: "nat \<Rightarrow> (nat \<times> bool) list" where
  "ancestors i = (if i = 0 then [] else (parentIndex i, isRightSubtree i) # ancestors (parentIndex i))"
  by pat_completeness auto
termination
  by (relation "measure id") (auto simp: parentIndex_less)

declare ancestors.simps [simp del]

lemma ancestors_0 [simp]: "ancestors 0 = []"
  by (simp add: ancestors.simps)

lemma ancestors_Suc:
  "i \<noteq> 0 \<Longrightarrow> ancestors i = (parentIndex i, isRightSubtree i) # ancestors (parentIndex i)"
  by (simp add: ancestors.simps [of i])

lemma ancestors_induct [case_names root node]:
  assumes "P 0" and "\<And>i. i \<noteq> 0 \<Longrightarrow> P (parentIndex i) \<Longrightarrow> P i"
  shows "P i"
  using assms by (induction i rule: less_induct) (metis parentIndex_less)

lemma ancestors_less: "(n, r) \<in> set (ancestors i) \<Longrightarrow> n < i"
proof (induction i rule: ancestors_induct)
  case (node i)
  then show ?case using parentIndex_less [of i] by (auto simp: ancestors_Suc)
qed simp

lemma ancestors_split:
  "(m, s) \<in> set (ancestors i) \<Longrightarrow> \<exists>pre. ancestors i = pre @ (m, s) # ancestors m"
proof (induction i rule: ancestors_induct)
  case (node i)
  show ?case
  proof (cases "(m, s) = (parentIndex i, isRightSubtree i)")
    case True
    then show ?thesis using node.hyps by (intro exI [of _ "[]"]) (simp add: ancestors_Suc)
  next
    case False
    then have "(m, s) \<in> set (ancestors (parentIndex i))"
      using node.hyps node.prems by (auto simp: ancestors_Suc)
    from node.IH [OF this] obtain pre where "ancestors (parentIndex i) = pre @ (m, s) # ancestors m" by blast
    then show ?thesis using node.hyps
      by (intro exI [of _ "(parentIndex i, isRightSubtree i) # pre"]) (simp add: ancestors_Suc)
  qed
qed simp

lemma ancestors_distinct: "distinct (map fst (ancestors i))"
proof (induction i rule: ancestors_induct)
  case (node i)
  then show ?case using ancestors_less [of _ _ "parentIndex i"] by (force simp: ancestors_Suc)
qed simp

lemma ancestors_fun: "(n, r) \<in> set (ancestors i) \<Longrightarrow> (n, r') \<in> set (ancestors i) \<Longrightarrow> r = r'"
  using ancestors_distinct [of i] by (metis eq_key_imp_eq_value)

lemma ancestors_above:
  "(a, t) \<in> set (ancestors z) \<Longrightarrow> (b, u) \<in> set (ancestors z) \<Longrightarrow> a < b \<Longrightarrow> (a, t) \<in> set (ancestors b)"
proof (induction z rule: ancestors_induct)
  case (node z)
  then have b: "b = parentIndex z \<or> (b, u) \<in> set (ancestors (parentIndex z))"
    by (auto simp: ancestors_Suc)
  then have "b \<le> parentIndex z" using ancestors_less by fastforce
  with node.prems(1,3) node.hyps have "(a, t) \<in> set (ancestors (parentIndex z))"
    by (auto simp: ancestors_Suc)
  with b node.IH node.prems(3) show ?case by blast
qed simp

text \<open>Two paths part at one node only.\<close>

lemma ancestors_part_once:
  assumes "(n, r) \<in> set (ancestors x)" "(n, \<not> r) \<in> set (ancestors y)"
    and "(m, s) \<in> set (ancestors x)" "(m, \<not> s) \<in> set (ancestors y)"
  shows "n = m"
proof -
  have False if "a < b" "(a, t) \<in> set (ancestors x)" "(a, \<not> t) \<in> set (ancestors y)"
    "(b, u) \<in> set (ancestors x)" "(b, \<not> u) \<in> set (ancestors y)" for a b t u
    using that ancestors_above [of a t x b u] ancestors_above [of a "\<not> t" y b "\<not> u"]
      ancestors_fun [of a t b "\<not> t"] by blast
  from this [of n m r s] this [of m n s r] assms show ?thesis by (metis linorder_neqE_nat)
qed

subsection \<open>What the walks do\<close>

text \<open>The common effect of the two update loops: every node above the index gets its bit from the path.\<close>

definition path_set :: "(bool \<Rightarrow> bool) \<Rightarrow> nat \<Rightarrow> PLRUTree \<Rightarrow> PLRUTree \<Rightarrow> bool" where
  "path_set g i tree tree' \<longleftrightarrow> length tree' = length tree \<and>
     (\<forall>n r. (n, r) \<in> set (ancestors i) \<longrightarrow> tree' ! n = g r) \<and>
     (\<forall>n. n \<notin> fst ` set (ancestors i) \<longrightarrow> tree' ! n = tree ! n)"

lemma path_set_step:
  assumes "i \<noteq> 0" and "parentIndex i < length tree"
    and "path_set g (parentIndex i) (tree[parentIndex i := g (isRightSubtree i)]) tree'"
  shows "path_set g i tree tree'"
proof -
  have "parentIndex i \<notin> fst ` set (ancestors (parentIndex i))"
    using ancestors_less [of "parentIndex i" _ "parentIndex i"] by force
  with assms show ?thesis by (auto simp: path_set_def ancestors_Suc)
qed

lemma path_set_root: "path_set g 0 tree tree"
  by (simp add: path_set_def)

lemma plru_point_to_set:
  "i \<noteq> 0 \<Longrightarrow> parentIndex i < length tree \<Longrightarrow> succeeds (plru_point_to i tree) (path_set (\<lambda>r. r) i tree)"
proof (induction i tree rule: plru_point_to.induct)
  case (1 i tree)
  let ?p = "parentIndex i" and ?t = "tree[parentIndex i := isRightSubtree i]"
  show ?case
  proof (cases "?p = 0")
    case True
    have "path_set (\<lambda>r. r) i tree ?t"
      by (rule path_set_step [OF "1.prems"]) (simp add: True path_set_root)
    with True "1.prems" show ?thesis by (simp add: plru_point_to.simps [of i tree] Let_def)
  next
    case False
    have "parentIndex ?p < length ?t" using parentIndex_less [OF False] "1.prems"(2) by simp
    from "1.IH" [OF refl refl "1.prems"(2) refl False False this]
    have "succeeds (plru_point_to ?p ?t) (path_set (\<lambda>r. r) i tree)"
      by (rule succeeds_mono) (rule path_set_step [OF "1.prems"])
    with False "1.prems" show ?thesis by (simp add: plru_point_to.simps [of i tree] Let_def)
  qed
qed

lemma plru_point_away_set:
  "i \<noteq> 0 \<Longrightarrow> parentIndex i < length tree \<Longrightarrow> succeeds (plru_point_away i tree) (path_set Not i tree)"
proof (induction i tree rule: plru_point_away.induct)
  case (1 i tree)
  let ?p = "parentIndex i" and ?t = "tree[parentIndex i := (\<not> isRightSubtree i)]"
  show ?case
  proof (cases "?p = 0")
    case True
    have "path_set Not i tree ?t"
      by (rule path_set_step [OF "1.prems"]) (simp add: True path_set_root)
    with True "1.prems" show ?thesis by (simp add: plru_point_away.simps [of i tree] Let_def)
  next
    case False
    have "parentIndex ?p < length ?t" using parentIndex_less [OF False] "1.prems"(2) by simp
    from "1.IH" [OF refl refl "1.prems"(2) refl False False this]
    have "succeeds (plru_point_away ?p ?t) (path_set Not i tree)"
      by (rule succeeds_mono) (rule path_set_step [OF "1.prems"])
    with False "1.prems" show ?thesis by (simp add: plru_point_away.simps [of i tree] Let_def)
  qed
qed

text \<open>A search passes through an index when the bits above it point to it, and only then.\<close>

definition points_to :: "PLRUTree \<Rightarrow> nat \<Rightarrow> bool" where
  "points_to tree i \<longleftrightarrow> (\<forall>(n, r) \<in> set (ancestors i). tree ! n = r)"

lemma child_of_parent:
  "i \<noteq> 0 \<Longrightarrow> (if isRightSubtree i then rightSubtreeIndex (parentIndex i) else leftSubtreeIndex (parentIndex i)) = i"
  unfolding isRightSubtree_def rightSubtreeIndex_def leftSubtreeIndex_def parentIndex_def by presburger

lemma parent_of_child:
  "parentIndex (rightSubtreeIndex i) = i" "isRightSubtree (rightSubtreeIndex i)"
  "parentIndex (leftSubtreeIndex i) = i" "\<not> isRightSubtree (leftSubtreeIndex i)"
  unfolding isRightSubtree_def rightSubtreeIndex_def leftSubtreeIndex_def parentIndex_def by presburger+

lemma child_nonzero: "rightSubtreeIndex i \<noteq> 0" "leftSubtreeIndex i \<noteq> 0"
  by (simp_all add: rightSubtreeIndex_def leftSubtreeIndex_def)

lemma descend_through:
  "points_to tree i \<Longrightarrow> i = 0 \<or> parentIndex i < length tree \<Longrightarrow> plru_descend tree 0 = plru_descend tree i"
proof (induction i rule: ancestors_induct)
  case (node i)
  then have p: "points_to tree (parentIndex i)" "tree ! parentIndex i = isRightSubtree i"
    "parentIndex i < length tree" by (auto simp: points_to_def ancestors_Suc)
  then have "parentIndex i = 0 \<or> parentIndex (parentIndex i) < length tree"
    using parentIndex_less [of "parentIndex i"] by fastforce
  with node.IH p(1) have "plru_descend tree 0 = plru_descend tree (parentIndex i)" by blast
  also have "\<dots> = plru_descend tree i"
    using p(2,3) child_of_parent [OF node.hyps] by (simp add: plru_descend.simps [of tree "parentIndex i"])
  finally show ?case .
qed simp

lemma descend_points_to: "points_to tree i \<Longrightarrow> points_to tree (plru_descend tree i)"
proof (induction tree i rule: plru_descend.induct)
  case (1 tree i)
  show ?case
  proof (cases "i < length tree")
    case True
    let ?c = "if tree ! i then rightSubtreeIndex i else leftSubtreeIndex i"
    have "points_to tree ?c"
      using "1.prems" by (simp add: points_to_def ancestors_Suc child_nonzero parent_of_child)
    from "1.IH" [OF True this] True show ?thesis by (simp add: plru_descend.simps [of tree i])
  next
    case False
    with "1.prems" show ?thesis by (simp add: plru_descend.simps [of tree i])
  qed
qed

lemma descend_range:
  "i \<le> 2 * length tree \<Longrightarrow> length tree \<le> plru_descend tree i \<and> plru_descend tree i \<le> 2 * length tree"
proof (induction tree i rule: plru_descend.induct)
  case (1 tree i)
  show ?case
  proof (cases "i < length tree")
    case True
    have "(if tree ! i then rightSubtreeIndex i else leftSubtreeIndex i) \<le> 2 * length tree"
      using True by (simp add: rightSubtreeIndex_def leftSubtreeIndex_def)
    from "1.IH" [OF True this] True show ?thesis by (simp add: plru_descend.simps [of tree i])
  next
    case False
    with "1.prems" show ?thesis by (simp add: plru_descend.simps [of tree i])
  qed
qed

subsection \<open>How far a leaf is from being the victim\<close>

definition toward :: "PLRUTree \<Rightarrow> nat \<Rightarrow> nat" where
  "toward tree x = length (filter (\<lambda>(n, r). tree ! n = r) (ancestors x))"

lemma ancestors_distinct': "distinct (ancestors x)"
  using ancestors_distinct [of x] by (simp add: distinct_map)

lemma toward_card: "toward tree x = card {(n, r) \<in> set (ancestors x). tree ! n = r}"
proof -
  have "toward tree x = card (set (filter (\<lambda>(n, r). tree ! n = r) (ancestors x)))"
    unfolding toward_def by (intro distinct_card [symmetric] distinct_filter ancestors_distinct')
  also have "set (filter (\<lambda>(n, r). tree ! n = r) (ancestors x)) = {(n, r) \<in> set (ancestors x). tree ! n = r}"
    by auto
  finally show ?thesis .
qed

lemma toward_points_to: "points_to tree x \<longleftrightarrow> toward tree x = length (ancestors x)"
  unfolding points_to_def toward_def
  by (metis (no_types, lifting) filter_True length_filter_less linorder_neqE_nat less_irrefl_nat)

lemma toward_self: "path_set Not x tree tree' \<Longrightarrow> toward tree' x = 0"
  by (auto simp: path_set_def toward_def filter_empty_conv)

lemma toward_other:
  assumes "path_set Not y tree tree'"
  shows "toward tree' x \<le> toward tree x + 1"
proof -
  let ?A = "set (ancestors x)"
  let ?S = "{(n, r) \<in> ?A. tree ! n = r}" and ?S' = "{(n, r) \<in> ?A. tree' ! n = r}"
  let ?D = "{(n, r) \<in> ?A. (n, \<not> r) \<in> set (ancestors y)}"
  have fin: "finite ?S" "finite ?D" by (rule finite_subset [of _ ?A]; auto)+
  have "?S' \<subseteq> ?S \<union> ?D"
  proof
    fix z assume "z \<in> ?S'"
    then obtain n r where z: "z = (n, r)" "(n, r) \<in> ?A" "tree' ! n = r" by auto
    show "z \<in> ?S \<union> ?D"
    proof (cases "n \<in> fst ` set (ancestors y)")
      case True
      then obtain q where q: "(n, q) \<in> set (ancestors y)" by force
      then have "tree' ! n = (\<not> q)" using assms by (auto simp: path_set_def)
      with q z show ?thesis by auto
    next
      case False
      then have "tree' ! n = tree ! n" using assms by (simp add: path_set_def)
      with z show ?thesis by simp
    qed
  qed
  moreover have "card ?D \<le> 1"
  proof (rule ccontr)
    assume "\<not> card ?D \<le> 1"
    then obtain u v where uv: "u \<in> ?D" "v \<in> ?D" "u \<noteq> v"
      using fin(2) by (metis (no_types, lifting) card_le_Suc0_iff_eq One_nat_def)
    obtain n r m q where e: "u = (n, r)" "v = (m, q)" by (metis surj_pair)
    have "n = m" by (rule ancestors_part_once [of n r x y m q]) (use uv e in auto)
    moreover have "r = q" using ancestors_fun [of n r x q] uv e \<open>n = m\<close> by auto
    ultimately show False using uv(3) e by simp
  qed
  ultimately have "card ?S' \<le> card ?S + 1"
    using card_mono [of "?S \<union> ?D" ?S'] card_Un_le [of ?S ?D] fin by (meson add_left_mono finite_UnI le_trans)
  then show ?thesis by (simp only: toward_card)
qed

lemma parent_leaf: "1 \<le> m \<Longrightarrow> parentIndex (j + 2 * m - 1) = j div 2 + m - 1"
proof -
  assume "1 \<le> m"
  then obtain n where "m = Suc n" by (cases m) auto
  then show ?thesis by (simp add: parentIndex_def)
qed

lemma leaf_depth: "j < 2 ^ k \<Longrightarrow> length (ancestors (j + 2 ^ k - 1)) = k"
proof (induction k arbitrary: j)
  case (Suc k)
  have p: "parentIndex (j + 2 ^ Suc k - 1) = j div 2 + 2 ^ k - 1"
    using parent_leaf [of "2 ^ k" j] by simp
  have "(1::nat) \<le> 2 ^ k" by simp
  then have nz: "j + 2 ^ Suc k - 1 \<noteq> 0" unfolding power_Suc by arith
  have "j div 2 < 2 ^ k" using Suc.prems by simp
  from Suc.IH [OF this] show ?case unfolding ancestors_Suc [OF nz] p by simp
qed simp

subsection \<open>The contract\<close>

text \<open>The candidates of a set: all \<open>2^k\<close> leaves of one tree, in order.\<close>

definition plru_cands :: "nat \<Rightarrow> plru_state \<Rightarrow> entry_id list \<Rightarrow> bool" where
  "plru_cands k st cs \<longleftrightarrow> length cs = 2 ^ k \<and>
     (\<exists>t < length (plru_trees st). length (plru_trees st ! t) = 2 ^ k - 1 \<and>
        (\<forall>j < 2 ^ k. \<exists>d. plru_data st (cs ! j) = Some d \<and> leaf_index d = j + 2 ^ k - 1 \<and> tree_ptr d = t))"

definition cs_tree :: "plru_state \<Rightarrow> entry_id list \<Rightarrow> PLRUTree" where
  "cs_tree st cs = plru_trees st ! tree_ptr (the (plru_data st (cs ! 0)))"

text \<open>A walk of the tree of an entry, seen from a candidate list that holds the entry.\<close>

lemma plru_on_tree_ok:
  assumes "plru_cands k st cs" and "1 \<le> k" and "j < 2 ^ k"
    and "\<And>i t. i \<noteq> 0 \<Longrightarrow> parentIndex i < length t \<Longrightarrow> succeeds (f i t) (path_set g i t)"
  shows "succeeds (plru_on_tree f st (cs ! j)) (\<lambda>st'. plru_cands k st' = plru_cands k st \<and> plru_data st' = plru_data st \<and>
           path_set g (j + 2 ^ k - 1) (cs_tree st cs) (cs_tree st' cs))"
proof -
  from assms(1) obtain t where t: "t < length (plru_trees st)" "length (plru_trees st ! t) = 2 ^ k - 1"
    "length cs = 2 ^ k"
    "\<forall>j < 2 ^ k. \<exists>d. plru_data st (cs ! j) = Some d \<and> leaf_index d = j + 2 ^ k - 1 \<and> tree_ptr d = t"
    by (auto simp: plru_cands_def)
  obtain d where d: "plru_data st (cs ! j) = Some d" "leaf_index d = j + 2 ^ k - 1" "tree_ptr d = t"
    using t(4) assms(3) by blast
  have t0: "tree_ptr (the (plru_data st (cs ! 0))) = t" using t(4) by fastforce
  have pow: "(2::nat) \<le> 2 ^ k" using assms(2) by (cases k) auto
  have nz: "j + 2 ^ k - 1 \<noteq> 0" and pl: "parentIndex (j + 2 ^ k - 1) < length (plru_trees st ! t)"
    using pow assms(3) t(2) by (auto simp: parentIndex_def)
  from assms(4) [OF nz pl] obtain t' where
    t': "f (j + 2 ^ k - 1) (plru_trees st ! t) = Inr t'" "path_set g (j + 2 ^ k - 1) (plru_trees st ! t) t'"
    by (auto elim: succeedsE)
  let ?st = "st\<lparr>plru_trees := (plru_trees st)[t := t']\<rparr>"
  have run: "plru_on_tree f st (cs ! j) = Inr ?st"
    using d t(1) t'(1) by (simp add: plru_on_tree_def rd_get_live)
  have "length t' = length (plru_trees st ! t)" using t'(2) by (simp add: path_set_def)
  then have "length ((plru_trees st)[t := t'] ! u) = length (plru_trees st ! u)" for u
    using t(1) by (cases "u = t") auto
  then have "plru_cands k ?st = plru_cands k st" by (simp add: plru_cands_def fun_eq_iff)
  moreover have "path_set g (j + 2 ^ k - 1) (cs_tree st cs) (cs_tree ?st cs)"
    using t'(2) t(1) by (simp add: cs_tree_def t0)
  ultimately show ?thesis by (simp add: run)
qed

lemmas plru_invalidate_ok = plru_on_tree_ok [where f = plru_point_to, OF _ _ _ plru_point_to_set, folded plru_invalidate_def]
lemmas plru_touch_ok = plru_on_tree_ok [where f = plru_point_away, OF _ _ _ plru_point_away_set, folded plru_touch_def]

lemma plru_cands_tree: "plru_cands k st cs \<Longrightarrow> length (cs_tree st cs) = 2 ^ k - 1"
  by (fastforce simp: plru_cands_def cs_tree_def)

lemma plru_getVictim_leaf:
  assumes "plru_cands k st cs"
  shows "\<exists>j < 2 ^ k. plru_getVictim (2 ^ k) st cs = Inr (cs ! j) \<and> plru_descend (cs_tree st cs) 0 = j + 2 ^ k - 1"
proof -
  let ?i = "plru_descend (cs_tree st cs) 0"
  obtain d where d: "plru_data st (cs ! 0) = Some d" "tree_ptr d < length (plru_trees st)" "length cs = 2 ^ k"
    using assms by (fastforce simp: plru_cands_def)
  have "cs \<noteq> []" using d(3) by auto
  have "2 ^ k - 1 \<le> ?i" "?i \<le> 2 * (2 ^ k - 1)"
    using descend_range [of 0 "cs_tree st cs"] plru_cands_tree [OF assms] by auto
  moreover have "(1::nat) \<le> 2 ^ k" by simp
  ultimately have j: "?i - (2 ^ k - 1) < 2 ^ k" "?i = (?i - (2 ^ k - 1)) + 2 ^ k - 1" by arith+
  have "plru_getVictim (2 ^ k) st cs = Inr (cs ! (?i - (2 ^ k - 1)))"
    using d j(1) \<open>cs \<noteq> []\<close> by (simp add: plru_getVictim_def rd_get_live cs_tree_def Let_def)
  with j show ?thesis by blast
qed

interpretation plru: replacement_policy "TreePLRU (2 ^ Suc k)" "\<lambda>_. True"
  "\<lambda>st cs. plru_cands (Suc k) st cs"
proof unfold_locales
  fix st cs assume "plru_cands (Suc k) st cs" then show "cs \<noteq> []" by (auto simp: plru_cands_def)
next
  fix env st cs assume c: "plru_cands (Suc k) st cs"
  from plru_getVictim_leaf [OF c] obtain j where "j < 2 ^ Suc k" "plru_getVictim (2 ^ Suc k) st cs = Inr (cs ! j)"
    by blast
  moreover have "length cs = 2 ^ Suc k" using c by (simp add: plru_cands_def)
  ultimately show "succeeds (rp_getVictim (TreePLRU (2 ^ Suc k)) env st cs)
      (\<lambda>(v, s'). v \<in> set cs \<and> True \<and> plru_cands (Suc k) s' = plru_cands (Suc k) st)"
    by (simp add: TreePLRU_def)
next
  fix env st cs e assume c: "plru_cands (Suc k) st cs" "e \<in> set cs"
  then obtain j where j: "j < 2 ^ Suc k" "e = cs ! j" by (auto simp: plru_cands_def in_set_conv_nth)
  show "succeeds (rp_invalidate (TreePLRU (2 ^ Suc k)) env st e)
      (\<lambda>s'. True \<and> plru_cands (Suc k) s' = plru_cands (Suc k) st)"
    using plru_invalidate_ok [OF c(1) _ j(1)] by (auto simp: TreePLRU_def j(2) elim: succeeds_mono)
  show "succeeds (rp_touch (TreePLRU (2 ^ Suc k)) env st e)
      (\<lambda>s'. True \<and> plru_cands (Suc k) s' = plru_cands (Suc k) st)"
    using plru_touch_ok [OF c(1) _ j(1)] by (auto simp: TreePLRU_def j(2) elim: succeeds_mono)
  show "succeeds (rp_reset (TreePLRU (2 ^ Suc k)) env st e)
      (\<lambda>s'. True \<and> plru_cands (Suc k) s' = plru_cands (Suc k) st)"
    using plru_touch_ok [OF c(1) _ j(1)] by (auto simp: TreePLRU_def plru_reset_def j(2) elim: succeeds_mono)
qed

text \<open>Uses of other leaves turn at most one bit each towards a leaf.\<close>

lemma plru_history_toward:
  assumes "plru_cands (Suc k) st cs" and "x < 2 ^ Suc k"
    and "\<forall>(env, c) \<in> set h. \<exists>j < 2 ^ Suc k. c = Touch (cs ! j) \<or> c = Reset (cs ! j)"
  shows "succeeds (rp_history (TreePLRU (2 ^ Suc k)) h st) (\<lambda>st'. plru_cands (Suc k) st' cs \<and>
           toward (cs_tree st' cs) (x + 2 ^ Suc k - 1) \<le> toward (cs_tree st cs) (x + 2 ^ Suc k - 1) + length h)"
  using assms(1,3)
proof (induction h arbitrary: st)
  case (Cons a h)
  obtain env c where a: "a = (env, c)" by (cases a)
  from Cons.prems(2) a obtain j where j: "j < 2 ^ Suc k" "c = Touch (cs ! j) \<or> c = Reset (cs ! j)" by auto
  from plru_touch_ok [OF Cons.prems(1) _ j(1)] obtain t where t: "plru_touch st (cs ! j) = Inr t"
    "plru_cands (Suc k) t = plru_cands (Suc k) st" "path_set Not (j + 2 ^ Suc k - 1) (cs_tree st cs) (cs_tree t cs)"
    by (auto elim!: succeedsE)
  have do: "rp_do (TreePLRU (2 ^ Suc k)) env c st = Inr t"
    using j(2) t(1) by (auto simp: TreePLRU_def plru_reset_def)
  have "plru_cands (Suc k) t cs" using t(2) Cons.prems(1) by simp
  from Cons.IH [OF this] Cons.prems(2) obtain st' where st': "rp_history (TreePLRU (2 ^ Suc k)) h t = Inr st'"
    "plru_cands (Suc k) st' cs"
    "toward (cs_tree st' cs) (x + 2 ^ Suc k - 1) \<le> toward (cs_tree t cs) (x + 2 ^ Suc k - 1) + length h"
    by (auto elim!: succeedsE)
  have "rp_history (TreePLRU (2 ^ Suc k)) (a # h) st = Inr st'"
    using do st'(1) by (simp add: a del: power_Suc)
  moreover have "toward (cs_tree st' cs) (x + 2 ^ Suc k - 1)
      \<le> toward (cs_tree st cs) (x + 2 ^ Suc k - 1) + length (a # h)"
    using st'(3) toward_other [OF t(3), of "x + 2 ^ Suc k - 1"] by simp
  ultimately show ?case using st'(2) by simp
qed simp

lemma plru_cands_inj:
  assumes "plru_cands k st cs" and "i < 2 ^ k" and "j < 2 ^ k" and "cs ! i = cs ! j"
  shows "i = j"
proof -
  from assms(1) obtain t where
    t: "\<forall>j < 2 ^ k. \<exists>d. plru_data st (cs ! j) = Some d \<and> leaf_index d = j + 2 ^ k - 1 \<and> tree_ptr d = t"
    by (auto simp: plru_cands_def)
  from t assms(2) obtain d where "plru_data st (cs ! i) = Some d" "leaf_index d = i + 2 ^ k - 1" by blast
  moreover from t assms(3) obtain d' where "plru_data st (cs ! j) = Some d'" "leaf_index d' = j + 2 ^ k - 1" by blast
  ultimately have "i + 2 ^ k - 1 = j + 2 ^ k - 1" using assms(4) by simp
  moreover have "(1::nat) \<le> 2 ^ k" by simp
  ultimately show ?thesis by arith
qed

lemma plru_victim_points_to:
  assumes "plru_cands k st cs" and "j < 2 ^ k" and "plru_getVictim (2 ^ k) st cs = Inr (cs ! j)"
  shows "points_to (cs_tree st cs) (j + 2 ^ k - 1)"
proof -
  from plru_getVictim_leaf [OF assms(1)] obtain i where
    i: "i < 2 ^ k" "cs ! i = cs ! j" "plru_descend (cs_tree st cs) 0 = i + 2 ^ k - 1"
    using assms(3) by auto
  have "points_to (cs_tree st cs) (plru_descend (cs_tree st cs) 0)"
    by (rule descend_points_to) (simp add: points_to_def)
  with i plru_cands_inj [OF assms(1) i(1) assms(2) i(2)] show ?thesis by simp
qed

subsection \<open>Properties\<close>

text \<open>
  C32 Tree-PLRU with \<open>2^k\<close> leaves protects recent entries: after an entry is touched or inserted, it
  is not the victim as long as fewer than \<open>k\<close> further touches and insertions have happened
  in its set.
\<close>

theorem plru_protects_recent:
  assumes "plru_cands (Suc k) st cs" and "x < 2 ^ Suc k" and "c = Touch (cs ! x) \<or> c = Reset (cs ! x)"
    and "\<forall>(env, c) \<in> set h. \<exists>j < 2 ^ Suc k. c = Touch (cs ! j) \<or> c = Reset (cs ! j)"
    and "length h < Suc k"
  shows "\<exists>st' v. rp_history (TreePLRU (2 ^ Suc k)) ((env, c) # h) st = Inr st' \<and>
           plru_getVictim (2 ^ Suc k) st' cs = Inr v \<and> v \<in> set cs \<and> v \<noteq> cs ! x"
proof -
  from plru_touch_ok [OF assms(1) _ assms(2)] obtain t where t: "plru_touch st (cs ! x) = Inr t"
    "plru_cands (Suc k) t cs" "path_set Not (x + 2 ^ Suc k - 1) (cs_tree st cs) (cs_tree t cs)"
    using assms(1) by (auto elim!: succeedsE)
  have do: "rp_do (TreePLRU (2 ^ Suc k)) env c st = Inr t"
    using assms(3) t(1) by (auto simp: TreePLRU_def plru_reset_def)
  from plru_history_toward [OF t(2) assms(2,4)] obtain st' where st': "rp_history (TreePLRU (2 ^ Suc k)) h t = Inr st'"
    "plru_cands (Suc k) st' cs" "toward (cs_tree st' cs) (x + 2 ^ Suc k - 1) < Suc k"
    using toward_self [OF t(3)] assms(5) by (auto elim!: succeedsE)
  obtain j where j: "j < 2 ^ Suc k" "plru_getVictim (2 ^ Suc k) st' cs = Inr (cs ! j)"
    using plru_getVictim_leaf [OF st'(2)] by blast
  have "cs ! j \<in> set cs" using j(1) st'(2) by (simp add: plru_cands_def)
  moreover have "cs ! j \<noteq> cs ! x"
  proof
    assume "cs ! j = cs ! x"
    with j(2) have "points_to (cs_tree st' cs) (x + 2 ^ Suc k - 1)"
      using plru_victim_points_to [OF st'(2) assms(2)] by simp
    then show False using st'(3) leaf_depth [OF assms(2)] by (simp add: toward_points_to)
  qed
  ultimately show ?thesis using do st'(1) j(2) by auto
qed

text \<open>A set of four ways as \<open>instantiateEntry\<close> builds it.\<close>

definition plru_example :: plru_state where
  "plru_example = \<lparr>plru_count = 4, treeInstance = Some 0, plru_trees = [[False, False, False]],
     plru_data = [0 \<mapsto> \<lparr>set_num = None, leaf_index = 3, tree_ptr = 0\<rparr>, 1 \<mapsto> \<lparr>set_num = None, leaf_index = 4, tree_ptr = 0\<rparr>,
                  2 \<mapsto> \<lparr>set_num = None, leaf_index = 5, tree_ptr = 0\<rparr>, 3 \<mapsto> \<lparr>set_num = None, leaf_index = 6, tree_ptr = 0\<rparr>]\<rparr>"

lemma plru_example_built:
  "rbind (TreePLRURP_new 4) (\<lambda>st. rbind (plru_instantiateEntry 4 st 0) (\<lambda>st.
     rbind (plru_instantiateEntry 4 st 1) (\<lambda>st. rbind (plru_instantiateEntry 4 st 2) (\<lambda>st.
       plru_instantiateEntry 4 st 3)))) = Inr plru_example"
proof -
  have "replicate (4 - 1) False = [False, False, False]" by (simp add: numeral_eq_Suc)
  moreover have "(4::u64) AND 3 = 0" by simp
  ultimately show ?thesis
    by (simp add: TreePLRURP_new_def plru_init_def plru_instantiateEntry_def plru_example_def)
qed

lemma plru_example_cands: "plru_cands 2 plru_example [0, 1, 2, 3]"
proof -
  have "(\<forall>j < 4. P j) \<longleftrightarrow> P 0 \<and> P 1 \<and> P 2 \<and> P (3::nat)" for P
    by (auto simp: numeral_eq_Suc All_less_Suc)
  then show ?thesis by (simp add: plru_cands_def plru_example_def)
qed

lemma plru_example_use: "\<exists>j < (4::nat). [0, Suc 0, 2, 3] ! j = 0"
  by (rule exI [of _ 0]) simp

theorem plru_protects_recent_witness:
  "\<exists>st' v. rp_history (TreePLRU (2 ^ Suc 1))
       [(\<lparr>curTick = 1, random_mt = (\<lambda>lo hi. lo)\<rparr>, Touch 2), (\<lparr>curTick = 2, random_mt = (\<lambda>lo hi. lo)\<rparr>, Touch 0)]
       plru_example = Inr st' \<and>
     plru_getVictim (2 ^ Suc 1) st' [0, 1, 2, 3] = Inr v \<and> v \<in> {0, 1, 2, 3} \<and> v \<noteq> 2"
  using plru_protects_recent [of 1 plru_example "[0, 1, 2, 3]" 2 "Touch 2"
      "[(\<lparr>curTick = 2, random_mt = (\<lambda>lo hi. lo)\<rparr>, Touch 0)]" "\<lparr>curTick = 1, random_mt = (\<lambda>lo hi. lo)\<rparr>"]
    plru_example_cands plru_example_use
  by (auto simp: numeral_2_eq_2 [symmetric])

text \<open>
  Tree-PLRU evicts an invalidated entry next: the victim search right after \<open>invalidate\<close> of a
  way returns that way.
\<close>

lemma plru_invalidated_next:
  assumes "plru_cands (Suc k) st cs" and "x < 2 ^ Suc k"
  shows "rbind (plru_invalidate st (cs ! x)) (\<lambda>st'. plru_getVictim (2 ^ Suc k) st' cs) = Inr (cs ! x)"
proof -
  from plru_invalidate_ok [OF assms(1) _ assms(2)] obtain t where t: "plru_invalidate st (cs ! x) = Inr t"
    "plru_cands (Suc k) t cs" "path_set (\<lambda>r. r) (x + 2 ^ Suc k - 1) (cs_tree st cs) (cs_tree t cs)"
    using assms(1) by (auto elim!: succeedsE)
  have pt: "points_to (cs_tree t cs) (x + 2 ^ Suc k - 1)" using t(3) by (auto simp: path_set_def points_to_def)
  note len = plru_cands_tree [OF t(2)]
  have "(1::nat) \<le> 2 ^ k" by simp
  then have pi: "parentIndex (x + 2 ^ Suc k - 1) < length (cs_tree t cs)"
    using len assms(2) parent_leaf [of "2 ^ k" x] by simp
  have "\<not> x + 2 ^ Suc k - 1 < length (cs_tree t cs)" using len by simp
  then have "plru_descend (cs_tree t cs) (x + 2 ^ Suc k - 1) = x + 2 ^ Suc k - 1"
    unfolding plru_descend.simps [of _ "x + 2 ^ Suc k - 1"] by (rule if_not_P)
  then have "plru_descend (cs_tree t cs) 0 = x + 2 ^ Suc k - 1"
    using descend_through [OF pt disjI2, OF pi] by (simp only:)
  with plru_getVictim_leaf [OF t(2)] obtain j where j: "plru_getVictim (2 ^ Suc k) t cs = Inr (cs ! j)"
    "x + 2 ^ Suc k - 1 = j + 2 ^ Suc k - 1" by auto
  moreover have "(1::nat) \<le> 2 ^ Suc k" by simp
  ultimately have "x = j" by arith
  with t(1) j(1) show ?thesis by simp
qed

text \<open>
  The constructor accepts one leaf (1 is a power of two), but then the tree has no node and the first
  touch of the only entry leaves the vector's range: \<open>parentIndex(0)\<close> wraps around.
\<close>

lemma plru_single_leaf_out_of_range:
  "rbind (TreePLRURP_new 1) (\<lambda>st. rbind (plru_instantiateEntry 1 st e) (\<lambda>st'. plru_touch st' e)) = Inl OutOfRange"
  by (simp add: TreePLRURP_new_def plru_init_def plru_instantiateEntry_def plru_touch_def plru_on_tree_def
      rd_get_def plru_point_away.simps)

end
