(* ===== verification/Bitfield.thy ===== *)
theory Bitfield
  imports Prelude
begin

text \<open>
  The bit manipulation helpers (\<open>base/bitfield.hh\<close>, \<open>base/bitfield.cc\<close>) and the integer helpers
  (\<open>base/intmath.hh\<close>). The templates are modelled at \<open>T = uint64_t\<close>, the instance the caches use. Bit
  positions are naturals: a negative shift is undefined in C++ and no caller asks for one. The
  lemmas give the bits of every result; the binary searches are shown to find the
  extreme set bits, and the arithmetic helpers to compute what their names say, wrap-around included.
\<close>

subsection \<open>Masks and fields\<close>

definition mask_bf :: "nat \<Rightarrow> u64" where
  "mask_bf nbits = (if nbits \<ge> 64 then - 1 else push_bit nbits 1 - 1)"

definition bits_bf :: "u64 \<Rightarrow> nat \<Rightarrow> nat \<Rightarrow> u64" where
  "bits_bf val fst_bit lst_bit = (let nbits = fst_bit + 1 - lst_bit in drop_bit lst_bit val AND mask_bf nbits)"

definition bit1_bf :: "u64 \<Rightarrow> nat \<Rightarrow> u64" where
  "bit1_bf val b = bits_bf val b b"

definition mbits :: "u64 \<Rightarrow> nat \<Rightarrow> nat \<Rightarrow> u64" where
  "mbits val fst_bit lst_bit = val AND (mask_bf (fst_bit + 1) AND NOT (mask_bf lst_bit))"

definition mask_range :: "nat \<Rightarrow> nat \<Rightarrow> u64" where
  "mask_range fst_bit lst_bit = mbits (- 1) fst_bit lst_bit"

definition sext :: "nat \<Rightarrow> u64 \<Rightarrow> u64" where
  "sext N val =
     (let sign_bit = bits_bf val (N - 1) (N - 1) in
      if sign_bit \<noteq> 0 then val OR NOT (mask_bf N) else val)"

definition insertBits :: "u64 \<Rightarrow> nat \<Rightarrow> nat \<Rightarrow> u64 \<Rightarrow> u64" where
  "insertBits val fst_bit lst_bit bit_val =
     (let t_bit_val = bit_val;
          bmask = push_bit lst_bit (mask_bf (fst_bit + 1 - lst_bit))
      in (push_bit lst_bit t_bit_val AND bmask) OR (val AND NOT bmask))"

definition insertBit :: "u64 \<Rightarrow> nat \<Rightarrow> u64 \<Rightarrow> u64" where
  "insertBit val b bit_val = insertBits val b b bit_val"

definition replaceBits :: "u64 \<Rightarrow> nat \<Rightarrow> nat \<Rightarrow> u64 \<Rightarrow> u64" where
  "replaceBits val fst_bit lst_bit bit_val = insertBits val fst_bit lst_bit bit_val"

definition replaceBit :: "u64 \<Rightarrow> nat \<Rightarrow> u64 \<Rightarrow> u64" where
  "replaceBit val b bit_val = insertBits val b b bit_val"

subsection \<open>Mirroring\<close>

definition reverseLookUpTable :: "u8 list" where
  "reverseLookUpTable =
    [0x00, 0x80, 0x40, 0xC0, 0x20, 0xA0, 0x60, 0xE0, 0x10, 0x90, 0x50, 0xD0,
     0x30, 0xB0, 0x70, 0xF0, 0x08, 0x88, 0x48, 0xC8, 0x28, 0xA8, 0x68, 0xE8,
     0x18, 0x98, 0x58, 0xD8, 0x38, 0xB8, 0x78, 0xF8, 0x04, 0x84, 0x44, 0xC4,
     0x24, 0xA4, 0x64, 0xE4, 0x14, 0x94, 0x54, 0xD4, 0x34, 0xB4, 0x74, 0xF4,
     0x0C, 0x8C, 0x4C, 0xCC, 0x2C, 0xAC, 0x6C, 0xEC, 0x1C, 0x9C, 0x5C, 0xDC,
     0x3C, 0xBC, 0x7C, 0xFC, 0x02, 0x82, 0x42, 0xC2, 0x22, 0xA2, 0x62, 0xE2,
     0x12, 0x92, 0x52, 0xD2, 0x32, 0xB2, 0x72, 0xF2, 0x0A, 0x8A, 0x4A, 0xCA,
     0x2A, 0xAA, 0x6A, 0xEA, 0x1A, 0x9A, 0x5A, 0xDA, 0x3A, 0xBA, 0x7A, 0xFA,
     0x06, 0x86, 0x46, 0xC6, 0x26, 0xA6, 0x66, 0xE6, 0x16, 0x96, 0x56, 0xD6,
     0x36, 0xB6, 0x76, 0xF6, 0x0E, 0x8E, 0x4E, 0xCE, 0x2E, 0xAE, 0x6E, 0xEE,
     0x1E, 0x9E, 0x5E, 0xDE, 0x3E, 0xBE, 0x7E, 0xFE, 0x01, 0x81, 0x41, 0xC1,
     0x21, 0xA1, 0x61, 0xE1, 0x11, 0x91, 0x51, 0xD1, 0x31, 0xB1, 0x71, 0xF1,
     0x09, 0x89, 0x49, 0xC9, 0x29, 0xA9, 0x69, 0xE9, 0x19, 0x99, 0x59, 0xD9,
     0x39, 0xB9, 0x79, 0xF9, 0x05, 0x85, 0x45, 0xC5, 0x25, 0xA5, 0x65, 0xE5,
     0x15, 0x95, 0x55, 0xD5, 0x35, 0xB5, 0x75, 0xF5, 0x0D, 0x8D, 0x4D, 0xCD,
     0x2D, 0xAD, 0x6D, 0xED, 0x1D, 0x9D, 0x5D, 0xDD, 0x3D, 0xBD, 0x7D, 0xFD,
     0x03, 0x83, 0x43, 0xC3, 0x23, 0xA3, 0x63, 0xE3, 0x13, 0x93, 0x53, 0xD3,
     0x33, 0xB3, 0x73, 0xF3, 0x0B, 0x8B, 0x4B, 0xCB, 0x2B, 0xAB, 0x6B, 0xEB,
     0x1B, 0x9B, 0x5B, 0xDB, 0x3B, 0xBB, 0x7B, 0xFB, 0x07, 0x87, 0x47, 0xC7,
     0x27, 0xA7, 0x67, 0xE7, 0x17, 0x97, 0x57, 0xD7, 0x37, 0xB7, 0x77, 0xF7,
     0x0F, 0x8F, 0x4F, 0xCF, 0x2F, 0xAF, 0x6F, 0xEF, 0x1F, 0x9F, 0x5F, 0xDF,
     0x3F, 0xBF, 0x7F, 0xFF]"

text \<open>The loop of \<open>reverseBits\<close>, with the number of bytes left to mirror.\<close>

fun reverse_loop :: "nat \<Rightarrow> u64 \<Rightarrow> u64 \<Rightarrow> u64" where
  "reverse_loop 0 val output = output"
| "reverse_loop (Suc n) val output =
     reverse_loop n (drop_bit 8 val)
       (push_bit 8 output OR ucast (reverseLookUpTable ! unat (val AND 0xFF)))"

definition reverseBits :: "u64 \<Rightarrow> nat \<Rightarrow> u64 res" where
  "reverseBits val nbytes = (if nbytes \<le> 8 then Inr (reverse_loop nbytes val 0) else Inl AssertFailed)"

subsection \<open>Searches\<close>

definition findMsbSet :: "u64 \<Rightarrow> int" where
  "findMsbSet val0 =
     (if val0 = 0 then 0
      else
        let (msb, val) = (0, val0);
            (msb, val) = (if bits_bf val 63 32 \<noteq> 0 then (msb + 32, drop_bit 32 val) else (msb, val));
            (msb, val) = (if bits_bf val 31 16 \<noteq> 0 then (msb + 16, drop_bit 16 val) else (msb, val));
            (msb, val) = (if bits_bf val 15 8 \<noteq> 0 then (msb + 8, drop_bit 8 val) else (msb, val));
            (msb, val) = (if bits_bf val 7 4 \<noteq> 0 then (msb + 4, drop_bit 4 val) else (msb, val));
            (msb, val) = (if bits_bf val 3 2 \<noteq> 0 then (msb + 2, drop_bit 2 val) else (msb, val))
        in if bits_bf val 1 1 \<noteq> 0 then msb + 1 else msb)"

definition findLsbSet :: "u64 \<Rightarrow> int" where
  "findLsbSet val0 =
     (if val0 = 0 then 64
      else
        let (lsb, val) = (0, val0);
            (lsb, val) = (if bits_bf val 31 0 = 0 then (lsb + 32, drop_bit 32 val) else (lsb, val));
            (lsb, val) = (if bits_bf val 15 0 = 0 then (lsb + 16, drop_bit 16 val) else (lsb, val));
            (lsb, val) = (if bits_bf val 7 0 = 0 then (lsb + 8, drop_bit 8 val) else (lsb, val));
            (lsb, val) = (if bits_bf val 3 0 = 0 then (lsb + 4, drop_bit 4 val) else (lsb, val));
            (lsb, val) = (if bits_bf val 1 0 = 0 then (lsb + 2, drop_bit 2 val) else (lsb, val))
        in if bits_bf val 0 0 = 0 then lsb + 1 else lsb)"

definition isPow2 :: "u64 \<Rightarrow> bool" where
  "isPow2 v \<longleftrightarrow> v AND (v - 1) = 0"

text \<open>The portable branch of \<open>popCount\<close>; the other one is the compiler's own instruction.\<close>

definition popCount :: "u64 \<Rightarrow> u64" where
  "popCount val0 =
     (let m1 = 0x5555555555555555;
          m2 = 0x3333333333333333;
          m4 = 0x0f0f0f0f0f0f0f0f;
          sm = 0x0101010101010101;
          val = val0 - (drop_bit 1 val0 AND m1);
          val = (val AND m2) + (drop_bit 2 val AND m2);
          val = (val + drop_bit 4 val) AND m4
      in drop_bit 56 (val * sm))"

definition alignToPowerOfTwo :: "u64 \<Rightarrow> u64" where
  "alignToPowerOfTwo val0 =
     (let val = val0 - 1;
          val = val OR drop_bit 1 val;
          val = val OR drop_bit 2 val;
          val = val OR drop_bit 4 val;
          val = val OR drop_bit 8 val;
          val = val OR drop_bit 16 val;
          val = val OR drop_bit 32 val
      in val + 1)"

subsection \<open>Integer helpers\<close>

function power_loop :: "u32 \<Rightarrow> u64 \<Rightarrow> u64 \<Rightarrow> u64" where
  "power_loop e component result =
     (if e \<noteq> 0
      then power_loop (drop_bit 1 e) (component * component)
             (if e AND 1 \<noteq> 0 then result * component else result)
      else result)"
  by pat_completeness auto
termination
proof (relation "measure (\<lambda>(e, c, r). unat e)")
  fix e :: u32 and c r :: u64
  assume "e \<noteq> 0"
  then have "unat e \<noteq> 0" by (simp add: unat_eq_zero)
  then show "((drop_bit 1 e, c * c, if e AND 1 \<noteq> 0 then r * c else r), e, c, r) \<in> measure (\<lambda>(e, c, r). unat e)"
    by (simp only: in_measure prod.case unat_drop_bit_eq) (simp add: drop_bit_eq_div)
qed simp

declare power_loop.simps [simp del]

definition power_im :: "u32 \<Rightarrow> u32 \<Rightarrow> u64" where
  "power_im n e = power_loop e (ucast n) 1"

definition floorLog2 :: "u64 \<Rightarrow> int res" where
  "floorLog2 x =
     (if \<not> x > 0 then Inl AssertFailed
      else
        let (y, ux) = (0, x);
            (y, ux) = (if ux AND 0xffffffff00000000 \<noteq> 0 then (y + 32, drop_bit 32 ux) else (y, ux));
            (y, ux) = (if ux AND 0x00000000ffff0000 \<noteq> 0 then (y + 16, drop_bit 16 ux) else (y, ux));
            (y, ux) = (if ux AND 0x000000000000ff00 \<noteq> 0 then (y + 8, drop_bit 8 ux) else (y, ux));
            (y, ux) = (if ux AND 0x00000000000000f0 \<noteq> 0 then (y + 4, drop_bit 4 ux) else (y, ux));
            (y, ux) = (if ux AND 0x000000000000000c \<noteq> 0 then (y + 2, drop_bit 2 ux) else (y, ux))
        in Inr (if ux AND 0x0000000000000002 \<noteq> 0 then y + 1 else y))"

definition ceilLog2 :: "u64 \<Rightarrow> int res" where
  "ceilLog2 n =
     (if \<not> n > 0 then Inl AssertFailed
      else if n = 1 then Inr 0
      else rbind (floorLog2 (n - 1)) (\<lambda>y. Inr (y + 1)))"

definition isPowerOf2 :: "u64 \<Rightarrow> bool" where
  "isPowerOf2 n \<longleftrightarrow> n \<noteq> 0 \<and> n AND (n - 1) = 0"

definition divCeil :: "u64 \<Rightarrow> u64 \<Rightarrow> u64 res" where
  "divCeil a b = (if b = 0 then Inl DivByZero else Inr ((a + b - 1) div b))"

definition roundUp :: "u64 \<Rightarrow> u64 \<Rightarrow> u64 res" where
  "roundUp val align =
     (if \<not> isPowerOf2 align then Inl AssertFailed
      else let m = align - 1 in Inr ((val + m) AND NOT m))"

definition roundDown :: "u64 \<Rightarrow> u64 \<Rightarrow> u64 res" where
  "roundDown val align =
     (if \<not> isPowerOf2 align then Inl AssertFailed
      else let m = align - 1 in Inr (val AND NOT m))"

subsection \<open>Bits of the results\<close>

lemma mask_bf_eq: "mask_bf n = mask n"
proof (cases "n \<ge> 64")
  case True
  then show ?thesis by (intro bit_eqI) (simp add: mask_bf_def bit_simps)
qed (simp add: mask_bf_def mask_eq_exp_minus_1)

lemma bit_mask_bf [simp]: "bit (mask_bf n) i \<longleftrightarrow> i < n \<and> i < 64"
  by (auto simp: mask_bf_eq bit_mask_iff)

lemma bit_bits_bf:
  "l \<le> f \<Longrightarrow> bit (bits_bf v f l) i \<longleftrightarrow> i \<le> f - l \<and> bit v (i + l)"
  by (auto simp: bits_bf_def bit_simps add.commute dest: bit_imp_le_length)

lemma bits_bf_eq: "l \<le> f \<Longrightarrow> bits_bf v f l = take_bit (f + 1 - l) (drop_bit l v)"
  by (simp add: bits_bf_def mask_bf_eq take_bit_eq_mask)

lemma bit_mbits: "bit (mbits v f l) i \<longleftrightarrow> l \<le> i \<and> i \<le> f \<and> bit v i"
  by (auto simp: mbits_def bit_simps dest: bit_imp_le_length)

lemma bit_insertBits:
  "l \<le> f \<Longrightarrow> bit (insertBits v f l x) i \<longleftrightarrow> i < 64 \<and> (if l \<le> i \<and> i \<le> f then bit x (i - l) else bit v i)"
  by (auto simp: insertBits_def Let_def bit_simps dest: bit_imp_le_length)

lemma bit_sext:
  "0 < N \<Longrightarrow> bit (sext N v) i \<longleftrightarrow> i < 64 \<and> (bit v i \<or> (N \<le> i \<and> bit v (N - 1)))"
proof -
  assume N: "0 < N"
  have "bits_bf v (N - 1) (N - 1) \<noteq> 0 \<longleftrightarrow> bit v (N - 1)"
    using bit_bits_bf [of "N - 1" "N - 1" v 0] bit_bits_bf [of "N - 1" "N - 1" v]
    by (metis bit_0_eq bot_apply cancel_comm_monoid_add_class.diff_cancel bit_eqI le_zero_eq add_0 bot_bool_def le_refl)
  then show ?thesis by (auto simp: sext_def bit_simps dest: bit_imp_le_length)
qed


text \<open>What \<open>insertBits\<close> writes, \<open>bits\<close> reads, and the rest is untouched.\<close>

lemma bits_insertBits:
  assumes "l \<le> f" and "f < 64"
  shows "bits_bf (insertBits v f l x) f l = take_bit (f + 1 - l) x"
    and "i < l \<or> f < i \<Longrightarrow> bit (insertBits v f l x) i = bit v i"
proof -
  show "bits_bf (insertBits v f l x) f l = take_bit (f + 1 - l) x"
    by (rule bit_eqI) (use assms in \<open>auto simp: bit_bits_bf bit_insertBits bit_simps\<close>)
  show "i < l \<or> f < i \<Longrightarrow> bit (insertBits v f l x) i = bit v i"
    using assms by (auto simp: bit_insertBits dest: bit_imp_le_length)
qed

subsection \<open>The extreme set bits\<close>

definition is_msb :: "u64 \<Rightarrow> nat \<Rightarrow> bool" where
  "is_msb v n \<longleftrightarrow> bit v n \<and> (\<forall>j > n. \<not> bit v j)"

definition is_lsb :: "u64 \<Rightarrow> nat \<Rightarrow> bool" where
  "is_lsb v n \<longleftrightarrow> bit v n \<and> (\<forall>j < n. \<not> bit v j)"

lemma is_msb_unique: "is_msb v m \<Longrightarrow> is_msb v n \<Longrightarrow> m = n"
  unfolding is_msb_def by (metis linorder_neqE_nat)

lemma is_msb_shift: "is_msb (drop_bit k v) n \<longleftrightarrow> is_msb v (k + n)"
proof
  assume a: "is_msb (drop_bit k v) n"
  have "\<not> bit v j" if "j > k + n" for j
    using a that by (auto simp: is_msb_def bit_simps dest: spec [of _ "j - k"])
  with a show "is_msb v (k + n)" by (auto simp: is_msb_def bit_simps add.commute)
qed (auto simp: is_msb_def bit_simps add.commute)

lemma is_lsb_shift: "take_bit k v = 0 \<Longrightarrow> is_lsb (drop_bit k v) n \<longleftrightarrow> is_lsb v (k + n)"
proof -
  assume z: "take_bit k v = 0"
  have "\<not> bit v j" if "j < k" for j
    using z that by (metis bit_take_bit_iff bit_0_eq bot_apply bot_bool_def)
  then have "(\<forall>j < k + n. \<not> bit v j) \<longleftrightarrow> (\<forall>j < n. \<not> bit v (k + j))"
    by (metis add_less_cancel_left le_iff_add not_le_imp_less)
  then show ?thesis by (simp add: is_lsb_def bit_simps)
qed

text \<open>A word below \<open>2^k\<close> has no set bit from \<open>k\<close> on; one halving step of each search.\<close>

definition low :: "nat \<Rightarrow> u64 \<Rightarrow> bool" where
  "low k v \<longleftrightarrow> take_bit k v = v"

lemma bits_bf_low: "low (f + 1) v \<Longrightarrow> l \<le> f \<Longrightarrow> bits_bf v f l = drop_bit l v"
  unfolding low_def by (metis bits_bf_eq drop_bit_take_bit)

lemma low_step:
  "low (2 * k) v \<Longrightarrow> low k (if bits_bf v (2 * k - 1) k \<noteq> 0 then drop_bit k v else v)" if "0 < k"
proof -
  assume l: "low (2 * k) v"
  then have "bits_bf v (2 * k - 1) k = drop_bit k v" using that by (simp add: bits_bf_low)
  moreover have "take_bit k (drop_bit k v) = drop_bit k v"
    using l unfolding low_def by (metis add_diff_cancel_right' drop_bit_take_bit mult_2)
  moreover have "drop_bit k v = 0 \<Longrightarrow> take_bit k v = v"
    by (metis bits_ident add_0 push_bit_of_0)
  ultimately show ?thesis by (simp add: low_def)
qed

definition msb_step :: "nat \<Rightarrow> int \<times> u64 \<Rightarrow> int \<times> u64" where
  "msb_step k p = (if bits_bf (snd p) (2 * k - 1) k \<noteq> 0 then (fst p + int k, drop_bit k (snd p)) else p)"

definition msb_inv :: "u64 \<Rightarrow> nat \<Rightarrow> int \<times> u64 \<Rightarrow> bool" where
  "msb_inv v0 k p \<longleftrightarrow> low k (snd p) \<and> snd p \<noteq> 0 \<and>
     (\<exists>d. fst p = int d \<and> (\<forall>n. is_msb (snd p) n \<longrightarrow> is_msb v0 (d + n)))"

lemma msb_step_inv:
  assumes "0 < k" and "msb_inv v0 (2 * k) p"
  shows "msb_inv v0 k (msb_step k p)"
proof -
  obtain d where d: "low (2 * k) (snd p)" "snd p \<noteq> 0" "fst p = int d" "\<forall>n. is_msb (snd p) n \<longrightarrow> is_msb v0 (d + n)"
    using assms(2) by (auto simp: msb_inv_def)
  have b: "bits_bf (snd p) (2 * k - 1) k = drop_bit k (snd p)"
    using d(1) assms(1) by (simp add: bits_bf_low)
  have l: "low k (if bits_bf (snd p) (2 * k - 1) k \<noteq> 0 then drop_bit k (snd p) else snd p)"
    using low_step [OF assms(1) d(1)] .
  show ?thesis
  proof (cases "drop_bit k (snd p) = 0")
    case True
    then show ?thesis using d l b by (auto simp: msb_step_def msb_inv_def)
  next
    case False
    have "is_msb v0 (d + k + n)" if "is_msb (drop_bit k (snd p)) n" for n
      using d(4) that by (simp add: is_msb_shift add.assoc)
    then show ?thesis using d(3) l b False
      by (auto simp: msb_step_def msb_inv_def intro!: exI [of _ "d + k"])
  qed
qed

lemma msb_steps_correct:
  assumes "v \<noteq> 0"
  defines "p \<equiv> msb_step 1 (msb_step 2 (msb_step 4 (msb_step 8 (msb_step 16 (msb_step 32 (0, v))))))"
  shows "0 \<le> fst p \<and> is_msb v (nat (fst p))"
proof -
  have "take_bit 64 v = v" by (rule bit_eqI) (auto simp: bit_simps dest: bit_imp_le_length)
  then have "low 64 v" by (simp add: low_def)
  then have "msb_inv v (2 * 32) (0, v)" using assms(1) by (auto simp: msb_inv_def intro: exI [of _ 0])
  from msb_step_inv [OF _ this] have "msb_inv v (2 * 16) (msb_step 32 (0, v))" by simp
  from msb_step_inv [OF _ this] have "msb_inv v (2 * 8) (msb_step 16 (msb_step 32 (0, v)))" by simp
  from msb_step_inv [OF _ this] have "msb_inv v (2 * 4) (msb_step 8 (msb_step 16 (msb_step 32 (0, v))))" by simp
  from msb_step_inv [OF _ this]
  have "msb_inv v (2 * 2) (msb_step 4 (msb_step 8 (msb_step 16 (msb_step 32 (0, v)))))" by simp
  from msb_step_inv [OF _ this]
  have "msb_inv v (2 * 1) (msb_step 2 (msb_step 4 (msb_step 8 (msb_step 16 (msb_step 32 (0, v))))))" by simp
  from msb_step_inv [OF _ this] have i: "msb_inv v 1 p" by (simp add: p_def)
  then have "take_bit 1 (snd p) = snd p" "snd p \<noteq> 0" by (simp_all add: msb_inv_def low_def)
  then have "\<not> bit (snd p) j" if "j > 0" for j using that by (metis bit_take_bit_iff less_one not_less_zero)
  moreover obtain n where "bit (snd p) n" using \<open>snd p \<noteq> 0\<close> by (auto simp: bit_eq_iff)
  ultimately have "is_msb (snd p) 0" by (metis gr0I is_msb_def)
  with i show ?thesis by (auto simp: msb_inv_def)
qed

lemma msb_step_simps:
  "(if bits_bf v 63 32 \<noteq> 0 then (m + 32, drop_bit 32 v) else (m, v)) = msb_step 32 (m, v)"
  "(if bits_bf v 31 16 \<noteq> 0 then (m + 16, drop_bit 16 v) else (m, v)) = msb_step 16 (m, v)"
  "(if bits_bf v 15 8 \<noteq> 0 then (m + 8, drop_bit 8 v) else (m, v)) = msb_step 8 (m, v)"
  "(if bits_bf v 7 4 \<noteq> 0 then (m + 4, drop_bit 4 v) else (m, v)) = msb_step 4 (m, v)"
  "(if bits_bf v 3 2 \<noteq> 0 then (m + 2, drop_bit 2 v) else (m, v)) = msb_step 2 (m, v)"
  "(if bits_bf v 1 1 \<noteq> 0 then m + 1 else m) = fst (msb_step 1 (m, v))"
  by (simp_all add: msb_step_def)

lemma case_step:
  "(case p of (m, v) \<Rightarrow> case f (m, v) of (a, b) \<Rightarrow> g a b) = (case f p of (a, b) \<Rightarrow> g a b)"
  "(case p of (m, v) \<Rightarrow> fst (f (m, v))) = fst (f p)"
  "(case p of (m, v) \<Rightarrow> Inr (fst (f (m, v)))) = Inr (fst (f p))"
  by (simp_all add: split_beta)

lemma findMsbSet_steps:
  "v \<noteq> 0 \<Longrightarrow> findMsbSet v =
     fst (msb_step 1 (msb_step 2 (msb_step 4 (msb_step 8 (msb_step 16 (msb_step 32 (0, v)))))))"
  by (simp only: findMsbSet_def msb_step_simps Let_def prod.case case_step if_False)
     (simp add: split_beta)

lemma field_test: "l \<le> f \<Longrightarrow> (v AND push_bit l (mask_bf (f + 1 - l)) \<noteq> 0) = (bits_bf v f l \<noteq> 0)"
proof -
  assume lf: "l \<le> f"
  have "v AND push_bit l (mask_bf (f + 1 - l)) = push_bit l (bits_bf v f l)"
    by (rule bit_eqI) (use lf in \<open>auto simp: bit_simps bits_bf_def Let_def\<close>)
  moreover have "drop_bit l (push_bit l (bits_bf v f l)) = bits_bf v f l"
    by (rule bit_eqI) (use lf in \<open>auto simp: bit_simps bits_bf_def Let_def dest: bit_imp_le_length\<close>)
  ultimately show ?thesis by (metis drop_bit_of_0 push_bit_of_0)
qed

lemma floorLog2_masks:
  "(v AND 0xffffffff00000000 \<noteq> 0) = (bits_bf v 63 32 \<noteq> 0)" "(v AND 0x00000000ffff0000 \<noteq> 0) = (bits_bf v 31 16 \<noteq> 0)"
  "(v AND 0x000000000000ff00 \<noteq> 0) = (bits_bf v 15 8 \<noteq> 0)" "(v AND 0x00000000000000f0 \<noteq> 0) = (bits_bf v 7 4 \<noteq> 0)"
  "(v AND 0x000000000000000c \<noteq> 0) = (bits_bf v 3 2 \<noteq> 0)" "(v AND 0x0000000000000002 \<noteq> 0) = (bits_bf v 1 1 \<noteq> 0)"
  using field_test [of 32 63 v] field_test [of 16 31 v] field_test [of 8 15 v]
    field_test [of 4 7 v] field_test [of 2 3 v] field_test [of 1 1 v]
  by (simp_all add: mask_bf_def push_bit_eq_mult)

lemma floorLog2_steps:
  "v \<noteq> 0 \<Longrightarrow> floorLog2 v =
     Inr (fst (msb_step 1 (msb_step 2 (msb_step 4 (msb_step 8 (msb_step 16 (msb_step 32 (0, v))))))))"
  by (simp only: floorLog2_def floorLog2_masks msb_step_simps Let_def prod.case case_step word_gt_0 not_not if_False)
     (simp add: split_beta)

lemma floorLog2_findMsbSet: "x \<noteq> 0 \<Longrightarrow> floorLog2 x = Inr (findMsbSet x)"
  by (simp add: floorLog2_steps findMsbSet_steps)

lemma is_msb_bounds: "is_msb v n \<longleftrightarrow> 2 ^ n \<le> unat v \<and> unat v < 2 ^ Suc n"
proof -
  have b: "bit v j = bit (unat v) j" for j by (simp add: bit_unsigned_iff)
  have "unat v < 2 ^ Suc n \<longleftrightarrow> take_bit (Suc n) (unat v) = unat v"
    by (simp add: take_bit_nat_eq_self_iff)
  also have "\<dots> \<longleftrightarrow> (\<forall>j > n. \<not> bit v j)"
    by (simp add: bit_eq_iff bit_take_bit_iff b) (metis less_Suc_eq_le linorder_not_le)
  finally have u: "unat v < 2 ^ Suc n \<longleftrightarrow> (\<forall>j > n. \<not> bit v j)" .
  have "bit v n \<longleftrightarrow> 2 ^ n \<le> unat v" if "unat v < 2 ^ Suc n"
  proof -
    have "unat v div 2 ^ n < 2" using that by (simp add: less_mult_imp_div_less)
    then have "odd (unat v div 2 ^ n) \<longleftrightarrow> unat v div 2 ^ n \<noteq> 0" by (auto simp: less_2_cases_iff)
    then show ?thesis unfolding b by (simp add: bit_iff_odd div_eq_0_iff not_less)
  qed
  with u show ?thesis by (auto simp: is_msb_def)
qed

subsection \<open>The lowest set bit\<close>

definition lsb_step :: "nat \<Rightarrow> int \<times> u64 \<Rightarrow> int \<times> u64" where
  "lsb_step k p = (if bits_bf (snd p) (k - 1) 0 = 0 then (fst p + int k, drop_bit k (snd p)) else p)"

definition lsb_inv :: "u64 \<Rightarrow> nat \<Rightarrow> int \<times> u64 \<Rightarrow> bool" where
  "lsb_inv v0 k p \<longleftrightarrow> take_bit k (snd p) \<noteq> 0 \<and>
     (\<exists>d. fst p = int d \<and> (\<forall>n. is_lsb (snd p) n \<longrightarrow> is_lsb v0 (d + n)))"

lemma lsb_step_inv:
  assumes "0 < k" and "lsb_inv v0 (2 * k) p"
  shows "lsb_inv v0 k (lsb_step k p)"
proof -
  obtain d where d: "take_bit (2 * k) (snd p) \<noteq> 0" "fst p = int d" "\<forall>n. is_lsb (snd p) n \<longrightarrow> is_lsb v0 (d + n)"
    using assms(2) by (auto simp: lsb_inv_def)
  have b: "bits_bf (snd p) (k - 1) 0 = take_bit k (snd p)" using assms(1) by (simp add: bits_bf_eq)
  show ?thesis
  proof (cases "take_bit k (snd p) = 0")
    case True
    have "take_bit (2 * k) (snd p) = push_bit k (take_bit k (drop_bit k (snd p))) OR take_bit k (snd p)"
      by (rule bit_eqI) (auto simp: bit_simps)
    with True d(1) have "take_bit k (drop_bit k (snd p)) \<noteq> 0" by auto
    moreover have "is_lsb v0 (d + k + n)" if "is_lsb (drop_bit k (snd p)) n" for n
      using d(3) that True by (simp add: is_lsb_shift add.assoc)
    ultimately show ?thesis using d(2) b True
      by (auto simp: lsb_step_def lsb_inv_def intro!: exI [of _ "d + k"])
  qed (use d b in \<open>auto simp: lsb_step_def lsb_inv_def\<close>)
qed

lemma lsb_step_simps:
  "(if bits_bf v 31 0 = 0 then (m + 32, drop_bit 32 v) else (m, v)) = lsb_step 32 (m, v)"
  "(if bits_bf v 15 0 = 0 then (m + 16, drop_bit 16 v) else (m, v)) = lsb_step 16 (m, v)"
  "(if bits_bf v 7 0 = 0 then (m + 8, drop_bit 8 v) else (m, v)) = lsb_step 8 (m, v)"
  "(if bits_bf v 3 0 = 0 then (m + 4, drop_bit 4 v) else (m, v)) = lsb_step 4 (m, v)"
  "(if bits_bf v 1 0 = 0 then (m + 2, drop_bit 2 v) else (m, v)) = lsb_step 2 (m, v)"
  "(if bits_bf v 0 0 = 0 then m + 1 else m) = fst (lsb_step 1 (m, v))"
  by (simp_all add: lsb_step_def)

lemma findLsbSet_steps:
  "v \<noteq> 0 \<Longrightarrow> findLsbSet v =
     fst (lsb_step 1 (lsb_step 2 (lsb_step 4 (lsb_step 8 (lsb_step 16 (lsb_step 32 (0, v)))))))"
  by (simp only: findLsbSet_def lsb_step_simps Let_def prod.case case_step if_False)
     (simp add: split_beta)

lemma findLsbSet_correct:
  assumes "v \<noteq> 0"
  shows "0 \<le> findLsbSet v \<and> is_lsb v (nat (findLsbSet v))"
proof -
  let ?p = "lsb_step 1 (lsb_step 2 (lsb_step 4 (lsb_step 8 (lsb_step 16 (lsb_step 32 (0, v))))))"
  have "take_bit 64 v = v" by (rule bit_eqI) (auto simp: bit_simps dest: bit_imp_le_length)
  then have "lsb_inv v (2 * 32) (0, v)" using assms by (auto simp: lsb_inv_def intro: exI [of _ 0])
  from lsb_step_inv [OF _ this] have "lsb_inv v (2 * 16) (lsb_step 32 (0, v))" by simp
  from lsb_step_inv [OF _ this] have "lsb_inv v (2 * 8) (lsb_step 16 (lsb_step 32 (0, v)))" by simp
  from lsb_step_inv [OF _ this] have "lsb_inv v (2 * 4) (lsb_step 8 (lsb_step 16 (lsb_step 32 (0, v))))" by simp
  from lsb_step_inv [OF _ this]
  have "lsb_inv v (2 * 2) (lsb_step 4 (lsb_step 8 (lsb_step 16 (lsb_step 32 (0, v)))))" by simp
  from lsb_step_inv [OF _ this]
  have "lsb_inv v (2 * 1) (lsb_step 2 (lsb_step 4 (lsb_step 8 (lsb_step 16 (lsb_step 32 (0, v))))))" by simp
  from lsb_step_inv [OF _ this] have i: "lsb_inv v 1 ?p" by simp
  then have "take_bit 1 (snd ?p) \<noteq> 0" by (simp add: lsb_inv_def)
  then have "is_lsb (snd ?p) 0"
    by (auto simp: is_lsb_def bit_0 take_bit_Suc odd_iff_mod_2_eq_one)
  with i have "0 \<le> fst ?p \<and> is_lsb v (nat (fst ?p))" by (auto simp: lsb_inv_def)
  then show ?thesis by (simp only: findLsbSet_steps [OF assms])
qed

subsection \<open>Mirroring\<close>

text \<open>The table doubles with every bit: index bit \<open>k\<close> is output bit \<open>7 - k\<close>.\<close>

primrec reverse_table :: "nat \<Rightarrow> u8 list" where
  "reverse_table 0 = [0]"
| "reverse_table (Suc k) = reverse_table k @ map (\<lambda>x. x + push_bit (7 - k) 1) (reverse_table k)"

lemma reverseLookUpTable_eq: "reverseLookUpTable = reverse_table 8"
proof -
  have "reverse_table 2 = [0x00, 0x80, 0x40, 0xC0]" by (simp add: numeral_2_eq_2)
  then have "reverse_table 3 = [0x00, 0x80, 0x40, 0xC0, 0x20, 0xA0, 0x60, 0xE0]"
    using reverse_table.simps(2) [of 2] by simp
  then have "reverse_table 4 = [0x00, 0x80, 0x40, 0xC0, 0x20, 0xA0, 0x60, 0xE0, 0x10, 0x90, 0x50, 0xD0,
     0x30, 0xB0, 0x70, 0xF0]" (is "_ = ?t4")
    using reverse_table.simps(2) [of 3] by simp
  moreover have "reverse_table 5 = reverse_table 4 @ map (\<lambda>x. x + 8) (reverse_table 4)"
    using reverse_table.simps(2) [of 4] by simp
  moreover have "reverse_table 6 = reverse_table 5 @ map (\<lambda>x. x + 4) (reverse_table 5)"
    using reverse_table.simps(2) [of 5] by simp
  moreover have "reverse_table 7 = reverse_table 6 @ map (\<lambda>x. x + 2) (reverse_table 6)"
    using reverse_table.simps(2) [of 6] by simp
  moreover have "reverse_table 8 = reverse_table 7 @ map (\<lambda>x. x + 1) (reverse_table 7)"
    using reverse_table.simps(2) [of 7] by simp
  ultimately show ?thesis by (simp add: reverseLookUpTable_def)
qed

lemma length_reverse_table [simp]: "length (reverse_table k) = 2 ^ k"
  by (induction k) auto

lemma reverse_table_bit:
  "k \<le> 8 \<Longrightarrow> b < 2 ^ k \<Longrightarrow> bit (reverse_table k ! b) i \<longleftrightarrow> i < 8 \<and> bit b (7 - i)"
proof (induction k arbitrary: b i)
  case (Suc k)
  have lt: "bit (reverse_table k ! c) i \<longleftrightarrow> i < 8 \<and> bit c (7 - i)" if "c < 2 ^ k" for c i
    using Suc.IH [OF _ that] Suc.prems(1) by simp
  show ?case
  proof (cases "b < 2 ^ k")
    case True
    then show ?thesis using lt by (simp add: nth_append)
  next
    case False
    define c where "c = b - 2 ^ k"
    have c: "c < 2 ^ k" "b = c + 2 ^ k" using False Suc.prems(2) by (auto simp: c_def)
    have nb: "\<not> bit c k" using c(1) by (simp add: bit_iff_odd)
    have "\<not> bit (reverse_table k ! c) (7 - k)" using lt [OF c(1)] nb Suc.prems(1) by auto
    then have "reverse_table k ! c + push_bit (7 - k) 1 = reverse_table k ! c OR push_bit (7 - k) 1"
      by (intro disjunctive_add) (auto simp: bit_simps)
    then have e: "reverse_table (Suc k) ! b = reverse_table k ! c OR push_bit (7 - k) 1"
      using c by (simp add: nth_append)
    have "c + push_bit k 1 = c OR push_bit k 1"
      using nb by (intro disjunctive_add) (auto simp: bit_push_bit_iff bit_1_iff bit_exp_iff)
    then have b: "bit b j \<longleftrightarrow> bit c j \<or> j = k" for j
      using c(2) by (auto simp: push_bit_eq_mult bit_or_iff bit_exp_iff)
    have "bit (push_bit (7 - k) 1 :: u8) i \<longleftrightarrow> i = 7 - k"
      by (auto simp: bit_exp_iff)
    moreover have "i < 8 \<Longrightarrow> i = 7 - k \<longleftrightarrow> 7 - i = k" using Suc.prems(1) by auto
    moreover have "7 - k < 8" by simp
    ultimately show ?thesis unfolding e b bit_or_iff lt [OF c(1)] by blast
  qed
qed simp

lemma reverse_byte: "b < 256 \<Longrightarrow> bit (reverseLookUpTable ! b) i \<longleftrightarrow> i < 8 \<and> bit b (7 - i)"
  using reverse_table_bit [of 8 b] by (simp add: reverseLookUpTable_eq)

lemma reverse_loop_bit:
  "i < 64 \<Longrightarrow> bit (reverse_loop n v out) i \<longleftrightarrow>
     (if i < 8 * n then bit v (8 * n - 1 - i) else bit out (i - 8 * n))"
proof (induction n v out rule: reverse_loop.induct)
  case (2 n v out)
  let ?out = "push_bit 8 out OR ucast (reverseLookUpTable ! unat (v AND 0xFF))"
  have "v AND 0xFF = take_bit 8 v" by (simp add: take_bit_eq_mask mask_eq_exp_minus_1)
  then have "unat (v AND 0xFF) = take_bit 8 (unat v)" by (simp only: unsigned_take_bit_eq)
  then have u: "unat (v AND 0xFF) < 256" "\<And>i. bit (unat (v AND 0xFF)) i \<longleftrightarrow> i < 8 \<and> bit v i"
    using take_bit_nat_less_exp [of 8 "unat v"] by (simp_all add: bit_take_bit_iff bit_unsigned_iff)
  have o: "bit ?out j \<longleftrightarrow> (if j < 8 then bit v (7 - j) else bit out (j - 8))" if "j < 64" for j
    using that reverse_byte [OF u(1), of j] u(2) [of "7 - j"] by (auto simp: bit_simps)
  show ?case
  proof (cases "i < 8 * n")
    case True
    moreover have "8 + (8 * n - Suc i) = 8 * Suc n - Suc i" using True by simp
    ultimately show ?thesis using "2.IH" [OF "2.prems"] by (simp add: bit_simps)
  next
    case False
    moreover have "7 - (i - 8 * n) = 8 * Suc n - Suc i" "i - 8 * n - 8 = i - 8 * Suc n" using False by auto
    ultimately show ?thesis using "2.IH" [OF "2.prems"] o [of "i - 8 * n"] "2.prems" by auto
  qed
qed simp

lemma reverseBits_mirror:
  "n \<le> 8 \<Longrightarrow> succeeds (reverseBits v n) (\<lambda>w. \<forall>i. bit w i \<longleftrightarrow> i < 8 * n \<and> bit v (8 * n - 1 - i))"
proof -
  assume n: "n \<le> 8"
  have "bit (reverse_loop n v 0) i \<longleftrightarrow> i < 8 * n \<and> bit v (8 * n - 1 - i)" for i
  proof (cases "i < 64")
    case True
    then show ?thesis using reverse_loop_bit [of i n v 0] by auto
  next
    case False
    then show ?thesis using n by (auto dest: bit_imp_le_length)
  qed
  then show ?thesis using n by (simp add: reverseBits_def)
qed

subsection \<open>Rounding to a power of two\<close>

lemma ex_less_double: "(\<exists>d < 2 * k. P d) \<longleftrightarrow> (\<exists>d < k. P d) \<or> (\<exists>d < k. P (k + d))" for k :: nat
proof
  assume "\<exists>d < 2 * k. P d"
  then obtain d where d: "d < 2 * k" "P d" by blast
  show "(\<exists>d < k. P d) \<or> (\<exists>d < k. P (k + d))"
  proof (cases "d < k")
    case False
    then have "d - k < k" "P (k + (d - k))" using d by auto
    then show ?thesis by blast
  qed (use d in blast)
next
  assume "(\<exists>d < k. P d) \<or> (\<exists>d < k. P (k + d))"
  then obtain d where "d < k" "P d \<or> P (k + d)" by blast
  then have "d < 2 * k \<and> k + d < 2 * k" by simp
  with \<open>P d \<or> P (k + d)\<close> show "\<exists>d < 2 * k. P d" by blast
qed

lemma smear_step:
  assumes "\<And>i. bit w i \<longleftrightarrow> (\<exists>d < k. bit (v :: u64) (i + d))"
  shows "bit (w OR drop_bit k w) i \<longleftrightarrow> (\<exists>d < 2 * k. bit v (i + d))"
  by (simp only: bit_or_iff bit_drop_bit_eq comp_def assms ex_less_double) (simp add: ac_simps)

lemma smear_mask:
  assumes "is_msb v m" and "m < k" and "\<And>i. bit (w :: u64) i \<longleftrightarrow> (\<exists>d < k. bit v (i + d))"
  shows "w = mask (Suc m)"
proof (rule bit_word_eqI)
  fix i assume "i < LENGTH(64)"
  have "bit w i \<longleftrightarrow> i \<le> m"
  proof
    assume "bit w i"
    then show "i \<le> m" using assms(1,3) by (metis is_msb_def le_add1 linorder_not_le order_trans)
  next
    assume "i \<le> m"
    then have "m - i < k" "bit v (i + (m - i))" using assms(1,2) by (auto simp: is_msb_def)
    then show "bit w i" using assms(3) by blast
  qed
  with \<open>i < LENGTH(64)\<close> show "bit w i = bit (mask (Suc m) :: u64) i" by (simp add: bit_mask_iff less_Suc_eq_le)
qed

lemma alignToPowerOfTwo_msb:
  assumes "is_msb (v - 1) m"
  shows "alignToPowerOfTwo v = 2 ^ Suc m"
proof -
  let ?v = "v - 1"
  have s1: "bit ?v i \<longleftrightarrow> (\<exists>d < 1. bit ?v (i + d))" for i by simp
  note s2 = smear_step [OF s1, simplified]
  note s4 = smear_step [OF s2, simplified]
  note s8 = smear_step [OF s4, simplified]
  note s16 = smear_step [OF s8, simplified]
  note s32 = smear_step [OF s16, simplified]
  note s64 = smear_step [OF s32, simplified]
  have "m < 64" using assms by (auto simp: is_msb_def dest: bit_imp_le_length)
  from smear_mask [OF assms this s64] show ?thesis
    unfolding alignToPowerOfTwo_def Let_def by (simp only: mask_eq_exp_minus_1) simp
qed

subsection \<open>Powers of two\<close>

lemma nat_pow2_test: "0 < n \<Longrightarrow> n AND (n - 1) = 0 \<longleftrightarrow> (\<exists>k. n = 2 ^ k)" for n :: nat
proof (induction n rule: less_induct)
  case (less n)
  define m where "m = n div 2"
  show ?case
  proof (cases "even n")
    case True
    then have n: "n = 2 * m" "0 < m" "m < n" using less.prems by (auto simp: m_def)
    then have "n - 1 = 2 * (m - 1) + 1" by simp
    then have "n AND (n - 1) = 2 * (m AND (m - 1))" using n(1) by (subst and_rec) simp
    moreover have "(\<exists>k. m = 2 ^ k) \<longleftrightarrow> (\<exists>k. n = 2 ^ k)"
    proof
      assume "\<exists>k. n = 2 ^ k"
      then obtain k where k: "n = 2 ^ k" by blast
      then have "k \<noteq> 0" using n by (cases k) auto
      then show "\<exists>k. m = 2 ^ k" using k n(1) by (cases k) auto
    qed (use n(1) in \<open>auto intro: exI [of _ "Suc _"]\<close>)
    ultimately show ?thesis using less.IH [OF n(3,2)] by simp
  next
    case False
    then have n: "n = 2 * m + 1" by (simp add: m_def)
    then have "n AND (n - 1) = 2 * m" by (subst and_rec) simp
    moreover have "(\<exists>k. n = 2 ^ k) \<longleftrightarrow> n = 1" using False by (metis even_power power_0 gr0I dvd_refl)
    ultimately show ?thesis using n by simp
  qed
qed

lemma isPowerOf2_iff: "isPowerOf2 n \<longleftrightarrow> (\<exists>k < 64. n = 2 ^ k)"
proof (cases "n = 0")
  case True
  have "(2 :: u64) ^ k \<noteq> 0" if "k < 64" for k using that by simp
  with True show ?thesis by (auto simp: isPowerOf2_def)
next
  case False
  then have n: "0 < unat n" "unat (n - 1) = unat n - 1" by (auto simp: unat_gt_0 word_dec_pos)
  have "n AND (n - 1) = 0 \<longleftrightarrow> unat n AND (unat n - 1) = 0"
    unfolding n(2) [symmetric] by (simp add: unsigned_and_eq flip: unat_eq_zero)
  also have "\<dots> \<longleftrightarrow> (\<exists>k. unat n = 2 ^ k)" by (rule nat_pow2_test [OF n(1)])
  also have "\<dots> \<longleftrightarrow> (\<exists>k < 64. n = 2 ^ k)"
  proof
    assume "\<exists>k. unat n = 2 ^ k"
    then obtain k where k: "unat n = 2 ^ k" by blast
    then have "(2::nat) ^ k < 2 ^ 64" using unat_less_2p64 [of n] by simp
    then have "k < 64" by (rule power_less_imp_less_exp [rotated]) simp
    moreover from this have "n = 2 ^ k" using k by (simp add: word_unat_eq_iff unat_2p)
    ultimately show "\<exists>k < 64. n = 2 ^ k" by blast
  qed (auto simp: unat_2p)
  finally show ?thesis using False by (simp add: isPowerOf2_def)
qed

lemma unat_and_not_ones:
  "k < 64 \<Longrightarrow> unat (x AND NOT (2 ^ k - 1) :: u64) = unat x div 2 ^ k * 2 ^ k"
proof -
  assume "k < 64"
  have "x AND NOT (2 ^ k - 1) = push_bit k (drop_bit k x)"
    by (rule bit_eqI) (auto simp: bit_simps simp flip: mask_eq_exp_minus_1)
  moreover have "unat x div 2 ^ k * 2 ^ k < 2 ^ 64"
    using unat_less_2p64 [of x] by (metis div_times_less_eq_dividend order_le_less_trans)
  ultimately show ?thesis
    by (simp only: unsigned_push_bit_eq unat_drop_bit_eq)
       (simp add: take_bit_nat_eq_self push_bit_eq_mult drop_bit_eq_div)
qed

lemma roundDown_nat:
  assumes "isPowerOf2 a"
  shows "succeeds (roundDown v a) (\<lambda>w. unat w = unat v div unat a * unat a)"
proof -
  obtain k where "k < 64" "a = 2 ^ k" using assms by (auto simp: isPowerOf2_iff)
  then show ?thesis using assms by (simp add: roundDown_def unat_and_not_ones unat_2p)
qed

lemma roundUp_nat:
  assumes "isPowerOf2 a" and "unat v + (unat a - 1) < 2 ^ 64"
  shows "succeeds (roundUp v a) (\<lambda>w. unat w = (unat v + (unat a - 1)) div unat a * unat a)"
proof -
  obtain k where k: "k < 64" "a = 2 ^ k" using assms by (auto simp: isPowerOf2_iff)
  have "a \<noteq> 0" using assms(1) by (simp add: isPowerOf2_def)
  then have "unat (v + (a - 1)) = unat v + (unat a - 1)"
    using assms(2) by (subst unat_plus_if') (simp add: word_dec_pos)
  then have "unat ((v + (a - 1)) AND NOT (a - 1)) = (unat v + (unat a - 1)) div unat a * unat a"
    by (simp only: k(2) unat_and_not_ones [OF k(1)]) (simp add: unat_2p k(1))
  then show ?thesis using assms(1) by (simp add: roundUp_def Let_def)
qed

lemma power_loop_eq: "power_loop e c r = r * c ^ unat e"
proof (induction e c r rule: power_loop.induct)
  case (1 e c r)
  show ?case
  proof (cases "e = 0")
    case False
    define n where "n = unat e div 2"
    have n: "unat (drop_bit 1 e) = n" by (simp only: unat_drop_bit_eq n_def) (simp add: drop_bit_eq_div)
    have odd: "e AND 1 \<noteq> 0 \<longleftrightarrow> odd (unat e)"
      by (simp add: and_one_eq bit_unsigned_iff mod_2_eq_odd flip: bit_0)
    have "(c * c) ^ n = c ^ (2 * n)" by (simp add: power_mult power2_eq_square)
    moreover have "unat e = (if odd (unat e) then Suc (2 * n) else 2 * n)" by (simp add: n_def)
    ultimately have "c ^ unat e = (if odd (unat e) then c else 1) * (c * c) ^ n"
      by (cases "odd (unat e)") simp_all
    moreover have "power_loop e c r =
        power_loop (drop_bit 1 e) (c * c) (if e AND 1 \<noteq> 0 then r * c else r)"
      using False by (simp add: power_loop.simps [of e])
    ultimately show ?thesis using "1.IH" [OF False] odd by (simp only: n) (simp add: mult.assoc)
  qed (simp add: power_loop.simps)
qed

lemma power_im_modular: "power_im n e = ucast n ^ unat e"
  by (simp add: power_im_def power_loop_eq)

lemma ceilLog2_nat:
  assumes "1 < unat n"
  shows "succeeds (ceilLog2 n) (\<lambda>k. 0 < k \<and> 2 ^ (nat k - 1) < unat n \<and> unat n \<le> 2 ^ nat k)"
proof -
  have n: "n \<noteq> 0" "n \<noteq> 1" using assms by auto
  then have u: "unat (n - 1) = unat n - 1" "n - 1 \<noteq> 0" by (auto simp: word_dec_pos)
  then have "0 \<le> findMsbSet (n - 1)" "is_msb (n - 1) (nat (findMsbSet (n - 1)))"
    using msb_steps_correct [of "n - 1"] by (auto simp: findMsbSet_steps)
  then show ?thesis using n u assms
    by (auto simp: ceilLog2_def floorLog2_findMsbSet is_msb_bounds word_gt_0 nat_add_distrib)
qed

subsection \<open>Properties\<close>

text \<open>
  The binary searches find the extreme set bits: for every non-zero word, \<open>findMsbSet\<close> and \<open>floorLog2\<close>
  return the exponent of the greatest power of two below it, and \<open>findLsbSet\<close> the position of
  the lowest set bit.
\<close>

lemma bit_searches_correct:
  assumes "v \<noteq> 0"
  shows "\<exists>m l. findMsbSet v = int m \<and> floorLog2 v = Inr (int m) \<and> 2 ^ m \<le> unat v \<and> unat v < 2 ^ Suc m \<and>
           findLsbSet v = int l \<and> bit v l \<and> (\<forall>j < l. \<not> bit v j)"
proof -
  let ?m = "findMsbSet v" and ?l = "findLsbSet v"
  have m: "0 \<le> ?m" "is_msb v (nat ?m)"
    using msb_steps_correct [OF assms] by (auto simp: findMsbSet_steps [OF assms])
  moreover have "0 \<le> ?l" "is_lsb v (nat ?l)" using findLsbSet_correct [OF assms] by auto
  ultimately show ?thesis
    by (intro exI [of _ "nat ?m"] exI [of _ "nat ?l"])
       (simp add: floorLog2_findMsbSet [OF assms] is_msb_bounds is_lsb_def)
qed

text \<open>
  \<open>reverseBits\<close> mirrors the low \<open>size\<close> bytes bit by bit, for every size up to the width of the word,
  and mirroring twice gives back those bytes.
\<close>

lemma reverseBits_correct:
  assumes "n \<le> 8"
  shows "\<exists>w. reverseBits v n = Inr w \<and> (\<forall>i. bit w i \<longleftrightarrow> i < 8 * n \<and> bit v (8 * n - 1 - i)) \<and>
           reverseBits w n = Inr (take_bit (8 * n) v)"
proof -
  obtain w where w: "reverseBits v n = Inr w" "\<And>i. bit w i \<longleftrightarrow> i < 8 * n \<and> bit v (8 * n - 1 - i)"
    using reverseBits_mirror [OF assms, of v] by (auto elim: succeedsE)
  obtain x where x: "reverseBits w n = Inr x" "\<And>i. bit x i \<longleftrightarrow> i < 8 * n \<and> bit w (8 * n - 1 - i)"
    using reverseBits_mirror [OF assms, of w] by (auto elim: succeedsE)
  have "x = take_bit (8 * n) v" by (rule bit_eqI) (auto simp: x(2) w(2) bit_take_bit_iff)
  with w x(1) show ?thesis by blast
qed

text \<open>
  The alignment helpers are exact: for a power of two \<open>align\<close>, \<open>roundDown\<close> is the greatest multiple
  not above the value, and \<open>roundUp\<close> the least multiple not below it whenever adding \<open>align - 1\<close> does
  not wrap around.
\<close>

lemma rounding_exact:
  assumes "isPowerOf2 a"
  shows "(\<exists>d. roundDown v a = Inr d \<and> unat a dvd unat d \<and> unat d \<le> unat v \<and> unat v < unat d + unat a) \<and>
         (unat v + (unat a - 1) < 2 ^ 64 \<longrightarrow>
           (\<exists>u. roundUp v a = Inr u \<and> unat a dvd unat u \<and> unat v \<le> unat u \<and> unat u < unat v + unat a))"
proof (intro conjI impI)
  have a: "0 < unat a" using assms by (auto simp: isPowerOf2_def unat_gt_0)
  have b: "n div unat a * unat a \<le> n" "n < n div unat a * unat a + unat a" for n
    using a by (simp_all add: dividend_less_div_times add.commute)
  from roundDown_nat [OF assms, of v] b [of "unat v"]
  show "\<exists>d. roundDown v a = Inr d \<and> unat a dvd unat d \<and> unat d \<le> unat v \<and> unat v < unat d + unat a"
    by (auto elim!: succeedsE)
  assume "unat v + (unat a - 1) < 2 ^ 64"
  from roundUp_nat [OF assms this] obtain u where
    u: "roundUp v a = Inr u" "unat u = (unat v + (unat a - 1)) div unat a * unat a" by (auto elim: succeedsE)
  then have "unat v \<le> unat u" "unat u < unat v + unat a"
    using b [of "unat v + (unat a - 1)"] a by linarith+
  with u show "\<exists>u. roundUp v a = Inr u \<and> unat a dvd unat u \<and> unat v \<le> unat u \<and> unat u < unat v + unat a"
    by auto
qed

text \<open>
  \<open>alignToPowerOfTwo\<close> returns the least power of two not below its argument, for arguments from 2 to
  \<open>2^63\<close>; it returns 0 for 0 and 1 for 1.
\<close>

lemma alignToPowerOfTwo_least:
  "alignToPowerOfTwo 0 = 0 \<and> alignToPowerOfTwo 1 = 1 \<and>
   (2 \<le> unat v \<and> unat v \<le> 2 ^ 63 \<longrightarrow>
     (\<exists>k. unat (alignToPowerOfTwo v) = 2 ^ k \<and> unat v \<le> 2 ^ k \<and> (\<forall>j. unat v \<le> 2 ^ j \<longrightarrow> k \<le> j)))"
proof (intro conjI impI)
  show "alignToPowerOfTwo 0 = 0" "alignToPowerOfTwo 1 = 1" by (simp_all add: alignToPowerOfTwo_def)
  assume "2 \<le> unat v \<and> unat v \<le> 2 ^ 63"
  then have v: "2 \<le> unat v" "unat v \<le> 2 ^ 63" by auto
  then have n: "v \<noteq> 0" "v - 1 \<noteq> 0" by auto
  then have u: "unat (v - 1) = unat v - 1" by (simp add: word_dec_pos)
  obtain m where m: "is_msb (v - 1) m" using msb_steps_correct [OF n(2)] by blast
  then have mb: "2 ^ m \<le> unat v - 1" "unat v - 1 < 2 ^ Suc m" using u by (simp_all add: is_msb_bounds)
  then have "(2::nat) ^ m < 2 ^ 63" using v by linarith
  then have "m < 63" by (rule power_less_imp_less_exp [rotated]) simp
  then have "unat (alignToPowerOfTwo v) = 2 ^ Suc m"
    by (simp only: alignToPowerOfTwo_msb [OF m]) (rule unat_2p, simp)
  moreover have "Suc m \<le> j" if "unat v \<le> 2 ^ j" for j
  proof -
    have "(2::nat) ^ m < 2 ^ j" using mb(1) that v by linarith
    then show ?thesis by (simp add: Suc_le_eq)
  qed
  ultimately show "\<exists>k. unat (alignToPowerOfTwo v) = 2 ^ k \<and> unat v \<le> 2 ^ k \<and> (\<forall>j. unat v \<le> 2 ^ j \<longrightarrow> k \<le> j)"
    using mb(2) by (intro exI [of _ "Suc m"]) auto
qed

end
