(* ===== verification/Indexing.thy ===== *)
theory Indexing
  imports Bitfield ReplPolicy "HOL-Library.Signed_Division"
begin

text \<open>
  The indexing policies of the tag stores (\<open>mem/cache/tags/indexing_policies/\<close>): where the block of an
  address may live, which tag it carries, and how its address is regenerated from tag and position.
  Entries are identified by numbers; the objects behind them (\<open>ReplaceableEntry\<close> and its subclasses) are a
  heap from those numbers. The locale \<open>indexing_policy\<close> states what the tag stores
  rely on; the set associative and the skewed associative policy are instances of it.
\<close>

subsection \<open>Entries and the base class\<close>

record ReplaceableEntry =
  re_set :: u32
  re_way :: u32

type_synonym 'b entry_heap = "entry_id \<rightharpoonup> 'b ReplaceableEntry_scheme"

definition setPosition :: "u32 \<Rightarrow> u32 \<Rightarrow> 'b ReplaceableEntry_scheme \<Rightarrow> 'b ReplaceableEntry_scheme" where
  "setPosition s w e = e\<lparr>re_set := s, re_way := w\<rparr>"

definition getSet :: "'b ReplaceableEntry_scheme \<Rightarrow> u32" where
  "getSet e = re_set e"

definition getWay :: "'b ReplaceableEntry_scheme \<Rightarrow> u32" where
  "getWay e = re_way e"

record BaseIndexingPolicy =
  ip_assoc :: u32
  numSets :: u32
  setShift :: nat
  setMask :: u32
  ip_sets :: "entry_id option list list"
  tagShift :: nat

text \<open>
  The member initialisers run in declaration order, so the division comes before the checks of the
  body. \<open>entry_size\<close> is an \<open>int\<close> and \<open>assoc\<close> an \<open>unsigned\<close>: their product is a 32-bit one.
\<close>

definition BaseIndexingPolicy_new :: "u64 \<Rightarrow> u32 \<Rightarrow> u32 \<Rightarrow> BaseIndexingPolicy res" where
  "BaseIndexingPolicy_new sz entry_size assoc =
     (if entry_size * assoc = 0 then Inl DivByZero
      else
        let n = ucast (sz div ucast (entry_size * assoc)) :: u32 in
        rbind (if sint entry_size \<le> 0 then Inl AssertFailed else floorLog2 (ucast entry_size)) (\<lambda>ss.
        rbind (floorLog2 (ucast n)) (\<lambda>ns.
        if \<not> isPowerOf2 (ucast n) then Inl FatalError
        else if assoc \<le> 0 then Inl FatalError
        else Inr \<lparr>ip_assoc = assoc, numSets = n, setShift = nat ss, setMask = n - 1,
                  ip_sets = replicate (unat n) (replicate (unat assoc) None),
                  tagShift = nat (ss + ns)\<rparr>)))"

definition getEntry :: "'x BaseIndexingPolicy_scheme \<Rightarrow> u32 \<Rightarrow> u32 \<Rightarrow> entry_id option res" where
  "getEntry p s w =
     (if unat s < length (ip_sets p) \<and> unat w < length (ip_sets p ! unat s)
      then Inr (ip_sets p ! unat s ! unat w) else Inl OutOfRange)"

definition setEntry :: "'x BaseIndexingPolicy_scheme \<Rightarrow> 'b entry_heap \<Rightarrow> entry_id \<Rightarrow> u64 \<Rightarrow>
    ('x BaseIndexingPolicy_scheme \<times> 'b entry_heap) res" where
  "setEntry p h entry index =
     (if ip_assoc p = 0 then Inl DivByZero
      else
        let quot = sint index sdiv uint (ip_assoc p);
            rem = sint index smod uint (ip_assoc p);
            s = word_of_int quot :: u32;
            w = word_of_int rem :: u32
        in if \<not> s < numSets p then Inl AssertFailed
           else if \<not> (unat s < length (ip_sets p) \<and> unat w < length (ip_sets p ! unat s)) then Inl OutOfRange
           else case h entry of
                  None \<Rightarrow> Inl NullDeref
                | Some e \<Rightarrow>
                    Inr (p\<lparr>ip_sets := (ip_sets p)[unat s := (ip_sets p ! unat s)[unat w := Some entry]]\<rparr>,
                         h(entry \<mapsto> setPosition s w e)))"

definition extractTag :: "'x BaseIndexingPolicy_scheme \<Rightarrow> Addr \<Rightarrow> Addr" where
  "extractTag p addr = drop_bit (tagShift p) addr"

subsection \<open>The set associative policy\<close>

definition sa_extractSet :: "BaseIndexingPolicy \<Rightarrow> Addr \<Rightarrow> u32" where
  "sa_extractSet p addr = ucast (drop_bit (setShift p) addr AND ucast (setMask p))"

text \<open>\<open>getSet()\<close> is a \<open>uint32_t\<close> and is shifted at that width.\<close>

definition sa_regenerateAddr :: "BaseIndexingPolicy \<Rightarrow> Addr \<Rightarrow> 'b ReplaceableEntry_scheme \<Rightarrow> Addr" where
  "sa_regenerateAddr p tag entry = push_bit (tagShift p) tag OR ucast (push_bit (setShift p) (getSet entry))"

definition sa_getPossibleEntries :: "BaseIndexingPolicy \<Rightarrow> Addr \<Rightarrow> entry_id option list res" where
  "sa_getPossibleEntries p addr =
     (let s = unat (sa_extractSet p addr) in
      if s < length (ip_sets p) then Inr (ip_sets p ! s) else Inl OutOfRange)"

subsection \<open>The skewed associative policy\<close>

definition NUM_SKEWING_FUNCTIONS :: u32 where
  "NUM_SKEWING_FUNCTIONS = 8"

record SkewedAssociative = BaseIndexingPolicy +
  msbShift :: nat

text \<open>\<open>msbShift\<close> is \<open>-1\<close> for a single set, which the last check rejects.\<close>

definition SkewedAssociative_new :: "u64 \<Rightarrow> u32 \<Rightarrow> u32 \<Rightarrow> SkewedAssociative res" where
  "SkewedAssociative_new sz entry_size assoc =
     rbind (BaseIndexingPolicy_new sz entry_size assoc) (\<lambda>p.
     rbind (floorLog2 (ucast (numSets p))) (\<lambda>l.
       let ms = l - 1 in
       if int (setShift p) + 2 * (ms + 1) > 64 then Inl PanicError
       else if numSets p \<le> 2 then Inl FatalError
       else Inr (BaseIndexingPolicy.extend p \<lparr>msbShift = nat ms\<rparr>)))"

definition skew_hash :: "nat \<Rightarrow> Addr \<Rightarrow> Addr" where
  "skew_hash m addr =
     (let lsb = ucast (bit1_bf addr 0) :: u8;
          msb = ucast (bit1_bf addr m) :: u8;
          xor_bit = msb XOR lsb
      in insertBit (drop_bit 1 addr) m (ucast xor_bit))"

definition skew_dehash :: "nat \<Rightarrow> Addr \<Rightarrow> Addr" where
  "skew_dehash m addr =
     (let msb = ucast (bit1_bf addr (m - 1)) :: u8;
          xor_bit = ucast (bit1_bf addr m) :: u8;
          lsb = msb XOR xor_bit;
          addr_no_msb = mbits addr (m - 1) 0
      in insertBit (push_bit 1 addr_no_msb) 0 (ucast lsb))"

definition skew :: "nat \<Rightarrow> Addr \<Rightarrow> u32 \<Rightarrow> Addr" where
  "skew m addr way =
     (let addr1 = bits_bf addr m 0;
          addr2 = bits_bf addr (2 * (m + 1) - 1) (m + 1);
          f = unat (way mod NUM_SKEWING_FUNCTIONS);
          addr1 =
            (if f = 0 then skew_hash m addr1 XOR skew_hash m addr2 XOR addr2
             else if f = 1 then skew_hash m addr1 XOR skew_hash m addr2 XOR addr1
             else if f = 2 then skew_hash m addr1 XOR skew_dehash m addr2 XOR addr2
             else if f = 3 then skew_hash m addr1 XOR skew_dehash m addr2 XOR addr1
             else if f = 4 then skew_dehash m addr1 XOR skew_hash m addr2 XOR addr2
             else if f = 5 then skew_dehash m addr1 XOR skew_hash m addr2 XOR addr1
             else if f = 6 then skew_dehash m addr1 XOR skew_dehash m addr2 XOR addr2
             else skew_dehash m addr1 XOR skew_dehash m addr2 XOR addr1)
      in (skew_hash m ^^ unat (way div NUM_SKEWING_FUNCTIONS)) addr1)"

definition deskew :: "nat \<Rightarrow> Addr \<Rightarrow> u32 \<Rightarrow> Addr" where
  "deskew m addr way =
     (let addr1 = bits_bf addr m 0;
          addr2 = bits_bf addr (2 * (m + 1) - 1) (m + 1);
          addr1 = (if way \<ge> NUM_SKEWING_FUNCTIONS
                   then (skew_dehash m ^^ unat (way div NUM_SKEWING_FUNCTIONS)) addr1 else addr1);
          f = unat (way mod 8)
      in if f = 0 then skew_dehash m (addr1 XOR skew_hash m addr2 XOR addr2)
         else if f = 1 then (skew_hash m ^^ m) (addr1 XOR skew_hash m addr2)
         else if f = 2 then skew_dehash m (addr1 XOR skew_dehash m addr2 XOR addr2)
         else if f = 3 then (skew_hash m ^^ m) (addr1 XOR skew_dehash m addr2)
         else if f = 4 then skew_hash m (addr1 XOR skew_hash m addr2 XOR addr2)
         else if f = 5 then (skew_hash m ^^ Suc m) (addr1 XOR skew_hash m addr2)
         else if f = 6 then skew_hash m (addr1 XOR skew_dehash m addr2 XOR addr2)
         else (skew_hash m ^^ Suc m) (addr1 XOR skew_dehash m addr2))"

definition sk_extractSet :: "SkewedAssociative \<Rightarrow> Addr \<Rightarrow> u32 \<Rightarrow> u32" where
  "sk_extractSet p addr way = ucast (skew (msbShift p) (drop_bit (setShift p) addr) way AND ucast (setMask p))"

definition sk_regenerateAddr :: "SkewedAssociative \<Rightarrow> Addr \<Rightarrow> 'b ReplaceableEntry_scheme \<Rightarrow> Addr" where
  "sk_regenerateAddr p tag entry =
     (let addr_set = push_bit (msbShift p + 1) tag OR ucast (getSet entry) in
      push_bit (tagShift p) tag OR
      push_bit (setShift p) (deskew (msbShift p) addr_set (getWay entry) AND ucast (setMask p)))"

fun sk_collect :: "SkewedAssociative \<Rightarrow> Addr \<Rightarrow> nat list \<Rightarrow> entry_id option list res" where
  "sk_collect p addr [] = Inr []"
| "sk_collect p addr (w # ws) =
     (let s = unat (sk_extractSet p addr (of_nat w)) in
      if s < length (ip_sets p) \<and> w < length (ip_sets p ! s)
      then rbind (sk_collect p addr ws) (\<lambda>es. Inr (ip_sets p ! s ! w # es))
      else Inl OutOfRange)"

definition sk_getPossibleEntries :: "SkewedAssociative \<Rightarrow> Addr \<Rightarrow> entry_id option list res" where
  "sk_getPossibleEntries p addr = sk_collect p addr [0..<unat (ip_assoc p)]"

subsection \<open>The skewing hash\<close>

lemma bit_bit1_bf [simp]: "bit (bit1_bf v b) i \<longleftrightarrow> i = 0 \<and> bit v b"
  by (auto simp: bit1_bf_def bit_bits_bf)

lemma bit_insertBit: "bit (insertBit v b x) i \<longleftrightarrow> i < 64 \<and> (if i = b then bit x 0 else bit v i)"
  by (auto simp: insertBit_def bit_insertBits)

lemma low_bit: "low n a \<longleftrightarrow> (\<forall>i. bit a i \<longrightarrow> i < n)"
proof
  show "low n a \<Longrightarrow> \<forall>i. bit a i \<longrightarrow> i < n" unfolding low_def by (metis bit_take_bit_iff)
qed (auto simp: low_def bit_eq_iff bit_take_bit_iff)

lemma low_eqI: "low (Suc m) a \<Longrightarrow> low (Suc m) b \<Longrightarrow> (\<And>i. i \<le> m \<Longrightarrow> bit a i = bit b i) \<Longrightarrow> a = b"
  by (rule bit_eqI) (auto simp: low_bit less_Suc_eq_le)

lemma low_xor [intro]: "low n a \<Longrightarrow> low n b \<Longrightarrow> low n (a XOR b)"
  by (auto simp: low_bit bit_xor_iff)

lemma low_bits [intro]: "low (Suc m) (bits_bf v m 0)" "low (Suc m) (bits_bf v (Suc (2 * m)) (Suc m))"
  by (auto simp: low_bit bit_bits_bf)

lemma hash_bit:
  "m < 64 \<Longrightarrow> bit (skew_hash m a) i \<longleftrightarrow> (if i = m then bit a m \<noteq> bit a 0 else bit a (i + 1))"
  by (auto simp: skew_hash_def Let_def bit_insertBit bit_xor_iff bit_unsigned_iff bit_drop_bit_eq
      dest: bit_imp_le_length)

lemma dehash_bit:
  "0 < m \<Longrightarrow> m < 64 \<Longrightarrow>
     bit (skew_dehash m a) i \<longleftrightarrow> (if i = 0 then bit a (m - 1) \<noteq> bit a m else i \<le> m \<and> bit a (i - 1))"
  unfolding skew_dehash_def Let_def bit_insertBit bit_push_bit_iff bit_mbits bit_xor_iff bit_unsigned_iff
  by auto

lemma hash_low [intro]: "m < 64 \<Longrightarrow> low (Suc m) a \<Longrightarrow> low (Suc m) (skew_hash m a)"
  by (fastforce simp: low_bit hash_bit split: if_splits)

lemma dehash_low [intro]: "0 < m \<Longrightarrow> m < 64 \<Longrightarrow> low (Suc m) (skew_dehash m a)"
  by (auto simp: low_bit dehash_bit split: if_splits)

lemma hash_xor: "m < 64 \<Longrightarrow> skew_hash m (a XOR b) = skew_hash m a XOR skew_hash m b"
  by (rule bit_eqI) (auto simp: hash_bit bit_xor_iff)

lemma dehash_xor: "0 < m \<Longrightarrow> m < 64 \<Longrightarrow> skew_dehash m (a XOR b) = skew_dehash m a XOR skew_dehash m b"
  by (rule bit_eqI) (auto simp: dehash_bit bit_xor_iff)

lemma dehash_hash: "0 < m \<Longrightarrow> m < 64 \<Longrightarrow> low (Suc m) a \<Longrightarrow> skew_dehash m (skew_hash m a) = a"
  by (rule low_eqI) (auto simp: hash_bit dehash_bit)

lemma hash_dehash: "0 < m \<Longrightarrow> m < 64 \<Longrightarrow> low (Suc m) a \<Longrightarrow> skew_hash m (skew_dehash m a) = a"
  by (rule low_eqI) (auto simp: hash_bit dehash_bit)

text \<open>
  The states of iterated hashing are windows of one linear recurrence, so hashing \<open>m\<close> times undoes the
  map \<open>a \<mapsto> hash a XOR a\<close>.
\<close>

fun lfsr :: "nat \<Rightarrow> Addr \<Rightarrow> nat \<Rightarrow> bool" where
  "lfsr m a i = (if i \<le> m then bit a i else lfsr m a (i - 1) \<noteq> lfsr m a (i - Suc m))"

declare lfsr.simps [simp del]

lemma lfsr_init: "i \<le> m \<Longrightarrow> lfsr m a i = bit a i"
  by (simp add: lfsr.simps)

lemma lfsr_step: "lfsr m a (Suc m + i) = (lfsr m a (m + i) \<noteq> lfsr m a i)"
  by (simp add: lfsr.simps [of m a "Suc (m + i)"])

lemma hash_iter_low [intro]: "m < 64 \<Longrightarrow> low (Suc m) a \<Longrightarrow> low (Suc m) ((skew_hash m ^^ n) a)"
  by (induction n) auto

lemma dehash_iter_low [intro]: "0 < m \<Longrightarrow> m < 64 \<Longrightarrow> low (Suc m) a \<Longrightarrow> low (Suc m) ((skew_dehash m ^^ n) a)"
  by (induction n) auto

lemma hash_iter_bit:
  "0 < m \<Longrightarrow> m < 64 \<Longrightarrow> i \<le> m \<Longrightarrow> bit ((skew_hash m ^^ n) a) i = lfsr m a (n + i)"
proof (induction n arbitrary: i)
  case (Suc n)
  show ?case
  proof (cases "i = m")
    case True
    then show ?thesis using Suc lfsr_step [of m a n] by (simp add: hash_bit ac_simps)
  next
    case False
    then show ?thesis using Suc.IH [of "Suc i"] Suc.prems by (simp add: hash_bit)
  qed
qed (simp add: lfsr_init)

lemma hash_iter_xor: "m < 64 \<Longrightarrow> (skew_hash m ^^ n) (a XOR b) = (skew_hash m ^^ n) a XOR (skew_hash m ^^ n) b"
  by (induction n) (auto simp: hash_xor)

lemma hash_inverse:
  assumes "0 < m" and "m < 64" and "low (Suc m) a"
  shows "(skew_hash m ^^ m) (skew_hash m a XOR a) = a"
proof (rule low_eqI)
  show "low (Suc m) ((skew_hash m ^^ m) (skew_hash m a XOR a))" using assms by blast
  fix i assume i: "i \<le> m"
  have "(skew_hash m ^^ m) (skew_hash m a) = (skew_hash m ^^ Suc m) a" by (simp add: funpow_swap1)
  then have "bit ((skew_hash m ^^ m) (skew_hash m a XOR a)) i = (lfsr m a (Suc m + i) \<noteq> lfsr m a (m + i))"
    using hash_iter_bit [OF assms(1,2) i] by (simp add: hash_iter_xor [OF assms(2)] bit_xor_iff del: funpow.simps)
  then show "bit ((skew_hash m ^^ m) (skew_hash m a XOR a)) i = bit a i"
    unfolding lfsr_step using lfsr_init [OF i] by blast
qed (rule assms(3))

lemma dehash_inverse:
  assumes "0 < m" and "m < 64" and "low (Suc m) a"
  shows "(skew_hash m ^^ Suc m) (skew_dehash m a XOR a) = a"
proof -
  have "skew_hash m (skew_dehash m a XOR a) = skew_hash m a XOR a"
    using assms by (simp add: hash_xor hash_dehash ac_simps)
  then show ?thesis using hash_inverse [OF assms] by (simp add: funpow_swap1)
qed

lemma dehash_iter: "0 < m \<Longrightarrow> m < 64 \<Longrightarrow> low (Suc m) a \<Longrightarrow> (skew_dehash m ^^ n) ((skew_hash m ^^ n) a) = a"
proof (induction n)
  case (Suc n)
  have "(skew_dehash m ^^ Suc n) ((skew_hash m ^^ Suc n) a) = (skew_dehash m ^^ n) (skew_dehash m (skew_hash m ((skew_hash m ^^ n) a)))"
    by (simp add: funpow_swap1)
  then show ?case using Suc by (simp add: dehash_hash hash_iter_low)
qed simp

text \<open>The switch of \<open>skew\<close> and its inverse in \<open>deskew\<close>.\<close>

definition skew_select :: "nat \<Rightarrow> nat \<Rightarrow> Addr \<Rightarrow> Addr \<Rightarrow> Addr" where
  "skew_select m f addr1 addr2 =
     (if f = 0 then skew_hash m addr1 XOR skew_hash m addr2 XOR addr2
      else if f = 1 then skew_hash m addr1 XOR skew_hash m addr2 XOR addr1
      else if f = 2 then skew_hash m addr1 XOR skew_dehash m addr2 XOR addr2
      else if f = 3 then skew_hash m addr1 XOR skew_dehash m addr2 XOR addr1
      else if f = 4 then skew_dehash m addr1 XOR skew_hash m addr2 XOR addr2
      else if f = 5 then skew_dehash m addr1 XOR skew_hash m addr2 XOR addr1
      else if f = 6 then skew_dehash m addr1 XOR skew_dehash m addr2 XOR addr2
      else skew_dehash m addr1 XOR skew_dehash m addr2 XOR addr1)"

definition deskew_select :: "nat \<Rightarrow> nat \<Rightarrow> Addr \<Rightarrow> Addr \<Rightarrow> Addr" where
  "deskew_select m f addr1 addr2 =
     (if f = 0 then skew_dehash m (addr1 XOR skew_hash m addr2 XOR addr2)
      else if f = 1 then (skew_hash m ^^ m) (addr1 XOR skew_hash m addr2)
      else if f = 2 then skew_dehash m (addr1 XOR skew_dehash m addr2 XOR addr2)
      else if f = 3 then (skew_hash m ^^ m) (addr1 XOR skew_dehash m addr2)
      else if f = 4 then skew_hash m (addr1 XOR skew_hash m addr2 XOR addr2)
      else if f = 5 then (skew_hash m ^^ Suc m) (addr1 XOR skew_hash m addr2)
      else if f = 6 then skew_hash m (addr1 XOR skew_dehash m addr2 XOR addr2)
      else (skew_hash m ^^ Suc m) (addr1 XOR skew_dehash m addr2))"

lemma skew_select_low:
  "0 < m \<Longrightarrow> m < 64 \<Longrightarrow> low (Suc m) a1 \<Longrightarrow> low (Suc m) a2 \<Longrightarrow> low (Suc m) (skew_select m f a1 a2)"
  unfolding skew_select_def by (auto simp del: One_nat_def)

lemma xor_cancel: "(x XOR y XOR z) XOR y XOR z = x" "(x XOR y XOR z) XOR y = x XOR z" for x y z :: Addr
  by (rule bit_eqI; auto simp: bit_xor_iff)+

lemma deskew_skew_select:
  assumes "0 < m" and "m < 64" and "low (Suc m) a1" and "low (Suc m) a2"
  shows "deskew_select m f (skew_select m f a1 a2) a2 = a1"
proof -
  note inv = hash_inverse [OF assms(1-3)] dehash_inverse [OF assms(1-3)] dehash_hash [OF assms(1-3)] hash_dehash [OF assms(1-3)]
  consider "f = 0" | "f = 1" | "f = 2" | "f = 3" | "f = 4" | "f = 5" | "f = 6" | "f \<notin> {0, 1, 2, 3, 4, 5, 6}" by blast
  then show ?thesis
    by cases (simp_all add: skew_select_def deskew_select_def xor_cancel inv del: funpow.simps)
qed

lemma deskew_skew:
  assumes "0 < m" and "m < 64" and "bits_bf b m 0 = skew m a way"
    and "bits_bf b (2 * (m + 1) - 1) (m + 1) = bits_bf a (2 * (m + 1) - 1) (m + 1)"
  shows "deskew m b way = bits_bf a m 0"
proof -
  let ?a1 = "bits_bf a m 0" and ?a2 = "bits_bf a (2 * (m + 1) - 1) (m + 1)"
  let ?n = "unat (way div NUM_SKEWING_FUNCTIONS)" and ?f = "unat (way mod 8)"
  let ?x = "skew_select m ?f ?a1 ?a2"
  have l: "low (Suc m) ?a1" "low (Suc m) ?a2" using low_bits by auto
  then have lx: "low (Suc m) ?x" by (rule skew_select_low [OF assms(1,2)])
  have s: "skew m a way = (skew_hash m ^^ ?n) ?x"
    unfolding skew_def skew_select_def Let_def NUM_SKEWING_FUNCTIONS_def by (rule refl)
  have "\<not> way \<ge> NUM_SKEWING_FUNCTIONS \<Longrightarrow> ?n = 0"
    by (simp add: NUM_SKEWING_FUNCTIONS_def word_le_nat_alt unat_div)
  then have "(if way \<ge> NUM_SKEWING_FUNCTIONS then (skew_dehash m ^^ ?n) (bits_bf b m 0) else bits_bf b m 0) = ?x"
    using dehash_iter [OF assms(1,2) lx] by (simp add: assms(3) s)
  then have "deskew m b way = deskew_select m ?f ?x ?a2"
    unfolding deskew_def Let_def assms(4) deskew_select_def by (simp only:)
  then show ?thesis using deskew_skew_select [OF assms(1,2) l] by simp
qed

subsection \<open>Geometry and population\<close>

definition idx_geo :: "'x BaseIndexingPolicy_scheme \<Rightarrow> nat \<Rightarrow> bool" where
  "idx_geo p n \<longleftrightarrow> n < 32 \<and> unat (numSets p) = 2 ^ n \<and> setMask p = numSets p - 1 \<and> tagShift p = setShift p + n \<and>
     setShift p < 32 \<and> 0 < ip_assoc p \<and> length (ip_sets p) = 2 ^ n \<and>
     (\<forall>s < 2 ^ n. length (ip_sets p ! s) = unat (ip_assoc p))"

definition idx_pop :: "'x BaseIndexingPolicy_scheme \<Rightarrow> 'b entry_heap \<Rightarrow> bool" where
  "idx_pop p h \<longleftrightarrow> (\<forall>s < length (ip_sets p). \<forall>w < unat (ip_assoc p).
     \<exists>e x. ip_sets p ! s ! w = Some e \<and> h e = Some x \<and> unat (getSet x) = s \<and> unat (getWay x) = w)"

definition block_addr :: "'x BaseIndexingPolicy_scheme \<Rightarrow> Addr \<Rightarrow> Addr" where
  "block_addr p a = push_bit (setShift p) (drop_bit (setShift p) a)"

lemma bit_block_addr: "bit (block_addr p a) i \<longleftrightarrow> setShift p \<le> i \<and> bit a i"
  by (auto simp: block_addr_def bit_push_bit_iff bit_drop_bit_eq dest: bit_imp_le_length)

lemma drop_block_addr: "drop_bit (setShift p) (block_addr p a) = drop_bit (setShift p) a"
  by (rule bit_eqI) (simp add: bit_drop_bit_eq bit_block_addr)

lemma setMask_bit: "idx_geo p n \<Longrightarrow> bit (setMask p) i \<longleftrightarrow> i < n"
proof -
  assume g: "idx_geo p n"
  then have "numSets p = 2 ^ n" by (simp add: idx_geo_def word_unat_eq_iff unat_2p)
  then have "setMask p = mask n" using g by (simp add: idx_geo_def mask_eq_exp_minus_1)
  moreover have "n < 32" using g by (simp add: idx_geo_def)
  ultimately show ?thesis by (auto simp: bit_mask_iff)
qed

lemma ucast_low: "n \<le> 32 \<Longrightarrow> low n a \<Longrightarrow> (ucast (ucast a :: u32) :: u64) = a"
  by (rule bit_eqI) (auto simp: low_bit bit_unsigned_iff)

lemma unat_low: "low n a \<Longrightarrow> unat a < 2 ^ n"
  unfolding low_def by (metis take_bit_nat_less_exp unsigned_take_bit_eq)

lemma bit_sa_extractSet:
  "idx_geo p n \<Longrightarrow> bit (sa_extractSet p a) i \<longleftrightarrow> i < n \<and> bit a (setShift p + i)"
proof -
  assume g: "idx_geo p n"
  then have "n < 32" by (simp add: idx_geo_def)
  then show ?thesis by (auto simp: sa_extractSet_def bit_unsigned_iff bit_and_iff bit_drop_bit_eq setMask_bit [OF g])
qed

lemma sa_extractSet_less: "idx_geo p n \<Longrightarrow> unat (sa_extractSet p a) < 2 ^ n"
proof -
  assume g: "idx_geo p n"
  have "take_bit n (sa_extractSet p a) = sa_extractSet p a"
    by (rule bit_eqI) (auto simp: bit_take_bit_iff bit_sa_extractSet [OF g])
  then show ?thesis by (metis take_bit_nat_less_exp unsigned_take_bit_eq)
qed

subsection \<open>What a tag store relies on\<close>

text \<open>
  A policy offers every address a fixed list of distinct live candidates, which depends on the block only,
  and gives back the block's address from the tag and any candidate.
\<close>

locale indexing_policy =
  fixes ip_wf :: "'p \<Rightarrow> (entry_id \<rightharpoonup> 'e) \<Rightarrow> bool"
    and candidates :: "'p \<Rightarrow> Addr \<Rightarrow> entry_id option list res"
    and tag_of :: "'p \<Rightarrow> Addr \<Rightarrow> Addr"
    and regenerate :: "'p \<Rightarrow> Addr \<Rightarrow> 'e \<Rightarrow> Addr"
    and block_of :: "'p \<Rightarrow> Addr \<Rightarrow> Addr"
    and ways :: "'p \<Rightarrow> nat"
  assumes candidates_ok: "ip_wf p h \<Longrightarrow>
      \<exists>es. candidates p a = Inr (map Some es) \<and> length es = ways p \<and> distinct es \<and> set es \<subseteq> dom h"
    and ways_pos: "ip_wf p h \<Longrightarrow> 0 < ways p"
    and block_candidates: "ip_wf p h \<Longrightarrow> candidates p (block_of p a) = candidates p a"
    and block_tag: "ip_wf p h \<Longrightarrow> tag_of p (block_of p a) = tag_of p a"
    and regenerate_ok: "ip_wf p h \<Longrightarrow> candidates p a = Inr cs \<Longrightarrow> Some e \<in> set cs \<Longrightarrow> h e = Some x \<Longrightarrow>
      regenerate p (tag_of p a) x = block_of p a"
begin

text \<open>An entry with an address's tag, among the candidates of both, belongs to one block only.\<close>

lemma tag_identifies_block:
  assumes "ip_wf p h" and "candidates p a = Inr cs" and "candidates p b = Inr ds"
    and "Some e \<in> set cs" and "Some e \<in> set ds" and "tag_of p a = tag_of p b"
  shows "block_of p a = block_of p b"
proof -
  obtain es where "cs = map Some es" "set es \<subseteq> dom h" using candidates_ok [OF assms(1), of a] assms(2) by auto
  then obtain x where "h e = Some x" using assms(4) by auto
  with assms regenerate_ok show ?thesis by metis
qed

lemma same_block_same_place:
  "ip_wf p h \<Longrightarrow> block_of p a = block_of p b \<Longrightarrow> candidates p a = candidates p b \<and> tag_of p a = tag_of p b"
  by (metis block_candidates block_tag)

end

lemma pop_candidate:
  assumes "idx_geo p n" and "idx_pop p h" and "s < 2 ^ n" and "w < unat (ip_assoc p)"
  shows "\<exists>e x. ip_sets p ! s ! w = Some e \<and> h e = Some x \<and> unat (getSet x) = s \<and> unat (getWay x) = w"
  using assms by (auto simp: idx_pop_def idx_geo_def)

lemma block_tag_eq: "idx_geo p n \<Longrightarrow> drop_bit (tagShift p) (block_addr p a) = drop_bit (tagShift p) a"
  by (rule bit_eqI) (auto simp: bit_drop_bit_eq bit_block_addr idx_geo_def)

text \<open>A list of populated positions in distinct ways names distinct live entries.\<close>

lemma pop_list:
  assumes "idx_geo p n" and "idx_pop p h" and "\<And>w. f w < 2 ^ n"
  shows "\<exists>es. map (\<lambda>w. ip_sets p ! f w ! w) [0..<unat (ip_assoc p)] = map Some es \<and>
           length es = unat (ip_assoc p) \<and> distinct es \<and> set es \<subseteq> dom h"
proof -
  let ?g = "\<lambda>w. the (ip_sets p ! f w ! w)"
  let ?es = "map ?g [0..<unat (ip_assoc p)]"
  have g: "\<exists>e x. ip_sets p ! f w ! w = Some e \<and> h e = Some x \<and> unat (getWay x) = w" if "w < unat (ip_assoc p)" for w
    using pop_candidate [OF assms(1,2) assms(3) [of w] that] by auto
  then have some: "ip_sets p ! f w ! w = Some (?g w)" and live: "\<exists>x. h (?g w) = Some x \<and> unat (getWay x) = w"
    if "w < unat (ip_assoc p)" for w using that by fastforce+
  have "inj_on ?g {0..<unat (ip_assoc p)}"
  proof (rule inj_onI)
    fix v w assume vw: "v \<in> {0..<unat (ip_assoc p)}" "w \<in> {0..<unat (ip_assoc p)}" "?g v = ?g w"
    then have "\<exists>x. h (?g v) = Some x \<and> unat (getWay x) = v" "\<exists>x. h (?g v) = Some x \<and> unat (getWay x) = w"
      using live [of v] live [of w] by (simp_all only: atLeastLessThan_iff)
    then show "v = w" by auto
  qed
  then have "distinct ?es" by (simp add: distinct_map)
  moreover have "map (\<lambda>w. ip_sets p ! f w ! w) [0..<unat (ip_assoc p)] = map Some ?es"
    unfolding map_map comp_def by (rule map_cong [OF refl], rule some) simp
  moreover have "set ?es \<subseteq> dom h" using live by fastforce
  ultimately show ?thesis by (intro exI [of _ ?es]) simp
qed

definition sa_wf :: "BaseIndexingPolicy \<Rightarrow> 'b entry_heap \<Rightarrow> bool" where
  "sa_wf p h \<longleftrightarrow> (\<exists>n. idx_geo p n) \<and> idx_pop p h \<and> tagShift p \<le> 32"

lemma sa_candidates:
  assumes "idx_geo p n"
  shows "sa_getPossibleEntries p a =
           Inr (map (\<lambda>w. ip_sets p ! unat (sa_extractSet p a) ! w) [0..<unat (ip_assoc p)])"
  using assms sa_extractSet_less [OF assms, of a]
  by (simp add: sa_getPossibleEntries_def Let_def idx_geo_def) (metis map_nth)

lemma sa_regenerate:
  assumes "idx_geo p n" and "tagShift p \<le> 32" and "getSet x = sa_extractSet p a"
  shows "sa_regenerateAddr p (extractTag p a) x = block_addr p a"
proof (rule bit_word_eqI)
  fix i assume i: "i < LENGTH(64)"
  have n: "tagShift p = setShift p + n" using assms(1) by (simp add: idx_geo_def)
  have "bit (sa_regenerateAddr p (extractTag p a) x) i \<longleftrightarrow>
      tagShift p \<le> i \<and> bit a i \<or> i < 32 \<and> setShift p \<le> i \<and> i < tagShift p \<and> bit a i"
    using i n unfolding sa_regenerateAddr_def extractTag_def assms(3)
    by (auto simp: bit_or_iff bit_push_bit_iff bit_drop_bit_eq bit_unsigned_iff bit_sa_extractSet [OF assms(1)])
  then show "bit (sa_regenerateAddr p (extractTag p a) x) i = bit (block_addr p a) i"
    using assms(2) n by (auto simp: bit_block_addr)
qed

interpretation sa: indexing_policy sa_wf sa_getPossibleEntries extractTag sa_regenerateAddr block_addr
  "\<lambda>p. unat (ip_assoc p)"
proof unfold_locales
  fix p and h :: "'b entry_heap" and a assume "sa_wf p h"
  then obtain n where g: "idx_geo p n" "idx_pop p h" "tagShift p \<le> 32" by (auto simp: sa_wf_def)
  show "\<exists>es. sa_getPossibleEntries p a = Inr (map Some es) \<and> length es = unat (ip_assoc p) \<and> distinct es \<and> set es \<subseteq> dom h"
    using pop_list [OF g(1,2), of "\<lambda>_. unat (sa_extractSet p a)"] sa_extractSet_less [OF g(1)]
    by (auto simp: sa_candidates [OF g(1)])
  show "0 < unat (ip_assoc p)" using g(1) by (simp add: idx_geo_def word_less_nat_alt)
  show "sa_getPossibleEntries p (block_addr p a) = sa_getPossibleEntries p a"
    by (simp add: sa_getPossibleEntries_def sa_extractSet_def drop_block_addr)
  show "extractTag p (block_addr p a) = extractTag p a"
    by (simp add: extractTag_def block_tag_eq [OF g(1)])
  fix cs e x
  assume c: "sa_getPossibleEntries p a = Inr cs" "Some e \<in> set cs" "h e = Some x"
  then obtain w where "w < unat (ip_assoc p)" "ip_sets p ! unat (sa_extractSet p a) ! w = Some e"
    by (auto simp: sa_candidates [OF g(1)])
  with pop_candidate [OF g(1,2) sa_extractSet_less [OF g(1)], of w a] c(3)
  have "getSet x = sa_extractSet p a" by (auto simp: word_unat_eq_iff)
  then show "sa_regenerateAddr p (extractTag p a) x = block_addr p a" by (rule sa_regenerate [OF g(1,3)])
qed

definition sk_wf :: "SkewedAssociative \<Rightarrow> 'b entry_heap \<Rightarrow> bool" where
  "sk_wf p h \<longleftrightarrow> idx_geo p (Suc (msbShift p)) \<and> idx_pop p h \<and> 0 < msbShift p \<and> setShift p + 2 * Suc (msbShift p) \<le> 64"

lemma skew_low: "0 < m \<Longrightarrow> m < 64 \<Longrightarrow> low (Suc m) (skew m a w)"
proof -
  assume m: "0 < m" "m < 64"
  have "skew m a w = (skew_hash m ^^ unat (w div NUM_SKEWING_FUNCTIONS))
      (skew_select m (unat (w mod 8)) (bits_bf a m 0) (bits_bf a (Suc (2 * m)) (Suc m)))"
    unfolding skew_def skew_select_def Let_def NUM_SKEWING_FUNCTIONS_def by simp
  then show ?thesis using m low_bits skew_select_low [OF m] by auto
qed

lemma bit_sk_extractSet:
  assumes "sk_wf p h"
  shows "bit (sk_extractSet p a w) i \<longleftrightarrow> bit (skew (msbShift p) (drop_bit (setShift p) a) w) i"
proof -
  have g: "idx_geo p (Suc (msbShift p))" "0 < msbShift p" "Suc (msbShift p) < 32" using assms by (auto simp: sk_wf_def idx_geo_def)
  have "low (Suc (msbShift p)) (skew (msbShift p) (drop_bit (setShift p) a) w)" using g by (intro skew_low) auto
  then show ?thesis using g(3)
    by (auto simp: sk_extractSet_def bit_unsigned_iff bit_and_iff setMask_bit [OF g(1)] low_bit)
qed

lemma sk_extractSet_less: "sk_wf p h \<Longrightarrow> unat (sk_extractSet p a w) < 2 ^ Suc (msbShift p)"
proof -
  assume wf: "sk_wf p h"
  then have m: "0 < msbShift p" "msbShift p < 64" by (auto simp: sk_wf_def)
  have "take_bit (Suc (msbShift p)) (sk_extractSet p a w) = sk_extractSet p a w"
    using skew_low [OF m] by (intro bit_eqI) (auto simp: bit_take_bit_iff bit_sk_extractSet [OF wf] low_bit)
  then show ?thesis by (metis take_bit_nat_less_exp unsigned_take_bit_eq)
qed

lemma sk_candidates:
  assumes "sk_wf p h"
  shows "sk_getPossibleEntries p a =
           Inr (map (\<lambda>w. ip_sets p ! unat (sk_extractSet p a (of_nat w)) ! w) [0..<unat (ip_assoc p)])"
proof -
  have g: "idx_geo p (Suc (msbShift p))" using assms by (simp add: sk_wf_def)
  have "set ws \<subseteq> {0..<unat (ip_assoc p)} \<Longrightarrow>
      sk_collect p a ws = Inr (map (\<lambda>w. ip_sets p ! unat (sk_extractSet p a (of_nat w)) ! w) ws)" for ws
    using g sk_extractSet_less [OF assms, of a]
    by (induction ws) (auto simp: Let_def idx_geo_def simp del: power_Suc)
  then show ?thesis by (simp add: sk_getPossibleEntries_def)
qed

lemma sk_regenerate:
  assumes "sk_wf p h" and "getSet x = sk_extractSet p a (getWay x)"
  shows "sk_regenerateAddr p (extractTag p a) x = block_addr p a"
proof -
  let ?m = "msbShift p" and ?A = "drop_bit (setShift p) a"
  define b :: Addr where "b = push_bit (?m + 1) (extractTag p a) OR ucast (getSet x)"
  have g: "idx_geo p (Suc ?m)" "0 < ?m" "setShift p + 2 * Suc ?m \<le> 64" "tagShift p = setShift p + Suc ?m"
    using assms(1) by (auto simp: sk_wf_def idx_geo_def)
  have m: "?m < 64" using g(3) by simp
  have low: "low (Suc ?m) (skew ?m ?A w)" for w by (rule skew_low [OF g(2) m])
  have b: "bit b i \<longleftrightarrow> i < 64 \<and> (if i \<le> ?m then bit (skew ?m ?A (getWay x)) i else bit a (setShift p + i))" for i
    unfolding b_def extractTag_def assms(2) bit_or_iff bit_push_bit_iff bit_drop_bit_eq comp_def bit_unsigned_iff
      bit_sk_extractSet [OF assms(1)]
    using low [of "getWay x"] g(4) by (auto simp: low_bit dest: bit_imp_le_length)
  have "bits_bf b ?m 0 = skew ?m ?A (getWay x)"
    using low [of "getWay x"] m by (intro bit_eqI) (auto simp: bit_bits_bf b low_bit)
  moreover have "bits_bf b (2 * (?m + 1) - 1) (?m + 1) = bits_bf ?A (2 * (?m + 1) - 1) (?m + 1)"
    using g(3) by (intro bit_eqI) (auto simp: bit_bits_bf b bit_drop_bit_eq)
  ultimately have d: "deskew ?m b (getWay x) = bits_bf ?A ?m 0" by (rule deskew_skew [OF g(2) m])
  have e: "sk_regenerateAddr p (extractTag p a) x =
      push_bit (tagShift p) (extractTag p a) OR push_bit (setShift p) (bits_bf ?A ?m 0 AND ucast (setMask p))"
    by (simp only: sk_regenerateAddr_def Let_def b_def [symmetric] d)
  show ?thesis
  proof (rule bit_word_eqI)
    fix i assume "i < LENGTH(64)"
    then show "bit (sk_regenerateAddr p (extractTag p a) x) i = bit (block_addr p a) i"
      unfolding e
      unfolding extractTag_def bit_or_iff bit_push_bit_iff bit_and_iff
        bit_bits_bf [OF le0] bit_drop_bit_eq comp_def bit_unsigned_iff setMask_bit [OF g(1)] bit_block_addr
      using g(4) by (cases "tagShift p \<le> i") auto
  qed
qed

interpretation sk: indexing_policy sk_wf sk_getPossibleEntries extractTag sk_regenerateAddr block_addr "\<lambda>p. unat (ip_assoc p)"
proof unfold_locales
  fix p and h :: "'b entry_heap" and a assume wf: "sk_wf p h"
  then have g: "idx_geo p (Suc (msbShift p))" "idx_pop p h" by (simp_all add: sk_wf_def)
  show "\<exists>es. sk_getPossibleEntries p a = Inr (map Some es) \<and> length es = unat (ip_assoc p) \<and> distinct es \<and> set es \<subseteq> dom h"
    using pop_list [OF g, of "\<lambda>w. unat (sk_extractSet p a (of_nat w))"] sk_extractSet_less [OF wf]
    by (auto simp: sk_candidates [OF wf])
  show "0 < unat (ip_assoc p)" using g(1) by (simp add: idx_geo_def word_less_nat_alt)
  show "sk_getPossibleEntries p (block_addr p a) = sk_getPossibleEntries p a"
    by (simp add: sk_candidates [OF wf] sk_extractSet_def drop_block_addr)
  show "extractTag p (block_addr p a) = extractTag p a"
    using block_tag_eq [OF g(1)] by (simp add: extractTag_def)
  fix cs e x
  assume c: "sk_getPossibleEntries p a = Inr cs" "Some e \<in> set cs" "h e = Some x"
  then obtain w where w: "w < unat (ip_assoc p)" "ip_sets p ! unat (sk_extractSet p a (of_nat w)) ! w = Some e"
    by (auto simp: sk_candidates [OF wf])
  with pop_candidate [OF g sk_extractSet_less [OF wf], of w a "of_nat w"] c(3)
  have x: "getSet x = sk_extractSet p a (of_nat w)" "unat (getWay x) = w" by (auto simp: word_unat_eq_iff)
  then have "getSet x = sk_extractSet p a (getWay x)" by auto
  from sk_regenerate [OF wf this]
  show "sk_regenerateAddr p (extractTag p a) x = block_addr p a"
    by (simp add: extractTag_def)
qed

subsection \<open>Construction\<close>

lemma floorLog2_Inr:
  assumes "floorLog2 x = Inr y"
  shows "0 \<le> y \<and> 2 ^ nat y \<le> unat x \<and> unat x < 2 ^ Suc (nat y)"
proof -
  have "x \<noteq> 0" using assms by (auto simp: floorLog2_def)
  then show ?thesis
    using assms msb_steps_correct [of x] by (auto simp: floorLog2_steps is_msb_bounds)
qed

lemma unat_ucast_up: "unat (ucast (x :: u32) :: u64) = unat x"
proof -
  have "unat x < 2 ^ 32" using unsigned_less [of x] by simp
  then have "unat x < 2 ^ 64" by simp
  then show ?thesis by (simp add: unsigned_ucast_eq take_bit_nat_eq_self)
qed

text \<open>A successful construction has the geometry the policies rely on, with no entry placed yet.\<close>

lemma BaseIndexingPolicy_new_geo:
  assumes "BaseIndexingPolicy_new sz entry_size assoc = Inr p"
  shows "\<exists>n. idx_geo p n"
proof -
  let ?n = "ucast (sz div ucast (entry_size * assoc)) :: u32"
  from assms obtain ss ns where r: "floorLog2 (ucast entry_size) = Inr ss" "floorLog2 (ucast ?n) = Inr ns"
    "isPowerOf2 (ucast ?n)" "0 < assoc"
    "p = \<lparr>ip_assoc = assoc, numSets = ?n, setShift = nat ss, setMask = ?n - 1,
          ip_sets = replicate (unat ?n) (replicate (unat assoc) None), tagShift = nat (ss + ns)\<rparr>"
    by (auto simp: BaseIndexingPolicy_new_def Let_def rbind_eq_Inr not_le word_gt_0 split: if_splits)
  obtain k where "k < 64" "(ucast ?n :: u64) = 2 ^ k" using r(3) by (auto simp: isPowerOf2_iff)
  then have k: "unat ?n = 2 ^ k" using unat_ucast_up [of ?n] by (simp add: unat_2p)
  have "2 ^ nat ns \<le> unat ?n" "unat ?n < 2 ^ Suc (nat ns)" "0 \<le> ns"
    using floorLog2_Inr [OF r(2)] by (simp_all add: unat_ucast_up)
  then have "nat ns \<le> k" "k < Suc (nat ns)" unfolding k by (simp_all add: power_increasing_iff power_strict_increasing_iff del: power_Suc)
  then have ns: "k = nat ns" by simp
  have "(2::nat) ^ nat ss < 2 ^ 32" "0 \<le> ss"
    using floorLog2_Inr [OF r(1)] unsigned_less [of entry_size, where ?'a = nat] by (auto simp: unat_ucast_up)
  then have ss: "nat ss < 32" using power_less_imp_less_exp [of "2::nat" "nat ss" 32] by simp
  have "(2::nat) ^ k < 2 ^ 32" using unsigned_less [of ?n, where ?'a = nat] k by simp
  then have "k < 32" using power_less_imp_less_exp [of "2::nat" k 32] by simp
  with k ns ss r(4) \<open>0 \<le> ss\<close> \<open>0 \<le> ns\<close> show ?thesis
    by (intro exI [of _ k]) (simp add: idx_geo_def r(5) nat_add_distrib)
qed

lemma sdiv_nonneg: "int x sdiv int y = int (x div y)" "int x smod int y = int (x mod y)"
  by (simp_all add: signed_divide_int_def signed_modulo_int_def sgn_if zdiv_int zmod_int)

lemma setEntry_ok:
  assumes "idx_geo p n" and "unat index < 2 ^ n * unat (ip_assoc p)" and "h entry = Some x"
  defines "s \<equiv> unat index div unat (ip_assoc p)" and "w \<equiv> unat index mod unat (ip_assoc p)"
  shows "s < 2 ^ n \<and> w < unat (ip_assoc p) \<and>
    setEntry p h entry index =
      Inr (p\<lparr>ip_sets := (ip_sets p)[s := (ip_sets p ! s)[w := Some entry]]\<rparr>, h(entry \<mapsto> setPosition (of_nat s) (of_nat w) x))"
proof -
  have g: "n < 32" "unat (numSets p) = 2 ^ n" "0 < unat (ip_assoc p)" "ip_assoc p \<noteq> 0"
    "length (ip_sets p) = 2 ^ n" "\<forall>s < 2 ^ n. length (ip_sets p ! s) = unat (ip_assoc p)"
    using assms(1) by (auto simp: idx_geo_def word_less_nat_alt)
  have sw: "s < 2 ^ n" "w < unat (ip_assoc p)" using assms(2) g(3)
    by (auto simp: s_def w_def less_mult_imp_div_less)
  have "(2::nat) ^ n \<le> 2 ^ 31" using g(1) by (intro power_increasing) auto
  then have "2 ^ n * unat (ip_assoc p) \<le> 2 ^ 31 * (2 ^ 32 - 1)"
    using unsigned_less [of "ip_assoc p", where ?'a = nat] by (intro mult_mono) auto
  then have "unat index < 2 ^ 63" using assms(2) by simp
  then have "int (unat index) < int (2 ^ 63)" by (simp only: of_nat_less_iff)
  then have "uint index < 2 ^ 63" by simp
  then have i: "sint index = int (unat index)"
    using signed_take_bit_int_eq_self [of 63 "uint index"] order_trans [OF _ uint_ge_0 [of index], of "- (2 ^ 63)"]
    by (simp add: sint_uint)
  have a: "uint (ip_assoc p) = int (unat (ip_assoc p))" by simp
  have q: "sint index sdiv uint (ip_assoc p) = int s" "sint index smod uint (ip_assoc p) = int w"
    by (simp_all only: i a sdiv_nonneg s_def w_def)
  have "s < 2 ^ 32" "w < 2 ^ 32"
    using sw \<open>2 ^ n \<le> 2 ^ 31\<close> unsigned_less [of "ip_assoc p", where ?'a = nat] by auto
  then have u: "unat (of_nat s :: u32) = s" "unat (of_nat w :: u32) = w" by (simp_all add: unat_of_nat)
  have "setEntry p h entry index =
      Inr (p\<lparr>ip_sets := (ip_sets p)[s := (ip_sets p ! s)[w := Some entry]]\<rparr>, h(entry \<mapsto> setPosition (of_nat s) (of_nat w) x))"
    unfolding setEntry_def q using g(2,4,5,6) sw assms(3) u
    by (simp add: Let_def word_less_nat_alt)
  with sw show ?thesis by blast
qed

subsection \<open>Properties\<close>

text \<open>
  C29 Skewing is invertible: for every way (any number of ways), \<open>deskew\<close> of the skewed set bits beside the
  same tag bits gives back the original set bits, when the address is decomposed as the constructor
  admits (at least four sets, twice the set bits within the word).
\<close>

theorem deskew_inverts_skew:
  assumes "0 < m" and "2 * (m + 1) \<le> 64"
  shows "deskew m (push_bit (m + 1) (drop_bit (m + 1) a) OR skew m a way) way = bits_bf a m 0"
proof (rule deskew_skew)
  let ?b = "push_bit (m + 1) (drop_bit (m + 1) a) OR skew m a way"
  show m: "m < 64" using assms(2) by simp
  have low: "low (Suc m) (skew m a way)" by (rule skew_low [OF assms(1) m])
  have b: "bit ?b i \<longleftrightarrow> (if i \<le> m then bit (skew m a way) i else bit a i)" for i
    unfolding bit_or_iff bit_push_bit_iff bit_drop_bit_eq comp_def
    using low by (auto simp: low_bit dest: bit_imp_le_length)
  show "bits_bf ?b m 0 = skew m a way"
    by (rule bit_eqI) (use low in \<open>auto simp only: bit_bits_bf b low_bit less_Suc_eq_le le0 diff_zero add_0_right if_True\<close>)
  show "bits_bf ?b (2 * (m + 1) - 1) (m + 1) = bits_bf a (2 * (m + 1) - 1) (m + 1)"
  proof (rule bit_eqI)
    have "m + 1 \<le> 2 * (m + 1) - 1" by simp
    note f = bit_bits_bf [OF this]
    show "bit (bits_bf ?b (2 * (m + 1) - 1) (m + 1)) i = bit (bits_bf a (2 * (m + 1) - 1) (m + 1)) i" for i
      unfolding f b by simp
  qed
qed (rule assms(1))

theorem deskew_inverts_skew_witness:
  "deskew 3 (push_bit 4 (drop_bit 4 0xBEEF) OR skew 3 0xBEEF 13) 13 = bits_bf 0xBEEF 3 0"
  using deskew_inverts_skew [where m = 3 and a = "0xBEEF" and way = 13] by simp

text \<open>
  C39 The skewed associative policy round-trips addresses: from the tag of an address and any entry among its
  candidates, \<open>regenerateAddr\<close> returns the address of the block.
\<close>

theorem skewed_address_roundtrip:
  assumes "sk_wf p h" and "sk_getPossibleEntries p a = Inr cs" and "Some e \<in> set cs" and "h e = Some x"
  shows "sk_regenerateAddr p (extractTag p a) x = block_addr p a"
  by (rule sk.regenerate_ok [OF assms])

definition sk_example :: SkewedAssociative where
  "sk_example = \<lparr>ip_assoc = 1, numSets = 4, setShift = 6, setMask = 3,
     ip_sets = [[Some 0], [Some 1], [Some 2], [Some 3]], tagShift = 8, msbShift = 1\<rparr>"

definition example_heap :: "unit entry_heap" where
  "example_heap = [0 \<mapsto> \<lparr>re_set = 0, re_way = 0\<rparr>, 1 \<mapsto> \<lparr>re_set = 1, re_way = 0\<rparr>,
                   2 \<mapsto> \<lparr>re_set = 2, re_way = 0\<rparr>, 3 \<mapsto> \<lparr>re_set = 3, re_way = 0\<rparr>]"

lemma all_less_4: "(\<forall>j < 4. P j) \<longleftrightarrow> P 0 \<and> P 1 \<and> P 2 \<and> P (3::nat)"
  by (auto simp: numeral_eq_Suc All_less_Suc)

lemma sk_example_wf: "sk_wf sk_example example_heap"
  by (simp add: sk_wf_def idx_geo_def idx_pop_def sk_example_def example_heap_def all_less_4 All_less_Suc getSet_def getWay_def)

theorem skewed_address_roundtrip_witness:
  "sk_getPossibleEntries sk_example 0x1234 = Inr [Some 1] \<and>
   sk_regenerateAddr sk_example (extractTag sk_example 0x1234) \<lparr>re_set = 1, re_way = 0\<rparr> = block_addr sk_example 0x1234"
proof -
  have "sk_extractSet sk_example 0x1234 0 = 1" by code_simp
  then have "sk_getPossibleEntries sk_example 0x1234 = Inr [Some 1]"
    by (simp add: sk_candidates [OF sk_example_wf]) (simp add: sk_example_def)
  with skewed_address_roundtrip [OF sk_example_wf, of "0x1234" "[Some 1]" 1 "\<lparr>re_set = 1, re_way = 0\<rparr>"]
  show ?thesis by (simp add: example_heap_def)
qed

text \<open>
  In a set associative cache whose tag starts within 32 bits, tag and entry identify the block: two addresses
  with the same tag and a common candidate entry are in the same block, and the address regenerated from
  that entry is the block's.
\<close>

lemma set_assoc_identifies_block:
  assumes "sa_wf p h" and "sa_getPossibleEntries p a = Inr cs" and "sa_getPossibleEntries p b = Inr ds"
    and "Some e \<in> set cs" and "Some e \<in> set ds" and "extractTag p a = extractTag p b" and "h e = Some x"
  shows "block_addr p a = block_addr p b \<and> sa_regenerateAddr p (extractTag p a) x = block_addr p a"
  using sa.tag_identifies_block [OF assms(1-6)] sa.regenerate_ok [OF assms(1,2,4,7)] by blast

definition sa_example :: BaseIndexingPolicy where
  "sa_example = \<lparr>ip_assoc = 1, numSets = 4, setShift = 6, setMask = 3,
     ip_sets = [[Some 0], [Some 1], [Some 2], [Some 3]], tagShift = 8\<rparr>"

lemma sa_example_wf: "sa_wf sa_example example_heap"
proof -
  have "idx_geo sa_example 2"
    by (simp add: idx_geo_def sa_example_def all_less_4)
  then show ?thesis
    by (auto simp: sa_wf_def idx_pop_def sa_example_def example_heap_def all_less_4 All_less_Suc getSet_def getWay_def)
qed

text \<open>
  When the tag starts above bit 32 (a cache of more than 4 GB per way), the 32-bit shift in
  \<open>SetAssociative::regenerateAddr\<close> drops address bits: the block at \<open>2^32\<close> is regenerated as address 0.
\<close>

lemma set_assoc_regenerate_truncates:
  assumes "idx_geo p n" and "32 < tagShift p" and "getSet x = sa_extractSet p (2 ^ 32)"
  shows "sa_regenerateAddr p (extractTag p (2 ^ 32)) x = 0 \<and> block_addr p (2 ^ 32) = 2 ^ 32"
proof -
  have g: "tagShift p = setShift p + n" "setShift p < 32" "n < 32" using assms(1) by (auto simp: idx_geo_def)
  have "push_bit (setShift p) (getSet x) = 0"
  proof (rule bit_word_eqI)
    fix i assume "i < LENGTH(32)"
    then show "bit (push_bit (setShift p) (getSet x)) i = bit (0 :: u32) i"
      unfolding assms(3) bit_push_bit_iff bit_sa_extractSet [OF assms(1)] bit_exp_iff by auto
  qed
  moreover have "extractTag p (2 ^ 32) = 0"
  proof (rule bit_word_eqI)
    show "bit (extractTag p (2 ^ 32)) i = bit (0 :: u64) i" for i
      unfolding extractTag_def bit_drop_bit_eq comp_def bit_exp_iff using assms(2) by auto
  qed
  ultimately have "sa_regenerateAddr p (extractTag p (2 ^ 32)) x = 0" by (simp add: sa_regenerateAddr_def)
  moreover have "block_addr p (2 ^ 32) = 2 ^ 32"
    by (rule bit_eqI) (use g(2) in \<open>auto simp only: bit_block_addr bit_exp_iff\<close>)
  ultimately show ?thesis by blast
qed

end
