(* ===== verification/CacheBlk.thy ===== *)
theory CacheBlk
  imports Indexing
begin

text \<open>
  A cache block (\<open>mem/cache/cache_blk.hh\<close>, \<open>cache_blk.cc\<close>): its status bits, its life from insertion to
  invalidation, and the list of load-locked reservations that decides whether a store conditional
  succeeds. Packets and requests are modelled by what their accessors return: a request has a physical address
  and a context, so the assertions of \<open>getPaddr\<close> and \<open>contextId\<close> that they are valid have no counterpart.
\<close>

subsection \<open>Requests and packets\<close>

record Request =
  req_paddr :: Addr
  req_size :: u32
  req_contextId :: int
  req_masterId :: "16 word"
  req_taskId :: u32

record Packet =
  pkt_req :: Request
  pkt_addr :: Addr
  pkt_isSecure :: bool
  pkt_isLLSC :: bool
  pkt_isWrite :: bool

definition invldMasterId :: "16 word" where
  "invldMasterId = - 1"

definition MaxAddr :: Addr where
  "MaxAddr = - 1"

definition MaxTick :: Tick where
  "MaxTick = - 1"

definition TaskId_Unknown :: u32 where
  "TaskId_Unknown = 1024"

subsection \<open>Load locks\<close>

record Lock =
  lock_contextId :: int
  lowAddr :: Addr
  highAddr :: Addr

definition lock_matches :: "Lock \<Rightarrow> Request \<Rightarrow> bool" where
  "lock_matches l req =
     (let req_low = req_paddr req;
          req_high = req_low + ucast (req_size req) - 1
      in lock_contextId l = req_contextId req \<and> req_low \<ge> lowAddr l \<and> req_high \<le> highAddr l)"

definition lock_intersects :: "Lock \<Rightarrow> Request \<Rightarrow> bool" where
  "lock_intersects l req =
     (let req_low = req_paddr req;
          req_high = req_low + ucast (req_size req) - 1
      in req_low \<le> highAddr l \<and> req_high \<ge> lowAddr l)"

definition Lock_new :: "Request \<Rightarrow> Lock" where
  "Lock_new req = \<lparr>lock_contextId = req_contextId req, lowAddr = req_paddr req,
                  highAddr = req_paddr req + ucast (req_size req) - 1\<rparr>"

subsection \<open>The block\<close>

definition BlkValid :: u32 where "BlkValid = 0x01"
definition BlkWritable :: u32 where "BlkWritable = 0x02"
definition BlkReadable :: u32 where "BlkReadable = 0x04"
definition BlkDirty :: u32 where "BlkDirty = 0x08"
definition BlkHWPrefetched :: u32 where "BlkHWPrefetched = 0x20"
definition BlkSecure :: u32 where "BlkSecure = 0x40"
definition BlkCompressed :: u32 where "BlkCompressed = 0x80"

lemmas blk_bits = BlkValid_def BlkWritable_def BlkReadable_def BlkDirty_def BlkHWPrefetched_def BlkSecure_def
  BlkCompressed_def

record CacheBlk = ReplaceableEntry +
  task_id :: u32
  tag :: Addr
  blk_data :: "nat option"
  status :: u32
  whenReady :: Tick
  refCount :: u32
  srcMasterId :: int
  tickInserted :: Tick
  lockList :: "Lock list"

definition isWritable :: "'x CacheBlk_scheme \<Rightarrow> bool" where
  "isWritable b = (let needed_bits = BlkWritable OR BlkValid in status b AND needed_bits = needed_bits)"

definition isReadable :: "'x CacheBlk_scheme \<Rightarrow> bool" where
  "isReadable b = (let needed_bits = BlkReadable OR BlkValid in status b AND needed_bits = needed_bits)"

definition isValid :: "'x CacheBlk_scheme \<Rightarrow> bool" where
  "isValid b \<longleftrightarrow> status b AND BlkValid \<noteq> 0"

definition blk_invalidate :: "'x CacheBlk_scheme \<Rightarrow> 'x CacheBlk_scheme" where
  "blk_invalidate b = b\<lparr>tag := MaxAddr, task_id := TaskId_Unknown, status := 0, whenReady := MaxTick,
                        refCount := 0, srcMasterId := uint invldMasterId, lockList := []\<rparr>"

text \<open>The position is unset until \<open>setPosition\<close>: \<open>s\<close> and \<open>w\<close> stand for what the memory held.\<close>

definition CacheBlk_new :: "u32 \<Rightarrow> u32 \<Rightarrow> CacheBlk" where
  "CacheBlk_new s w = blk_invalidate
     \<lparr>re_set = s, re_way = w, task_id = 0, tag = 0, blk_data = None, status = 0, whenReady = 0, refCount = 0,
      srcMasterId = 0, tickInserted = 0, lockList = []\<rparr>"

definition isDirty :: "'x CacheBlk_scheme \<Rightarrow> bool" where
  "isDirty b \<longleftrightarrow> status b AND BlkDirty \<noteq> 0"

definition wasPrefetched :: "'x CacheBlk_scheme \<Rightarrow> bool" where
  "wasPrefetched b \<longleftrightarrow> status b AND BlkHWPrefetched \<noteq> 0"

definition isSecure :: "'x CacheBlk_scheme \<Rightarrow> bool" where
  "isSecure b \<longleftrightarrow> status b AND BlkSecure \<noteq> 0"

definition setValid :: "'x CacheBlk_scheme \<Rightarrow> 'x CacheBlk_scheme res" where
  "setValid b = (if isValid b then Inl AssertFailed else Inr (b\<lparr>status := status b OR BlkValid\<rparr>))"

definition setSecure :: "'x CacheBlk_scheme \<Rightarrow> 'x CacheBlk_scheme" where
  "setSecure b = b\<lparr>status := status b OR BlkSecure\<rparr>"

definition getWhenReady :: "'x CacheBlk_scheme \<Rightarrow> Tick res" where
  "getWhenReady b = (if whenReady b = MaxTick then Inl AssertFailed else Inr (whenReady b))"

definition setWhenReady :: "Tick \<Rightarrow> 'x CacheBlk_scheme \<Rightarrow> 'x CacheBlk_scheme res" where
  "setWhenReady tick b = (if tick \<ge> tickInserted b then Inr (b\<lparr>whenReady := tick\<rparr>) else Inl AssertFailed)"

definition blk_insert :: "Tick \<Rightarrow> Addr \<Rightarrow> bool \<Rightarrow> int \<Rightarrow> u32 \<Rightarrow> 'x CacheBlk_scheme \<Rightarrow> 'x CacheBlk_scheme res" where
  "blk_insert now t is_secure src_master_ID task_ID b =
     (if status b \<noteq> 0 then Inl AssertFailed
      else
        let b = b\<lparr>tag := t, srcMasterId := src_master_ID, task_id := task_ID, tickInserted := now, refCount := 1\<rparr>;
            b = (if is_secure then setSecure b else b)
        in setValid b)"

text \<open>The \<open>erase\<close> loops of the lock list are filters.\<close>

definition trackLoadLocked :: "Packet \<Rightarrow> 'x CacheBlk_scheme \<Rightarrow> 'x CacheBlk_scheme res" where
  "trackLoadLocked pkt b =
     (if \<not> pkt_isLLSC pkt then Inl AssertFailed
      else Inr (b\<lparr>lockList := Lock_new (pkt_req pkt) #
                   filter (\<lambda>l. \<not> lock_intersects l (pkt_req pkt)) (lockList b)\<rparr>))"

definition clearLoadLocks :: "Request \<Rightarrow> 'x CacheBlk_scheme \<Rightarrow> 'x CacheBlk_scheme" where
  "clearLoadLocks req b =
     b\<lparr>lockList := filter (\<lambda>l. \<not> (lock_intersects l req \<and> lock_contextId l \<noteq> req_contextId req)) (lockList b)\<rparr>"

text \<open>The search of \<open>checkWrite\<close>: the first matching lock is erased.\<close>

fun take_lock :: "Request \<Rightarrow> Lock list \<Rightarrow> bool \<times> Lock list" where
  "take_lock req [] = (False, [])"
| "take_lock req (l # ls) =
     (if lock_matches l req then (True, ls)
      else let (success, ls') = take_lock req ls in (success, l # ls'))"

text \<open>The result, the request's extra data when it is set, and the block.\<close>

definition checkWrite :: "Packet \<Rightarrow> 'x CacheBlk_scheme \<Rightarrow> (bool \<times> nat option \<times> 'x CacheBlk_scheme) res" where
  "checkWrite pkt b =
     (if \<not> pkt_isWrite pkt then Inl AssertFailed
      else if \<not> pkt_isLLSC pkt \<and> lockList b = [] then Inr (True, None, b)
      else
        let req = pkt_req pkt in
        if pkt_isLLSC pkt then
          let (success, ls) = take_lock req (lockList b)
          in Inr (success, Some (if success then 1 else 0), clearLoadLocks req (b\<lparr>lockList := ls\<rparr>))
        else Inr (True, None, clearLoadLocks req b))"

text \<open>The MOESI letter of \<open>print\<close>.\<close>

definition blk_state_char :: "'x CacheBlk_scheme \<Rightarrow> char" where
  "blk_state_char b =
     (case (isWritable b, isDirty b, isValid b) of
        (True, True, True) \<Rightarrow> CHR ''M''
      | (False, True, True) \<Rightarrow> CHR ''O''
      | (True, False, True) \<Rightarrow> CHR ''E''
      | (False, False, True) \<Rightarrow> CHR ''S''
      | (False, False, False) \<Rightarrow> CHR ''I''
      | _ \<Rightarrow> CHR ''T'')"

subsection \<open>The temporary block\<close>

record TempCacheBlk = CacheBlk +
  temp_addr :: Addr

definition temp_invalidate :: "TempCacheBlk \<Rightarrow> TempCacheBlk" where
  "temp_invalidate b = (blk_invalidate b)\<lparr>temp_addr := MaxAddr\<rparr>"

definition temp_insert :: "Addr \<Rightarrow> bool \<Rightarrow> TempCacheBlk \<Rightarrow> TempCacheBlk res" where
  "temp_insert addr is_secure b =
     (if status b \<noteq> 0 then Inl AssertFailed
      else
        let b = b\<lparr>temp_addr := addr\<rparr>;
            b = (if is_secure then setSecure b else b)
        in setValid b)"

definition temp_getAddr :: "TempCacheBlk \<Rightarrow> Addr" where
  "temp_getAddr b = temp_addr b"

subsection \<open>Status lemmas\<close>

lemma invalidate_status [simp]:
  "status (blk_invalidate b) = 0" "tag (blk_invalidate b) = MaxAddr" "lockList (blk_invalidate b) = []"
  "re_set (blk_invalidate b) = re_set b" "re_way (blk_invalidate b) = re_way b" "\<not> isValid (blk_invalidate b)"
  "blk_data (blk_invalidate b) = blk_data b"
  by (simp_all add: blk_invalidate_def isValid_def)

lemma blk_insert_ok:
  assumes "status b = 0"
  shows "\<exists>b'. blk_insert now t sec m k b = Inr b' \<and> isValid b' \<and> tag b' = t \<and> isSecure b' = sec \<and>
           re_set b' = re_set b \<and> re_way b' = re_way b \<and> refCount b' = 1 \<and> srcMasterId b' = m \<and> task_id b' = k \<and>
           tickInserted b' = now \<and> lockList b' = lockList b \<and> blk_data b' = blk_data b \<and> \<not> isDirty b' \<and> \<not> isWritable b'"
  using assms
  by (cases sec) (simp_all add: blk_insert_def setValid_def setSecure_def isValid_def isSecure_def isDirty_def
      isWritable_def blk_bits Let_def)

lemma blk_insert_fails: "status b \<noteq> 0 \<Longrightarrow> blk_insert now t sec m k b = Inl AssertFailed"
  by (simp add: blk_insert_def)

subsection \<open>Load-locked and store-conditional\<close>

abbreviation req_high :: "Request \<Rightarrow> Addr" where
  "req_high r \<equiv> req_paddr r + ucast (req_size r) - 1"

definition req_ok :: "Request \<Rightarrow> bool" where
  "req_ok r \<longleftrightarrow> req_paddr r \<le> req_high r"

datatype llsc_op = LL Packet | ST Packet

fun llsc_step :: "llsc_op \<Rightarrow> CacheBlk \<Rightarrow> CacheBlk res" where
  "llsc_step (LL pkt) b = trackLoadLocked pkt b"
| "llsc_step (ST pkt) b = rbind (checkWrite pkt b) (\<lambda>(ok, x, b'). Inr b')"

fun llsc_run :: "llsc_op list \<Rightarrow> CacheBlk \<Rightarrow> CacheBlk res" where
  "llsc_run [] b = Inr b"
| "llsc_run (op # ops) b = rbind (llsc_step op b) (llsc_run ops)"

lemma take_lock_success: "fst (take_lock req ls) \<longleftrightarrow> (\<exists>l \<in> set ls. lock_matches l req)"
  by (induction ls) (auto simp: split_beta Let_def)

lemma take_lock_subset: "set (snd (take_lock req ls)) \<subseteq> set ls"
  by (induction ls) (auto simp: split_beta Let_def)

lemma take_lock_keeps: "l \<in> set ls \<Longrightarrow> \<not> lock_matches l req \<Longrightarrow> l \<in> set (snd (take_lock req ls))"
  by (induction ls) (auto simp: split_beta Let_def)

lemma lockList_clear:
  "l \<in> set (lockList (clearLoadLocks req b)) \<longleftrightarrow>
     l \<in> set (lockList b) \<and> \<not> (lock_intersects l req \<and> lock_contextId l \<noteq> req_contextId req)"
  by (auto simp: clearLoadLocks_def)

lemma checkWrite_locks:
  assumes "checkWrite pkt b = Inr (ok, x, b')"
  shows "set (lockList b') \<subseteq> set (lockList b)"
    and "l \<in> set (lockList b') \<Longrightarrow> lock_contextId l \<noteq> req_contextId (pkt_req pkt) \<Longrightarrow> \<not> lock_intersects l (pkt_req pkt)"
    and "l \<in> set (lockList b) \<Longrightarrow> \<not> (lock_intersects l (pkt_req pkt) \<and> lock_contextId l \<noteq> req_contextId (pkt_req pkt)) \<Longrightarrow>
           \<not> (pkt_isLLSC pkt \<and> lock_matches l (pkt_req pkt)) \<Longrightarrow> l \<in> set (lockList b')"
  using assms take_lock_subset [of "pkt_req pkt" "lockList b"] take_lock_keeps [of l "lockList b" "pkt_req pkt"]
  by (auto simp: checkWrite_def Let_def split_beta lockList_clear split: if_splits)

lemma checkWrite_sc:
  assumes "pkt_isWrite pkt" and "pkt_isLLSC pkt"
  shows "\<exists>b'. checkWrite pkt b =
    (let ok = (\<exists>l \<in> set (lockList b). lock_matches l (pkt_req pkt)) in Inr (ok, Some (if ok then 1 else 0), b'))"
  using assms by (auto simp: checkWrite_def Let_def split_beta simp flip: take_lock_success)

text \<open>A lock survives what does not intersect it, and plain stores of its own context.\<close>

definition harmless :: "Lock \<Rightarrow> llsc_op \<Rightarrow> bool" where
  "harmless l op = (case op of
       LL pkt \<Rightarrow> \<not> lock_intersects l (pkt_req pkt)
     | ST pkt \<Rightarrow> req_ok (pkt_req pkt) \<and> (\<not> lock_intersects l (pkt_req pkt) \<or>
                   (lock_contextId l = req_contextId (pkt_req pkt) \<and> \<not> pkt_isLLSC pkt)))"

lemma match_intersects: "req_ok r \<Longrightarrow> lock_matches l r \<Longrightarrow> lock_intersects l r"
  by (auto simp: req_ok_def lock_matches_def lock_intersects_def Let_def)

lemma harmless_step:
  assumes "l \<in> set (lockList b)" and "harmless l op" and "llsc_step op b = Inr b'"
  shows "l \<in> set (lockList b')"
proof (cases op)
  case (LL pkt)
  then show ?thesis using assms by (auto simp: harmless_def trackLoadLocked_def split: if_splits)
next
  case (ST pkt)
  then obtain ok x where "checkWrite pkt b = Inr (ok, x, b')" using assms(3) by (auto simp: rbind_eq_Inr)
  moreover have "\<not> (pkt_isLLSC pkt \<and> lock_matches l (pkt_req pkt))"
    using assms(2) ST match_intersects by (auto simp: harmless_def)
  ultimately show ?thesis using checkWrite_locks(3) assms(1,2) ST by (fastforce simp: harmless_def)
qed

lemma harmless_run:
  "l \<in> set (lockList b) \<Longrightarrow> \<forall>op \<in> set ops. harmless l op \<Longrightarrow> llsc_run ops b = Inr b' \<Longrightarrow> l \<in> set (lockList b')"
  by (induction ops arbitrary: b) (auto simp: rbind_eq_Inr dest: harmless_step)

text \<open>Without a load-locked of its own, a context never gains a lock.\<close>

definition unreserved :: "Request \<Rightarrow> CacheBlk \<Rightarrow> bool" where
  "unreserved r b \<longleftrightarrow> (\<forall>l \<in> set (lockList b). \<not> lock_matches l r)"

lemma unreserved_step:
  assumes "unreserved r b" and "\<And>pkt. op = LL pkt \<Longrightarrow> req_contextId (pkt_req pkt) \<noteq> req_contextId r"
    and "llsc_step op b = Inr b'"
  shows "unreserved r b'"
proof (cases op)
  case (LL pkt)
  then show ?thesis using assms
    by (auto simp: unreserved_def trackLoadLocked_def lock_matches_def Lock_new_def Let_def split: if_splits)
next
  case (ST pkt)
  then show ?thesis using assms checkWrite_locks(1) by (fastforce simp: unreserved_def rbind_eq_Inr)
qed

lemma unreserved_run:
  "unreserved r b \<Longrightarrow> \<forall>pkt. LL pkt \<in> set ops \<longrightarrow> req_contextId (pkt_req pkt) \<noteq> req_contextId r \<Longrightarrow>
   llsc_run ops b = Inr b' \<Longrightarrow> unreserved r b'"
proof (induction ops arbitrary: b)
  case (Cons op ops)
  then obtain c where c: "llsc_step op b = Inr c" "llsc_run ops c = Inr b'" by (auto simp: rbind_eq_Inr)
  have "unreserved r c" using unreserved_step [OF Cons.prems(1) _ c(1)] Cons.prems(2) by auto
  with Cons.IH c(2) Cons.prems(2) show ?case by auto
qed simp

text \<open>Every sequence of load-locked packets and writes runs through.\<close>

fun llsc_legal :: "llsc_op \<Rightarrow> bool" where
  "llsc_legal (LL pkt) = pkt_isLLSC pkt"
| "llsc_legal (ST pkt) = pkt_isWrite pkt"

lemma llsc_run_total: "list_all llsc_legal ops \<Longrightarrow> \<exists>b'. llsc_run ops b = Inr b'"
proof (induction ops arbitrary: b)
  case (Cons op ops)
  have "\<exists>c. llsc_step op b = Inr c"
    using Cons.prems by (cases op) (auto simp: trackLoadLocked_def checkWrite_def Let_def split_beta)
  then obtain c where "llsc_step op b = Inr c" ..
  with Cons show ?case by auto
qed simp

subsection \<open>Properties\<close>

text \<open>
  C31 A reservation holds: after a load-locked, as long as nothing but accesses that do not overlap it
  and plain stores of its own context reach the block, a store conditional of that context inside the
  reserved range succeeds and reports 1. This is what the code does and not what two of its comments say: the
  one in \<open>checkWrite\<close> has the whole list cleared by a store of another context, and the one at
  \<open>lockList\<close> speaks of the contexts that did a load-locked since the last store, whereas
  \<open>clearLoadLocks\<close> erases only the foreign locks that overlap the store.
\<close>

theorem llsc_reservation_kept:
  assumes "llsc_run (LL p # ops) b = Inr b'" and "\<forall>op \<in> set ops. harmless (Lock_new (pkt_req p)) op"
    and "pkt_isWrite sc" and "pkt_isLLSC sc" and "req_contextId (pkt_req sc) = req_contextId (pkt_req p)"
    and "req_paddr (pkt_req p) \<le> req_paddr (pkt_req sc)" and "req_high (pkt_req sc) \<le> req_high (pkt_req p)"
  shows "\<exists>b''. checkWrite sc b' = Inr (True, Some 1, b'')"
proof -
  let ?l = "Lock_new (pkt_req p)"
  from assms(1) obtain c where "trackLoadLocked p b = Inr c" "llsc_run ops c = Inr b'" by (auto simp: rbind_eq_Inr)
  moreover from this(1) have "?l \<in> set (lockList c)" by (auto simp: trackLoadLocked_def split: if_splits)
  ultimately have "?l \<in> set (lockList b')" using harmless_run assms(2) by blast
  moreover have "lock_matches ?l (pkt_req sc)" using assms(5-7) by (simp add: lock_matches_def Lock_new_def Let_def)
  ultimately show ?thesis using checkWrite_sc [OF assms(3,4), of b'] by (auto simp: Let_def)
qed

definition llsc_pkt :: "int \<Rightarrow> Addr \<Rightarrow> u32 \<Rightarrow> bool \<Rightarrow> bool \<Rightarrow> Packet" where
  "llsc_pkt c a n llsc w =
     \<lparr>pkt_req = \<lparr>req_paddr = a, req_size = n, req_contextId = c, req_masterId = 0, req_taskId = 0\<rparr>,
      pkt_addr = a, pkt_isSecure = False, pkt_isLLSC = llsc, pkt_isWrite = w\<rparr>"

theorem llsc_reservation_kept_witness:
  "\<exists>b' b''. llsc_run [LL (llsc_pkt 0 64 8 True False), ST (llsc_pkt 1 80 8 False True), ST (llsc_pkt 0 64 4 False True)]
      (CacheBlk_new 0 0) = Inr b' \<and>
    checkWrite (llsc_pkt 0 64 8 True True) b' = Inr (True, Some 1, b'')"
proof -
  let ?ops = "[ST (llsc_pkt 1 80 8 False True), ST (llsc_pkt 0 64 4 False True)]"
  obtain b' where r: "llsc_run (LL (llsc_pkt 0 64 8 True False) # ?ops) (CacheBlk_new 0 0) = Inr b'"
    using llsc_run_total [of "LL (llsc_pkt 0 64 8 True False) # ?ops" "CacheBlk_new 0 0"] by (auto simp: llsc_pkt_def)
  with llsc_reservation_kept [OF r, of "llsc_pkt 0 64 8 True True"]
  show ?thesis by (simp add: llsc_pkt_def harmless_def req_ok_def lock_intersects_def Lock_new_def)
qed

text \<open>
  C30 A foreign store breaks a reservation: once a store of another context overlapping a range has been
  checked on the block, a store conditional on that range fails and reports 0 until its own
  context issues a new load-locked.
\<close>

theorem llsc_foreign_store_breaks:
  assumes "llsc_run (ST q # ops) b = Inr b'" and "\<forall>pkt. LL pkt \<in> set ops \<longrightarrow> req_contextId (pkt_req pkt) \<noteq> req_contextId (pkt_req sc)"
    and "req_contextId (pkt_req q) \<noteq> req_contextId (pkt_req sc)"
    and "req_paddr (pkt_req sc) \<le> req_high (pkt_req q)" and "req_paddr (pkt_req q) \<le> req_high (pkt_req sc)"
    and "pkt_isWrite sc" and "pkt_isLLSC sc"
  shows "\<exists>b''. checkWrite sc b' = Inr (False, Some 0, b'')"
proof -
  from assms(1) obtain ok x c where c: "checkWrite q b = Inr (ok, x, c)" "llsc_run ops c = Inr b'"
    by (auto simp: rbind_eq_Inr)
  have "unreserved (pkt_req sc) c"
    unfolding unreserved_def
  proof (intro ballI notI)
    fix l assume l: "l \<in> set (lockList c)" "lock_matches l (pkt_req sc)"
    then have "lock_intersects l (pkt_req q)" "lock_contextId l \<noteq> req_contextId (pkt_req q)"
      using assms(3-5) by (auto simp: lock_matches_def lock_intersects_def Let_def)
    then show False using checkWrite_locks(2) [OF c(1) l(1)] by blast
  qed
  from unreserved_run [OF this assms(2) c(2)] show ?thesis
    using checkWrite_sc [OF assms(6,7), of b'] by (auto simp: unreserved_def Let_def)
qed

theorem llsc_foreign_store_breaks_witness:
  "\<exists>b' b''. llsc_run [ST (llsc_pkt 1 68 4 False True), ST (llsc_pkt 2 64 8 False True)]
      ((CacheBlk_new 0 0)\<lparr>lockList := [Lock_new (pkt_req (llsc_pkt 0 64 8 True False))]\<rparr>) = Inr b' \<and>
    checkWrite (llsc_pkt 0 64 8 True True) b' = Inr (False, Some 0, b'')"
proof -
  let ?b = "(CacheBlk_new 0 0)\<lparr>lockList := [Lock_new (pkt_req (llsc_pkt 0 64 8 True False))]\<rparr>"
  obtain b' where r: "llsc_run (ST (llsc_pkt 1 68 4 False True) # [ST (llsc_pkt 2 64 8 False True)]) ?b = Inr b'"
    using llsc_run_total [of "ST (llsc_pkt 1 68 4 False True) # [ST (llsc_pkt 2 64 8 False True)]" ?b]
    by (auto simp: llsc_pkt_def)
  with llsc_foreign_store_breaks [OF r, of "llsc_pkt 0 64 8 True True"]
  show ?thesis by (simp add: llsc_pkt_def)
qed

text \<open>
  \<open>insert\<close> after \<open>invalidate\<close> is clean: it always succeeds, and the block is then valid with the given tag and
  security space, not dirty, not writable, referenced once and without reservations; inserting into a block
  with any status bit left fails the assertion.
\<close>

lemma insert_after_invalidate:
  "(\<exists>b'. blk_insert now t sec m k (blk_invalidate b) = Inr b' \<and> isValid b' \<and> tag b' = t \<and> isSecure b' = sec \<and>
      \<not> isDirty b' \<and> \<not> isWritable b' \<and> refCount b' = 1 \<and> lockList b' = [] \<and> blk_state_char b' = CHR ''S'') \<and>
   (status b \<noteq> 0 \<longrightarrow> blk_insert now t sec m k b = Inl AssertFailed)"
  using blk_insert_ok [of "blk_invalidate b" now t sec m k] blk_insert_fails [of b now t sec m k]
  by (auto simp: blk_state_char_def)

end
