(* ===== verification/SatCounter.thy ===== *)
theory SatCounter
  imports Prelude
begin

text \<open>
  The saturating counter of \<open>base/sat_counter.hh\<close>: the record has the three \<open>uint8_t\<close>
  members, one definition per operator; the operands are 32-bit \<open>int\<close>s. The abstract counter is a
  natural number clamped to \<open>[0, maxVal]\<close>; the lemmas show which operators implement the clamped
  arithmetic and that the shift-left operator does so only while no bit leaves the eight-bit member.
  What the language leaves undefined is an error value: a shift of the promoted member by its width or more,
  or past the unsigned range, and the negation of the least \<open>int\<close>.
\<close>

record SatCounter =
  initialVal :: u8
  maxVal :: u8
  counter :: u8

text \<open>\<open>1 << bits\<close> is evaluated in the initialiser of \<open>maxVal\<close>, before \<open>bits\<close> is checked.\<close>

definition SatCounter_new :: "nat \<Rightarrow> u8 \<Rightarrow> SatCounter res" where
  "SatCounter_new bits initial_val =
     (let mv = (of_nat (2 ^ bits - 1) :: u8) in
      if bits \<ge> 32 then Inl UndefinedShift
      else if bits > 8 then Inl FatalError
      else if initial_val > mv then Inl FatalError
      else Inr \<lparr>initialVal = initial_val, maxVal = mv, counter = initial_val\<rparr>)"

definition sat_swap :: "SatCounter \<Rightarrow> SatCounter \<Rightarrow> SatCounter \<times> SatCounter" where
  "sat_swap this other =
     (\<lparr>initialVal = initialVal other, maxVal = maxVal other, counter = counter other\<rparr>,
      \<lparr>initialVal = initialVal this, maxVal = maxVal this, counter = counter this\<rparr>)"

definition sat_copy :: "SatCounter \<Rightarrow> SatCounter" where
  "sat_copy other =
     \<lparr>initialVal = initialVal other, maxVal = maxVal other, counter = counter other\<rparr>"

text \<open>Move construction leaves \<open>other\<close> as a zero-bit counter.\<close>

definition sat_move :: "SatCounter \<Rightarrow> SatCounter \<times> SatCounter" where
  "sat_move other =
     (let this = \<lparr>initialVal = initialVal other, maxVal = maxVal other, counter = counter other\<rparr>;
          temp = \<lparr>initialVal = 0, maxVal = 0, counter = 0\<rparr>
      in (this, fst (sat_swap other temp)))"

definition sat_inc :: "SatCounter \<Rightarrow> SatCounter" where
  "sat_inc c = (if counter c < maxVal c then c\<lparr>counter := counter c + 1\<rparr> else c)"

definition sat_dec :: "SatCounter \<Rightarrow> SatCounter" where
  "sat_dec c = (if counter c > 0 then c\<lparr>counter := counter c - 1\<rparr> else c)"

text \<open>The post-fix forms return the old counter beside the new state.\<close>

definition sat_post_inc :: "SatCounter \<Rightarrow> SatCounter \<times> SatCounter" where
  "sat_post_inc c = (let old_counter = sat_copy c in (old_counter, sat_inc c))"

definition sat_post_dec :: "SatCounter \<Rightarrow> SatCounter \<times> SatCounter" where
  "sat_post_dec c = (let old_counter = sat_copy c in (old_counter, sat_dec c))"

definition sat_shr :: "i32 \<Rightarrow> SatCounter \<Rightarrow> SatCounter res" where
  "sat_shr shift c =
     (if sint shift < 0 then Inl AssertFailed
      else if sint shift \<ge> 32 then Inl UndefinedShift
      else Inr (c\<lparr>counter := drop_bit (nat (sint shift)) (counter c)\<rparr>))"

text \<open>\<open>counter <<= shift\<close> stores the shifted value truncated to eight bits.\<close>

definition sat_shl :: "i32 \<Rightarrow> SatCounter \<Rightarrow> SatCounter res" where
  "sat_shl shift c =
     (if sint shift < 0 then Inl AssertFailed
      else if sint shift \<ge> 32 \<or> uint (counter c) * 2 ^ nat (sint shift) \<ge> 2 ^ 32 then Inl UndefinedShift
      else let shifted = push_bit (nat (sint shift)) (counter c) in
        Inr (c\<lparr>counter := (if shifted > maxVal c then maxVal c else shifted)\<rparr>))"

text \<open>The expression \<open>-value\<close> on an \<open>int\<close>.\<close>

definition INT_MIN :: i32 where
  "INT_MIN = 0x80000000"

definition int_neg :: "i32 \<Rightarrow> i32 res" where
  "int_neg value = (if value = INT_MIN then Inl SignedOverflow else Inr (- value))"

lemma sint_neg32:
  assumes "v \<noteq> INT_MIN"
  shows "sint (- v :: i32) = - sint v"
proof -
  have "sint v \<noteq> - (2 ^ 31)"
  proof
    assume "sint v = - (2 ^ 31)"
    moreover have "v = word_of_int (sint v)" by simp
    ultimately have "v = word_of_int (- (2 ^ 31))" by metis
    with assms show False by (simp add: INT_MIN_def)
  qed
  moreover have "- (2 ^ 31) \<le> sint v" "sint v < 2 ^ 31"
    using sint_ge [of v] sint_lt [of v] by simp_all
  ultimately have "- (2 ^ 31) \<le> - sint v" "- sint v < 2 ^ 31" by simp_all
  then have "signed_take_bit 31 (- sint v) = - sint v" by (simp add: signed_take_bit_int_eq_self)
  moreover have "sint (- v) = signed_take_bit 31 (- sint v)"
    by (simp add: sint_word_minus)
  ultimately show ?thesis by simp
qed

lemma int_neg_InrE:
  assumes "int_neg value = Inr v"
  obtains "value \<noteq> INT_MIN" and "v = - value" and "sint v = - sint value"
  using assms by (auto simp: int_neg_def sint_neg32 split: if_splits)

function sat_add :: "i32 \<Rightarrow> SatCounter \<Rightarrow> SatCounter res"
  and sat_sub :: "i32 \<Rightarrow> SatCounter \<Rightarrow> SatCounter res" where
  "sat_add value c =
     (if sint value \<ge> 0 then
        (if uint (maxVal c) - uint (counter c) \<ge> sint value
         then Inr (c\<lparr>counter := counter c + of_int (sint value)\<rparr>)
         else Inr (c\<lparr>counter := maxVal c\<rparr>))
      else rbind (int_neg value) (\<lambda>v. sat_sub v c))"
| "sat_sub value c =
     (if sint value \<ge> 0 then
        (if uint (counter c) > sint value
         then Inr (c\<lparr>counter := counter c - of_int (sint value)\<rparr>)
         else Inr (c\<lparr>counter := 0\<rparr>))
      else rbind (int_neg value) (\<lambda>v. sat_add v c))"
  by pat_completeness auto
termination
  by (relation "measure (\<lambda>s. case s of Inl (v, c) \<Rightarrow> (if sint v < 0 then 1 else 0)
                                     | Inr (v, c) \<Rightarrow> (if sint v < 0 then 1 else 0))") (auto elim: int_neg_InrE)

declare sat_add.simps [simp del] sat_sub.simps [simp del]

definition sat_read :: "SatCounter \<Rightarrow> u8" where
  "sat_read c = counter c"

definition sat_reset :: "SatCounter \<Rightarrow> SatCounter" where
  "sat_reset c = c\<lparr>counter := initialVal c\<rparr>"

text \<open>\<open>calcSaturation\<close> divides doubles: zero by zero is not a number, \<open>None\<close> here.\<close>

definition calcSaturation :: "SatCounter \<Rightarrow> rat option" where
  "calcSaturation c =
     (if maxVal c = 0 then None else Some (of_nat (unat (counter c)) / of_nat (unat (maxVal c))))"

definition isSaturated :: "SatCounter \<Rightarrow> bool" where
  "isSaturated c \<longleftrightarrow> counter c = maxVal c"

definition sat_saturate :: "SatCounter \<Rightarrow> u8 \<times> SatCounter" where
  "sat_saturate c = (let diff = maxVal c - counter c in (diff, c\<lparr>counter := maxVal c\<rparr>))"

subsection \<open>The invariant\<close>

definition sat_wf :: "SatCounter \<Rightarrow> bool" where
  "sat_wf c \<longleftrightarrow> initialVal c \<le> maxVal c \<and> counter c \<le> maxVal c"

abbreviation sat_val :: "SatCounter \<Rightarrow> nat" where
  "sat_val c \<equiv> unat (counter c)"

abbreviation sat_max :: "SatCounter \<Rightarrow> nat" where
  "sat_max c \<equiv> unat (maxVal c)"

lemma sat_wf_val: "sat_wf c \<Longrightarrow> sat_val c \<le> sat_max c"
  by (simp add: sat_wf_def word_le_nat_alt)

lemma sat_wf_uint: "sat_wf c \<Longrightarrow> uint (counter c) \<le> uint (maxVal c)"
  by (simp add: sat_wf_def word_le_def)

lemma SatCounter_new_wf: "SatCounter_new b i = Inr c \<Longrightarrow> sat_wf c"
  by (auto simp: SatCounter_new_def sat_wf_def Let_def split: if_splits)

lemma u8_ones: "b \<le> 8 \<Longrightarrow> unat (of_nat (2 ^ b - 1) :: u8) = 2 ^ b - 1"
proof -
  assume "b \<le> 8"
  then have "(2::nat) ^ b \<le> 2 ^ 8" by (intro power_increasing) auto
  then have "(2::nat) ^ b - 1 < 2 ^ 8" by simp
  then show ?thesis by (simp only: unat_of_nat) simp
qed

lemma SatCounter_new_max:
  assumes "SatCounter_new b i = Inr c"
  shows "sat_max c = 2 ^ b - 1"
proof -
  from assms have "b \<le> 8" and m: "maxVal c = of_nat (2 ^ b - 1)"
    by (auto simp: SatCounter_new_def Let_def split: if_splits)
  then show ?thesis by (simp only: m u8_ones)
qed

lemma sat_inc_val: "sat_wf c \<Longrightarrow> sat_val (sat_inc c) = min (sat_max c) (sat_val c + 1)"
  by (auto simp: sat_inc_def sat_wf_def word_inc_less not_less word_le_nat_alt word_less_nat_alt min_def)

lemma sat_dec_val: "sat_val (sat_dec c) = sat_val c - 1"
  by (auto simp: sat_dec_def word_dec_pos word_gt_0)

lemma sat_inc_max [simp]: "maxVal (sat_inc c) = maxVal c" "initialVal (sat_inc c) = initialVal c"
  by (auto simp: sat_inc_def)

lemma sat_dec_max [simp]: "maxVal (sat_dec c) = maxVal c" "initialVal (sat_dec c) = initialVal c"
  by (auto simp: sat_dec_def)

lemma sat_inc_wf: "sat_wf c \<Longrightarrow> sat_wf (sat_inc c)"
  using sat_inc_val [of c] by (simp add: sat_wf_def word_le_nat_alt)

lemma sat_dec_wf: "sat_wf c \<Longrightarrow> sat_wf (sat_dec c)"
  using sat_dec_val [of c] by (auto simp: sat_wf_def word_le_nat_alt)

lemma u8_add: "0 \<le> x \<Longrightarrow> uint w + x < 256 \<Longrightarrow> uint (w + of_int x :: u8) = uint w + x"
  by (simp add: uint_word_ariths uint_word_of_int mod_add_right_eq)

lemma u8_sub: "0 \<le> x \<Longrightarrow> x < uint w \<Longrightarrow> uint (w - of_int x :: u8) = uint w - x"
  using uint_lt2p [of w] by (simp add: uint_word_ariths uint_word_of_int mod_diff_right_eq)

lemma sat_add_nonneg:
  assumes "0 \<le> sint v"
  shows "\<exists>w. sat_add v c = Inr (c\<lparr>counter := w\<rparr>) \<and> uint w = min (uint (maxVal c)) (uint (counter c) + sint v)"
proof (cases "uint (maxVal c) - uint (counter c) \<ge> sint v")
  case True
  then have "uint (counter c + of_int (sint v)) = uint (counter c) + sint v"
    using uint_lt2p [of "maxVal c"] by (intro u8_add [OF assms]) simp
  with True assms show ?thesis by (auto simp: sat_add.simps [of v c] simp del: of_int_sint)
qed (use assms in \<open>auto simp: sat_add.simps [of v c]\<close>)

lemma sat_sub_nonneg:
  assumes "0 \<le> sint v"
  shows "\<exists>w. sat_sub v c = Inr (c\<lparr>counter := w\<rparr>) \<and> uint w = max 0 (uint (counter c) - sint v)"
proof (cases "uint (counter c) > sint v")
  case True
  with u8_sub [OF assms this] assms show ?thesis by (auto simp: sat_sub.simps [of v c] simp del: of_int_sint)
qed (use assms in \<open>auto simp: sat_sub.simps [of v c]\<close>)

text \<open>Both operators, for operands of either sign: each hands a negative operand to the other.\<close>

lemma sat_add_clamped:
  assumes "sat_wf c" and "v \<noteq> INT_MIN"
  shows "\<exists>w. sat_add v c = Inr (c\<lparr>counter := w\<rparr>) \<and> uint w = max 0 (min (uint (maxVal c)) (uint (counter c) + sint v))"
proof (cases "0 \<le> sint v")
  case True
  with sat_add_nonneg [of v c] show ?thesis by (auto simp: max_def min_def)
next
  case False
  then have "sat_add v c = sat_sub (- v) c" using assms(2) by (simp add: sat_add.simps [of v c] int_neg_def)
  moreover have "0 \<le> sint (- v)" using False sint_neg32 [OF assms(2)] by simp
  ultimately obtain w where "sat_add v c = Inr (c\<lparr>counter := w\<rparr>)" "uint w = max 0 (uint (counter c) - sint (- v))"
    using sat_sub_nonneg [of "- v" c] by auto
  with False sint_neg32 [OF assms(2)] sat_wf_uint [OF assms(1)] show ?thesis by auto
qed

lemma sat_sub_clamped:
  assumes "sat_wf c" and "v \<noteq> INT_MIN"
  shows "\<exists>w. sat_sub v c = Inr (c\<lparr>counter := w\<rparr>) \<and> uint w = max 0 (min (uint (maxVal c)) (uint (counter c) - sint v))"
proof (cases "0 \<le> sint v")
  case True
  then obtain w where "sat_sub v c = Inr (c\<lparr>counter := w\<rparr>)" "uint w = max 0 (uint (counter c) - sint v)"
    using sat_sub_nonneg [of v c] by auto
  with True sat_wf_uint [OF assms(1)] show ?thesis by auto
next
  case False
  then have "sat_sub v c = sat_add (- v) c" using assms(2) by (simp add: sat_sub.simps [of v c] int_neg_def)
  moreover have "0 \<le> sint (- v)" using False sint_neg32 [OF assms(2)] by simp
  ultimately obtain w where "sat_sub v c = Inr (c\<lparr>counter := w\<rparr>)" "uint w = min (uint (maxVal c)) (uint (counter c) + sint (- v))"
    using sat_add_nonneg [of "- v" c] by auto
  moreover have "sint v \<le> uint (counter c)" using False uint_ge_0 [of "counter c"] by linarith
  ultimately show ?thesis using sint_neg32 [OF assms(2)]
    by (intro exI [of _ w]) (simp add: max_def min_def)
qed

lemma sat_add_INT_MIN: "sat_add INT_MIN c = Inl SignedOverflow" "sat_sub INT_MIN c = Inl SignedOverflow"
proof -
  have "sint INT_MIN < 0" by (simp add: INT_MIN_def)
  then show "sat_add INT_MIN c = Inl SignedOverflow" "sat_sub INT_MIN c = Inl SignedOverflow"
    by (simp_all add: sat_add.simps [of INT_MIN c] sat_sub.simps [of INT_MIN c] int_neg_def)
qed

lemma sat_clamp_keeps:
  assumes "sat_wf c" and "uint w = max 0 (min (uint (maxVal c)) x)"
  shows "sat_wf (c\<lparr>counter := w\<rparr>)"
  using assms by (simp add: sat_wf_def word_le_def)

lemma sat_add_keeps:
  assumes "sat_wf c" and "sat_add v c = Inr c' \<or> sat_sub v c = Inr c'"
  shows "sat_wf c' \<and> maxVal c' = maxVal c \<and> initialVal c' = initialVal c"
proof -
  have "v \<noteq> INT_MIN" using assms(2) by (auto simp: sat_add_INT_MIN)
  with assms show ?thesis
    using sat_add_clamped [OF assms(1)] sat_sub_clamped [OF assms(1)] sat_clamp_keeps [OF assms(1)] by fastforce
qed

lemma sat_add_nat:
  assumes "0 \<le> sint v" and "sat_wf c"
  shows "succeeds (sat_add v c) (\<lambda>c'. sat_wf c' \<and> maxVal c' = maxVal c \<and> initialVal c' = initialVal c \<and>
    sat_val c' = min (sat_max c) (sat_val c + nat (sint v)))"
proof -
  obtain w where w: "sat_add v c = Inr (c\<lparr>counter := w\<rparr>)" "uint w = min (uint (maxVal c)) (uint (counter c) + sint v)"
    using sat_add_nonneg [OF assms(1)] by auto
  then have "int (unat w) = min (int (sat_max c)) (int (sat_val c) + sint v)" by simp
  then have "unat w = min (sat_max c) (sat_val c + nat (sint v))" using assms(1) by linarith
  with w(1) sat_add_keeps [OF assms(2)] show ?thesis by auto
qed

lemma sat_shl_exact:
  assumes "0 \<le> sint s" and "sint s < 32" and "sat_val c * 2 ^ nat (sint s) < 256"
  shows "succeeds (sat_shl s c)
    (\<lambda>c'. maxVal c' = maxVal c \<and> initialVal c' = initialVal c \<and>
          sat_val c' = min (sat_max c) (sat_val c * 2 ^ nat (sint s)))"
proof -
  have "unat (push_bit (nat (sint s)) (counter c)) = sat_val c * 2 ^ nat (sint s)"
    using assms(3) by (simp only: unsigned_push_bit_eq) (simp add: push_bit_eq_mult take_bit_nat_eq_self_iff)
  moreover have "int (sat_val c * 2 ^ nat (sint s)) < 256" using assms(3) by (simp only: of_nat_less_numeral_iff)
  then have "uint (counter c) * 2 ^ nat (sint s) < 2 ^ 32" by simp
  ultimately show ?thesis
    using assms(1,2) by (auto simp: sat_shl_def Let_def word_less_nat_alt min_def not_le)
qed

subsection \<open>Runs of operations\<close>

datatype sat_op = OpInc | OpDec | OpAdd i32 | OpSub i32 | OpShr i32 | OpShl i32 | OpReset | OpSaturate

fun sat_apply :: "sat_op \<Rightarrow> SatCounter \<Rightarrow> SatCounter res" where
  "sat_apply OpInc c = Inr (sat_inc c)"
| "sat_apply OpDec c = Inr (sat_dec c)"
| "sat_apply (OpAdd v) c = sat_add v c"
| "sat_apply (OpSub v) c = sat_sub v c"
| "sat_apply (OpShr s) c = sat_shr s c"
| "sat_apply (OpShl s) c = sat_shl s c"
| "sat_apply OpReset c = Inr (sat_reset c)"
| "sat_apply OpSaturate c = Inr (snd (sat_saturate c))"

fun sat_run :: "sat_op list \<Rightarrow> SatCounter \<Rightarrow> SatCounter res" where
  "sat_run [] c = Inr c"
| "sat_run (x # xs) c = rbind (sat_apply x c) (sat_run xs)"

lemma drop_bit_le: "drop_bit n (w :: 'a::len word) \<le> w"
proof -
  have "unat (drop_bit n w) = unat w div 2 ^ n" by (simp only: unat_drop_bit_eq) (simp add: drop_bit_eq_div)
  then show ?thesis by (simp add: word_le_nat_alt)
qed

lemma sat_shr_wf: "sat_wf c \<Longrightarrow> sat_shr s c = Inr c' \<Longrightarrow>
    sat_wf c' \<and> maxVal c' = maxVal c \<and> initialVal c' = initialVal c"
  using order_trans [OF drop_bit_le [of "nat (sint s)" "counter c"]]
  by (auto simp: sat_shr_def sat_wf_def split: if_splits)

lemma sat_shl_wf: "sat_wf c \<Longrightarrow> sat_shl s c = Inr c' \<Longrightarrow>
    sat_wf c' \<and> maxVal c' = maxVal c \<and> initialVal c' = initialVal c"
  by (auto simp: sat_shl_def sat_wf_def Let_def split: if_splits)

lemma sat_reset_wf: "sat_wf c \<Longrightarrow> sat_wf (sat_reset c)"
  by (simp add: sat_reset_def sat_wf_def)

lemma sat_saturate_wf: "sat_wf c \<Longrightarrow> sat_wf (snd (sat_saturate c))"
  by (simp add: sat_saturate_def sat_wf_def Let_def)

lemmas sat_wf_ops = sat_inc_wf sat_dec_wf sat_reset_wf sat_saturate_wf

lemma sat_apply_keeps:
  assumes "sat_wf c" and "sat_apply x c = Inr c'"
  shows "sat_wf c' \<and> maxVal c' = maxVal c \<and> initialVal c' = initialVal c"
  using assms
  by (cases x) (auto simp: sat_wf_ops dest: sat_shr_wf sat_shl_wf sat_add_keeps [OF assms(1) disjI1] sat_add_keeps [OF assms(1) disjI2],
      auto simp: sat_reset_def sat_saturate_def Let_def)

lemma sat_run_keeps:
  "sat_wf c \<Longrightarrow> sat_run xs c = Inr c' \<Longrightarrow> sat_wf c' \<and> maxVal c' = maxVal c"
proof (induction xs arbitrary: c)
  case (Cons x xs)
  from Cons.prems(2) obtain d where d: "sat_apply x c = Inr d" "sat_run xs d = Inr c'"
    by (auto elim: rbind_InrE)
  from sat_apply_keeps [OF Cons.prems(1) d(1)] Cons.IH [OF _ d(2)] show ?case by auto
qed simp

lemma sat_shl_undefined:
  assumes "sat_shl s c = Inl err"
  shows "err = AssertFailed \<and> sint s < 0 \<or> err = UndefinedShift \<and> sint s \<ge> 24"
proof -
  have "sint s \<ge> 24" if "uint (counter c) * 2 ^ nat (sint s) \<ge> 2 ^ 32"
  proof (rule ccontr)
    assume "\<not> sint s \<ge> 24"
    then have "(2::int) ^ nat (sint s) \<le> 2 ^ 24" by (intro power_increasing) auto
    moreover have "uint (counter c) \<le> 255" using uint_lt2p [of "counter c"] by simp
    ultimately have "uint (counter c) * 2 ^ nat (sint s) \<le> 255 * 2 ^ 24" by (intro mult_mono) auto
    with that show False by simp
  qed
  then show ?thesis using assms by (auto simp: sat_shl_def Let_def split: if_splits)
qed

lemma sat_apply_fails:
  assumes "sat_wf c" and "sat_apply x c = Inl err"
  shows "(\<exists>s. (x = OpShr s \<or> x = OpShl s) \<and> (err = AssertFailed \<and> sint s < 0 \<or> err = UndefinedShift \<and> sint s \<ge> 24)) \<or>
    err = SignedOverflow \<and> (x = OpAdd INT_MIN \<or> x = OpSub INT_MIN)"
proof (cases x)
  case (OpAdd v)
  then show ?thesis using assms sat_add_clamped [OF assms(1), of v] by (cases "v = INT_MIN") (auto simp: sat_add_INT_MIN)
next
  case (OpSub v)
  then show ?thesis using assms sat_sub_clamped [OF assms(1), of v] by (cases "v = INT_MIN") (auto simp: sat_add_INT_MIN)
next
  case (OpShr s)
  then show ?thesis using assms(2) by (auto simp: sat_shr_def split: if_splits)
next
  case (OpShl s)
  then show ?thesis using assms(2) sat_shl_undefined [of s c err] by auto
qed (use assms(2) in simp_all)

lemma sat_run_fails:
  "sat_wf c \<Longrightarrow> sat_run xs c = Inl err \<Longrightarrow>
   (\<exists>s. (OpShr s \<in> set xs \<or> OpShl s \<in> set xs) \<and> (err = AssertFailed \<and> sint s < 0 \<or> err = UndefinedShift \<and> sint s \<ge> 24)) \<or>
   err = SignedOverflow \<and> (OpAdd INT_MIN \<in> set xs \<or> OpSub INT_MIN \<in> set xs)"
proof (induction xs arbitrary: c)
  case (Cons x xs)
  show ?case
  proof (cases "sat_apply x c")
    case (Inl e)
    with Cons.prems(2) have "sat_apply x c = Inl err" by simp
    from sat_apply_fails [OF Cons.prems(1) this] show ?thesis by auto
  next
    case (Inr d)
    then have "sat_wf d" "sat_run xs d = Inl err" using sat_apply_keeps [OF Cons.prems(1) Inr] Cons.prems(2) by simp_all
    from Cons.IH [OF this] show ?thesis by auto
  qed
qed simp

lemma sat_saturate_val: "sat_wf c \<Longrightarrow> unat (fst (sat_saturate c)) = sat_max c - sat_val c"
  by (simp add: sat_saturate_def Let_def sat_wf_def unat_sub)

lemma sat_saturate_snd [simp]: "snd (sat_saturate c) = c\<lparr>counter := maxVal c\<rparr>"
  by (simp add: sat_saturate_def Let_def)

subsection \<open>Properties\<close>

text \<open>
  C37 every sequence of operations that returns, applied to a counter that the constructor accepted, leaves
  the value within \<open>[0, 2^bits - 1]\<close> and never changes the maximum. The operands are any \<open>int\<close>s;
  a sequence does not return only when a shift is negative (an assertion), a shift is undefined or the least
  \<open>int\<close> is negated.
\<close>

theorem sat_run_bounded:
  assumes "SatCounter_new bits i = Inr c"
  shows "case sat_run xs c of Inr c' \<Rightarrow> sat_val c' \<le> 2 ^ bits - 1 \<and> maxVal c' = maxVal c
    | Inl err \<Rightarrow> (\<exists>s. (OpShr s \<in> set xs \<or> OpShl s \<in> set xs) \<and>
          (err = AssertFailed \<and> sint s < 0 \<or> err = UndefinedShift \<and> sint s \<ge> 24)) \<or>
        err = SignedOverflow \<and> (OpAdd INT_MIN \<in> set xs \<or> OpSub INT_MIN \<in> set xs)"
proof (cases "sat_run xs c")
  case (Inl err)
  then show ?thesis using sat_run_fails [OF SatCounter_new_wf [OF assms] Inl] by simp
next
  case (Inr c')
  then show ?thesis
    using sat_run_keeps [OF SatCounter_new_wf [OF assms] Inr] sat_wf_val [of c'] SatCounter_new_max [OF assms] by simp
qed

theorem sat_run_bounded_witness:
  "\<exists>c c'. SatCounter_new 3 0 = Inr c \<and> sat_run [OpAdd 9, OpSub (- 2), OpShl 1, OpDec] c = Inr c' \<and>
     sat_val c' \<le> 2 ^ 3 - 1 \<and> sat_val c' = 6 \<and> maxVal c' = maxVal c"
proof -
  have new: "SatCounter_new 3 0 = Inr \<lparr>initialVal = 0, maxVal = 7, counter = 0\<rparr>"
    by (simp add: SatCounter_new_def)
  have "sat_run [OpAdd 9, OpSub (- 2), OpShl 1, OpDec] \<lparr>initialVal = 0, maxVal = 7, counter = 0\<rparr>
      = Inr \<lparr>initialVal = 0, maxVal = 7, counter = 6\<rparr>"
    by (simp add: sat_add.simps sat_sub.simps int_neg_def INT_MIN_def sat_shl_def sat_dec_def)
  with sat_run_bounded [OF new, of "[OpAdd 9, OpSub (- 2), OpShl 1, OpDec]"] new show ?thesis by auto
qed

text \<open>
  C38 \<open>operator+=\<close> and \<open>operator-=\<close> are addition and subtraction clamped to \<open>[0, maxVal]\<close>, for
  every \<open>int\<close> operand, positive or negative (each hands a negative operand to the other), but one: the
  least \<open>int\<close>, whose negation overflows. Nothing but the value changes.
\<close>

theorem sat_add_sub_clamped:
  assumes "sat_wf c"
  shows "if v = INT_MIN then sat_add v c = Inl SignedOverflow \<and> sat_sub v c = Inl SignedOverflow
    else \<exists>up down. sat_add v c = Inr (c\<lparr>counter := up\<rparr>) \<and> sat_sub v c = Inr (c\<lparr>counter := down\<rparr>) \<and>
      uint up = max 0 (min (uint (maxVal c)) (uint (counter c) + sint v)) \<and>
      uint down = max 0 (min (uint (maxVal c)) (uint (counter c) - sint v))"
  using sat_add_clamped [OF assms, of v] sat_sub_clamped [OF assms, of v] sat_add_INT_MIN by (cases "v = INT_MIN") auto

theorem sat_add_sub_clamped_witness:
  "\<exists>up down. sat_add (- 3) \<lparr>initialVal = 0, maxVal = 7, counter = 5\<rparr> = Inr \<lparr>initialVal = 0, maxVal = 7, counter = up\<rparr> \<and>
     sat_sub (- 3) \<lparr>initialVal = 0, maxVal = 7, counter = 5\<rparr> = Inr \<lparr>initialVal = 0, maxVal = 7, counter = down\<rparr> \<and>
     uint up = 2 \<and> uint down = 7"
proof -
  have "sat_wf \<lparr>initialVal = 0, maxVal = 7, counter = 5\<rparr>" by (simp add: sat_wf_def)
  from sat_add_sub_clamped [OF this, of "- 3"] show ?thesis by (auto simp: INT_MIN_def)
qed

text \<open>
  The left shift does not saturate: \<open>counter <<= shift\<close> drops the bits above bit 7 before the
  comparison with \<open>maxVal\<close>, so a three-bit counter at 4 shifted by 6 becomes 0, not 7.
\<close>

lemma sat_shl_loses_saturation:
  "rbind (SatCounter_new 3 4) (sat_shl 6) = Inr \<lparr>initialVal = 4, maxVal = 7, counter = 0\<rparr>"
  by (simp add: SatCounter_new_def sat_shl_def)

end
