(* ===== verification/RRIP.thy ===== *)
theory RRIP
  imports SatCounter ReplPolicy
begin

text \<open>
  The re-reference interval prediction policies: \<open>brrip_rp\<close> (with \<open>btp = 100\<close> it is SRRIP, with
  one bit NRU) and \<open>drrip_rp\<close>, the set-dueling policy that is this project's own addition to
  the simulator. The victim search of BRRIP is proved equal to the published algorithm (age every
  candidate by one until one reaches the maximum, evict the leftmost such one); for DRRIP
  the placement of the dedicated sets, the range of the policy selector and the insertion position of
  every kind of set are proved.
\<close>

subsection \<open>BRRIP\<close>

record BRRIPReplData = ReplacementData +
  rrpv :: SatCounter
  brrip_valid :: bool

record BRRIPRP =
  numRRPVBits :: nat
  hitPriority :: bool
  btp :: nat

definition BRRIPRP_new :: "nat \<Rightarrow> bool \<Rightarrow> nat \<Rightarrow> BRRIPRP res" where
  "BRRIPRP_new num_bits hit_priority b =
     (if num_bits = 0 then Inl FatalError
      else Inr \<lparr>numRRPVBits = num_bits, hitPriority = hit_priority, btp = b\<rparr>)"

definition BRRIPReplData_new :: "nat \<Rightarrow> BRRIPReplData res" where
  "BRRIPReplData_new num_bits =
     rbind (SatCounter_new num_bits 0) (\<lambda>c. Inr \<lparr>set_num = None, rrpv = c, brrip_valid = False\<rparr>)"

definition brrip_invalidate :: "BRRIPReplData \<Rightarrow> BRRIPReplData" where
  "brrip_invalidate d = d\<lparr>brrip_valid := False\<rparr>"

definition brrip_touch :: "BRRIPRP \<Rightarrow> BRRIPReplData \<Rightarrow> BRRIPReplData" where
  "brrip_touch p d =
     (if hitPriority p then d\<lparr>rrpv := sat_reset (rrpv d)\<rparr>
      else d\<lparr>rrpv := snd (sat_post_dec (rrpv d))\<rparr>)"

definition brrip_reset :: "BRRIPRP \<Rightarrow> rp_env \<Rightarrow> BRRIPReplData \<Rightarrow> BRRIPReplData" where
  "brrip_reset p env d =
     (let d = d\<lparr>rrpv := snd (sat_saturate (rrpv d))\<rparr>;
          d = (if random_mt env 1 100 \<le> btp p then d\<lparr>rrpv := snd (sat_post_dec (rrpv d))\<rparr> else d)
      in d\<lparr>brrip_valid := True\<rparr>)"

text \<open>
  The first loop of \<open>getVictim\<close>: it returns from the function at an invalid candidate
  (\<open>Found\<close>), or ends with the victim of greatest RRPV (\<open>Aged\<close>).
\<close>

datatype brrip_search = Found entry_id | Aged entry_id

fun brrip_loop :: "BRRIPReplData rp_store \<Rightarrow> entry_id \<Rightarrow> int \<Rightarrow> entry_id list \<Rightarrow> brrip_search res" where
  "brrip_loop s victim victim_RRPV [] = Inr (Aged victim)"
| "brrip_loop s victim victim_RRPV (candidate # cs) =
     rbind (rd_get s candidate) (\<lambda>d.
       if \<not> brrip_valid d then Inr (Found candidate)
       else let candidate_RRPV = uint (sat_read (rrpv d)) in
         if candidate_RRPV > victim_RRPV then brrip_loop s candidate candidate_RRPV cs
         else brrip_loop s victim victim_RRPV cs)"

text \<open>The second loop: \<open>rrpv += diff\<close> on every candidate.\<close>

fun brrip_age :: "i32 \<Rightarrow> BRRIPReplData rp_store \<Rightarrow> entry_id list \<Rightarrow> BRRIPReplData rp_store res" where
  "brrip_age diff s [] = Inr s"
| "brrip_age diff s (candidate # cs) =
     rbind (rd_get s candidate) (\<lambda>d. rbind (sat_add diff (rrpv d)) (\<lambda>c.
       brrip_age diff (s(candidate \<mapsto> d\<lparr>rrpv := c\<rparr>)) cs))"

text \<open>After the search: the victim is saturated and the others age by the same distance.\<close>

definition brrip_evict :: "BRRIPReplData rp_store \<Rightarrow> entry_id \<Rightarrow> entry_id list \<Rightarrow>
    (entry_id \<times> BRRIPReplData rp_store) res" where
  "brrip_evict s victim candidates =
     rbind (rd_get s victim) (\<lambda>vd.
       let (n, c) = sat_saturate (rrpv vd);
           diff = (ucast n :: i32);
           s' = s(victim \<mapsto> vd\<lparr>rrpv := c\<rparr>)
       in if sint diff > 0
          then rbind (brrip_age diff s' candidates) (\<lambda>s''. Inr (victim, s''))
          else Inr (victim, s'))"

definition brrip_getVictim :: "BRRIPReplData rp_store \<Rightarrow> entry_id list \<Rightarrow>
    (entry_id \<times> BRRIPReplData rp_store) res" where
  "brrip_getVictim s candidates =
     (if candidates = [] then Inl AssertFailed
      else rbind (rd_get s (candidates ! 0)) (\<lambda>d0.
        rbind (brrip_loop s (candidates ! 0) (uint (sat_read (rrpv d0))) candidates) (\<lambda>r.
          case r of
            Found candidate \<Rightarrow> Inr (candidate, s)
          | Aged victim \<Rightarrow> brrip_evict s victim candidates)))"

definition brrip_instantiateEntry :: "BRRIPRP \<Rightarrow> BRRIPReplData rp_store \<Rightarrow> entry_id \<Rightarrow>
    BRRIPReplData rp_store res" where
  "brrip_instantiateEntry p s e = rbind (BRRIPReplData_new (numRRPVBits p)) (\<lambda>d. Inr (s(e \<mapsto> d)))"

definition BRRIP :: "BRRIPRP \<Rightarrow> BRRIPReplData rp_store rp_vtable" where
  "BRRIP p = \<lparr>rp_invalidate = (\<lambda>env. rd_upd brrip_invalidate),
              rp_touch = (\<lambda>env. rd_upd (brrip_touch p)),
              rp_reset = (\<lambda>env. rd_upd (brrip_reset p env)),
              rp_getVictim = (\<lambda>env. brrip_getVictim),
              rp_instantiateEntry = brrip_instantiateEntry p,
              rp_set_set_num = (\<lambda>s e n. rd_upd (\<lambda>d. d\<lparr>set_num := Some n\<rparr>) s e)\<rparr>"

subsection \<open>DRRIP\<close>

record DRRIPRP = BRRIPRP +
  numSetDuelingSets :: u32
  numPSELCounterBits :: nat

text \<open>The mutable member \<open>PSELCounter\<close> beside the entries' data.\<close>

record drrip_state =
  PSELCounter :: u32
  drrip_data :: "BRRIPReplData rp_store"

definition DRRIPRP_new :: "nat \<Rightarrow> bool \<Rightarrow> nat \<Rightarrow> u32 \<Rightarrow> nat \<Rightarrow> (DRRIPRP \<times> drrip_state) res" where
  "DRRIPRP_new num_bits hit_priority b n psel_bits =
     rbind (BRRIPRP_new num_bits hit_priority b) (\<lambda>p.
       if \<not> (1 \<le> psel_bits \<and> psel_bits \<le> 32) then Inl UndefinedShift
       else Inr (\<lparr>numRRPVBits = numRRPVBits p, hitPriority = hitPriority p, btp = btp p,
             numSetDuelingSets = n, numPSELCounterBits = psel_bits\<rparr>,
            \<lparr>PSELCounter = push_bit (psel_bits - 1) 1, drrip_data = Map.empty\<rparr>))"

text \<open>Which of the two dedicated groups a set belongs to: \<open>(srrip_dedicated_set, brrip_dedicated_set)\<close>.\<close>

definition drrip_dedicated :: "u32 \<Rightarrow> u32 \<Rightarrow> bool \<times> bool" where
  "drrip_dedicated n sn =
     (let constituency_num = (sn div n) AND (n - 1);
          offset_within_constituency = sn mod n;
          offset_within_constituency_complement = (NOT offset_within_constituency) AND (n - 1)
      in (constituency_num = offset_within_constituency,
          constituency_num = offset_within_constituency_complement))"

text \<open>
  The shifts by \<open>numPSELCounterBits - 1\<close> and by \<open>numPSELCounterBits\<close> are defined for 1 to 31
  bits only (zero minus one wraps around): \<open>drrip_reset\<close> checks this before it uses them.
\<close>

definition drrip_msb :: "nat \<Rightarrow> u32 \<Rightarrow> u32" where
  "drrip_msb bits psel = signed_drop_bit (bits - 1) (psel AND push_bit (bits - 1) 1)"

definition drrip_reset :: "DRRIPRP \<Rightarrow> rp_env \<Rightarrow> drrip_state \<Rightarrow> entry_id \<Rightarrow> drrip_state res" where
  "drrip_reset p env st e =
     rbind (rd_get (drrip_data st) e) (\<lambda>d.
     case set_num d of
       None \<Rightarrow> Inl Uninitialised
     | Some sn \<Rightarrow>
       (let n = numSetDuelingSets p; psel = PSELCounter st in
        if n = 0 then Inl DivByZero
        else if \<not> (1 \<le> numPSELCounterBits p \<and> numPSELCounterBits p \<le> 31) then Inl UndefinedShift
        else
          let (srrip_dedicated_set, brrip_dedicated_set) = drrip_dedicated n sn;
              PSELCounter_MSB = drrip_msb (numPSELCounterBits p) psel;
              PSELCounter_max_val = push_bit (numPSELCounterBits p) 1 - 1;
              PSELCounter_min_val = 0;
              sat = d\<lparr>rrpv := snd (sat_saturate (rrpv d))\<rparr>;
              long = sat\<lparr>rrpv := snd (sat_post_dec (rrpv sat))\<rparr>;
              bimodal = (if random_mt env 1 100 \<le> btp p then long else sat);
              (psel', d') =
                (if srrip_dedicated_set then
                   (if psel < PSELCounter_max_val then psel + 1 else psel, long)
                 else if brrip_dedicated_set then
                   (if psel > PSELCounter_min_val then psel - 1 else psel, bimodal)
                 else if PSELCounter_MSB = 1 then (psel, bimodal)
                 else (psel, long))
          in Inr \<lparr>PSELCounter = psel',
                  drrip_data = (drrip_data st)(e \<mapsto> d'\<lparr>brrip_valid := True\<rparr>)\<rparr>))"

text \<open>The other operations are inherited from \<open>BRRIPRP\<close>.\<close>

definition drrip_lift :: "(BRRIPReplData rp_store \<Rightarrow> BRRIPReplData rp_store res) \<Rightarrow> drrip_state \<Rightarrow> drrip_state res" where
  "drrip_lift f st = rbind (f (drrip_data st)) (\<lambda>s. Inr (st\<lparr>drrip_data := s\<rparr>))"

definition DRRIP :: "DRRIPRP \<Rightarrow> drrip_state rp_vtable" where
  "DRRIP p =
     (let b = \<lparr>numRRPVBits = numRRPVBits p, hitPriority = hitPriority p, btp = btp p\<rparr> in
      \<lparr>rp_invalidate = (\<lambda>env st e. drrip_lift (\<lambda>s. rp_invalidate (BRRIP b) env s e) st),
       rp_touch = (\<lambda>env st e. drrip_lift (\<lambda>s. rp_touch (BRRIP b) env s e) st),
       rp_reset = drrip_reset p,
       rp_getVictim = (\<lambda>env st cs. rbind (rp_getVictim (BRRIP b) env (drrip_data st) cs)
          (\<lambda>(v, s). Inr (v, st\<lparr>drrip_data := s\<rparr>))),
       rp_instantiateEntry = (\<lambda>st e. drrip_lift (\<lambda>s. rp_instantiateEntry (BRRIP b) s e) st),
       rp_set_set_num = (\<lambda>st e n. drrip_lift (\<lambda>s. rp_set_set_num (BRRIP b) s e n) st)\<rparr>)"

subsection \<open>The published algorithm\<close>

text \<open>
  RRIP as published: look for the first candidate at the maximum; if there is none, age all
  candidates by one and look again.
\<close>

function rrip_paper :: "nat \<Rightarrow> entry_id list \<Rightarrow> (entry_id \<Rightarrow> nat) \<Rightarrow> entry_id \<times> (entry_id \<Rightarrow> nat)" where
  "rrip_paper m cs r =
     (if cs = [] then (0, r)
      else case find (\<lambda>c. r c \<ge> m) cs of
        Some c \<Rightarrow> (c, r)
      | None \<Rightarrow> rrip_paper m cs (\<lambda>c. if c \<in> set cs then r c + 1 else r c))"
  by pat_completeness auto
termination
proof (relation "measure (\<lambda>(m, cs, r). m - r (hd cs))")
  fix m cs and r :: "entry_id \<Rightarrow> nat"
  assume "cs \<noteq> []" and "find (\<lambda>c. m \<le> r c) cs = None"
  then have "r (hd cs) < m" by (cases cs) (auto split: if_splits)
  with \<open>cs \<noteq> []\<close> show "((m, cs, \<lambda>c. if c \<in> set cs then r c + 1 else r c), m, cs, r)
      \<in> measure (\<lambda>(m, cs, r). m - r (hd cs))" by simp
qed simp

declare rrip_paper.simps [simp del]

lemma find_leftmost_max:
  assumes "leftmost_max r cs v" and "r v = m"
  shows "find (\<lambda>c. r c \<ge> m) cs = Some v"
proof -
  from assms(1) obtain ys zs where "cs = ys @ v # zs" "\<forall>y \<in> set ys. r y < r v"
    by (auto simp: leftmost_max_def)
  moreover have "find (\<lambda>c. r c \<ge> m) (ys @ v # zs) = Some v" if "\<forall>y \<in> set ys. r y < r v" for ys
    using that assms(2) by (induction ys) auto
  ultimately show ?thesis by simp
qed

lemma leftmost_max_shift:
  assumes "leftmost_max r cs v" and "\<And>c. c \<in> set cs \<Longrightarrow> r' c = r c + (k::nat)"
  shows "leftmost_max r' cs v"
proof -
  from assms(1) obtain ys zs where s: "cs = ys @ v # zs" "\<forall>y \<in> set ys. r y < r v" "\<forall>z \<in> set zs. r z \<le> r v"
    by (auto simp: leftmost_max_def)
  have e: "r' c = r c + k" if "c \<in> set ys \<or> c = v \<or> c \<in> set zs" for c
    using that s(1) by (intro assms(2)) auto
  show ?thesis unfolding leftmost_max_def
    by (rule exI [of _ ys], rule exI [of _ zs]) (use s in \<open>auto simp: e\<close>)
qed

lemma rrip_paper_closed:
  "leftmost_max r cs v \<Longrightarrow> r v \<le> m \<Longrightarrow>
   rrip_paper m cs r = (v, \<lambda>c. if c \<in> set cs then r c + (m - r v) else r c)"
proof (induction "m - r v" arbitrary: r)
  case 0
  then have "r v = m" by simp
  moreover have "cs \<noteq> []" using leftmost_max_mem [OF "0.prems"(1)] by auto
  ultimately show ?case
    by (simp add: rrip_paper.simps [of m cs r] find_leftmost_max [OF "0.prems"(1)] fun_eq_iff)
next
  case (Suc k)
  let ?r = "\<lambda>c. if c \<in> set cs then r c + 1 else r c"
  have mem: "v \<in> set cs" using leftmost_max_mem [OF Suc.prems(1)] .
  have "find (\<lambda>c. r c \<ge> m) cs = None"
    using leftmost_max_ge [OF Suc.prems(1)] Suc.hyps(2) by (fastforce simp: find_None_iff)
  then have "rrip_paper m cs r = rrip_paper m cs ?r"
    using mem by (auto simp: rrip_paper.simps [of m cs r])
  moreover have "rrip_paper m cs ?r = (v, \<lambda>c. if c \<in> set cs then ?r c + (m - ?r v) else ?r c)"
  proof (rule Suc.hyps(1))
    show "k = m - ?r v" using Suc.hyps(2) mem by simp
    show "leftmost_max ?r cs v" by (rule leftmost_max_shift [OF Suc.prems(1), where k = 1]) simp
    show "?r v \<le> m" using Suc.hyps(2) mem by simp
  qed
  ultimately show ?case using Suc.hyps(2) mem by (auto simp: fun_eq_iff)
qed

subsection \<open>The victim search\<close>

abbreviation rrpv_of :: "BRRIPReplData rp_store \<Rightarrow> entry_id \<Rightarrow> nat" where
  "rrpv_of s c \<equiv> sat_val (rrpv (the (s c)))"

definition brrip_wf :: "nat \<Rightarrow> BRRIPReplData \<Rightarrow> bool" where
  "brrip_wf bits d \<longleftrightarrow> sat_wf (rrpv d) \<and> sat_max (rrpv d) = 2 ^ bits - 1"

lemma brrip_loop_valid:
  "set cs \<subseteq> dom s \<Longrightarrow> \<forall>c \<in> set cs. brrip_valid (the (s c)) \<Longrightarrow> r = int (rrpv_of s v) \<Longrightarrow>
   brrip_loop s v r cs = Inr (Aged (scan (\<lambda>c w. rrpv_of s c > rrpv_of s w) v cs))"
proof (induction cs arbitrary: v r)
  case (Cons c cs)
  then obtain d where "s c = Some d" by auto
  with Cons.prems Cons.IH [of "uint (counter (rrpv d))" c] Cons.IH [of r v] show ?case
    by (simp add: rd_get_live sat_read_def Let_def uint_less_unat)
qed simp

lemma brrip_loop_invalid:
  "set cs \<subseteq> dom s \<Longrightarrow> \<exists>c \<in> set cs. \<not> brrip_valid (the (s c)) \<Longrightarrow>
   \<exists>c. brrip_loop s v r cs = Inr (Found c) \<and> c \<in> set cs \<and> \<not> brrip_valid (the (s c))"
proof (induction cs arbitrary: v r)
  case (Cons c cs)
  then obtain d where d: "s c = Some d" by auto
  show ?case
  proof (cases "brrip_valid d")
    case True
    with Cons.prems d have "\<exists>c \<in> set cs. \<not> brrip_valid (the (s c))" by auto
    then have "\<exists>x. brrip_loop s w q cs = Inr (Found x) \<and> x \<in> set cs \<and> \<not> brrip_valid (the (s x))" for w q
      using Cons.IH Cons.prems(1) by simp
    with True d show ?thesis by (auto simp: rd_get_live Let_def)
  qed (use d in \<open>auto simp: rd_get_live\<close>)
qed simp

lemma sint_ucast8 [simp]: "sint (ucast (w :: u8) :: i32) = uint w"
proof -
  have w: "uint w < 256" using uint_lt2p [of w] by simp
  have "signed_take_bit 31 (uint w) = uint w"
  proof (rule signed_take_bit_int_eq_self)
    show "- (2 ^ 31) \<le> uint w" by (rule order_trans [of _ 0]) simp_all
    show "uint w < 2 ^ 31" using w by simp
  qed
  with w show ?thesis by (simp add: sint_uint unsigned_ucast_eq take_bit_int_eq_self)
qed

lemma brrip_age_ok:
  "0 \<le> sint diff \<Longrightarrow> set cs \<subseteq> dom s \<Longrightarrow> store_all (brrip_wf bits) s \<Longrightarrow>
   succeeds (brrip_age diff s cs) (\<lambda>s'. dom s' = dom s \<and> store_all (brrip_wf bits) s')"
proof (induction cs arbitrary: s)
  case (Cons x cs)
  then obtain d where d: "s x = Some d" by auto
  have wf: "brrip_wf bits d" using store_allD [OF Cons.prems(3) d] .
  obtain c where c: "sat_add diff (rrpv d) = Inr c" "sat_wf c" "maxVal c = maxVal (rrpv d)" "initialVal c = initialVal (rrpv d)"
    using sat_add_nat [OF Cons.prems(1), of "rrpv d"] wf by (auto simp: brrip_wf_def elim!: succeedsE)
  let ?s = "s(x \<mapsto> d\<lparr>rrpv := c\<rparr>)"
  have dom: "dom ?s = dom s" using d by auto
  have "store_all (brrip_wf bits) ?s"
    using wf c by (intro store_all_upd Cons.prems(3)) (auto simp: brrip_wf_def)
  moreover have "set cs \<subseteq> dom ?s" using Cons.prems(2) dom by simp
  ultimately have "succeeds (brrip_age diff ?s cs) (\<lambda>s'. dom s' = dom s \<and> store_all (brrip_wf bits) s')"
    using Cons.IH [OF Cons.prems(1), of ?s] by (simp only: dom)
  then show ?case by (simp add: rd_get_live [of s, OF d] c)
qed simp

lemma brrip_age_values:
  "set cs \<subseteq> dom s \<Longrightarrow> distinct cs \<Longrightarrow> store_all (brrip_wf bits) s \<Longrightarrow> 0 \<le> sint diff \<Longrightarrow>
   brrip_age diff s cs = Inr s' \<Longrightarrow>
   rrpv_of s' c = (if c \<in> set cs then min (2 ^ bits - 1) (rrpv_of s c + nat (sint diff)) else rrpv_of s c)"
proof (induction cs arbitrary: s)
  case (Cons x cs)
  then obtain d where d: "s x = Some d" by auto
  have wf: "brrip_wf bits d" using store_allD [OF Cons.prems(3) d] .
  obtain k where k: "sat_add diff (rrpv d) = Inr k" "sat_wf k" "maxVal k = maxVal (rrpv d)" "initialVal k = initialVal (rrpv d)"
    "sat_val k = min (2 ^ bits - 1) (sat_val (rrpv d) + nat (sint diff))"
    using sat_add_nat [OF Cons.prems(4), of "rrpv d"] wf by (auto simp: brrip_wf_def elim!: succeedsE)
  let ?s = "s(x \<mapsto> d\<lparr>rrpv := k\<rparr>)"
  have "store_all (brrip_wf bits) ?s"
    using wf k by (intro store_all_upd Cons.prems(3)) (auto simp: brrip_wf_def)
  moreover have "brrip_age diff ?s cs = Inr s'"
    using Cons.prems(5) by (simp add: rd_get_live [of s, OF d] k(1))
  ultimately have IH: "rrpv_of s' c =
      (if c \<in> set cs then min (2 ^ bits - 1) (rrpv_of ?s c + nat (sint diff)) else rrpv_of ?s c)"
    using Cons.prems by (intro Cons.IH) (auto simp del: fun_upd_apply)
  with k(5) d Cons.prems(2) show ?case by auto
qed simp

lemma brrip_getVictim_invalid:
  assumes "store_cands s cs" and "\<exists>c \<in> set cs. \<not> brrip_valid (the (s c))"
  shows "\<exists>c. brrip_getVictim s cs = Inr (c, s) \<and> c \<in> set cs \<and> \<not> brrip_valid (the (s c))"
proof -
  have cs: "set cs \<subseteq> dom s" "cs \<noteq> []" using assms(1) by (auto simp: store_cands_def)
  obtain d0 where d0: "s (cs ! 0) = Some d0" using store_cands_first [OF assms(1)] by blast
  from brrip_loop_invalid [OF cs(1) assms(2), of "cs ! 0" "uint (sat_read (rrpv d0))"] obtain c where
    "brrip_loop s (cs ! 0) (uint (sat_read (rrpv d0))) cs = Inr (Found c)" "c \<in> set cs"
    "\<not> brrip_valid (the (s c))" by blast
  then show ?thesis using cs(2) by (auto simp: brrip_getVictim_def rd_get_live [of s, OF d0])
qed

text \<open>With valid candidates only: the leftmost entry of greatest RRPV, and everyone ages by its distance.\<close>

lemma brrip_getVictim_valid:
  assumes "store_cands s cs" and "\<forall>c \<in> set cs. brrip_valid (the (s c))"
    and "store_all (brrip_wf bits) s"
  obtains v s' where "brrip_getVictim s cs = Inr (v, s')" "leftmost_max (rrpv_of s) cs v"
    "dom s' = dom s" "store_all (brrip_wf bits) s'"
    "distinct cs \<Longrightarrow> rrpv_of s' =
       (\<lambda>c. if c \<in> set cs then rrpv_of s c + (2 ^ bits - 1 - rrpv_of s v) else rrpv_of s c)"
proof -
  have cs: "set cs \<subseteq> dom s" "cs \<noteq> []" using assms(1) by (auto simp: store_cands_def)
  obtain d0 where d0: "s (cs ! 0) = Some d0" using store_cands_first [OF assms(1)] by blast
  let ?v = "scan (\<lambda>c w. rrpv_of s c > rrpv_of s w) (cs ! 0) cs"
  have lm: "leftmost_max (rrpv_of s) cs ?v" by (rule scan_leftmost_max [OF cs(2)])
  have loop: "brrip_loop s (cs ! 0) (uint (sat_read (rrpv d0))) cs = Inr (Aged ?v)"
    using brrip_loop_valid [OF cs(1) assms(2), of _ "cs ! 0"] d0 by (simp add: sat_read_def)
  have mem: "?v \<in> set cs" by (rule leftmost_max_mem [OF lm])
  then obtain vd where vd: "s ?v = Some vd" using cs(1) by auto
  have wf: "brrip_wf bits vd" by (rule store_allD [OF assms(3) vd])
  let ?c = "(rrpv vd)\<lparr>counter := maxVal (rrpv vd)\<rparr>" and ?diff = "maxVal (rrpv vd) - counter (rrpv vd)"
  let ?s = "s(?v \<mapsto> vd\<lparr>rrpv := ?c\<rparr>)"
  have sat: "sat_saturate (rrpv vd) = (?diff, ?c)" by (simp add: sat_saturate_def)
  have dom: "dom ?s = dom s" using vd by auto
  have wfs: "store_all (brrip_wf bits) ?s"
    using wf by (intro store_all_upd assms(3)) (auto simp: brrip_wf_def sat_wf_def)
  have diff: "unat ?diff = 2 ^ bits - 1 - rrpv_of s ?v"
    using sat_saturate_val [of "rrpv vd"] wf vd by (simp add: brrip_wf_def sat)
  have run: "brrip_getVictim s cs = (if uint ?diff > 0
      then rbind (brrip_age (ucast ?diff) ?s cs) (\<lambda>s''. Inr (?v, s'')) else Inr (?v, ?s))"
    using cs(2) by (simp add: brrip_getVictim_def brrip_evict_def rd_get_live [of s, OF d0] loop rd_get_live [of s, OF vd] sat)
  obtain s' where s': "brrip_age (ucast ?diff) ?s cs = Inr s'" "dom s' = dom s" "store_all (brrip_wf bits) s'"
    using brrip_age_ok [OF _ _ wfs, of "ucast ?diff" cs] cs(1) dom by (auto elim!: succeedsE simp del: fun_upd_apply)
  have bound: "rrpv_of s c \<le> rrpv_of s ?v" if "c \<in> set cs" for c
    using leftmost_max_ge [OF lm that] .
  have vmax: "rrpv_of s ?v \<le> 2 ^ bits - 1" "rrpv_of ?s ?v = 2 ^ bits - 1"
    using wf vd sat_wf_val [of "rrpv vd"] by (auto simp: brrip_wf_def)
  show ?thesis
  proof (cases "uint ?diff > 0")
    case True
    have "rrpv_of s' c = (if c \<in> set cs then rrpv_of s c + (2 ^ bits - 1 - rrpv_of s ?v) else rrpv_of s c)"
      if "distinct cs" for c
      using brrip_age_values [OF _ that wfs _ s'(1), of c] cs(1) dom bound [of c] vmax diff mem
      by (cases "c = ?v") auto
    with True run s' lm show ?thesis by (intro that [of ?v s']) auto
  next
    case False
    then have "uint ?diff = 0" by (meson antisym linorder_not_less uint_ge_0)
    then have "unat ?diff = 0" by (simp only: unat_eq_nat_uint)
    with diff have "2 ^ bits - 1 - rrpv_of s ?v = 0" by simp
    with vmax have "rrpv_of ?s = (\<lambda>c. if c \<in> set cs then rrpv_of s c + (2 ^ bits - 1 - rrpv_of s ?v) else rrpv_of s c)"
      by (auto simp: fun_eq_iff)
    with False run lm dom wfs show ?thesis by (intro that [of ?v ?s]) auto
  qed
qed

lemma sat_full_wf: "sat_wf c \<Longrightarrow> sat_wf (c\<lparr>counter := maxVal c\<rparr>)"
  by (simp add: sat_wf_def)

lemma brrip_wf_keeps:
  assumes "brrip_wf bits d"
  shows "brrip_wf bits (brrip_invalidate d)" "brrip_wf bits (brrip_touch p d)"
    "brrip_wf bits (brrip_reset p env d)"
  using assms
  by (auto simp: brrip_wf_def brrip_invalidate_def brrip_touch_def brrip_reset_def sat_post_dec_def
      sat_wf_ops sat_full_wf Let_def) (simp_all add: sat_reset_def)

interpretation brrip: data_policy "BRRIP p" "\<lambda>env. brrip_invalidate" "\<lambda>env. brrip_touch p"
  "brrip_reset p" "brrip_wf bits" "\<lambda>d. \<not> brrip_valid d"
proof unfold_locales
  fix env and s :: "BRRIPReplData rp_store" and cs
  assume a: "store_all (brrip_wf bits) s" "store_cands s cs"
  show "succeeds (rp_getVictim (BRRIP p) env s cs)
      (\<lambda>(v, s'). v \<in> set cs \<and> store_all (brrip_wf bits) s' \<and> dom s' = dom s)"
  proof (cases "\<forall>c \<in> set cs. brrip_valid (the (s c))")
    case True
    then show ?thesis
      by (rule brrip_getVictim_valid [OF a(2) _ a(1)]) (auto simp: BRRIP_def dest: leftmost_max_mem)
  next
    case False
    then show ?thesis using brrip_getVictim_invalid [OF a(2)] a(1) by (auto simp: BRRIP_def)
  qed
next
  fix s s' :: "BRRIPReplData rp_store" and cs c env v
  assume a: "store_cands s cs" "c \<in> set cs" "store_some (\<lambda>d. \<not> brrip_valid d) s c"
    and v: "rp_getVictim (BRRIP p) env s cs = Inr (v, s')"
  have "\<exists>c \<in> set cs. \<not> brrip_valid (the (s c))" using a(2,3) by (force simp: store_some_def)
  from brrip_getVictim_invalid [OF a(1) this] v have "v \<in> set cs" "\<not> brrip_valid (the (s v))"
    by (auto simp: BRRIP_def)
  with store_cands_live [OF a(1)] show "store_some (\<lambda>d. \<not> brrip_valid d) s v"
    by (fastforce simp: store_some_def)
qed (auto simp: BRRIP_def brrip_wf_keeps, auto simp: brrip_invalidate_def brrip_reset_def Let_def)

subsection \<open>Set dueling\<close>

lemma drrip_dedicated_nat:
  assumes "k < 32" and "off < 2 ^ k" and "q * 2 ^ k + off < 2 ^ 32"
  shows "drrip_dedicated (2 ^ k) (of_nat (q * 2 ^ k + off)) =
           (q mod 2 ^ k = off, q mod 2 ^ k = 2 ^ k - 1 - off)"
proof -
  let ?n = "2 ^ k :: u32" and ?sn = "of_nat (q * 2 ^ k + off) :: u32"
  have n: "unat ?n = 2 ^ k" using assms(1) by (simp add: unat_2p)
  have sn: "unat ?sn = q * 2 ^ k + off"
    using assms(3) by (simp only: unat_of_nat) simp
  have q: "unat (?sn div ?n) = q" using sn n assms(2) by (simp only: unat_div) simp
  have o: "unat (?sn mod ?n) = off" using sn n assms(2) by (simp only: unat_mod) simp
  have "unat ((?sn div ?n) AND (?n - 1)) = q mod 2 ^ k" by (simp only: unat_and_ones q)
  moreover have "unat (NOT (?sn mod ?n) AND (?n - 1)) = 2 ^ k - 1 - off"
    using assms(1,2) by (subst unat_not_and_ones) (simp_all only: o, simp_all)
  ultimately show ?thesis
    by (simp only: drrip_dedicated_def Let_def word_unat_eq_iff o)
qed

lemma bit_top:
  assumes "unat (w :: u32) < 2 ^ b" and "1 \<le> b"
  shows "bit w (b - 1) \<longleftrightarrow> 2 ^ (b - 1) \<le> unat w"
proof -
  obtain k where k: "b = Suc k" using assms(2) by (cases b) auto
  have "unat w div 2 ^ k < 2" using assms(1) by (simp add: k less_mult_imp_div_less mult.commute)
  then have "odd (unat w div 2 ^ k) \<longleftrightarrow> 2 ^ k \<le> unat w"
    by (cases "unat w div 2 ^ k = 0") (auto simp: div_eq_0_iff less_2_cases_iff)
  moreover have "bit w k = bit (unat w) k" by (simp add: bit_unsigned_iff)
  then have "bit w k = odd (unat w div 2 ^ k)" by (simp only: bit_iff_odd)
  ultimately show ?thesis by (simp add: k)
qed

lemma drrip_msb_iff:
  assumes "unat psel < 2 ^ b" and "1 \<le> b" and "b \<le> 31"
  shows "drrip_msb b psel = 1 \<longleftrightarrow> 2 ^ (b - 1) \<le> unat psel"
proof -
  have and_bit: "psel AND push_bit (b - 1) 1 = (if bit psel (b - 1) then push_bit (b - 1) 1 else 0)"
    by (rule bit_word_eqI) (auto simp: bit_simps)
  have "signed_drop_bit (b - 1) (push_bit (b - 1) 1 :: u32) = 1"
    using assms(3) by (intro bit_word_eqI) (auto simp: bit_simps not_le)
  then have "drrip_msb b psel = (if bit psel (b - 1) then 1 else 0)"
    by (cases "bit psel (b - 1)") (simp_all only: drrip_msb_def and_bit if_True if_False, simp_all)
  with bit_top [OF assms(1,2)] show ?thesis by simp
qed

lemma drrip_max_val: "b \<le> 31 \<Longrightarrow> unat (push_bit b 1 - 1 :: u32) = 2 ^ b - 1"
proof -
  assume b: "b \<le> 31"
  have "unat (2 ^ b :: u32) = 2 ^ b" using b by (simp add: unat_2p)
  moreover have "(2 ^ b :: u32) \<noteq> 0" using calculation by (metis power_not_zero unat_0 zero_neq_numeral)
  ultimately show ?thesis by (simp add: push_bit_eq_mult unat_minus_one)
qed

text \<open>What \<open>reset\<close> does, on numbers: the insertion position and the policy selector.\<close>

definition drrip_position :: "DRRIPRP \<Rightarrow> rp_env \<Rightarrow> u32 \<Rightarrow> nat \<Rightarrow> nat" where
  "drrip_position p env sn psel =
     (let long = 2 ^ numRRPVBits p - 2; distant = 2 ^ numRRPVBits p - 1;
          bimodal = (if random_mt env 1 100 \<le> btp p then long else distant);
          (srrip, brrip) = drrip_dedicated (numSetDuelingSets p) sn
      in if srrip then long else if brrip then bimodal
         else if 2 ^ (numPSELCounterBits p - 1) \<le> psel then bimodal else long)"

definition drrip_psel :: "DRRIPRP \<Rightarrow> u32 \<Rightarrow> nat \<Rightarrow> nat" where
  "drrip_psel p sn psel =
     (let (srrip, brrip) = drrip_dedicated (numSetDuelingSets p) sn
      in if srrip then min (2 ^ numPSELCounterBits p - 1) (psel + 1)
         else if brrip then psel - 1 else psel)"

lemma sat_full_dec_val: "sat_val (sat_dec (c\<lparr>counter := maxVal c\<rparr>)) = sat_max c - 1"
  by (simp add: sat_dec_val)

lemma psel_step:
  fixes psel :: u32
  assumes "unat psel < 2 ^ b" and "b \<le> 31"
  shows "unat (if psel < push_bit b 1 - 1 then psel + 1 else psel) = min (2 ^ b - 1) (unat psel + 1)"
    "unat (if psel > 0 then psel - 1 else psel) = unat psel - 1"
proof -
  have lt: "psel < push_bit b 1 - 1 \<longleftrightarrow> unat psel < 2 ^ b - 1"
    using drrip_max_val [OF assms(2)] by (simp only: word_less_nat_alt)
  show "unat (if psel < push_bit b 1 - 1 then psel + 1 else psel) = min (2 ^ b - 1) (unat psel + 1)"
    using assms(1) word_inc_less [of psel "push_bit b 1 - 1"] by (cases "unat psel < 2 ^ b - 1") (simp_all only: lt, auto)
  show "unat (if psel > 0 then psel - 1 else psel) = unat psel - 1"
    by (auto simp: word_dec_pos word_gt_0)
qed

lemma drrip_reset_spec:
  assumes "drrip_data st e = Some d" and "set_num d = Some sn" and "brrip_wf (numRRPVBits p) d"
    and "numSetDuelingSets p \<noteq> 0" and "unat (PSELCounter st) < 2 ^ numPSELCounterBits p"
    and "1 \<le> numPSELCounterBits p" and "numPSELCounterBits p \<le> 31"
  obtains st' d' where "drrip_reset p env st e = Inr st'"
    "drrip_data st' = (drrip_data st)(e \<mapsto> d')" "brrip_valid d'" "set_num d' = Some sn"
    "brrip_wf (numRRPVBits p) d'"
    "sat_val (rrpv d') = drrip_position p env sn (unat (PSELCounter st))"
    "unat (PSELCounter st') = drrip_psel p sn (unat (PSELCounter st))"
proof -
  obtain sr br where ded: "drrip_dedicated (numSetDuelingSets p) sn = (sr, br)" by fastforce
  note msb = drrip_msb_iff [OF assms(5-7)]
  note psel = psel_step [OF assms(5,7)]
  let ?st = "the (case drrip_reset p env st e of Inr x \<Rightarrow> Some x | Inl _ \<Rightarrow> None)"
  have get: "rd_get (drrip_data st) e = Inr d" using assms(1) by (simp add: rd_get_live)
  have bits: "Suc 0 \<le> numPSELCounterBits p" "numPSELCounterBits p \<le> 31" using assms(6,7) by simp_all
  show ?thesis
    by (rule that [of ?st "the (drrip_data ?st e)"])
      (use assms(3,4) psel in \<open>auto simp: drrip_reset_def get assms(2) ded Let_def msb bits drrip_position_def
         drrip_psel_def sat_post_dec_def brrip_wf_def sat_full_dec_val sat_full_wf sat_wf_ops
         simp del: push_bit_of_1\<close>)
qed

subsection \<open>The contract of DRRIP\<close>

definition drrip_params_ok :: "DRRIPRP \<Rightarrow> bool" where
  "drrip_params_ok p \<longleftrightarrow>
     numSetDuelingSets p \<noteq> 0 \<and> 1 \<le> numPSELCounterBits p \<and> numPSELCounterBits p \<le> 31 \<and>
     1 \<le> numRRPVBits p \<and> numRRPVBits p \<le> 8"

definition drrip_inv :: "DRRIPRP \<Rightarrow> drrip_state \<Rightarrow> bool" where
  "drrip_inv p st \<longleftrightarrow> drrip_params_ok p \<and> unat (PSELCounter st) < 2 ^ numPSELCounterBits p \<and>
     store_all (brrip_wf (numRRPVBits p)) (drrip_data st) \<and>
     (\<forall>e d. drrip_data st e = Some d \<longrightarrow> set_num d \<noteq> None)"

lemma brrip_age_set_num:
  "brrip_age diff s cs = Inr s' \<Longrightarrow> map_option set_num (s' e) = map_option set_num (s e)"
proof (induction cs arbitrary: s)
  case (Cons c cs)
  from Cons.prems obtain d k where t: "s c = Some d" "brrip_age diff (s(c \<mapsto> d\<lparr>rrpv := k\<rparr>)) cs = Inr s'"
    by (auto simp: rbind_eq_Inr rd_get_Inr)
  with Cons.IH [OF t(2)] show ?case by auto
qed simp

lemma brrip_getVictim_set_num:
  assumes "brrip_getVictim s cs = Inr (v, s')"
  shows "map_option set_num (s' e) = map_option set_num (s e)"
proof -
  have "map_option set_num (t e) = map_option set_num (s e)" if "brrip_evict s w cs = Inr (v, t)" for w t
    using that by (auto simp: brrip_evict_def rbind_eq_Inr rd_get_Inr sat_saturate_def Let_def
        split: if_splits dest!: brrip_age_set_num [where e = e])
  moreover obtain r where
    "(case r of Found candidate \<Rightarrow> Inr (candidate, s) | Aged victim \<Rightarrow> brrip_evict s victim cs) = Inr (v, s')"
    using assms by (auto simp: brrip_getVictim_def rbind_eq_Inr split: if_splits)
  ultimately show ?thesis by (cases r) auto
qed

lemma brrip_op_set_num:
  "set_num (brrip_invalidate d) = set_num d" "set_num (brrip_touch p d) = set_num d"
  by (simp_all add: brrip_invalidate_def brrip_touch_def)

lemma set_num_live:
  "map_option set_num (s' e) = map_option set_num (s e) \<Longrightarrow> s' e = Some d' \<Longrightarrow>
   \<exists>d. s e = Some d \<and> set_num d = set_num d'"
  by (cases "s e") auto

lemma drrip_lift_inv:
  assumes "drrip_inv p st" and "store_cands (drrip_data st) cs" and "e \<in> set cs"
    and "\<And>d. brrip_wf (numRRPVBits p) d \<Longrightarrow> brrip_wf (numRRPVBits p) (f d)" and "\<And>d. set_num (f d) = set_num d"
  shows "succeeds (drrip_lift (\<lambda>s. rd_upd f s e) st)
           (\<lambda>st'. drrip_inv p st' \<and> store_cands (drrip_data st') = store_cands (drrip_data st))"
proof -
  obtain d where d: "drrip_data st e = Some d" using store_cands_live [OF assms(2,3)] by blast
  have "store_all (brrip_wf (numRRPVBits p)) (drrip_data st)" using assms(1) by (simp add: drrip_inv_def)
  from rd_upd_ok [OF assms(2,3) this, of f] assms(4) obtain s' where
    s': "rd_upd f (drrip_data st) e = Inr s'" "store_all (brrip_wf (numRRPVBits p)) s'"
      "store_cands s' = store_cands (drrip_data st)" by (auto elim!: succeedsE)
  have eq: "s' = (drrip_data st)(e \<mapsto> f d)" using s'(1) d by (simp add: rd_upd_live)
  have "\<forall>x y. s' x = Some y \<longrightarrow> set_num y \<noteq> None"
    using assms(1,5) d by (auto simp: eq drrip_inv_def)
  with assms(1) s' show ?thesis by (simp add: drrip_lift_def drrip_inv_def)
qed

lemma drrip_reset_inv:
  assumes "drrip_inv p st" and "store_cands (drrip_data st) cs" and "e \<in> set cs"
  shows "succeeds (drrip_reset p env st e)
           (\<lambda>st'. drrip_inv p st' \<and> store_cands (drrip_data st') = store_cands (drrip_data st) \<and>
             (\<forall>x. store_some (\<lambda>d. \<not> brrip_valid d) (drrip_data st') x =
                  (x \<noteq> e \<and> store_some (\<lambda>d. \<not> brrip_valid d) (drrip_data st) x)))"
proof -
  obtain d where d: "drrip_data st e = Some d" using store_cands_live [OF assms(2,3)] by blast
  then obtain sn where sn: "set_num d = Some sn" using assms(1) by (fastforce simp: drrip_inv_def)
  have wf: "brrip_wf (numRRPVBits p) d" "store_all (brrip_wf (numRRPVBits p)) (drrip_data st)"
    using assms(1) d store_allD by (auto simp: drrip_inv_def)
  have p: "numSetDuelingSets p \<noteq> 0" "unat (PSELCounter st) < 2 ^ numPSELCounterBits p"
    "1 \<le> numPSELCounterBits p" "numPSELCounterBits p \<le> 31"
    using assms(1) by (auto simp: drrip_inv_def drrip_params_ok_def)
  obtain st' d' where st': "drrip_reset p env st e = Inr st'" "drrip_data st' = (drrip_data st)(e \<mapsto> d')"
    "brrip_valid d'" "set_num d' = Some sn" "brrip_wf (numRRPVBits p) d'"
    "unat (PSELCounter st') = drrip_psel p sn (unat (PSELCounter st))"
    using drrip_reset_spec [OF d sn wf(1) p] by metis
  have "drrip_psel p sn (unat (PSELCounter st)) < 2 ^ numPSELCounterBits p"
    using p(2) by (auto simp: drrip_psel_def split: prod.splits)
  moreover have "store_cands (drrip_data st') = store_cands (drrip_data st)"
    by (rule store_cands_cong) (use d st'(2) in auto)
  moreover have "\<forall>x y. drrip_data st' x = Some y \<longrightarrow> set_num y \<noteq> None"
    using assms(1) st'(2,4) by (auto simp: drrip_inv_def)
  moreover have "store_all (brrip_wf (numRRPVBits p)) (drrip_data st')"
    unfolding st'(2) by (rule store_all_upd [OF wf(2) st'(5)])
  ultimately show ?thesis using assms(1) st' by (auto simp: drrip_inv_def store_some_upd)
qed

abbreviation drrip_base :: "DRRIPRP \<Rightarrow> BRRIPRP" where
  "drrip_base p \<equiv> \<lparr>numRRPVBits = numRRPVBits p, hitPriority = hitPriority p, btp = btp p\<rparr>"

lemma drrip_victim_inv:
  assumes "drrip_inv p st" and "store_cands (drrip_data st) cs"
  shows "succeeds (rp_getVictim (DRRIP p) env st cs) (\<lambda>(v, st'). v \<in> set cs \<and> drrip_inv p st' \<and>
            store_cands (drrip_data st') = store_cands (drrip_data st))"
proof -
  have wf: "store_all (brrip_wf (numRRPVBits p)) (drrip_data st)" using assms(1) by (simp add: drrip_inv_def)
  from brrip.victim_ok [OF _ wf assms(2), of "\<lparr>curTick = 0, random_mt = \<lambda>lo hi. lo\<rparr>" "drrip_base p"]
  obtain v s' where v: "brrip_getVictim (drrip_data st) cs = Inr (v, s')" "v \<in> set cs"
    "store_all (brrip_wf (numRRPVBits p)) s'" "dom s' = dom (drrip_data st)"
    by (auto simp: succeeds_def env_ok_def BRRIP_def)
  have "set_num y \<noteq> None" if y: "s' x = Some y" for x y
  proof -
    obtain d where "drrip_data st x = Some d" "set_num d = set_num y"
      using set_num_live [of s' x "drrip_data st", OF brrip_getVictim_set_num [OF v(1)] y] by blast
    with assms(1) show ?thesis by (metis drrip_inv_def)
  qed
  then show ?thesis using v assms(1) store_cands_cong [OF v(4)]
    by (simp add: DRRIP_def BRRIP_def Let_def drrip_inv_def)
qed

interpretation drrip: invalid_first_policy "DRRIP p" "drrip_inv p" "\<lambda>st. store_cands (drrip_data st)"
  "\<lambda>st. store_some (\<lambda>d. \<not> brrip_valid d) (drrip_data st)"
proof unfold_locales
  fix st cs assume "store_cands (drrip_data st) cs" then show "cs \<noteq> []" by (simp add: store_cands_def)
next
  fix st cs e env
  assume a: "drrip_inv p st" "store_cands (drrip_data st) cs" "e \<in> set cs"
  have inv: "rp_invalidate (DRRIP p) env st e = drrip_lift (\<lambda>s. rd_upd brrip_invalidate s e) st"
    "rp_touch (DRRIP p) env st e = drrip_lift (\<lambda>s. rd_upd (brrip_touch (drrip_base p)) s e) st"
    by (simp_all add: DRRIP_def BRRIP_def Let_def)
  show "succeeds (rp_invalidate (DRRIP p) env st e)
      (\<lambda>s'. drrip_inv p s' \<and> store_cands (drrip_data s') = store_cands (drrip_data st))"
    unfolding inv by (rule drrip_lift_inv [OF a]) (simp_all add: brrip_wf_keeps brrip_op_set_num)
  show "succeeds (rp_touch (DRRIP p) env st e)
      (\<lambda>s'. drrip_inv p s' \<and> store_cands (drrip_data s') = store_cands (drrip_data st))"
    unfolding inv by (rule drrip_lift_inv [OF a]) (simp_all add: brrip_wf_keeps brrip_op_set_num)
  show "succeeds (rp_reset (DRRIP p) env st e)
      (\<lambda>s'. drrip_inv p s' \<and> store_cands (drrip_data s') = store_cands (drrip_data st))"
    using drrip_reset_inv [OF a, of env] by (auto simp: DRRIP_def Let_def succeeds_def)
next
  fix st cs env
  assume "drrip_inv p st" "store_cands (drrip_data st) cs"
  then show "succeeds (rp_getVictim (DRRIP p) env st cs) (\<lambda>(v, s'). v \<in> set cs \<and> drrip_inv p s' \<and>
      store_cands (drrip_data s') = store_cands (drrip_data st))"
    by (rule drrip_victim_inv)
next
  fix st st' env e
  assume "rp_invalidate (DRRIP p) env st e = Inr st'"
  then show "store_some (\<lambda>d. \<not> brrip_valid d) (drrip_data st') e \<and> (\<forall>x. x \<noteq> e \<longrightarrow>
     store_some (\<lambda>d. \<not> brrip_valid d) (drrip_data st') x = store_some (\<lambda>d. \<not> brrip_valid d) (drrip_data st) x)"
    by (auto simp: DRRIP_def BRRIP_def Let_def drrip_lift_def rbind_eq_Inr rd_upd_def rd_get_Inr
        store_some_upd brrip_invalidate_def)
next
  fix st st' env e x
  assume "rp_touch (DRRIP p) env st e = Inr st'" "x \<noteq> e"
  then show "store_some (\<lambda>d. \<not> brrip_valid d) (drrip_data st') x = store_some (\<lambda>d. \<not> brrip_valid d) (drrip_data st) x"
    by (auto simp: DRRIP_def BRRIP_def Let_def drrip_lift_def rbind_eq_Inr rd_upd_def rd_get_Inr store_some_upd)
next
  fix st st' env e x
  assume a: "drrip_inv p st" "rp_reset (DRRIP p) env st e = Inr st'" "x \<noteq> e"
  then obtain d where d: "drrip_data st e = Some d"
    by (auto simp: DRRIP_def Let_def drrip_reset_def rbind_eq_Inr rd_get_Inr)
  have "store_cands (drrip_data st) [e]" using d by (auto simp: store_cands_def)
  with drrip_reset_inv [OF a(1) this, of e env] a(2,3) show
    "store_some (\<lambda>d. \<not> brrip_valid d) (drrip_data st') x = store_some (\<lambda>d. \<not> brrip_valid d) (drrip_data st) x"
    by (auto simp: DRRIP_def Let_def)
next
  fix st st' env e
  assume a: "drrip_inv p st" "rp_reset (DRRIP p) env st e = Inr st'"
  then obtain d where d: "drrip_data st e = Some d"
    by (auto simp: DRRIP_def Let_def drrip_reset_def rbind_eq_Inr rd_get_Inr)
  have "store_cands (drrip_data st) [e]" using d by (auto simp: store_cands_def)
  with drrip_reset_inv [OF a(1) this, of e env] a(2) show "\<not> store_some (\<lambda>d. \<not> brrip_valid d) (drrip_data st') e"
    by (auto simp: DRRIP_def Let_def)
next
  fix st cs c env v st'
  assume a: "drrip_inv p st" "store_cands (drrip_data st) cs" "c \<in> set cs"
    "store_some (\<lambda>d. \<not> brrip_valid d) (drrip_data st) c" "rp_getVictim (DRRIP p) env st cs = Inr (v, st')"
  then obtain s' where "rp_getVictim (BRRIP (drrip_base p)) env (drrip_data st) cs = Inr (v, s')"
    by (auto simp: DRRIP_def Let_def rbind_eq_Inr)
  with brrip.victim_Q [of "numRRPVBits p" "drrip_data st" cs c "drrip_base p" env v s'] a
  show "store_some (\<lambda>d. \<not> brrip_valid d) (drrip_data st) v" by (auto simp: drrip_inv_def)
qed

subsection \<open>Properties\<close>

text \<open>
  C1 BRRIP computes the published victim search: with all candidates valid, one pass that finds the
  leftmost maximum and adds its distance to everyone gives the same victim and the same RRPVs as
  ageing all candidates by one until one of them reaches the maximum.
\<close>

theorem brrip_victim_is_rrip:
  assumes "store_cands s cs" and "distinct cs" and "\<forall>c \<in> set cs. brrip_valid (the (s c))"
    and "store_all (brrip_wf bits) s"
  shows "\<exists>v s'. brrip_getVictim s cs = Inr (v, s') \<and>
           rrip_paper (2 ^ bits - 1) cs (rrpv_of s) = (v, rrpv_of s')"
proof (rule brrip_getVictim_valid [OF assms(1,3,4)])
  fix v s'
  assume v: "brrip_getVictim s cs = Inr (v, s')" "leftmost_max (rrpv_of s) cs v"
    and r: "distinct cs \<Longrightarrow> rrpv_of s' =
       (\<lambda>c. if c \<in> set cs then rrpv_of s c + (2 ^ bits - 1 - rrpv_of s v) else rrpv_of s c)"
  obtain d where d: "s v = Some d" using store_cands_live [OF assms(1) leftmost_max_mem [OF v(2)]] by blast
  from store_allD [OF assms(4) d] have "rrpv_of s v \<le> 2 ^ bits - 1"
    using d sat_wf_val [of "rrpv d"] by (simp add: brrip_wf_def)
  from rrip_paper_closed [OF v(2) this] r [OF assms(2)]
  have "rrip_paper (2 ^ bits - 1) cs (rrpv_of s) = (v, rrpv_of s')" by simp
  with v(1) show ?thesis by blast
qed

definition rrip_example :: "BRRIPReplData rp_store" where
  "rrip_example =
     [0 \<mapsto> \<lparr>set_num = Some 0, rrpv = \<lparr>initialVal = 0, maxVal = 3, counter = 0\<rparr>, brrip_valid = True\<rparr>,
      1 \<mapsto> \<lparr>set_num = Some 0, rrpv = \<lparr>initialVal = 0, maxVal = 3, counter = 2\<rparr>, brrip_valid = True\<rparr>]"

lemma rrip_example_ok:
  "store_cands rrip_example [0, 1]" "store_all (brrip_wf 2) rrip_example"
  "\<forall>c \<in> set [0, 1]. brrip_valid (the (rrip_example c))"
  by (auto simp: rrip_example_def store_cands_def store_all_def brrip_wf_def sat_wf_def)

theorem brrip_victim_is_rrip_witness:
  "\<exists>v s'. brrip_getVictim rrip_example [0, 1] = Inr (v, s') \<and>
      rrip_paper (2 ^ 2 - 1) [0, 1] (rrpv_of rrip_example) = (v, rrpv_of s')"
  using brrip_victim_is_rrip [OF rrip_example_ok(1) _ rrip_example_ok(3,2)] by simp

text \<open>
  C13 DRRIP places its dedicated sets as set dueling requires: with \<open>numSetDuelingSets = 2^k\<close>,
  \<open>k \<ge> 1\<close>, every constituency (a run of \<open>2^k\<close> consecutive sets) holds exactly one set
  dedicated to SRRIP and exactly one dedicated to BRRIP, and the two are different sets.
\<close>

theorem drrip_constituency_duel:
  assumes "1 \<le> k" and "k < 32" and "(q + 1) * 2 ^ k \<le> 2 ^ 32"
  shows "(\<exists>!off. off < 2 ^ k \<and> fst (drrip_dedicated (2 ^ k) (of_nat (q * 2 ^ k + off)))) \<and>
         (\<exists>!off. off < 2 ^ k \<and> snd (drrip_dedicated (2 ^ k) (of_nat (q * 2 ^ k + off)))) \<and>
         \<not> (\<exists>off < 2 ^ k. drrip_dedicated (2 ^ k) (of_nat (q * 2 ^ k + off)) = (True, True))"
proof -
  have ded: "drrip_dedicated (2 ^ k) (of_nat (q * 2 ^ k + off)) = (q mod 2 ^ k = off, q mod 2 ^ k = 2 ^ k - 1 - off)"
    if "off < 2 ^ k" for off
    using that assms by (intro drrip_dedicated_nat) auto
  have q: "q mod 2 ^ k < 2 ^ k" by simp
  have ev: "even ((2::nat) ^ k)" using assms(1) by simp
  have "\<exists>!off. off < 2 ^ k \<and> fst (drrip_dedicated (2 ^ k) (of_nat (q * 2 ^ k + off)))"
    by (rule ex1I [of _ "q mod 2 ^ k"]) (auto simp only: ded q fst_conv)
  moreover have "\<exists>!off. off < 2 ^ k \<and> snd (drrip_dedicated (2 ^ k) (of_nat (q * 2 ^ k + off)))"
  proof (rule ex1I [of _ "2 ^ k - 1 - q mod 2 ^ k"])
    have b: "2 ^ k - 1 - q mod 2 ^ k < (2::nat) ^ k" by (simp add: less_imp_diff_less)
    show "2 ^ k - 1 - q mod 2 ^ k < 2 ^ k \<and>
        snd (drrip_dedicated (2 ^ k) (of_nat (q * 2 ^ k + (2 ^ k - 1 - q mod 2 ^ k))))"
      using b q unfolding ded [OF b] snd_conv by linarith
    fix off assume a: "off < 2 ^ k \<and> snd (drrip_dedicated (2 ^ k) (of_nat (q * 2 ^ k + off)))"
    then have "q mod 2 ^ k = 2 ^ k - 1 - off" using ded [of off] by simp
    with a show "off = 2 ^ k - 1 - q mod 2 ^ k" by linarith
  qed
  moreover have "drrip_dedicated (2 ^ k) (of_nat (q * 2 ^ k + off)) \<noteq> (True, True)" if "off < 2 ^ k" for off
  proof
    assume "drrip_dedicated (2 ^ k) (of_nat (q * 2 ^ k + off)) = (True, True)"
    then have "off = 2 ^ k - 1 - off" unfolding ded [OF that] by auto
    then have "(2::nat) ^ k = 2 * off + 1" using that by linarith
    with ev show False by simp
  qed
  ultimately show ?thesis by blast
qed

theorem drrip_constituency_duel_witness:
  "(\<exists>!off. off < 2 ^ 5 \<and> fst (drrip_dedicated (2 ^ 5) (of_nat (3 * 2 ^ 5 + off)))) \<and>
   (\<exists>!off. off < 2 ^ 5 \<and> snd (drrip_dedicated (2 ^ 5) (of_nat (3 * 2 ^ 5 + off))))"
  using drrip_constituency_duel [of 5 3] by simp

text \<open>
  C2 An insertion under DRRIP succeeds, marks the entry valid, changes no other entry, and sets
  position and selector as published: SRRIP-dedicated sets insert at \<open>2^M - 2\<close> and count the selector up,
  BRRIP-dedicated sets insert bimodally and count it down (both saturating), follower sets copy
  the policy with fewer misses, read from the selector's top bit before the update.
\<close>

theorem drrip_insertion:
  assumes "drrip_inv p st" and "drrip_data st e = Some d" and "set_num d = Some sn"
  shows "\<exists>st' d'. drrip_reset p env st e = Inr st' \<and> drrip_inv p st' \<and>
           drrip_data st' = (drrip_data st)(e \<mapsto> d') \<and> brrip_valid d' \<and>
           sat_val (rrpv d') = drrip_position p env sn (unat (PSELCounter st)) \<and>
           unat (PSELCounter st') = drrip_psel p sn (unat (PSELCounter st))"
proof -
  have p: "numSetDuelingSets p \<noteq> 0" "unat (PSELCounter st) < 2 ^ numPSELCounterBits p"
    "1 \<le> numPSELCounterBits p" "numPSELCounterBits p \<le> 31"
    using assms(1) by (auto simp: drrip_inv_def drrip_params_ok_def)
  have wf: "brrip_wf (numRRPVBits p) d" using assms(1,2) store_allD by (auto simp: drrip_inv_def)
  have c: "store_cands (drrip_data st) [e]" using assms(2) by (auto simp: store_cands_def)
  obtain st' d' where st': "drrip_reset p env st e = Inr st'" "drrip_data st' = (drrip_data st)(e \<mapsto> d')"
    "brrip_valid d'" "sat_val (rrpv d') = drrip_position p env sn (unat (PSELCounter st))"
    "unat (PSELCounter st') = drrip_psel p sn (unat (PSELCounter st))"
    using drrip_reset_spec [OF assms(2,3) wf p] by metis
  moreover have "drrip_inv p st'"
    using drrip_reset_inv [OF assms(1) c, of e env] st'(1) by auto
  ultimately show ?thesis by blast
qed

definition drrip_example :: "DRRIPRP \<times> drrip_state" where
  "drrip_example =
     (\<lparr>numRRPVBits = 2, hitPriority = True, btp = 3, numSetDuelingSets = 32, numPSELCounterBits = 10\<rparr>,
      \<lparr>PSELCounter = 512, drrip_data = rrip_example\<rparr>)"

lemma drrip_example_inv: "drrip_inv (fst drrip_example) (snd drrip_example)"
  using rrip_example_ok(2)
  by (auto simp: drrip_example_def drrip_inv_def drrip_params_ok_def rrip_example_def split: if_splits)

theorem drrip_insertion_witness:
  "\<exists>st' d'. drrip_reset (fst drrip_example) \<lparr>curTick = 9, random_mt = (\<lambda>lo hi. lo)\<rparr> (snd drrip_example) 0 = Inr st' \<and>
     drrip_data st' 0 = Some d' \<and> sat_val (rrpv d') = 2 \<and> unat (PSELCounter st') = 513"
proof -
  let ?env = "\<lparr>curTick = 9, random_mt = (\<lambda>lo hi. lo)\<rparr>"
  have d: "drrip_data (snd drrip_example) 0 =
      Some \<lparr>set_num = Some 0, rrpv = \<lparr>initialVal = 0, maxVal = 3, counter = 0\<rparr>, brrip_valid = True\<rparr>"
    by (simp add: drrip_example_def rrip_example_def)
  from drrip_insertion [OF drrip_example_inv d, of 0 ?env] show ?thesis
    by (auto simp: drrip_example_def drrip_position_def drrip_psel_def drrip_dedicated_def Let_def)
qed

text \<open>
  C14 After any history of insertions, hits and invalidations the policy selector of DRRIP stays below
  \<open>2^numPSELCounterBits\<close>, no call fails, and a victim search answers with one of its candidates.
\<close>

theorem drrip_history_safe:
  assumes "drrip_inv p st" and "store_cands (drrip_data st) cs"
    and "\<forall>(env, c) \<in> set h. call_entry c \<in> set cs" and "env_ok env"
  shows "\<exists>st' v st''. rp_history (DRRIP p) h st = Inr st' \<and> unat (PSELCounter st') < 2 ^ numPSELCounterBits p \<and>
           rp_getVictim (DRRIP p) env st' cs = Inr (v, st'') \<and> v \<in> set cs"
proof -
  from drrip.history_ok [OF assms(1-3)] obtain st' where
    "rp_history (DRRIP p) h st = Inr st'" "drrip_inv p st'" "store_cands (drrip_data st') cs"
    using assms(2) by (auto elim!: succeedsE)
  with drrip.getVictim_ok [OF assms(4), of p st' cs] show ?thesis
    by (auto simp: succeeds_def drrip_inv_def)
qed

theorem drrip_history_safe_witness:
  "\<exists>st' v st''. rp_history (DRRIP (fst drrip_example))
       [(\<lparr>curTick = 9, random_mt = (\<lambda>lo hi. lo)\<rparr>, Reset 0), (\<lparr>curTick = 9, random_mt = (\<lambda>lo hi. lo)\<rparr>, Touch 1)]
       (snd drrip_example) = Inr st' \<and> unat (PSELCounter st') < 2 ^ 10 \<and>
     rp_getVictim (DRRIP (fst drrip_example)) \<lparr>curTick = 9, random_mt = (\<lambda>lo hi. lo)\<rparr> st' [0, 1] = Inr (v, st'') \<and>
     v \<in> {0, 1}"
proof -
  let ?env = "\<lparr>curTick = 9, random_mt = (\<lambda>lo hi. lo)\<rparr>"
  have "store_cands (drrip_data (snd drrip_example)) [0, 1]"
    using rrip_example_ok(1) by (simp add: drrip_example_def)
  moreover have "env_ok ?env" by (simp add: env_ok_def)
  ultimately show ?thesis
    using drrip_history_safe [OF drrip_example_inv, of "[0, 1]" "[(?env, Reset 0), (?env, Touch 1)]" ?env]
    by (simp add: drrip_example_def)
qed

text \<open>
  DRRIP reads \<open>set_num\<close> of the replacement data, which no constructor writes: on an entry whose
  owner has not assigned it (only \<open>BaseSetAssoc::tagsInit\<close> does) an insertion reads an
  uninitialised member.
\<close>

lemma drrip_needs_set_num:
  assumes "drrip_data st e = Some d" and "set_num d = None"
  shows "rp_reset (DRRIP p) env st e = Inl Uninitialised"
  using assms by (simp add: DRRIP_def Let_def drrip_reset_def rd_get_live)

end
