(* ===== verification/Tags.thy ===== *)
theory Tags
  imports CacheBlk RRIP
begin

text \<open>
  The tag store of a conventional cache (\<open>mem/cache/tags/base.cc\<close>, \<open>base_set_assoc.cc\<close> and their headers):
  the client of an indexing policy and a replacement policy, both called through their virtual
  functions. The blocks are the heap of the indexing policy. The locale \<open>tag_store\<close> joins
  the two interfaces and shows that the tag store is a map from blocks of the address space (per
  security space) to entries: an insertion adds one binding, an invalidation removes one, lookups and
  victim searches change nothing. It is interpreted with set associative indexing and the DRRIP policy.
\<close>

subsection \<open>State\<close>

record 'x ip_vtable =
  ip_getPossibleEntries :: "'x BaseIndexingPolicy_scheme \<Rightarrow> Addr \<Rightarrow> entry_id option list res"
  ip_extractTag :: "'x BaseIndexingPolicy_scheme \<Rightarrow> Addr \<Rightarrow> Addr"
  ip_regenerateAddr :: "'x BaseIndexingPolicy_scheme \<Rightarrow> Addr \<Rightarrow> CacheBlk \<Rightarrow> Addr"

record BaseTagStats =
  tagsInUse :: int
  totalRefs :: nat
  sampledRefs :: nat
  warmupCycle :: Tick
  occupancies :: "int \<Rightarrow> int"
  occupanciesTaskId :: "u32 \<Rightarrow> nat"
  ageTaskId :: "u32 \<Rightarrow> nat \<Rightarrow> nat"
  tagAccesses :: nat
  dataAccesses :: nat

record ('x, 's) BaseSetAssoc =
  blkSize :: u32
  blkMask :: Addr
  lookupLatency :: u64
  indexingPolicy :: "'x BaseIndexingPolicy_scheme"
  warmupBound :: u32
  warmedUp :: bool
  numBlocks :: u32
  allocAssoc :: u32
  blks :: "entry_id \<rightharpoonup> CacheBlk"
  sequentialAccess :: bool
  replacementPolicy :: 's
  stats :: BaseTagStats

definition stats_init :: BaseTagStats where
  "stats_init = \<lparr>tagsInUse = 0, totalRefs = 0, sampledRefs = 0, warmupCycle = 0, occupancies = (\<lambda>_. 0),
     occupanciesTaskId = (\<lambda>_. 0), ageTaskId = (\<lambda>_ _. 0), tagAccesses = 0, dataAccesses = 0\<rparr>"

text \<open>
  \<open>warmupBound\<close> is computed in \<open>double\<close> and truncated; the model takes the exact quotient. The objects of the
  two policies are arguments. A new block holds arbitrary position words, here 0.
\<close>

definition BaseSetAssoc_new :: "u32 \<Rightarrow> u64 \<Rightarrow> u32 \<Rightarrow> u64 \<Rightarrow> nat \<Rightarrow> bool \<Rightarrow> 'x BaseIndexingPolicy_scheme \<Rightarrow> 's \<Rightarrow>
    ('x, 's) BaseSetAssoc res" where
  "BaseSetAssoc_new block_size sz assoc tag_latency warmup_percentage sequential ip rp =
     (if block_size = 0 then Inl DivByZero
      else
        let n = ucast (sz div ucast block_size) :: u32 in
        if block_size < 4 \<or> \<not> isPowerOf2 (ucast block_size) then Inl FatalError
        else Inr \<lparr>blkSize = block_size, blkMask = ucast (block_size - 1), lookupLatency = tag_latency, indexingPolicy = ip,
               warmupBound = of_nat (warmup_percentage * unat (sz div ucast block_size) div 100), warmedUp = False,
               numBlocks = n, allocAssoc = assoc,
               blks = (\<lambda>e. if e < unat n then Some (CacheBlk_new 0 0) else None),
               sequentialAccess = sequential, replacementPolicy = rp, stats = stats_init\<rparr>)"

definition blkAlign :: "('x, 's) BaseSetAssoc \<Rightarrow> Addr \<Rightarrow> Addr" where
  "blkAlign T addr = addr AND NOT (blkMask T)"

definition extractBlkOffset :: "('x, 's) BaseSetAssoc \<Rightarrow> Addr \<Rightarrow> Addr" where
  "extractBlkOffset T addr = addr AND blkMask T"

subsection \<open>Operations\<close>

fun tags_init_loop :: "'s rp_vtable \<Rightarrow> nat list \<Rightarrow> ('x, 's) BaseSetAssoc \<Rightarrow> ('x, 's) BaseSetAssoc res" where
  "tags_init_loop rv [] T = Inr T"
| "tags_init_loop rv (blk_index # is) T =
     rbind (setEntry (indexingPolicy T) (blks T) blk_index (of_nat blk_index)) (\<lambda>(ip, h).
     case h blk_index of
       None \<Rightarrow> Inl NullDeref
     | Some blk \<Rightarrow>
         let blk = blk\<lparr>blk_data := Some (unat (blkSize T * of_nat blk_index))\<rparr> in
         rbind (rp_instantiateEntry rv (replacementPolicy T) blk_index) (\<lambda>rp.
         rbind (rp_set_set_num rv rp blk_index (getSet blk)) (\<lambda>rp.
           tags_init_loop rv is (T\<lparr>indexingPolicy := ip, blks := h(blk_index \<mapsto> blk), replacementPolicy := rp\<rparr>))))"

definition tagsInit :: "'s rp_vtable \<Rightarrow> ('x, 's) BaseSetAssoc \<Rightarrow> ('x, 's) BaseSetAssoc res" where
  "tagsInit rv T = tags_init_loop rv [0..<unat (numBlocks T)] T"

definition findBlockBySetAndWay :: "('x, 's) BaseSetAssoc \<Rightarrow> int \<Rightarrow> int \<Rightarrow> entry_id option res" where
  "findBlockBySetAndWay T s w = getEntry (indexingPolicy T) (word_of_int s) (word_of_int w)"

fun find_in :: "(entry_id \<rightharpoonup> CacheBlk) \<Rightarrow> Addr \<Rightarrow> bool \<Rightarrow> entry_id option list \<Rightarrow> entry_id option res" where
  "find_in h t is_secure [] = Inr None"
| "find_in h t is_secure (location # entries) =
     (case location of
        None \<Rightarrow> Inl NullDeref
      | Some e \<Rightarrow>
          (case h e of
             None \<Rightarrow> Inl NullDeref
           | Some blk \<Rightarrow>
               if tag blk = t \<and> isValid blk \<and> isSecure blk = is_secure then Inr (Some e)
               else find_in h t is_secure entries))"

definition findBlock :: "'x ip_vtable \<Rightarrow> ('x, 's) BaseSetAssoc \<Rightarrow> Addr \<Rightarrow> bool \<Rightarrow> entry_id option res" where
  "findBlock iv T addr is_secure =
     (let t = ip_extractTag iv (indexingPolicy T) addr in
      rbind (ip_getPossibleEntries iv (indexingPolicy T) addr) (\<lambda>entries.
        find_in (blks T) t is_secure entries))"

definition blk_get :: "('x, 's) BaseSetAssoc \<Rightarrow> entry_id \<Rightarrow> CacheBlk res" where
  "blk_get T e = (case blks T e of None \<Rightarrow> Inl NullDeref | Some b \<Rightarrow> Inr b)"

definition base_insertBlock :: "'x ip_vtable \<Rightarrow> nat \<Rightarrow> Tick \<Rightarrow> ('x, 's) BaseSetAssoc \<Rightarrow> Packet \<Rightarrow> entry_id \<Rightarrow>
    ('x, 's) BaseSetAssoc res" where
  "base_insertBlock iv maxMasters now T pkt e =
     rbind (blk_get T e) (\<lambda>blk.
     if isValid blk then Inl AssertFailed
     else
       let master_id = req_masterId (pkt_req pkt) in
       if \<not> unat master_id < maxMasters then Inl AssertFailed
       else
         rbind (blk_insert now (ip_extractTag iv (indexingPolicy T) (pkt_addr pkt)) (pkt_isSecure pkt) (uint master_id)
                  (req_taskId (pkt_req pkt)) blk) (\<lambda>blk'.
           let st = stats T;
               st = st\<lparr>occupancies := (occupancies st)(uint master_id := occupancies st (uint master_id) + 1)\<rparr>;
               warm = (\<not> warmedUp T \<and> tagsInUse st \<ge> uint (warmupBound T));
               st = (if warm then st\<lparr>warmupCycle := now\<rparr> else st);
               st = st\<lparr>tagAccesses := tagAccesses st + 1, dataAccesses := dataAccesses st + 1\<rparr>
           in Inr (T\<lparr>blks := (blks T)(e \<mapsto> blk'), warmedUp := warmedUp T \<or> warm, stats := st\<rparr>)))"

definition base_invalidate :: "('x, 's) BaseSetAssoc \<Rightarrow> entry_id \<Rightarrow> ('x, 's) BaseSetAssoc res" where
  "base_invalidate T e =
     rbind (blk_get T e) (\<lambda>blk.
     if \<not> isValid blk then Inl AssertFailed
     else
       let st = stats T;
           st = st\<lparr>occupancies := (occupancies st)(srcMasterId blk := occupancies st (srcMasterId blk) - 1),
                    totalRefs := totalRefs st + unat (refCount blk), sampledRefs := sampledRefs st + 1\<rparr>
       in Inr (T\<lparr>blks := (blks T)(e \<mapsto> blk_invalidate blk), stats := st\<rparr>))"

definition tags_invalidate :: "'s rp_vtable \<Rightarrow> rp_env \<Rightarrow> ('x, 's) BaseSetAssoc \<Rightarrow> entry_id \<Rightarrow> ('x, 's) BaseSetAssoc res" where
  "tags_invalidate rv env T e =
     rbind (base_invalidate T e) (\<lambda>T.
       let T = T\<lparr>stats := (stats T)\<lparr>tagsInUse := tagsInUse (stats T) - 1\<rparr>\<rparr> in
       rbind (rp_invalidate rv env (replacementPolicy T) e) (\<lambda>rp. Inr (T\<lparr>replacementPolicy := rp\<rparr>)))"

definition accessBlock :: "'x ip_vtable \<Rightarrow> 's rp_vtable \<Rightarrow> rp_env \<Rightarrow> ('x, 's) BaseSetAssoc \<Rightarrow> Addr \<Rightarrow> bool \<Rightarrow>
    (entry_id option \<times> u64 \<times> ('x, 's) BaseSetAssoc) res" where
  "accessBlock iv rv env T addr is_secure =
     rbind (findBlock iv T addr is_secure) (\<lambda>blk.
       let st = stats T;
           st = st\<lparr>tagAccesses := tagAccesses st + unat (allocAssoc T)\<rparr>;
           st = (if sequentialAccess T
                 then (if blk \<noteq> None then st\<lparr>dataAccesses := dataAccesses st + 1\<rparr> else st)
                 else st\<lparr>dataAccesses := dataAccesses st + unat (allocAssoc T)\<rparr>);
           T = T\<lparr>stats := st\<rparr>;
           lat = lookupLatency T
       in case blk of
            None \<Rightarrow> Inr (None, lat, T)
          | Some e \<Rightarrow>
              rbind (blk_get T e) (\<lambda>b.
              rbind (rp_touch rv env (replacementPolicy T) e) (\<lambda>rp.
                Inr (Some e, lat, T\<lparr>blks := (blks T)(e \<mapsto> b\<lparr>refCount := refCount b + 1\<rparr>), replacementPolicy := rp\<rparr>))))"

text \<open>A null candidate is dereferenced by every policy's \<open>getVictim\<close>.\<close>

fun deref_all :: "entry_id option list \<Rightarrow> entry_id list res" where
  "deref_all [] = Inr []"
| "deref_all (None # es) = Inl NullDeref"
| "deref_all (Some e # es) = rbind (deref_all es) (\<lambda>es'. Inr (e # es'))"

definition findVictim :: "'x ip_vtable \<Rightarrow> 's rp_vtable \<Rightarrow> rp_env \<Rightarrow> ('x, 's) BaseSetAssoc \<Rightarrow> Addr \<Rightarrow>
    (entry_id \<times> entry_id list \<times> ('x, 's) BaseSetAssoc) res" where
  "findVictim iv rv env T addr =
     rbind (ip_getPossibleEntries iv (indexingPolicy T) addr) (\<lambda>entries.
     rbind (deref_all entries) (\<lambda>es.
     rbind (rp_getVictim rv env (replacementPolicy T) es) (\<lambda>(victim, rp).
       Inr (victim, [victim], T\<lparr>replacementPolicy := rp\<rparr>))))"

definition insertBlock :: "'x ip_vtable \<Rightarrow> 's rp_vtable \<Rightarrow> nat \<Rightarrow> rp_env \<Rightarrow> ('x, 's) BaseSetAssoc \<Rightarrow> Packet \<Rightarrow> entry_id \<Rightarrow>
    ('x, 's) BaseSetAssoc res" where
  "insertBlock iv rv maxMasters env T pkt e =
     rbind (base_insertBlock iv maxMasters (curTick env) T pkt e) (\<lambda>T.
       let T = T\<lparr>stats := (stats T)\<lparr>tagsInUse := tagsInUse (stats T) + 1\<rparr>\<rparr> in
       rbind (rp_reset rv env (replacementPolicy T) e) (\<lambda>rp. Inr (T\<lparr>replacementPolicy := rp\<rparr>)))"

definition setWayAllocationMax :: "int \<Rightarrow> ('x, 's) BaseSetAssoc \<Rightarrow> ('x, 's) BaseSetAssoc res" where
  "setWayAllocationMax ws T = (if ws < 1 then Inl FatalError else Inr (T\<lparr>allocAssoc := word_of_int ws\<rparr>))"

definition getWayAllocationMax :: "('x, 's) BaseSetAssoc \<Rightarrow> int" where
  "getWayAllocationMax T = sint (allocAssoc T)"

definition regenerateBlkAddr :: "'x ip_vtable \<Rightarrow> ('x, 's) BaseSetAssoc \<Rightarrow> entry_id \<Rightarrow> Addr res" where
  "regenerateBlkAddr iv T e =
     rbind (blk_get T e) (\<lambda>b. Inr (ip_regenerateAddr iv (indexingPolicy T) (tag b) b))"

definition forEachBlk :: "(CacheBlk \<Rightarrow> 'a \<Rightarrow> 'a) \<Rightarrow> ('x, 's) BaseSetAssoc \<Rightarrow> 'a \<Rightarrow> 'a" where
  "forEachBlk visitor T a =
     fold (\<lambda>e. case blks T e of None \<Rightarrow> id | Some b \<Rightarrow> visitor b) [0..<unat (numBlocks T)] a"

definition anyBlk :: "(CacheBlk \<Rightarrow> bool) \<Rightarrow> ('x, 's) BaseSetAssoc \<Rightarrow> bool" where
  "anyBlk visitor T =
     list_ex (\<lambda>e. case blks T e of None \<Rightarrow> False | Some b \<Rightarrow> visitor b) [0..<unat (numBlocks T)]"

subsection \<open>Statistics\<close>

definition cleanupRefsVisitor :: "CacheBlk \<Rightarrow> BaseTagStats \<Rightarrow> BaseTagStats" where
  "cleanupRefsVisitor blk st =
     (if isValid blk then st\<lparr>totalRefs := totalRefs st + unat (refCount blk), sampledRefs := sampledRefs st + 1\<rparr> else st)"

definition cleanupRefs :: "('x, 's) BaseSetAssoc \<Rightarrow> ('x, 's) BaseSetAssoc" where
  "cleanupRefs T = T\<lparr>stats := forEachBlk cleanupRefsVisitor T (stats T)\<rparr>"

definition age_index :: "Tick \<Rightarrow> Tick \<Rightarrow> Tick \<Rightarrow> nat" where
  "age_index us ms age =
     (if age div us < 10 then 0
      else if age div us < 100 then 1
      else if age div ms < 1 then 2
      else if age div ms < 10 then 3
      else 4)"

definition NumTaskId :: u32 where
  "NumTaskId = 1025"

definition computeStatsVisitor :: "Tick \<Rightarrow> Tick \<Rightarrow> Tick \<Rightarrow> CacheBlk \<Rightarrow> BaseTagStats res \<Rightarrow> BaseTagStats res" where
  "computeStatsVisitor us ms now blk r =
     rbind r (\<lambda>st.
       if \<not> isValid blk then Inr st
       else if \<not> task_id blk < NumTaskId then Inl AssertFailed
       else
         let t = task_id blk;
             st = st\<lparr>occupanciesTaskId := (occupanciesTaskId st)(t := occupanciesTaskId st t + 1)\<rparr>
         in if \<not> tickInserted blk \<le> now then Inl AssertFailed
            else
              let i = age_index us ms (now - tickInserted blk)
              in Inr (st\<lparr>ageTaskId := (ageTaskId st)(t := (ageTaskId st t)(i := ageTaskId st t i + 1))\<rparr>))"

definition computeStats :: "Tick \<Rightarrow> Tick \<Rightarrow> Tick \<Rightarrow> ('x, 's) BaseSetAssoc \<Rightarrow> ('x, 's) BaseSetAssoc res" where
  "computeStats us ms now T =
     (let st = (stats T)\<lparr>occupanciesTaskId := (\<lambda>t. if t < NumTaskId then 0 else occupanciesTaskId (stats T) t),
                         ageTaskId := (\<lambda>t j. if t < NumTaskId \<and> j < 5 then 0 else ageTaskId (stats T) t j)\<rparr>
      in rbind (forEachBlk (computeStatsVisitor us ms now) T (Inr st)) (\<lambda>st'. Inr (T\<lparr>stats := st'\<rparr>)))"

subsection \<open>Invariant and abstraction\<close>

definition resident :: "'x ip_vtable \<Rightarrow> ('x, 's) BaseSetAssoc \<Rightarrow> Addr \<Rightarrow> bool \<Rightarrow> entry_id \<Rightarrow> bool" where
  "resident iv T a sec e \<longleftrightarrow> (\<exists>cs b. ip_getPossibleEntries iv (indexingPolicy T) a = Inr cs \<and> Some e \<in> set cs \<and>
     blks T e = Some b \<and> isValid b \<and> tag b = ip_extractTag iv (indexingPolicy T) a \<and> isSecure b = sec)"

definition valid_entries :: "('x, 's) BaseSetAssoc \<Rightarrow> entry_id set" where
  "valid_entries T = {e. \<exists>b. blks T e = Some b \<and> isValid b}"

definition tags_inv :: "('x BaseIndexingPolicy_scheme \<Rightarrow> (entry_id \<rightharpoonup> CacheBlk) \<Rightarrow> bool) \<Rightarrow> 'x ip_vtable \<Rightarrow> ('s \<Rightarrow> bool) \<Rightarrow>
    ('s \<Rightarrow> entry_id list \<Rightarrow> bool) \<Rightarrow> ('x, 's) BaseSetAssoc \<Rightarrow> bool" where
  "tags_inv ip_wf iv rp_inv rp_cands T \<longleftrightarrow>
     ip_wf (indexingPolicy T) (blks T) \<and> rp_inv (replacementPolicy T) \<and>
     (\<forall>a es. ip_getPossibleEntries iv (indexingPolicy T) a = Inr (map Some es) \<longrightarrow> rp_cands (replacementPolicy T) es) \<and>
     (\<forall>e b. blks T e = Some b \<and> \<not> isValid b \<longrightarrow> status b = 0) \<and>
     (\<forall>e \<in> valid_entries T. \<exists>a sec. resident iv T a sec e) \<and>
     (\<forall>a sec e e'. resident iv T a sec e \<and> resident iv T a sec e' \<longrightarrow> e = e') \<and>
     finite (dom (blks T)) \<and> tagsInUse (stats T) = int (card (valid_entries T))"

text \<open>Every block has its data array.\<close>

definition data_ok :: "('x, 's) BaseSetAssoc \<Rightarrow> bool" where
  "data_ok T \<longleftrightarrow> (\<forall>e b. blks T e = Some b \<longrightarrow> blk_data b \<noteq> None)"

text \<open>The tag store as a map: which entry holds an address.\<close>

definition tag_abs :: "'x ip_vtable \<Rightarrow> ('x, 's) BaseSetAssoc \<Rightarrow> Addr \<Rightarrow> bool \<Rightarrow> entry_id option" where
  "tag_abs iv T a sec = (case findBlock iv T a sec of Inr r \<Rightarrow> r | Inl _ \<Rightarrow> None)"

lemma find_in_ok:
  assumes "set es \<subseteq> dom h"
  shows "\<exists>r. find_in h t sec (map Some es) = Inr r \<and>
    (case r of None \<Rightarrow> \<forall>e b. e \<in> set es \<longrightarrow> h e = Some b \<longrightarrow> \<not> (tag b = t \<and> isValid b \<and> isSecure b = sec)
     | Some e \<Rightarrow> e \<in> set es \<and> (\<exists>b. h e = Some b \<and> tag b = t \<and> isValid b \<and> isSecure b = sec))"
  using assms
proof (induction es)
  case (Cons e es)
  then obtain b where b: "h e = Some b" by auto
  show ?case
  proof (cases "tag b = t \<and> isValid b \<and> isSecure b = sec")
    case False
    from Cons.IH Cons.prems obtain r where r: "find_in h t sec (map Some es) = Inr r"
      "case r of None \<Rightarrow> \<forall>e b. e \<in> set es \<longrightarrow> h e = Some b \<longrightarrow> \<not> (tag b = t \<and> isValid b \<and> isSecure b = sec)
       | Some e \<Rightarrow> e \<in> set es \<and> (\<exists>b. h e = Some b \<and> tag b = t \<and> isValid b \<and> isSecure b = sec)" by auto
    with b False show ?thesis by (cases r) auto
  qed (use b in auto)
qed simp

lemma deref_map_Some [simp]: "deref_all (map Some es) = Inr es"
  by (induction es) auto

lemma blk_get_live: "blks T e = Some b \<Longrightarrow> blk_get T e = Inr b"
  by (simp add: blk_get_def)

subsection \<open>The tag store as a client\<close>

locale tag_store =
  indexing_policy ip_wf "ip_getPossibleEntries iv" "ip_extractTag iv" "ip_regenerateAddr iv" block_of ways +
  replacement_policy rv rp_inv rp_cands
  for ip_wf :: "'x BaseIndexingPolicy_scheme \<Rightarrow> (entry_id \<rightharpoonup> CacheBlk) \<Rightarrow> bool"
    and iv :: "'x ip_vtable"
    and block_of :: "'x BaseIndexingPolicy_scheme \<Rightarrow> Addr \<Rightarrow> Addr"
    and ways :: "'x BaseIndexingPolicy_scheme \<Rightarrow> nat"
    and rv :: "'s rp_vtable"
    and rp_inv :: "'s \<Rightarrow> bool"
    and rp_cands :: "'s \<Rightarrow> entry_id list \<Rightarrow> bool" +
  assumes position_only: "ip_wf p h \<Longrightarrow> h e = Some b \<Longrightarrow> re_set b' = re_set b \<Longrightarrow> re_way b' = re_way b \<Longrightarrow>
      ip_wf p (h(e \<mapsto> b'))"
begin

lemma inv_candidates:
  assumes "tags_inv ip_wf iv rp_inv rp_cands T"
  obtains es where "ip_getPossibleEntries iv (indexingPolicy T) a = Inr (map Some es)" "set es \<subseteq> dom (blks T)"
    "rp_cands (replacementPolicy T) es"
proof -
  have wf: "ip_wf (indexingPolicy T) (blks T)"
    and rc: "\<And>es. ip_getPossibleEntries iv (indexingPolicy T) a = Inr (map Some es) \<Longrightarrow> rp_cands (replacementPolicy T) es"
    using assms by (simp_all add: tags_inv_def)
  from candidates_ok [OF wf, of a] obtain es where
    "ip_getPossibleEntries iv (indexingPolicy T) a = Inr (map Some es)" "set es \<subseteq> dom (blks T)" by blast
  with rc [of es] show thesis by (auto intro: that)
qed

lemma find_resident:
  assumes "tags_inv ip_wf iv rp_inv rp_cands T"
  shows "\<exists>r. findBlock iv T a sec = Inr r \<and> (\<forall>e. r = Some e \<longleftrightarrow> resident iv T a sec e)"
proof -
  obtain es where es: "ip_getPossibleEntries iv (indexingPolicy T) a = Inr (map Some es)" "set es \<subseteq> dom (blks T)"
    "rp_cands (replacementPolicy T) es"
    by (rule inv_candidates [OF assms])
  have unique: "resident iv T a sec e \<Longrightarrow> resident iv T a sec e' \<Longrightarrow> e = e'" for e e'
    using assms unfolding tags_inv_def by blast
  have res: "resident iv T a sec e \<longleftrightarrow> e \<in> set es \<and> (\<exists>b. blks T e = Some b \<and>
      tag b = ip_extractTag iv (indexingPolicy T) a \<and> isValid b \<and> isSecure b = sec)" for e
    by (auto simp: resident_def es(1))
  from find_in_ok [OF es(2), of "ip_extractTag iv (indexingPolicy T) a" sec] obtain r where
    r: "find_in (blks T) (ip_extractTag iv (indexingPolicy T) a) sec (map Some es) = Inr r"
    and f: "case r of None \<Rightarrow> \<forall>e b. e \<in> set es \<longrightarrow> blks T e = Some b \<longrightarrow>
          \<not> (tag b = ip_extractTag iv (indexingPolicy T) a \<and> isValid b \<and> isSecure b = sec)
       | Some e \<Rightarrow> e \<in> set es \<and> (\<exists>b. blks T e = Some b \<and>
          tag b = ip_extractTag iv (indexingPolicy T) a \<and> isValid b \<and> isSecure b = sec)" by blast
  have c: "case r of None \<Rightarrow> \<forall>e. \<not> resident iv T a sec e | Some e \<Rightarrow> resident iv T a sec e"
    using f unfolding res by (cases r) auto
  have "r = Some e \<longleftrightarrow> resident iv T a sec e" for e using c unique by (cases r) auto
  then show ?thesis using r by (auto simp: findBlock_def es(1))
qed

lemma abs_resident: "tags_inv ip_wf iv rp_inv rp_cands T \<Longrightarrow> tag_abs iv T a sec = Some e \<longleftrightarrow> resident iv T a sec e"
proof -
  assume "tags_inv ip_wf iv rp_inv rp_cands T"
  from find_resident [OF this, of a sec] obtain r where r: "findBlock iv T a sec = Inr r"
    "\<forall>e. r = Some e \<longleftrightarrow> resident iv T a sec e" by blast
  then have "tag_abs iv T a sec = r" by (simp add: tag_abs_def)
  with r(2) show ?thesis by simp
qed

lemma tags_inv_update:
  assumes "tags_inv ip_wf iv rp_inv rp_cands T" and "blks T e = Some b"
    and "indexingPolicy T' = indexingPolicy T" and "blks T' = (blks T)(e \<mapsto> b')"
    and "re_set b' = re_set b" and "re_way b' = re_way b"
    and "rp_inv (replacementPolicy T')" and "rp_cands (replacementPolicy T') = rp_cands (replacementPolicy T)"
    and "\<not> isValid b' \<Longrightarrow> status b' = 0" and "isValid b' \<Longrightarrow> \<exists>a sec. resident iv T' a sec e"
    and "\<And>a sec e'. e' \<noteq> e \<Longrightarrow> resident iv T' a sec e \<Longrightarrow> \<not> resident iv T a sec e'"
    and "tagsInUse (stats T') = tagsInUse (stats T) + of_bool (isValid b') - of_bool (isValid b)"
  shows "tags_inv ip_wf iv rp_inv rp_cands T'"
proof -
  have frame: "resident iv T' a sec e' \<longleftrightarrow> resident iv T a sec e'" if "e' \<noteq> e" for a sec e'
    using that by (simp add: resident_def assms(3,4))
  have inv: "ip_wf (indexingPolicy T) (blks T)" "finite (dom (blks T))"
    "\<forall>e b. blks T e = Some b \<and> \<not> isValid b \<longrightarrow> status b = 0"
    "\<forall>e \<in> valid_entries T. \<exists>a sec. resident iv T a sec e"
    "\<forall>a sec e e'. resident iv T a sec e \<and> resident iv T a sec e' \<longrightarrow> e = e'"
    "tagsInUse (stats T) = int (card (valid_entries T))"
    "\<forall>a es. ip_getPossibleEntries iv (indexingPolicy T) a = Inr (map Some es) \<longrightarrow> rp_cands (replacementPolicy T) es"
    using assms(1) unfolding tags_inv_def by blast+
  have "valid_entries T \<subseteq> dom (blks T)" by (auto simp: valid_entries_def)
  then have fin: "finite (valid_entries T)" using inv(2) finite_subset by blast
  have v: "valid_entries T' = (if isValid b' then insert e (valid_entries T) else valid_entries T - {e})"
    "e \<in> valid_entries T \<longleftrightarrow> isValid b"
    using assms(2) by (auto simp: valid_entries_def assms(4))
  have "0 < card (valid_entries T)" if "isValid b" using that v(2) fin by (auto simp: card_gt_0_iff)
  then have "tagsInUse (stats T') = int (card (valid_entries T'))"
    unfolding assms(12) inv(6) using v fin by (auto simp: card_insert_if of_nat_diff)
  moreover have "\<exists>a sec. resident iv T' a sec x" if "x \<in> valid_entries T'" for x
  proof (cases "x = e")
    case True
    then show ?thesis using that assms(10) by (auto simp: valid_entries_def assms(4))
  next
    case False
    then have "x \<in> valid_entries T" using that v(1) by (auto split: if_splits)
    then show ?thesis using inv(4) frame [OF False] by blast
  qed
  moreover have "x = y" if "resident iv T' a sec x" "resident iv T' a sec y" for a sec x y
    using that frame inv(5) assms(11) by metis
  moreover have "ip_wf (indexingPolicy T') (blks T')"
    unfolding assms(3,4) by (rule position_only [OF inv(1) assms(2,5,6)])
  moreover have "\<forall>x c. blks T' x = Some c \<and> \<not> isValid c \<longrightarrow> status c = 0"
    using inv(3) assms(9) by (auto simp: assms(4))
  moreover have "finite (dom (blks T'))" using inv(2) by (simp add: assms(4))
  ultimately show ?thesis using inv(7) assms(7,8) unfolding tags_inv_def assms(3) by auto
qed

lemma tags_inv_rp:
  assumes "tags_inv ip_wf iv rp_inv rp_cands T"
    and "indexingPolicy T' = indexingPolicy T" and "blks T' = blks T"
    and "rp_inv (replacementPolicy T')" and "rp_cands (replacementPolicy T') = rp_cands (replacementPolicy T)"
    and "tagsInUse (stats T') = tagsInUse (stats T)"
  shows "tags_inv ip_wf iv rp_inv rp_cands T'" and "resident iv T' = resident iv T"
proof -
  show r: "resident iv T' = resident iv T" by (simp add: resident_def fun_eq_iff assms(2,3))
  show "tags_inv ip_wf iv rp_inv rp_cands T'"
    using assms(1) unfolding tags_inv_def r assms(2,3,5,6) valid_entries_def using assms(4) by blast
qed

lemma abs_eqI:
  assumes "tags_inv ip_wf iv rp_inv rp_cands T" and "\<And>e. resident iv T a sec e \<longleftrightarrow> r = Some e"
  shows "tag_abs iv T a sec = r"
  using abs_resident [OF assms(1), of a sec] assms(2) by (metis not_None_eq)

lemma findBlock_abs: "tags_inv ip_wf iv rp_inv rp_cands T \<Longrightarrow> findBlock iv T a sec = Inr (tag_abs iv T a sec)"
  using find_resident [of T a sec] by (auto simp: tag_abs_def)

lemma resident_cands:
  assumes "tags_inv ip_wf iv rp_inv rp_cands T" and "resident iv T a sec e"
  obtains es b where "rp_cands (replacementPolicy T) es" "e \<in> set es" "blks T e = Some b" "isValid b"
proof -
  from inv_candidates [OF assms(1), of a] obtain es where
    es: "ip_getPossibleEntries iv (indexingPolicy T) a = Inr (map Some es)" "rp_cands (replacementPolicy T) es" by blast
  from assms(2) obtain b where "e \<in> set es" "blks T e = Some b" "isValid b" by (auto simp: resident_def es(1))
  with es(2) that show thesis by blast
qed

text \<open>A lookup answers from the map and leaves the map as it is.\<close>

lemma accessBlock_ok:
  assumes inv: "tags_inv ip_wf iv rp_inv rp_cands T"
  shows "succeeds (accessBlock iv rv env T a sec) (\<lambda>(r, lat, T'). r = tag_abs iv T a sec \<and> lat = lookupLatency T \<and>
           tags_inv ip_wf iv rp_inv rp_cands T' \<and> tag_abs iv T' = tag_abs iv T \<and>
           indexingPolicy T' = indexingPolicy T \<and> (data_ok T \<longrightarrow> data_ok T'))"
proof -
  define st where "st = (let st = (stats T)\<lparr>tagAccesses := tagAccesses (stats T) + unat (allocAssoc T)\<rparr> in
      if sequentialAccess T then (if tag_abs iv T a sec \<noteq> None then st\<lparr>dataAccesses := dataAccesses st + 1\<rparr> else st)
      else st\<lparr>dataAccesses := dataAccesses st + unat (allocAssoc T)\<rparr>)"
  have u: "tagsInUse st = tagsInUse (stats T)" by (simp add: st_def Let_def)
  show ?thesis
  proof (cases "tag_abs iv T a sec")
    case None
    let ?T = "T\<lparr>stats := st\<rparr>"
    have run: "accessBlock iv rv env T a sec = Inr (None, lookupLatency T, ?T)"
      using None by (simp add: accessBlock_def findBlock_abs [OF inv] st_def Let_def)
    have i: "tags_inv ip_wf iv rp_inv rp_cands ?T" "resident iv ?T = resident iv T"
      using inv u by (intro tags_inv_rp [OF inv]; simp add: tags_inv_def)+
    then have "tag_abs iv ?T = tag_abs iv T"
      using abs_resident [OF inv] by (intro ext abs_eqI) auto
    with i run None show ?thesis by (simp add: data_ok_def)
  next
    case (Some e)
    then have r: "resident iv T a sec e" using abs_resident [OF inv] by simp
    then obtain es b where e: "rp_cands (replacementPolicy T) es" "e \<in> set es" "blks T e = Some b" "isValid b"
      using resident_cands [OF inv] by blast
    have "rp_inv (replacementPolicy T)" using inv by (simp add: tags_inv_def)
    from touch_ok [OF this e(1,2), of env] obtain rp where
      rp: "rp_touch rv env (replacementPolicy T) e = Inr rp" "rp_inv rp" "rp_cands rp = rp_cands (replacementPolicy T)"
      by (auto elim: succeedsE)
    let ?b = "b\<lparr>refCount := refCount b + 1\<rparr>"
    let ?T = "T\<lparr>stats := st, blks := (blks T)(e \<mapsto> ?b), replacementPolicy := rp\<rparr>"
    have run: "accessBlock iv rv env T a sec = Inr (Some e, lookupLatency T, ?T)"
      using Some e(3) rp(1) by (simp add: accessBlock_def findBlock_abs [OF inv] st_def Let_def blk_get_def)
    have same: "resident iv ?T = resident iv T"
      using e(3,4) by (auto simp: resident_def fun_eq_iff isValid_def isSecure_def)
    have "tags_inv ip_wf iv rp_inv rp_cands ?T"
      by (rule tags_inv_update [OF inv e(3), where b' = ?b])
        (use e(4) rp u same r inv in \<open>auto simp: isValid_def tags_inv_def\<close>)
    moreover from this have "tag_abs iv ?T = tag_abs iv T"
      using abs_resident [OF inv] same by (intro ext abs_eqI) auto
    moreover have "data_ok T \<longrightarrow> data_ok ?T" using e(3) by (auto simp: data_ok_def)
    ultimately show ?thesis using run Some by simp
  qed
qed

lemma findVictim_ok:
  assumes inv: "tags_inv ip_wf iv rp_inv rp_cands T" and "env_ok env"
  shows "succeeds (findVictim iv rv env T a) (\<lambda>(v, ev, T').
           (\<exists>cs. ip_getPossibleEntries iv (indexingPolicy T) a = Inr cs \<and> Some v \<in> set cs) \<and> ev = [v] \<and> v \<in> dom (blks T) \<and>
           tags_inv ip_wf iv rp_inv rp_cands T' \<and> tag_abs iv T' = tag_abs iv T \<and>
           indexingPolicy T' = indexingPolicy T \<and> blks T' = blks T \<and> blkSize T' = blkSize T)"
proof -
  from inv_candidates [OF inv, of a] obtain es where
    es: "ip_getPossibleEntries iv (indexingPolicy T) a = Inr (map Some es)" "set es \<subseteq> dom (blks T)"
    "rp_cands (replacementPolicy T) es" by blast
  have "rp_inv (replacementPolicy T)" using inv by (simp add: tags_inv_def)
  from getVictim_ok [OF assms(2) this es(3)] obtain v rp where
    v: "rp_getVictim rv env (replacementPolicy T) es = Inr (v, rp)" "v \<in> set es" "rp_inv rp"
    "rp_cands rp = rp_cands (replacementPolicy T)" by (auto elim!: succeedsE)
  let ?T = "T\<lparr>replacementPolicy := rp\<rparr>"
  have i: "tags_inv ip_wf iv rp_inv rp_cands ?T" "resident iv ?T = resident iv T"
    using v(3,4) by (intro tags_inv_rp [OF inv]; simp)+
  then have "tag_abs iv ?T = tag_abs iv T" using abs_resident [OF inv] by (intro ext abs_eqI) auto
  with i(1) v(1,2) es(1,2) show ?thesis by (auto simp: findVictim_def)
qed

text \<open>An invalidation removes the bindings of one entry.\<close>

lemma tags_invalidate_ok:
  assumes inv: "tags_inv ip_wf iv rp_inv rp_cands T" and "e \<in> valid_entries T"
  shows "succeeds (tags_invalidate rv env T e) (\<lambda>T'. tags_inv ip_wf iv rp_inv rp_cands T' \<and>
           (\<forall>a sec. tag_abs iv T' a sec = (if tag_abs iv T a sec = Some e then None else tag_abs iv T a sec)) \<and>
           indexingPolicy T' = indexingPolicy T \<and> blks T' = (blks T)(e := map_option blk_invalidate (blks T e)) \<and>
           valid_entries T' = valid_entries T - {e})"
proof -
  obtain a sec where r: "resident iv T a sec e" using inv assms(2) unfolding tags_inv_def by blast
  then obtain es b where e: "rp_cands (replacementPolicy T) es" "e \<in> set es" "blks T e = Some b" "isValid b"
    using resident_cands [OF inv] by blast
  have "rp_inv (replacementPolicy T)" using inv by (simp add: tags_inv_def)
  from invalidate_ok [OF this e(1,2), of env] obtain rp where
    rp: "rp_invalidate rv env (replacementPolicy T) e = Inr rp" "rp_inv rp" "rp_cands rp = rp_cands (replacementPolicy T)"
    by (auto elim: succeedsE)
  obtain T' where T': "tags_invalidate rv env T e = Inr T'" "indexingPolicy T' = indexingPolicy T"
    "blks T' = (blks T)(e \<mapsto> blk_invalidate b)" "replacementPolicy T' = rp" "tagsInUse (stats T') = tagsInUse (stats T) - 1"
    using e(3,4) rp(1) by (simp add: tags_invalidate_def base_invalidate_def blk_get_live Let_def)
  have res: "resident iv T' a sec x \<longleftrightarrow> resident iv T a sec x \<and> x \<noteq> e" for a sec x
    by (auto simp: resident_def T'(2,3))
  have i: "tags_inv ip_wf iv rp_inv rp_cands T'"
    by (rule tags_inv_update [OF inv e(3), where b' = "blk_invalidate b"]) (use T' rp e(4) res in auto)
  have "tag_abs iv T' a sec = (if tag_abs iv T a sec = Some e then None else tag_abs iv T a sec)" for a sec
    using abs_resident [OF inv, of a sec] res by (intro abs_eqI [OF i]) (metis option.inject option.distinct(1))
  with i T'(1,2,3) e(3) show ?thesis by (auto simp: valid_entries_def)
qed

text \<open>An insertion binds the block of the packet's address to the entry.\<close>

lemma insertBlock_ok:
  assumes inv: "tags_inv ip_wf iv rp_inv rp_cands T"
    and cs: "ip_getPossibleEntries iv (indexingPolicy T) (pkt_addr pkt) = Inr cs" "Some e \<in> set cs"
    and "e \<notin> valid_entries T" and miss: "tag_abs iv T (pkt_addr pkt) (pkt_isSecure pkt) = None"
    and "unat (req_masterId (pkt_req pkt)) < maxMasters"
  shows "succeeds (insertBlock iv rv maxMasters env T pkt e) (\<lambda>T'. tags_inv ip_wf iv rp_inv rp_cands T' \<and>
           (\<forall>a sec. tag_abs iv T' a sec =
              (if block_of (indexingPolicy T) a = block_of (indexingPolicy T) (pkt_addr pkt) \<and> sec = pkt_isSecure pkt
               then Some e else tag_abs iv T a sec)) \<and>
           indexingPolicy T' = indexingPolicy T \<and> valid_entries T' = insert e (valid_entries T) \<and>
           (\<forall>x. x \<noteq> e \<longrightarrow> blks T' x = blks T x) \<and> (data_ok T \<longrightarrow> data_ok T'))"
proof -
  let ?p = "indexingPolicy T" and ?a = "pkt_addr pkt" and ?s = "pkt_isSecure pkt"
  have wf: "ip_wf ?p (blks T)" and ri: "rp_inv (replacementPolicy T)" using inv by (simp_all add: tags_inv_def)
  from inv_candidates [OF inv, of ?a] cs obtain es where
    es: "cs = map Some es" "set es \<subseteq> dom (blks T)" "rp_cands (replacementPolicy T) es" by auto
  then obtain b where b: "e \<in> set es" "blks T e = Some b" using cs(2) by auto
  have nv: "\<not> isValid b" using assms(4) b(2) by (auto simp: valid_entries_def)
  then have "status b = 0" using inv b(2) unfolding tags_inv_def by blast
  from blk_insert_ok [OF this, of "curTick env" "ip_extractTag iv ?p ?a" ?s "uint (req_masterId (pkt_req pkt))" "req_taskId (pkt_req pkt)"]
  obtain b' where b': "blk_insert (curTick env) (ip_extractTag iv ?p ?a) ?s (uint (req_masterId (pkt_req pkt))) (req_taskId (pkt_req pkt)) b = Inr b'"
    "isValid b'" "tag b' = ip_extractTag iv ?p ?a" "isSecure b' = ?s" "re_set b' = re_set b" "re_way b' = re_way b"
    "blk_data b' = blk_data b" by blast
  from reset_ok [OF ri es(3) b(1), of env] obtain rp where
    rp: "rp_reset rv env (replacementPolicy T) e = Inr rp" "rp_inv rp" "rp_cands rp = rp_cands (replacementPolicy T)"
    by (auto elim: succeedsE)
  obtain T' where T': "insertBlock iv rv maxMasters env T pkt e = Inr T'" "indexingPolicy T' = ?p"
    "blks T' = (blks T)(e \<mapsto> b')" "replacementPolicy T' = rp" "tagsInUse (stats T') = tagsInUse (stats T) + 1"
    using b(2) nv assms(6) b'(1) rp(1) by (simp add: insertBlock_def base_insertBlock_def blk_get_live Let_def)
  have new: "resident iv T' a sec e \<longleftrightarrow> block_of ?p a = block_of ?p ?a \<and> sec = ?s" for a sec
  proof
    assume "resident iv T' a sec e"
    then obtain ds where "ip_getPossibleEntries iv ?p a = Inr ds" "Some e \<in> set ds"
      "ip_extractTag iv ?p a = ip_extractTag iv ?p ?a" "sec = ?s"
      using b' by (auto simp: resident_def T'(2,3))
    then show "block_of ?p a = block_of ?p ?a \<and> sec = ?s"
      using tag_identifies_block [OF wf _ cs(1) _ cs(2)] by blast
  next
    assume a: "block_of ?p a = block_of ?p ?a \<and> sec = ?s"
    then have "ip_getPossibleEntries iv ?p a = Inr cs" "ip_extractTag iv ?p a = ip_extractTag iv ?p ?a"
      using same_block_same_place [OF wf, of a ?a] cs(1) by auto
    then show "resident iv T' a sec e" using a b' cs(2) by (auto simp: resident_def T'(2,3))
  qed
  have old: "resident iv T' a sec x \<longleftrightarrow> resident iv T a sec x" if "x \<noteq> e" for a sec x
    using that by (simp add: resident_def T'(2,3))
  have none: "\<not> resident iv T a sec x" if "block_of ?p a = block_of ?p ?a \<and> sec = ?s" for a sec x
  proof -
    have "resident iv T a sec x = resident iv T ?a ?s x"
      using same_block_same_place [OF wf, of a ?a] that by (simp add: resident_def)
    then show ?thesis using miss abs_resident [OF inv, of ?a ?s] by simp
  qed
  have ne: "\<not> resident iv T a sec e" for a sec using b(2) nv by (auto simp: resident_def)
  have i: "tags_inv ip_wf iv rp_inv rp_cands T'"
  proof (rule tags_inv_update [OF inv b(2), where b' = b'])
    show "\<exists>a sec. resident iv T' a sec e" using new by blast
    show "\<not> resident iv T a sec x" if "resident iv T' a sec e" for a sec x using that new none by blast
  qed (use T' rp b' nv in auto)
  have "tag_abs iv T' a sec = (if block_of ?p a = block_of ?p ?a \<and> sec = ?s then Some e else tag_abs iv T a sec)" for a sec
    using abs_resident [OF inv, of a sec] new none ne old by (intro abs_eqI [OF i]) (metis option.inject)
  with i T'(1,2,3) b' b(2) show ?thesis by (auto simp: valid_entries_def data_ok_def)
qed

end

subsection \<open>Initialisation\<close>

text \<open>The state of \<open>tagsInit\<close> after \<open>k\<close> rounds: block \<open>i\<close> is at row \<open>i div assoc\<close>, way \<open>i mod assoc\<close>.\<close>

definition placed :: "'x BaseIndexingPolicy_scheme \<Rightarrow> (entry_id \<rightharpoonup> CacheBlk) \<Rightarrow> nat \<Rightarrow> bool" where
  "placed p h i \<longleftrightarrow> (let a = unat (ip_assoc p) in
     \<exists>b. ip_sets p ! (i div a) ! (i mod a) = Some i \<and> h i = Some b \<and> unat (getSet b) = i div a \<and> unat (getWay b) = i mod a)"

definition init_upto :: "('x BaseIndexingPolicy_scheme \<Rightarrow> bool) \<Rightarrow> ('s \<Rightarrow> bool) \<Rightarrow> ('s \<Rightarrow> entry_id set) \<Rightarrow> nat \<Rightarrow> nat \<Rightarrow>
    ('x, 's) BaseSetAssoc \<Rightarrow> bool" where
  "init_upto ip_side rp_inv rp_live n k T \<longleftrightarrow> idx_geo (indexingPolicy T) n \<and> ip_side (indexingPolicy T) \<and>
     rp_inv (replacementPolicy T) \<and> unat (numBlocks T) = 2 ^ n * unat (ip_assoc (indexingPolicy T)) \<and> tagsInUse (stats T) = 0 \<and>
     dom (blks T) = {..<unat (numBlocks T)} \<and> (\<forall>e b. blks T e = Some b \<longrightarrow> status b = 0) \<and>
     {..<k} \<subseteq> rp_live (replacementPolicy T) \<and> (\<forall>i < k. placed (indexingPolicy T) (blks T) i) \<and>
     (\<forall>i < k. \<forall>b. blks T i = Some b \<longrightarrow> blk_data b \<noteq> None)"

lemma placed_setEntry:
  assumes "idx_geo p n" and "i < 2 ^ n * unat (ip_assoc p)" and "h i = Some x" and "setEntry p h i (of_nat i) = Inr (p', h')"
    and "2 ^ n * unat (ip_assoc p) < 2 ^ 32"
  shows "idx_geo p' n" and "\<exists>ss. p' = p\<lparr>ip_sets := ss\<rparr>" and "placed p' h' i" and "dom h' = dom h"
    and "j < i \<Longrightarrow> placed p h j \<Longrightarrow> placed p' h' j" and "\<exists>s w. h' = h(i \<mapsto> setPosition s w x)"
proof -
  let ?a = "unat (ip_assoc p)"
  have i: "unat (of_nat i :: u64) = i" using assms(2,5) by (simp add: unat_of_nat)
  from setEntry_ok [of p n "of_nat i" h i x, unfolded i] assms(1-3)
  have d: "i div ?a < 2 ^ n" "i mod ?a < ?a" and
    r: "setEntry p h i (of_nat i) = Inr (p\<lparr>ip_sets := (ip_sets p)[i div ?a := (ip_sets p ! (i div ?a))[i mod ?a := Some i]]\<rparr>,
        h(i \<mapsto> setPosition (of_nat (i div ?a)) (of_nat (i mod ?a)) x))" by auto
  have p': "p' = p\<lparr>ip_sets := (ip_sets p)[i div ?a := (ip_sets p ! (i div ?a))[i mod ?a := Some i]]\<rparr>"
    and h': "h' = h(i \<mapsto> setPosition (of_nat (i div ?a)) (of_nat (i mod ?a)) x)" using r assms(4) by auto
  have l: "length (ip_sets p) = 2 ^ n" "\<forall>s < 2 ^ n. length (ip_sets p ! s) = ?a" using assms(1) by (auto simp: idx_geo_def)
  have "i div ?a < 2 ^ 32" "i mod ?a < 2 ^ 32"
    using assms(2,5) div_le_dividend [of i ?a] mod_less_eq_dividend [of i ?a] by linarith+
  then have u: "unat (of_nat (i div ?a) :: u32) = i div ?a" "unat (of_nat (i mod ?a) :: u32) = i mod ?a"
    by (simp_all add: unat_of_nat)
  show "idx_geo p' n" using assms(1) d(1) by (auto simp: idx_geo_def p' nth_list_update)
  show "\<exists>ss. p' = p\<lparr>ip_sets := ss\<rparr>" using p' by blast
  show "\<exists>s w. h' = h(i \<mapsto> setPosition s w x)" using h' by blast
  show "dom h' = dom h" using assms(3) by (auto simp: h')
  show "placed p' h' i"
    using d l u by (simp add: placed_def p' h' Let_def setPosition_def getSet_def getWay_def)
  assume j: "j < i" "placed p h j"
  have ne: "\<not> (j div ?a = i div ?a \<and> j mod ?a = i mod ?a)" using j(1) by (metis div_mult_mod_eq nat_neq_iff)
  have "ip_sets p' ! (j div ?a) ! (j mod ?a) = ip_sets p ! (j div ?a) ! (j mod ?a)"
    using ne d l by (cases "j div ?a = i div ?a") (auto simp: p')
  then show "placed p' h' j" using j by (auto simp: placed_def p' h' Let_def)
qed

lemma placed_pop:
  assumes "idx_geo p n" and "\<forall>i < 2 ^ n * unat (ip_assoc p). placed p h i"
  shows "idx_pop p h"
  unfolding idx_pop_def
proof (intro allI impI)
  let ?a = "unat (ip_assoc p)"
  fix s w assume sw: "s < length (ip_sets p)" "w < ?a"
  have "s < 2 ^ n" using assms(1) sw(1) by (simp add: idx_geo_def)
  then have "s * ?a + ?a \<le> 2 ^ n * ?a" by (metis Suc_leI add.commute mult_Suc mult_le_mono1)
  then have "placed p h (s * ?a + w)" using assms(2) sw(2) by simp
  then show "\<exists>e x. ip_sets p ! s ! w = Some e \<and> h e = Some x \<and> unat (getSet x) = s \<and> unat (getWay x) = w"
    using sw(2) by (auto simp: placed_def Let_def)
qed

text \<open>
  What \<open>tagsInit\<close> needs in addition: a policy whose entries are usable once instantiated and numbered, and an
  indexing policy that is well formed once every position is filled.
\<close>

locale tag_store_init = tag_store +
  fixes rp_live :: "'b \<Rightarrow> entry_id set" and ip_side :: "'a BaseIndexingPolicy_scheme \<Rightarrow> bool"
  assumes cands_live: "rp_cands s cs \<longleftrightarrow> cs \<noteq> [] \<and> set cs \<subseteq> rp_live s"
    and instantiate_ok: "rp_inv s \<Longrightarrow> succeeds (rbind (rp_instantiateEntry rv s e) (\<lambda>s. rp_set_set_num rv s e sn))
          (\<lambda>s'. rp_inv s' \<and> rp_live s' = insert e (rp_live s))"
    and side_sets: "ip_side (p\<lparr>ip_sets := x\<rparr>) = ip_side p"
    and wf_intro: "idx_geo p n \<Longrightarrow> idx_pop p h \<Longrightarrow> ip_side p \<Longrightarrow> ip_wf p h"
begin

lemma init_step:
  assumes "init_upto ip_side rp_inv rp_live n k T" and "k < unat (numBlocks T)"
  shows "\<exists>T'. tags_init_loop rv (k # is) T = tags_init_loop rv is T' \<and> numBlocks T' = numBlocks T \<and>
           init_upto ip_side rp_inv rp_live n (Suc k) T'"
proof -
  let ?p = "indexingPolicy T" and ?h = "blks T"
  have geo: "idx_geo ?p n" and nb: "unat (numBlocks T) = 2 ^ n * unat (ip_assoc ?p)"
    and dm: "dom ?h = {..<unat (numBlocks T)}" and ri: "rp_inv (replacementPolicy T)"
    using assms(1) by (auto simp: init_upto_def)
  then obtain x where x: "?h k = Some x" using assms(2) by blast
  have k: "k < 2 ^ n * unat (ip_assoc ?p)" and lt: "2 ^ n * unat (ip_assoc ?p) < 2 ^ 32"
    using assms(2) nb unsigned_less [of "numBlocks T", where ?'a = nat] by auto
  have "unat (of_nat k :: u64) = k" using k lt by (simp add: unat_of_nat)
  then obtain p' h' where e: "setEntry ?p ?h k (of_nat k) = Inr (p', h')"
    using setEntry_ok [of ?p n "of_nat k" ?h k x] geo k x by auto
  note pl = placed_setEntry [OF geo k x e lt]
  obtain y where y: "h' k = Some y" "status y = status x" using pl(6) by (auto simp: setPosition_def)
  let ?y = "y\<lparr>blk_data := Some (unat (blkSize T * of_nat k))\<rparr>"
  from instantiate_ok [OF ri, of k "getSet ?y"] obtain rp0 rp where
    rp: "rp_instantiateEntry rv (replacementPolicy T) k = Inr rp0" "rp_set_set_num rv rp0 k (getSet ?y) = Inr rp"
      "rp_inv rp" "rp_live rp = insert k (rp_live (replacementPolicy T))"
    by (auto simp: succeeds_def rbind_eq_Inr split: sum.splits)
  let ?T = "T\<lparr>indexingPolicy := p', blks := h'(k \<mapsto> ?y), replacementPolicy := rp\<rparr>"
  have "placed p' (h'(k \<mapsto> ?y)) i" if "placed p' h' i" for i
    using that y(1) by (auto simp: placed_def Let_def getSet_def getWay_def)
  then have "\<forall>i < Suc k. placed p' (h'(k \<mapsto> ?y)) i"
    using pl(3,5) assms(1) by (auto simp: init_upto_def less_Suc_eq)
  moreover obtain ss where ss: "p' = ?p\<lparr>ip_sets := ss\<rparr>" using pl(2) by blast
  moreover have "\<forall>e b. (h'(k \<mapsto> ?y)) e = Some b \<longrightarrow> status b = 0"
    using assms(1) pl(6) y x by (auto simp: init_upto_def)
  moreover have "dom (h'(k \<mapsto> ?y)) = dom ?h" using pl(4) y(1) by auto
  moreover have "\<forall>i < Suc k. \<forall>b. (h'(k \<mapsto> ?y)) i = Some b \<longrightarrow> blk_data b \<noteq> None"
    using assms(1) pl(6) by (auto simp: init_upto_def less_Suc_eq)
  ultimately have "init_upto ip_side rp_inv rp_live n (Suc k) ?T"
    using assms(1) pl(1) rp(3,4) by (auto simp: init_upto_def side_sets lessThan_Suc)
  moreover have "tags_init_loop rv (k # is) T = tags_init_loop rv is ?T"
    using e y(1) rp by (simp add: Let_def getSet_def)
  ultimately show ?thesis by (intro exI [of _ ?T]) simp
qed

lemma init_loop:
  "init_upto ip_side rp_inv rp_live n k T \<Longrightarrow> k \<le> unat (numBlocks T) \<Longrightarrow>
   succeeds (tags_init_loop rv [k..<unat (numBlocks T)] T) (\<lambda>T'. init_upto ip_side rp_inv rp_live n (unat (numBlocks T)) T' \<and>
     numBlocks T' = numBlocks T)"
proof (induction "unat (numBlocks T) - k" arbitrary: k T)
  case (Suc d)
  then have lt: "k < unat (numBlocks T)" by simp
  from init_step [OF Suc.prems(1) lt, of "[Suc k..<unat (numBlocks T)]"] obtain T' where
    "tags_init_loop rv [k..<unat (numBlocks T)] T = tags_init_loop rv [Suc k..<unat (numBlocks T)] T'"
    "numBlocks T' = numBlocks T" "init_upto ip_side rp_inv rp_live n (Suc k) T'"
    by (metis upt_conv_Cons lt)
  then show ?case using Suc.hyps(1) [of T' "Suc k"] Suc.hyps(2) lt by simp
qed (simp)

lemma init_inv:
  assumes "init_upto ip_side rp_inv rp_live n (unat (numBlocks T)) T"
  shows "tags_inv ip_wf iv rp_inv rp_cands T \<and> data_ok T \<and> tag_abs iv T = (\<lambda>a sec. None)"
proof -
  let ?p = "indexingPolicy T"
  have g: "idx_geo ?p n" "ip_side ?p" "rp_inv (replacementPolicy T)" "unat (numBlocks T) = 2 ^ n * unat (ip_assoc ?p)"
    "dom (blks T) = {..<unat (numBlocks T)}" "{..<unat (numBlocks T)} \<subseteq> rp_live (replacementPolicy T)"
    "tagsInUse (stats T) = 0" "\<forall>e b. blks T e = Some b \<longrightarrow> status b = 0"
    using assms unfolding init_upto_def by blast+
  have "\<forall>i < 2 ^ n * unat (ip_assoc ?p). placed ?p (blks T) i" using assms g(4) by (simp add: init_upto_def)
  from wf_intro [OF g(1) placed_pop [OF g(1) this] g(2)] have wf: "ip_wf ?p (blks T)" .
  have c: "rp_cands (replacementPolicy T) es" if "ip_getPossibleEntries iv ?p a = Inr (map Some es)" for a es
  proof -
    from candidates_ok [OF wf, of a] ways_pos [OF wf] that
    have "set es \<subseteq> dom (blks T)" "es \<noteq> []" by auto
    then show ?thesis using g(5,6) by (auto simp: cands_live)
  qed
  have v: "\<not> isValid b" if "blks T e = Some b" for e b using g(8) that by (simp add: isValid_def)
  then have n: "\<not> resident iv T a sec e" for a sec e by (auto simp: resident_def)
  moreover have "valid_entries T = {}" using v by (auto simp: valid_entries_def)
  ultimately have i: "tags_inv ip_wf iv rp_inv rp_cands T"
    using wf g c by (auto simp: tags_inv_def)
  have "tag_abs iv T a sec = None" for a sec using n by (intro abs_eqI [OF i]) auto
  moreover have "data_ok T"
    unfolding data_ok_def using assms g(5) unfolding init_upto_def by (metis domI lessThan_iff)
  ultimately show ?thesis using i by (simp add: fun_eq_iff)
qed

end

subsection \<open>Set associative indexing with DRRIP\<close>

definition sa_vtable :: "unit ip_vtable" where
  "sa_vtable = \<lparr>ip_getPossibleEntries = sa_getPossibleEntries, ip_extractTag = extractTag,
                ip_regenerateAddr = sa_regenerateAddr\<rparr>"

lemma sa_position_only:
  assumes "sa_wf p h" and "h e = Some b" and "re_set b' = re_set b" and "re_way b' = re_way b"
  shows "sa_wf p (h(e \<mapsto> b'))"
proof -
  have "idx_pop p (h(e \<mapsto> b'))"
    unfolding idx_pop_def
  proof (intro allI impI)
    fix s w assume "s < length (ip_sets p)" "w < unat (ip_assoc p)"
    then obtain i x where "ip_sets p ! s ! w = Some i" "h i = Some x" "unat (getSet x) = s" "unat (getWay x) = w"
      using assms(1) unfolding sa_wf_def idx_pop_def by blast
    then show "\<exists>i x. ip_sets p ! s ! w = Some i \<and> (h(e \<mapsto> b')) i = Some x \<and> unat (getSet x) = s \<and> unat (getWay x) = w"
      using assms(2-4) by (cases "i = e") (auto simp: getSet_def getWay_def)
  qed
  then show ?thesis using assms(1) by (simp add: sa_wf_def)
qed

lemma drrip_instantiate:
  assumes "drrip_inv p st"
  shows "succeeds (rbind (rp_instantiateEntry (DRRIP p) st e) (\<lambda>s. rp_set_set_num (DRRIP p) s e n))
           (\<lambda>st'. drrip_inv p st' \<and> dom (drrip_data st') = insert e (dom (drrip_data st)))"
proof -
  have "numRRPVBits p \<le> 8" using assms by (simp add: drrip_inv_def drrip_params_ok_def)
  then obtain c where c: "SatCounter_new (numRRPVBits p) 0 = Inr c"
    by (simp add: SatCounter_new_def Let_def not_less)
  let ?d = "\<lparr>set_num = None, rrpv = c, brrip_valid = False\<rparr>"
  have run: "rbind (rp_instantiateEntry (DRRIP p) st e) (\<lambda>s. rp_set_set_num (DRRIP p) s e n) =
      Inr (st\<lparr>drrip_data := (drrip_data st)(e \<mapsto> ?d\<lparr>set_num := Some n\<rparr>)\<rparr>)"
    by (simp add: DRRIP_def BRRIP_def drrip_lift_def brrip_instantiateEntry_def BRRIPReplData_new_def c rd_upd_def rd_get_def Let_def)
  have "brrip_wf (numRRPVBits p) (?d\<lparr>set_num := Some n\<rparr>)"
    using SatCounter_new_wf [OF c] SatCounter_new_max [OF c] by (simp add: brrip_wf_def)
  then show ?thesis using assms unfolding run by (auto simp: drrip_inv_def store_all_upd)
qed

interpretation sa_drrip: tag_store_init sa_wf sa_vtable block_addr "\<lambda>p. unat (ip_assoc p)" "DRRIP q" "drrip_inv q"
  "\<lambda>st. store_cands (drrip_data st)" "\<lambda>st. dom (drrip_data st)" "\<lambda>p. tagShift p \<le> 32"
proof (intro tag_store_init.intro tag_store.intro)
  show "indexing_policy sa_wf (ip_getPossibleEntries sa_vtable) (ip_extractTag sa_vtable) (ip_regenerateAddr sa_vtable)
      block_addr (\<lambda>p. unat (ip_assoc p))"
    by (simp add: sa_vtable_def sa.indexing_policy_axioms)
  show "replacement_policy (DRRIP q) (drrip_inv q) (\<lambda>st. store_cands (drrip_data st))"
    by (rule drrip.replacement_policy_axioms)
  show "tag_store_axioms sa_wf" by unfold_locales (rule sa_position_only)
  show "tag_store_init_axioms sa_wf (DRRIP q) (drrip_inv q) (\<lambda>st. store_cands (drrip_data st))
      (\<lambda>st. dom (drrip_data st)) (\<lambda>p. tagShift p \<le> 32)"
    by unfold_locales (auto simp: store_cands_def sa_wf_def drrip_instantiate)
qed

subsection \<open>Properties\<close>

abbreviation drrip_tags_inv :: "DRRIPRP \<Rightarrow> (unit, drrip_state) BaseSetAssoc \<Rightarrow> bool" where
  "drrip_tags_inv q \<equiv> tags_inv sa_wf sa_vtable (drrip_inv q) (\<lambda>st. store_cands (drrip_data st))"

lemma BaseSetAssoc_new_fields:
  assumes "BaseSetAssoc_new bs sz assoc lat warm sq ip rp = Inr T"
  shows "indexingPolicy T = ip" "replacementPolicy T = rp" "tagsInUse (stats T) = 0" "dom (blks T) = {..<unat (numBlocks T)}"
    "blks T e = Some b \<Longrightarrow> status b = 0"
  using assms
  by (auto simp: BaseSetAssoc_new_def Let_def stats_init_def CacheBlk_new_def split: if_splits)

lemma drrip_init:
  assumes "BaseIndexingPolicy_new sz bs assoc = Inr ip" and "tagShift ip \<le> 32"
    and "DRRIPRP_new num_bits hit_priority bt dueling_sets psel_bits = Inr (q, rp)" and "drrip_params_ok q"
    and "BaseSetAssoc_new bs sz assoc lat warm sq ip rp = Inr T" and "numBlocks T = numSets ip * assoc"
    and "unat (numSets ip) * unat assoc < 2 ^ 32"
  shows "\<exists>T'. tagsInit (DRRIP q) T = Inr T' \<and> drrip_tags_inv q T' \<and> data_ok T' \<and>
           tag_abs sa_vtable T' = (\<lambda>a sec. None)"
proof -
  obtain n where n: "idx_geo ip n" using BaseIndexingPolicy_new_geo [OF assms(1)] by blast
  have a: "ip_assoc ip = assoc"
    using assms(1) by (auto simp: BaseIndexingPolicy_new_def Let_def rbind_eq_Inr split: if_splits)
  have rp: "PSELCounter rp = push_bit (numPSELCounterBits q - 1) 1" "drrip_data rp = Map.empty"
    using assms(3) by (auto simp: DRRIPRP_new_def rbind_eq_Inr split: if_splits)
  obtain k where k: "numPSELCounterBits q = Suc k" "k < 31"
    using assms(4) by (cases "numPSELCounterBits q") (auto simp: drrip_params_ok_def)
  then have "unat (PSELCounter rp) = 2 ^ k" using unat_2p [of k, where ?'a = 32] by (simp add: rp(1) push_bit_eq_mult)
  then have di: "drrip_inv q rp" using assms(4) rp(2) k by (simp add: drrip_inv_def store_all_def)
  note T = BaseSetAssoc_new_fields [OF assms(5)]
  have "unat (numBlocks T) = 2 ^ n * unat assoc"
    using n assms(7) by (simp add: assms(6) unat_word_ariths idx_geo_def)
  then have "init_upto (\<lambda>p. tagShift p \<le> 32) (drrip_inv q) (\<lambda>st. dom (drrip_data st)) n 0 T"
    using n assms(2) di T a by (auto simp: init_upto_def)
  from sa_drrip.init_loop [OF this] obtain T' where
    T': "tagsInit (DRRIP q) T = Inr T'"
      "init_upto (\<lambda>p. tagShift p \<le> 32) (drrip_inv q) (\<lambda>st. dom (drrip_data st)) n (unat (numBlocks T)) T'"
      "numBlocks T' = numBlocks T"
    by (auto simp: tagsInit_def elim: succeedsE)
  then have i: "drrip_tags_inv q T'" "data_ok T'" "tag_abs sa_vtable T' = (\<lambda>a sec. None)"
    using sa_drrip.init_inv [of q n T'] by simp_all
  then show ?thesis using T'(1) by blast
qed

text \<open>
  C28 Take a configuration that the constructors of the indexing policy, of DRRIP and of the tag store accept,
  whose number of blocks is the number of sets times the associativity (the size is a multiple of a set; the
  constructors do not check it), which has fewer than \<open>2^32\<close> blocks, the tag at bit 32 or below, and
  DRRIP parameters in range (1 to 8 RRPV bits, 1 to 31 selector bits, some duelling sets). Then \<open>tagsInit\<close>
  returns and gives a cache that satisfies the invariant of the tag store and holds no block: no position is
  left null, no replacement datum lacks its set number, and every lookup misses.
\<close>

theorem drrip_cache_starts_empty:
  assumes "BaseIndexingPolicy_new sz bs assoc = Inr ip" and "tagShift ip \<le> 32"
    and "DRRIPRP_new num_bits hit_priority bt dueling_sets psel_bits = Inr (q, rp)" and "drrip_params_ok q"
    and "BaseSetAssoc_new bs sz assoc lat warm sq ip rp = Inr T" and "numBlocks T = numSets ip * assoc"
    and "unat (numSets ip) * unat assoc < 2 ^ 32"
  shows "\<exists>T'. tagsInit (DRRIP q) T = Inr T' \<and> drrip_tags_inv q T' \<and> data_ok T' \<and>
           (\<forall>a sec. findBlock sa_vtable T' a sec = Inr None)"
proof -
  from drrip_init [OF assms] obtain T' where
    "tagsInit (DRRIP q) T = Inr T'" "drrip_tags_inv q T'" "data_ok T'" "tag_abs sa_vtable T' = (\<lambda>a sec. None)" by blast
  then show ?thesis using sa_drrip.findBlock_abs by auto
qed

text \<open>A direct mapped cache of four blocks of 64 bytes under DRRIP.\<close>

definition example_ip :: BaseIndexingPolicy where
  "example_ip = \<lparr>ip_assoc = 1, numSets = 4, setShift = 6, setMask = 3, ip_sets = [[None], [None], [None], [None]], tagShift = 8\<rparr>"

definition example_q :: DRRIPRP where
  "example_q = \<lparr>numRRPVBits = 2, hitPriority = False, btp = 3, numSetDuelingSets = 32, numPSELCounterBits = 10\<rparr>"

definition example_rp :: drrip_state where
  "example_rp = \<lparr>PSELCounter = 512, drrip_data = Map.empty\<rparr>"

definition example_T :: "(unit, drrip_state) BaseSetAssoc" where
  "example_T = (case BaseSetAssoc_new 64 256 1 2 0 False example_ip example_rp of Inr T \<Rightarrow> T)"

lemma example_new:
  "BaseIndexingPolicy_new 256 64 1 = Inr example_ip"
  "DRRIPRP_new 2 False 3 32 10 = Inr (example_q, example_rp)"
  "BaseSetAssoc_new 64 256 1 2 0 False example_ip example_rp = Inr example_T"
  "numBlocks example_T = 4" "blkSize example_T = 64" "indexingPolicy example_T = example_ip"
proof -
  show "BaseIndexingPolicy_new 256 64 1 = Inr example_ip" by code_simp
  show "DRRIPRP_new 2 False 3 32 10 = Inr (example_q, example_rp)"
    by (simp add: DRRIPRP_new_def BRRIPRP_new_def example_q_def example_rp_def push_bit_eq_mult)
  have p: "isPowerOf2 64" by code_simp
  show "BaseSetAssoc_new 64 256 1 2 0 False example_ip example_rp = Inr example_T" "numBlocks example_T = 4"
    "blkSize example_T = 64" "indexingPolicy example_T = example_ip"
    by (simp_all add: example_T_def BaseSetAssoc_new_def Let_def p)
qed

lemma example_q_ok: "drrip_params_ok example_q"
  by (simp add: drrip_params_ok_def example_q_def)

theorem drrip_cache_starts_empty_witness:
  "\<exists>T'. tagsInit (DRRIP example_q) example_T = Inr T' \<and> drrip_tags_inv example_q T' \<and> data_ok T' \<and>
     (\<forall>a sec. findBlock sa_vtable T' a sec = Inr None)"
  using drrip_cache_starts_empty [OF example_new(1) _ example_new(2) example_q_ok example_new(3)]
  by (simp add: example_new(4)) (simp add: example_ip_def)

end
