(* ===== verification/CacheAlloc.thy ===== *)
theory CacheAlloc
  imports Tags
begin

text \<open>
  Allocation and eviction in the classic cache (\<open>mem/cache/base.cc\<close>, \<open>mem/cache/cache.cc\<close>), without a
  compressor: the victim found by the tag store is written back or announced as a clean eviction, then
  invalidated, then the new block is inserted in its place. The MSHR queue is consulted through its
  \<open>findMatch\<close>, a parameter that returns what the code asks of the match. The lemmas show that an allocation binds
  the new block, loses no dirty data and disturbs no other binding.
\<close>

subsection \<open>State\<close>

datatype wb_cmd = WritebackDirty | WritebackClean | CleanEvict | WriteClean

record WbPacket =
  wb_command :: wb_cmd
  wb_addr :: Addr
  wb_secure :: bool
  wb_taskId :: u32
  wb_hasSharers :: bool
  wb_data :: "u8 list"

record cache_cfg =
  writebackClean :: bool
  isReadOnly :: bool
  maxMasters :: nat

datatype blk_ref = TagBlk entry_id | TempBlk

record ('x, 's) Cache =
  tags :: "('x, 's) BaseSetAssoc"
  tempBlock :: TempCacheBlk
  tagData :: "nat \<Rightarrow> u8"
  tempData :: "nat \<Rightarrow> u8"
  unusedPrefetches :: nat
  replacements :: nat
  writebacks :: nat

definition cache_blk :: "('x, 's) Cache \<Rightarrow> blk_ref \<Rightarrow> CacheBlk res" where
  "cache_blk C r = (case r of TagBlk e \<Rightarrow> blk_get (tags C) e | TempBlk \<Rightarrow> Inr (CacheBlk.CacheBlk.truncate (tempBlock C)))"

text \<open>The \<open>blkSize\<close> bytes at \<open>blk->data\<close>, in the data array of the tags or of the temporary block.\<close>

definition blk_bytes :: "('x, 's) Cache \<Rightarrow> blk_ref \<Rightarrow> CacheBlk \<Rightarrow> u8 list res" where
  "blk_bytes C r blk =
     (case blk_data blk of
        None \<Rightarrow> Inl NullDeref
      | Some off \<Rightarrow> Inr (map (case r of TagBlk e \<Rightarrow> tagData C | TempBlk \<Rightarrow> tempData C) [off..<off + unat (blkSize (tags C))]))"

subsection \<open>Operations\<close>

definition cache_regenerateBlkAddr :: "'x ip_vtable \<Rightarrow> ('x, 's) Cache \<Rightarrow> blk_ref \<Rightarrow> Addr res" where
  "cache_regenerateBlkAddr iv C blk =
     (case blk of TagBlk e \<Rightarrow> regenerateBlkAddr iv (tags C) e | TempBlk \<Rightarrow> Inr (temp_getAddr (tempBlock C)))"

definition cleanEvictBlk :: "cache_cfg \<Rightarrow> 'x ip_vtable \<Rightarrow> ('x, 's) Cache \<Rightarrow> blk_ref \<Rightarrow> WbPacket res" where
  "cleanEvictBlk cfg iv C r =
     (if writebackClean cfg then Inl AssertFailed
      else rbind (cache_blk C r) (\<lambda>blk.
        if \<not> (isValid blk \<and> \<not> isDirty blk) then Inl AssertFailed
        else rbind (cache_regenerateBlkAddr iv C r) (\<lambda>addr.
          Inr \<lparr>wb_command = CleanEvict, wb_addr = addr, wb_secure = isSecure blk, wb_taskId = task_id blk,
               wb_hasSharers = False, wb_data = []\<rparr>)))"

definition set_status :: "u32 \<Rightarrow> ('x, 's) Cache \<Rightarrow> blk_ref \<Rightarrow> ('x, 's) Cache" where
  "set_status st C r =
     (case r of
        TagBlk e \<Rightarrow> C\<lparr>tags := (tags C)\<lparr>blks := (blks (tags C))(e := map_option (\<lambda>b. b\<lparr>status := st\<rparr>) (blks (tags C) e))\<rparr>\<rparr>
      | TempBlk \<Rightarrow> C\<lparr>tempBlock := (tempBlock C)\<lparr>status := st\<rparr>\<rparr>)"

text \<open>The status a block keeps once its data is on its way: neither writable nor dirty.\<close>

definition wb_status :: "CacheBlk \<Rightarrow> u32" where
  "wb_status blk = (let st = (if isWritable blk then status blk AND NOT BlkWritable else status blk) in st AND NOT BlkDirty)"

definition writebackBlk :: "cache_cfg \<Rightarrow> 'x ip_vtable \<Rightarrow> ('x, 's) Cache \<Rightarrow> blk_ref \<Rightarrow> (WbPacket \<times> ('x, 's) Cache) res" where
  "writebackBlk cfg iv C r =
     (if \<not> (\<not> isReadOnly cfg \<or> writebackClean cfg) then Inl AssertFailed
      else rbind (cache_blk C r) (\<lambda>blk.
        if \<not> (isValid blk \<and> (isDirty blk \<or> writebackClean cfg)) then Inl AssertFailed
        else rbind (cache_regenerateBlkAddr iv C r) (\<lambda>addr.
          rbind (blk_bytes C r blk) (\<lambda>bytes.
            let C = C\<lparr>writebacks := writebacks C + 1\<rparr>;
                pkt = \<lparr>wb_command = (if isDirty blk then WritebackDirty else WritebackClean), wb_addr = addr,
                       wb_secure = isSecure blk, wb_taskId = task_id blk, wb_hasSharers = \<not> isWritable blk,
                       wb_data = bytes\<rparr>
            in Inr (pkt, set_status (wb_status blk) C r)))))"

text \<open>The destination flags and the packet id of \<open>writecleanBlk\<close> only mark the packet; they are left out.\<close>

definition writecleanBlk :: "'x ip_vtable \<Rightarrow> ('x, 's) Cache \<Rightarrow> blk_ref \<Rightarrow> (WbPacket \<times> ('x, 's) Cache) res" where
  "writecleanBlk iv C r =
     rbind (cache_regenerateBlkAddr iv C r) (\<lambda>addr.
     rbind (cache_blk C r) (\<lambda>blk.
     rbind (blk_bytes C r blk) (\<lambda>bytes.
       let pkt = \<lparr>wb_command = WriteClean, wb_addr = addr, wb_secure = isSecure blk, wb_taskId = task_id blk,
                  wb_hasSharers = \<not> isWritable blk, wb_data = bytes\<rparr>
       in Inr (pkt, set_status (wb_status blk) C r))))"

definition cache_isDirty :: "('x, 's) Cache \<Rightarrow> bool" where
  "cache_isDirty C = anyBlk isDirty (tags C)"

definition invalidateBlock :: "'s rp_vtable \<Rightarrow> rp_env \<Rightarrow> ('x, 's) Cache \<Rightarrow> blk_ref \<Rightarrow> ('x, 's) Cache res" where
  "invalidateBlock rv env C r =
     rbind (cache_blk C r) (\<lambda>blk.
       let C = (if wasPrefetched blk then C\<lparr>unusedPrefetches := unusedPrefetches C + 1\<rparr> else C)
       in case r of
            TagBlk e \<Rightarrow> rbind (tags_invalidate rv env (tags C) e) (\<lambda>T. Inr (C\<lparr>tags := T\<rparr>))
          | TempBlk \<Rightarrow> Inr (C\<lparr>tempBlock := temp_invalidate (tempBlock C)\<rparr>))"

definition evictBlock :: "cache_cfg \<Rightarrow> 'x ip_vtable \<Rightarrow> 's rp_vtable \<Rightarrow> rp_env \<Rightarrow> ('x, 's) Cache \<Rightarrow> blk_ref \<Rightarrow>
    (WbPacket \<times> ('x, 's) Cache) res" where
  "evictBlock cfg iv rv env C r =
     rbind (cache_blk C r) (\<lambda>blk.
     rbind (if isDirty blk \<or> writebackClean cfg then writebackBlk cfg iv C r
            else rbind (cleanEvictBlk cfg iv C r) (\<lambda>pkt. Inr (pkt, C))) (\<lambda>(pkt, C).
     rbind (invalidateBlock rv env C r) (\<lambda>C. Inr (pkt, C))))"

text \<open>
  The first loop of \<open>handleEvictions\<close>: whether some valid block is replaced, or an outstanding request
  forbids it. \<open>findMatch\<close> gives \<open>(needsWritable, isCleaning)\<close> of a matching MSHR, or fails.
\<close>

type_synonym mshr_query = "Addr \<Rightarrow> bool \<Rightarrow> (bool \<times> bool) option res"

datatype evict_check = Proceed bool | Refuse

fun check_evictions :: "'x ip_vtable \<Rightarrow> mshr_query \<Rightarrow> ('x, 's) Cache \<Rightarrow> bool \<Rightarrow> entry_id list \<Rightarrow>
    evict_check res" where
  "check_evictions iv findMatch C replacement [] = Inr (Proceed replacement)"
| "check_evictions iv findMatch C replacement (e # es) =
     rbind (blk_get (tags C) e) (\<lambda>blk.
       if isValid blk then
         rbind (cache_regenerateBlkAddr iv C (TagBlk e)) (\<lambda>addr.
         rbind (findMatch addr (isSecure blk)) (\<lambda>mshr.
           case mshr of
             None \<Rightarrow> check_evictions iv findMatch C True es
           | Some (needsWritable, isCleaning) \<Rightarrow>
               if (\<not> isWritable blk \<and> needsWritable) \<or> isCleaning then Inr Refuse else Inl AssertFailed))
       else check_evictions iv findMatch C replacement es)"

fun evict_all :: "cache_cfg \<Rightarrow> 'x ip_vtable \<Rightarrow> 's rp_vtable \<Rightarrow> rp_env \<Rightarrow> ('x, 's) Cache \<Rightarrow> WbPacket list \<Rightarrow> entry_id list \<Rightarrow>
    (WbPacket list \<times> ('x, 's) Cache) res" where
  "evict_all cfg iv rv env C wbs [] = Inr (wbs, C)"
| "evict_all cfg iv rv env C wbs (e # es) =
     rbind (blk_get (tags C) e) (\<lambda>blk.
       if isValid blk then
         rbind (evictBlock cfg iv rv env C (TagBlk e)) (\<lambda>(pkt, C). evict_all cfg iv rv env C (wbs @ [pkt]) es)
       else evict_all cfg iv rv env C wbs es)"

definition handleEvictions :: "cache_cfg \<Rightarrow> 'x ip_vtable \<Rightarrow> 's rp_vtable \<Rightarrow> mshr_query \<Rightarrow> rp_env \<Rightarrow>
    ('x, 's) Cache \<Rightarrow> entry_id list \<Rightarrow> (bool \<times> WbPacket list \<times> ('x, 's) Cache) res" where
  "handleEvictions cfg iv rv findMatch env C evict_blks =
     rbind (check_evictions iv findMatch C False evict_blks) (\<lambda>r.
       case r of
         Refuse \<Rightarrow> Inr (False, [], C)
       | Proceed replacement \<Rightarrow>
           if replacement then
             rbind (evict_all cfg iv rv env (C\<lparr>replacements := replacements C + 1\<rparr>) [] evict_blks) (\<lambda>(wbs, C). Inr (True, wbs, C))
           else Inr (True, [], C))"

definition allocateBlock :: "cache_cfg \<Rightarrow> 'x ip_vtable \<Rightarrow> 's rp_vtable \<Rightarrow> mshr_query \<Rightarrow> rp_env \<Rightarrow>
    ('x, 's) Cache \<Rightarrow> Packet \<Rightarrow> (entry_id option \<times> WbPacket list \<times> ('x, 's) Cache) res" where
  "allocateBlock cfg iv rv findMatch env C pkt =
     rbind (findVictim iv rv env (tags C) (pkt_addr pkt)) (\<lambda>(victim, evict_blks, T).
     let C = C\<lparr>tags := T\<rparr> in
     rbind (handleEvictions cfg iv rv findMatch env C evict_blks) (\<lambda>(ok, wbs, C).
       if \<not> ok then Inr (None, wbs, C)
       else rbind (insertBlock iv rv (maxMasters cfg) env (tags C) pkt victim) (\<lambda>T.
              Inr (Some victim, wbs, C\<lparr>tags := T\<rparr>))))"

subsection \<open>Evicting one block\<close>

lemma wb_status_keeps:
  "isValid (b\<lparr>status := wb_status b\<rparr>) = isValid b" "isSecure (b\<lparr>status := wb_status b\<rparr>) = isSecure b"
  "\<not> isDirty (b\<lparr>status := wb_status b\<rparr>)" "\<not> isWritable (b\<lparr>status := wb_status b\<rparr>)"
proof -
  have d: "(BlkValid AND NOT BlkDirty) = BlkValid" "(BlkValid AND NOT BlkWritable) = BlkValid"
    "(BlkSecure AND NOT BlkDirty) = BlkSecure" "(BlkSecure AND NOT BlkWritable) = BlkSecure" by (simp_all add: blk_bits)
  have k: "(s AND NOT BlkDirty) AND BlkValid = s AND BlkValid" "(s AND NOT BlkWritable) AND BlkValid = s AND BlkValid"
    "(s AND NOT BlkDirty) AND BlkSecure = s AND BlkSecure" "(s AND NOT BlkWritable) AND BlkSecure = s AND BlkSecure" for s
    using d by (simp_all add: and.assoc) (simp_all add: and.commute)
  show "isValid (b\<lparr>status := wb_status b\<rparr>) = isValid b" "isSecure (b\<lparr>status := wb_status b\<rparr>) = isSecure b"
    by (simp_all add: isValid_def isSecure_def wb_status_def Let_def k)
  show "\<not> isDirty (b\<lparr>status := wb_status b\<rparr>)" by (simp add: isDirty_def wb_status_def Let_def and.assoc)
  have w: "(BlkWritable OR BlkValid) AND NOT BlkDirty = BlkWritable OR BlkValid" by (simp add: blk_bits)
  have nd: "(s AND NOT BlkDirty) AND (BlkWritable OR BlkValid) = s AND (BlkWritable OR BlkValid)" for s
    using w by (simp only: and.assoc and.commute [of "NOT BlkDirty"])
  have nw: "(s AND NOT BlkWritable) AND (BlkWritable OR BlkValid) \<noteq> BlkWritable OR BlkValid" for s
  proof
    assume "(s AND NOT BlkWritable) AND (BlkWritable OR BlkValid) = BlkWritable OR BlkValid"
    then have "bit ((s AND NOT BlkWritable) AND (BlkWritable OR BlkValid)) 1 = bit (BlkWritable OR BlkValid) 1" by simp
    then show False by (simp add: bit_and_iff bit_not_iff blk_bits)
  qed
  show "\<not> isWritable (b\<lparr>status := wb_status b\<rparr>)"
    using nd nw by (simp add: isWritable_def wb_status_def Let_def)
qed

text \<open>A packet that announces the eviction of an entry: its address, its security space and, when dirty, its data.\<close>

definition announces :: "'x ip_vtable \<Rightarrow> ('x, 's) Cache \<Rightarrow> entry_id \<Rightarrow> WbPacket \<Rightarrow> bool" where
  "announces iv C e p \<longleftrightarrow> (\<exists>b. blks (tags C) e = Some b \<and> regenerateBlkAddr iv (tags C) e = Inr (wb_addr p) \<and>
     wb_secure p = isSecure b \<and> (isDirty b \<longrightarrow> wb_command p = WritebackDirty \<and> blk_bytes C (TagBlk e) b = Inr (wb_data p)))"

text \<open>
  The errors \<open>handleEvictions\<close> may end with, on account of the resident block \<open>e\<close> of an address: the
  search for a register fails, or it finds one that serves neither an upgrade of the block nor a clean
  request, against the assertion.
\<close>

definition mshr_clash :: "mshr_query \<Rightarrow> Addr \<Rightarrow> bool \<Rightarrow> CacheBlk \<Rightarrow> sim_error \<Rightarrow> bool" where
  "mshr_clash findMatch addr sec b err \<longleftrightarrow> findMatch addr sec = Inl err \<or>
     (\<exists>nw cl. findMatch addr sec = Inr (Some (nw, cl)) \<and> \<not> ((\<not> isWritable b \<and> nw) \<or> cl) \<and> err = AssertFailed)"

definition evict_clash :: "'x ip_vtable \<Rightarrow> ('x BaseIndexingPolicy_scheme \<Rightarrow> Addr \<Rightarrow> Addr) \<Rightarrow> mshr_query \<Rightarrow>
    ('x, 's) BaseSetAssoc \<Rightarrow> sim_error \<Rightarrow> bool" where
  "evict_clash iv block_of findMatch T err \<longleftrightarrow> (\<exists>a sec e b. tag_abs iv T a sec = Some e \<and> blks T e = Some b \<and>
     mshr_clash findMatch (block_of (indexingPolicy T) a) sec b err)"

lemma cache_blk_tag: "cache_blk C (TagBlk e) = blk_get (tags C) e"
  by (simp add: cache_blk_def)

context tag_store
begin

text \<open>A status change that keeps a block valid and in its security space is invisible to lookups.\<close>

lemma status_frame:
  assumes inv: "tags_inv ip_wf iv rp_inv rp_cands T" and e: "blks T e = Some b" "isValid b"
    and st: "isValid (b\<lparr>status := st\<rparr>)" "isSecure (b\<lparr>status := st\<rparr>) = isSecure b"
  defines "T' \<equiv> T\<lparr>blks := (blks T)(e \<mapsto> b\<lparr>status := st\<rparr>)\<rparr>"
  shows "tags_inv ip_wf iv rp_inv rp_cands T'" and "tag_abs iv T' = tag_abs iv T" and "valid_entries T' = valid_entries T"
proof -
  have same: "resident iv T' = resident iv T"
    using e st by (auto simp: resident_def fun_eq_iff T'_def)
  have "e \<in> valid_entries T" using e by (auto simp: valid_entries_def)
  then have ex: "\<exists>a sec. resident iv T a sec e" using inv unfolding tags_inv_def by blast
  have uniq: "\<And>a sec e'. resident iv T a sec e \<Longrightarrow> resident iv T a sec e' \<Longrightarrow> e = e'"
    using inv unfolding tags_inv_def by blast
  show i: "tags_inv ip_wf iv rp_inv rp_cands T'"
    by (rule tags_inv_update [OF inv e(1), where b' = "b\<lparr>status := st\<rparr>"])
      (use e st same ex uniq inv in \<open>auto simp: T'_def tags_inv_def\<close>)
  show "tag_abs iv T' = tag_abs iv T"
    using abs_resident [OF inv] same by (intro ext abs_eqI [OF i]) auto
  show "valid_entries T' = valid_entries T" using e st(1) by (auto simp: valid_entries_def T'_def)
qed

text \<open>The address regenerated for a resident entry is that of its block.\<close>

lemma regenerate_resident:
  assumes inv: "tags_inv ip_wf iv rp_inv rp_cands T" and "tag_abs iv T a sec = Some e"
  shows "regenerateBlkAddr iv T e = Inr (block_of (indexingPolicy T) a)"
    and "blks T e = Some b \<Longrightarrow> isSecure b = sec"
proof -
  have "resident iv T a sec e" using assms abs_resident by simp
  then obtain cs x where x: "ip_getPossibleEntries iv (indexingPolicy T) a = Inr cs" "Some e \<in> set cs" "blks T e = Some x"
    "tag x = ip_extractTag iv (indexingPolicy T) a" "isSecure x = sec" by (auto simp: resident_def)
  have "ip_wf (indexingPolicy T) (blks T)" using inv by (simp add: tags_inv_def)
  from regenerate_ok [OF this x(1,2,3)] x(3,4)
  show "regenerateBlkAddr iv T e = Inr (block_of (indexingPolicy T) a)" by (simp add: regenerateBlkAddr_def blk_get_def)
  show "blks T e = Some b \<Longrightarrow> isSecure b = sec" using x by simp
qed

lemma invalidateBlock_ok:
  assumes inv: "tags_inv ip_wf iv rp_inv rp_cands (tags C)" and e: "e \<in> valid_entries (tags C)" and d: "data_ok (tags C)"
  shows "succeeds (invalidateBlock rv env C (TagBlk e)) (\<lambda>C'. tags_inv ip_wf iv rp_inv rp_cands (tags C') \<and>
     (\<forall>a sec. tag_abs iv (tags C') a sec = (if tag_abs iv (tags C) a sec = Some e then None else tag_abs iv (tags C) a sec)) \<and>
     indexingPolicy (tags C') = indexingPolicy (tags C) \<and> valid_entries (tags C') = valid_entries (tags C) - {e} \<and>
     (\<forall>x. x \<noteq> e \<longrightarrow> blks (tags C') x = blks (tags C) x) \<and> data_ok (tags C'))"
proof -
  obtain b where b: "blks (tags C) e = Some b" using e by (auto simp: valid_entries_def)
  from tags_invalidate_ok [OF inv e, of env] obtain T where
    T: "tags_invalidate rv env (tags C) e = Inr T" "tags_inv ip_wf iv rp_inv rp_cands T"
    "\<forall>a sec. tag_abs iv T a sec = (if tag_abs iv (tags C) a sec = Some e then None else tag_abs iv (tags C) a sec)"
    "indexingPolicy T = indexingPolicy (tags C)" "blks T = (blks (tags C))(e := map_option blk_invalidate (blks (tags C) e))"
    "valid_entries T = valid_entries (tags C) - {e}"
    by (auto elim: succeedsE)
  have "data_ok T" using d b by (auto simp: data_ok_def T(5))
  then show ?thesis
    using T b by (cases "wasPrefetched b") (simp_all add: invalidateBlock_def cache_blk_tag blk_get_def Let_def)
qed

lemma evictBlock_ok:
  assumes inv: "tags_inv ip_wf iv rp_inv rp_cands (tags C)" and e: "e \<in> valid_entries (tags C)" and d: "data_ok (tags C)"
    and cfg: "\<not> isReadOnly cfg \<or> writebackClean cfg"
  shows "succeeds (evictBlock cfg iv rv env C (TagBlk e)) (\<lambda>(p, C'). announces iv C e p \<and>
     tags_inv ip_wf iv rp_inv rp_cands (tags C') \<and>
     (\<forall>a sec. tag_abs iv (tags C') a sec = (if tag_abs iv (tags C) a sec = Some e then None else tag_abs iv (tags C) a sec)) \<and>
     indexingPolicy (tags C') = indexingPolicy (tags C) \<and> valid_entries (tags C') = valid_entries (tags C) - {e} \<and>
     (\<forall>x. x \<noteq> e \<longrightarrow> blks (tags C') x = blks (tags C) x) \<and> data_ok (tags C'))"
proof -
  obtain b where b: "blks (tags C) e = Some b" "isValid b" using e by (auto simp: valid_entries_def)
  then obtain off where off: "blk_data b = Some off" using d by (auto simp: data_ok_def)
  obtain addr where addr: "regenerateBlkAddr iv (tags C) e = Inr addr" by (simp add: regenerateBlkAddr_def blk_get_def b(1))
  let ?st = "wb_status b"
  define C1 where "C1 = set_status (wb_status b) (C\<lparr>writebacks := writebacks C + 1\<rparr>) (TagBlk e)"
  have t: "tags C1 = (tags C)\<lparr>blks := (blks (tags C))(e \<mapsto> b\<lparr>status := ?st\<rparr>)\<rparr>" by (simp add: C1_def set_status_def b(1))
  have st: "isValid (b\<lparr>status := ?st\<rparr>)" "isSecure (b\<lparr>status := ?st\<rparr>) = isSecure b" using wb_status_keeps [of b] b(2) by auto
  note fr = status_frame [OF inv b st, folded t]
  have d': "data_ok (tags C1)" using d b(1) by (auto simp: data_ok_def t)
  show ?thesis
  proof (cases "isDirty b \<or> writebackClean cfg")
    case True
    then obtain p where p: "writebackBlk cfg iv C (TagBlk e) = Inr (p, C1)" "announces iv C e p"
      using b off addr cfg
      by (simp add: writebackBlk_def cache_blk_tag blk_get_def cache_regenerateBlkAddr_def blk_bytes_def Let_def announces_def C1_def)
    from invalidateBlock_ok [OF fr(1) _ d', of e env] e fr(3) obtain C' where
      C': "invalidateBlock rv env C1 (TagBlk e) = Inr C'" "tags_inv ip_wf iv rp_inv rp_cands (tags C')"
      "\<forall>a sec. tag_abs iv (tags C') a sec = (if tag_abs iv (tags C1) a sec = Some e then None else tag_abs iv (tags C1) a sec)"
      "indexingPolicy (tags C') = indexingPolicy (tags C1)" "valid_entries (tags C') = valid_entries (tags C1) - {e}"
      "\<forall>x. x \<noteq> e \<longrightarrow> blks (tags C') x = blks (tags C1) x" "data_ok (tags C')"
      by (auto elim: succeedsE)
    have "evictBlock cfg iv rv env C (TagBlk e) = Inr (p, C')"
      using True b(1) p(1) C'(1) by (simp add: evictBlock_def cache_blk_tag blk_get_def)
    then show ?thesis using p(2) C'(2-7) by (simp add: fr(2,3)) (simp add: t)
  next
    case False
    let ?p = "\<lparr>wb_command = CleanEvict, wb_addr = addr, wb_secure = isSecure b, wb_taskId = task_id b,
        wb_hasSharers = False, wb_data = []\<rparr>"
    have p: "cleanEvictBlk cfg iv C (TagBlk e) = Inr ?p" "announces iv C e ?p"
      using False b addr
      by (simp_all add: cleanEvictBlk_def cache_blk_tag blk_get_def cache_regenerateBlkAddr_def announces_def)
    from invalidateBlock_ok [OF inv e d, of env] show ?thesis
      using False b(1) p by (auto simp: evictBlock_def cache_blk_tag blk_get_def elim!: succeedsE)
  qed
qed

text \<open>
  A whole allocation on a miss: it returns, or stops at the question that \<open>handleEvictions\<close> asks the queue
  of miss registers.
\<close>

lemma allocateBlock_ok:
  assumes inv: "tags_inv ip_wf iv rp_inv rp_cands (tags C)" and d: "data_ok (tags C)" and "env_ok env"
    and cfg: "\<not> isReadOnly cfg \<or> writebackClean cfg"
    and miss: "tag_abs iv (tags C) (pkt_addr pkt) (pkt_isSecure pkt) = None"
    and "unat (req_masterId (pkt_req pkt)) < maxMasters cfg"
  shows "case allocateBlock cfg iv rv findMatch env C pkt of Inl err \<Rightarrow> evict_clash iv block_of findMatch (tags C) err
   | Inr (r, wbs, C') \<Rightarrow>
     tags_inv ip_wf iv rp_inv rp_cands (tags C') \<and> data_ok (tags C') \<and> indexingPolicy (tags C') = indexingPolicy (tags C) \<and>
     (case r of
        None \<Rightarrow> wbs = [] \<and> tag_abs iv (tags C') = tag_abs iv (tags C) \<and> blks (tags C') = blks (tags C)
      | Some v \<Rightarrow>
          (\<forall>a sec. tag_abs iv (tags C') a sec =
             (if block_of (indexingPolicy (tags C)) a = block_of (indexingPolicy (tags C)) (pkt_addr pkt) \<and> sec = pkt_isSecure pkt
              then Some v else if tag_abs iv (tags C) a sec = Some v then None else tag_abs iv (tags C) a sec)) \<and>
          (\<forall>x. x \<noteq> v \<longrightarrow> blks (tags C') x = blks (tags C) x) \<and>
          (if v \<in> valid_entries (tags C) then \<exists>p. wbs = [p] \<and> announces iv C v p else wbs = []))"
proof -
  let ?a = "pkt_addr pkt" and ?T = "tags C" and ?s = "pkt_isSecure pkt"
  from findVictim_ok [OF inv assms(3), of ?a] obtain v T cs where
    v: "findVictim iv rv env ?T ?a = Inr (v, [v], T)" "v \<in> dom (blks ?T)"
    "ip_getPossibleEntries iv (indexingPolicy ?T) ?a = Inr cs" "Some v \<in> set cs"
    and T: "tags_inv ip_wf iv rp_inv rp_cands T" "tag_abs iv T = tag_abs iv ?T" "indexingPolicy T = indexingPolicy ?T"
      "blks T = blks ?T" "blkSize T = blkSize ?T"
    by (auto elim!: succeedsE)
  define C1 where "C1 = C\<lparr>tags := T\<rparr>"
  have t1: "tags C1 = T" by (simp add: C1_def)
  have "blk_bytes (C1\<lparr>replacements := n\<rparr>) (TagBlk e) x = blk_bytes C (TagBlk e) x" for e x n
    by (simp add: blk_bytes_def C1_def T(5) split: option.split)
  then have ann: "announces iv (C1\<lparr>replacements := n\<rparr>) e p = announces iv C e p" for e p n
    by (simp add: C1_def announces_def T(3,4) regenerateBlkAddr_def blk_get_def)
  obtain b where b: "blks ?T v = Some b" using v(2) by blast
  have ve: "v \<in> valid_entries ?T \<longleftrightarrow> isValid b" "valid_entries T = valid_entries ?T" using b by (auto simp: valid_entries_def T(4))
  have dT: "data_ok T" using d by (simp add: data_ok_def T(4))
  have run: "allocateBlock cfg iv rv findMatch env C pkt =
      rbind (handleEvictions cfg iv rv findMatch env C1 [v]) (\<lambda>(ok, wbs, C).
        if \<not> ok then Inr (None, wbs, C)
        else rbind (insertBlock iv rv (maxMasters cfg) env (tags C) pkt v) (\<lambda>T. Inr (Some v, wbs, C\<lparr>tags := T\<rparr>)))"
    by (simp add: allocateBlock_def v(1) C1_def)
  have insert: "succeeds (rbind (insertBlock iv rv (maxMasters cfg) env (tags C2) pkt v) (\<lambda>T. Inr (Some v, wbs, C2\<lparr>tags := T\<rparr>)))
      (\<lambda>(r, w, C'). r = Some v \<and> w = wbs \<and> tags_inv ip_wf iv rp_inv rp_cands (tags C') \<and> data_ok (tags C') \<and>
         indexingPolicy (tags C') = indexingPolicy ?T \<and>
         (\<forall>a sec. tag_abs iv (tags C') a sec =
           (if block_of (indexingPolicy ?T) a = block_of (indexingPolicy ?T) ?a \<and> sec = ?s
            then Some v else tag_abs iv (tags C2) a sec)) \<and> (\<forall>x. x \<noteq> v \<longrightarrow> blks (tags C') x = blks (tags C2) x))"
    if c2: "tags_inv ip_wf iv rp_inv rp_cands (tags C2)" "data_ok (tags C2)" "indexingPolicy (tags C2) = indexingPolicy ?T"
      "v \<notin> valid_entries (tags C2)" "tag_abs iv (tags C2) ?a ?s = None" for C2 and wbs :: "WbPacket list"
  proof -
    from insertBlock_ok [of "tags C2" pkt cs v "maxMasters cfg" env] c2 v(3,4) assms(6) show ?thesis
      by (auto elim!: succeedsE)
  qed
  show ?thesis
  proof (cases "isValid b")
    case False
    then have h: "handleEvictions cfg iv rv findMatch env C1 [v] = Inr (True, [], C1)"
      using b by (simp add: handleEvictions_def t1 blk_get_def T(4))
    have "v \<notin> valid_entries ?T" "\<And>a sec. tag_abs iv ?T a sec \<noteq> Some v"
      using False ve abs_resident [OF inv] b by (auto simp: resident_def)
    moreover from this insert [of C1 "[]", unfolded t1 T(2)] T dT miss ve(2) obtain C' where
      "rbind (insertBlock iv rv (maxMasters cfg) env (tags C1) pkt v) (\<lambda>T. Inr (Some v, [] :: WbPacket list, C1\<lparr>tags := T\<rparr>)) = Inr (Some v, [], C')"
      "tags_inv ip_wf iv rp_inv rp_cands (tags C')" "data_ok (tags C')" "indexingPolicy (tags C') = indexingPolicy ?T"
      "\<forall>a sec. tag_abs iv (tags C') a sec =
         (if block_of (indexingPolicy ?T) a = block_of (indexingPolicy ?T) ?a \<and> sec = ?s then Some v else tag_abs iv ?T a sec)"
      "\<forall>x. x \<noteq> v \<longrightarrow> blks (tags C') x = blks ?T x"
      by (auto simp: t1 elim!: succeedsE)
    ultimately show ?thesis by (simp add: run h)
  next
    case True
    then have vv: "v \<in> valid_entries T" using ve by simp
    then obtain a sec where av: "tag_abs iv T a sec = Some v"
      using T(1) abs_resident [OF T(1)] unfolding tags_inv_def by blast
    define addr where "addr = block_of (indexingPolicy ?T) a"
    from regenerate_resident [OF T(1) av] b have addr: "regenerateBlkAddr iv T v = Inr addr" "isSecure b = sec"
      by (simp_all add: addr_def T(3,4))
    have h: "handleEvictions cfg iv rv findMatch env C1 [v] = rbind (findMatch addr sec) (\<lambda>mshr.
        case mshr of None \<Rightarrow> rbind (evictBlock cfg iv rv env (C1\<lparr>replacements := replacements C1 + 1\<rparr>) (TagBlk v)) (\<lambda>(p, C). Inr (True, [p], C))
        | Some (nw, cl) \<Rightarrow> if (\<not> isWritable b \<and> nw) \<or> cl then Inr (False, [], C1) else Inl AssertFailed)"
      using b True addr
      by (cases "findMatch addr sec"; cases "evictBlock cfg iv rv env (C1\<lparr>replacements := replacements C1 + 1\<rparr>) (TagBlk v)")
        (auto simp: handleEvictions_def t1 blk_get_def T(4) cache_regenerateBlkAddr_def split: option.split)
    have clash: "evict_clash iv block_of findMatch ?T err" if "mshr_clash findMatch addr sec b err" for err
      using that av b unfolding evict_clash_def addr_def T(2) by blast
    consider (failed) err where "findMatch addr sec = Inl err" | (free) "findMatch addr sec = Inr None"
      | (refused) nw cl where "findMatch addr sec = Inr (Some (nw, cl))" "(\<not> isWritable b \<and> nw) \<or> cl"
      | (asserted) nw cl where "findMatch addr sec = Inr (Some (nw, cl))" "\<not> ((\<not> isWritable b \<and> nw) \<or> cl)"
      by (cases "findMatch addr sec") (auto, metis option.exhaust surj_pair)
    then show ?thesis
    proof cases
      case failed
      then show ?thesis using clash [of err] by (simp add: run h mshr_clash_def)
    next
      case refused
      then show ?thesis using T dT by (simp add: run h t1)
    next
      case asserted
      then have "evict_clash iv block_of findMatch ?T AssertFailed" by (intro clash) (auto simp: mshr_clash_def)
      moreover have "handleEvictions cfg iv rv findMatch env C1 [v] = Inl AssertFailed" using asserted by (simp add: h)
      ultimately show ?thesis by (simp add: run)
    next
      case free
      let ?C = "C1\<lparr>replacements := replacements C1 + 1\<rparr>"
      from evictBlock_ok [of ?C v cfg env] T(1) vv dT cfg obtain p C2 where
        e: "evictBlock cfg iv rv env ?C (TagBlk v) = Inr (p, C2)" "announces iv C v p"
        and C2: "tags_inv ip_wf iv rp_inv rp_cands (tags C2)" "indexingPolicy (tags C2) = indexingPolicy ?T"
          "\<forall>a sec. tag_abs iv (tags C2) a sec = (if tag_abs iv ?T a sec = Some v then None else tag_abs iv ?T a sec)"
          "valid_entries (tags C2) = valid_entries T - {v}" "\<forall>x. x \<noteq> v \<longrightarrow> blks (tags C2) x = blks ?T x" "data_ok (tags C2)"
        by (auto simp: t1 ann T(2-4) elim!: succeedsE)
      from insert [of C2 "[p]"] C2 miss obtain C' where
        "rbind (insertBlock iv rv (maxMasters cfg) env (tags C2) pkt v) (\<lambda>T. Inr (Some v, [p], C2\<lparr>tags := T\<rparr>)) = Inr (Some v, [p], C')"
        "tags_inv ip_wf iv rp_inv rp_cands (tags C')" "data_ok (tags C')" "indexingPolicy (tags C') = indexingPolicy ?T"
        "\<forall>a sec. tag_abs iv (tags C') a sec =
           (if block_of (indexingPolicy ?T) a = block_of (indexingPolicy ?T) ?a \<and> sec = ?s then Some v else tag_abs iv (tags C2) a sec)"
        "\<forall>x. x \<noteq> v \<longrightarrow> blks (tags C') x = blks (tags C2) x"
        by (auto elim!: succeedsE)
      with C2 vv e ve free show ?thesis by (simp add: run h)
    qed
  qed
qed

end

subsection \<open>The cache as a set of blocks\<close>

text \<open>
  The abstract cache is a set of keys, a block address with its security space. Its steps say what a user
  of the cache may observe: a hit or a miss, a fill that may announce one evicted key, a refused fill, an
  invalidation.
\<close>

type_synonym blk_key = "Addr \<times> bool"

datatype cache_obs = Hit blk_key | Miss blk_key | Filled blk_key "blk_key option" | Refused blk_key | Dropped blk_key

inductive spec_step :: "blk_key set \<Rightarrow> cache_obs \<Rightarrow> blk_key set \<Rightarrow> bool" where
  s_hit: "k \<in> S \<Longrightarrow> spec_step S (Hit k) S"
| s_miss: "k \<notin> S \<Longrightarrow> spec_step S (Miss k) S"
| s_fill: "k \<notin> S \<Longrightarrow> spec_step S (Filled k None) (insert k S)"
| s_replace: "k \<notin> S \<Longrightarrow> v \<in> S \<Longrightarrow> spec_step S (Filled k (Some v)) (insert k (S - {v}))"
| s_refuse: "k \<notin> S \<Longrightarrow> spec_step S (Refused k) S"
| s_drop: "k \<in> S \<Longrightarrow> spec_step S (Dropped k) (S - {k})"

inductive spec_run :: "blk_key set \<Rightarrow> cache_obs list \<Rightarrow> blk_key set \<Rightarrow> bool" where
  r_done: "spec_run S [] S"
| r_step: "spec_step S ob S' \<Longrightarrow> spec_run S' obs S'' \<Longrightarrow> spec_run S (ob # obs) S''"

inductive_cases spec_runE: "spec_run S obs S'"
inductive_simps spec_step_simps: "spec_step S (Hit k) S'" "spec_step S (Miss k) S'" "spec_step S (Refused k) S'"
  "spec_step S (Dropped k) S'" "spec_step S (Filled k None) S'" "spec_step S (Filled k (Some v)) S'"

text \<open>What the cache is asked to do; a fill happens on a miss only.\<close>

datatype cache_op = Lookup Addr bool | Fill Packet | Drop Addr bool

definition cache_do :: "cache_cfg \<Rightarrow> 'x ip_vtable \<Rightarrow> 's rp_vtable \<Rightarrow> ('x BaseIndexingPolicy_scheme \<Rightarrow> Addr \<Rightarrow> Addr) \<Rightarrow>
    mshr_query \<Rightarrow> rp_env \<Rightarrow> cache_op \<Rightarrow> ('x, 's) Cache \<Rightarrow> (cache_obs \<times> ('x, 's) Cache) res" where
  "cache_do cfg iv rv block_of findMatch env op C =
     (let key = (\<lambda>a sec. (block_of (indexingPolicy (tags C)) a, sec)) in
      case op of
        Lookup a sec \<Rightarrow>
          rbind (accessBlock iv rv env (tags C) a sec) (\<lambda>(r, lat, T).
            Inr (if r = None then Miss (key a sec) else Hit (key a sec), C\<lparr>tags := T\<rparr>))
      | Drop a sec \<Rightarrow>
          rbind (findBlock iv (tags C) a sec) (\<lambda>r.
            case r of
              None \<Rightarrow> Inr (Miss (key a sec), C)
            | Some e \<Rightarrow> rbind (invalidateBlock rv env C (TagBlk e)) (\<lambda>C'. Inr (Dropped (key a sec), C')))
      | Fill pkt \<Rightarrow>
          rbind (findBlock iv (tags C) (pkt_addr pkt) (pkt_isSecure pkt)) (\<lambda>r.
            if r \<noteq> None then Inr (Hit (key (pkt_addr pkt) (pkt_isSecure pkt)), C)
            else rbind (allocateBlock cfg iv rv findMatch env C pkt) (\<lambda>(v, wbs, C').
              Inr (if v = None then Refused (key (pkt_addr pkt) (pkt_isSecure pkt))
                   else Filled (key (pkt_addr pkt) (pkt_isSecure pkt))
                          (case wbs of [] \<Rightarrow> None | p # _ \<Rightarrow> Some (wb_addr p, wb_secure p)), C'))))"

fun cache_run :: "cache_cfg \<Rightarrow> 'x ip_vtable \<Rightarrow> 's rp_vtable \<Rightarrow> ('x BaseIndexingPolicy_scheme \<Rightarrow> Addr \<Rightarrow> Addr) \<Rightarrow>
    (mshr_query \<times> rp_env \<times> cache_op) list \<Rightarrow> ('x, 's) Cache \<Rightarrow> (cache_obs list \<times> ('x, 's) Cache) res" where
  "cache_run cfg iv rv block_of [] C = Inr ([], C)"
| "cache_run cfg iv rv block_of ((fm, env, op) # ops) C =
     rbind (cache_do cfg iv rv block_of fm env op C) (\<lambda>(ob, C').
     rbind (cache_run cfg iv rv block_of ops C') (\<lambda>(obs, C''). Inr (ob # obs, C'')))"

definition cache_keys :: "'x ip_vtable \<Rightarrow> ('x BaseIndexingPolicy_scheme \<Rightarrow> Addr \<Rightarrow> Addr) \<Rightarrow> ('x, 's) BaseSetAssoc \<Rightarrow> blk_key set" where
  "cache_keys iv block_of T = {(block_of (indexingPolicy T) a, sec) | a sec. tag_abs iv T a sec \<noteq> None}"

text \<open>What an operation needs: random numbers in range, and a fill comes from a known master.\<close>

definition op_ok :: "cache_cfg \<Rightarrow> mshr_query \<times> rp_env \<times> cache_op \<Rightarrow> bool" where
  "op_ok cfg x = (case x of (fm, env, op) \<Rightarrow> env_ok env \<and>
     (case op of Fill pkt \<Rightarrow> unat (req_masterId (pkt_req pkt)) < maxMasters cfg | _ \<Rightarrow> True))"

context tag_store
begin

lemma abs_block:
  assumes "tags_inv ip_wf iv rp_inv rp_cands T" and "block_of (indexingPolicy T) a = block_of (indexingPolicy T) b"
  shows "tag_abs iv T a sec = tag_abs iv T b sec"
proof -
  have "ip_wf (indexingPolicy T) (blks T)" using assms(1) by (simp add: tags_inv_def)
  from same_block_same_place [OF this assms(2)] show ?thesis by (simp add: tag_abs_def findBlock_def Let_def)
qed

lemma keys_iff:
  assumes "tags_inv ip_wf iv rp_inv rp_cands T"
  shows "(block_of (indexingPolicy T) a, sec) \<in> cache_keys iv block_of T \<longleftrightarrow> tag_abs iv T a sec \<noteq> None"
proof
  assume "(block_of (indexingPolicy T) a, sec) \<in> cache_keys iv block_of T"
  then obtain b where b: "block_of (indexingPolicy T) a = block_of (indexingPolicy T) b" "tag_abs iv T b sec \<noteq> None"
    by (auto simp: cache_keys_def)
  from abs_block [OF assms b(1), of sec] b(2) show "tag_abs iv T a sec \<noteq> None" by simp
qed (auto simp: cache_keys_def)

lemma keys_entry:
  assumes "tags_inv ip_wf iv rp_inv rp_cands T" and "tag_abs iv T a sec = Some e" and "tag_abs iv T b sec' = Some e"
  shows "block_of (indexingPolicy T) b = block_of (indexingPolicy T) a \<and> sec' = sec"
proof -
  obtain x where "blks T e = Some x" using assms(1,2) by (auto simp: abs_resident resident_def)
  with regenerate_resident [OF assms(1,2)] regenerate_resident [OF assms(1,3)] show ?thesis by auto
qed

lemma keys_char:
  assumes "indexingPolicy T' = indexingPolicy T" and "\<And>x y. tag_abs iv T' x y \<noteq> None \<longleftrightarrow> (block_of (indexingPolicy T) x, y) \<in> S"
    and "S \<subseteq> insert (block_of (indexingPolicy T) a, s) (cache_keys iv block_of T)"
  shows "cache_keys iv block_of T' = S"
proof (intro equalityI subsetI)
  fix k assume "k \<in> cache_keys iv block_of T'"
  then show "k \<in> S" using assms(2) by (auto simp: cache_keys_def assms(1))
next
  fix k assume k: "k \<in> S"
  then obtain x y where "k = (block_of (indexingPolicy T) x, y)" using assms(3) by (auto simp: cache_keys_def)
  then show "k \<in> cache_keys iv block_of T'"
    using k assms(2) [of x y] unfolding cache_keys_def assms(1) by blast
qed

text \<open>Removing the bindings of one entry removes one key.\<close>

lemma keys_remove:
  assumes inv: "tags_inv ip_wf iv rp_inv rp_cands T" and "tag_abs iv T a sec = Some e"
    and "indexingPolicy T' = indexingPolicy T"
    and "\<forall>a sec. tag_abs iv T' a sec = (if tag_abs iv T a sec = Some e then None else tag_abs iv T a sec)"
  shows "cache_keys iv block_of T' = cache_keys iv block_of T - {(block_of (indexingPolicy T) a, sec)}"
proof -
  have "tag_abs iv T b s = Some e \<longleftrightarrow> block_of (indexingPolicy T) b = block_of (indexingPolicy T) a \<and> s = sec" for b s
    using keys_entry [OF inv assms(2), of b s] abs_block [OF inv, of b a s] assms(2) by auto
  then show ?thesis
    using assms(4) keys_iff [OF inv] by (intro keys_char [OF assms(3)]) auto
qed

text \<open>A fill adds one key and removes the key it announces.\<close>

lemma keys_fill:
  assumes inv: "tags_inv ip_wf iv rp_inv rp_cands (tags C)" and "tag_abs iv (tags C) a s = None"
    and ip: "indexingPolicy (tags C') = indexingPolicy (tags C)"
    and abs': "\<And>x y. tag_abs iv (tags C') x y =
      (if block_of (indexingPolicy (tags C)) x = block_of (indexingPolicy (tags C)) a \<and> y = s
       then Some v else if tag_abs iv (tags C) x y = Some v then None else tag_abs iv (tags C) x y)"
    and w: "if v \<in> valid_entries (tags C) then \<exists>p. wbs = [p] \<and> announces iv C v p else wbs = []"
  shows "spec_step (cache_keys iv block_of (tags C))
     (Filled (block_of (indexingPolicy (tags C)) a, s) (case wbs of [] \<Rightarrow> None | p # _ \<Rightarrow> Some (wb_addr p, wb_secure p)))
     (cache_keys iv block_of (tags C'))"
proof -
  let ?p = "indexingPolicy (tags C)" and ?K = "cache_keys iv block_of (tags C)"
  have k: "(block_of ?p a, s) \<notin> ?K" using keys_iff [OF inv, of a s] assms(2) by simp
  show ?thesis
  proof (cases "v \<in> valid_entries (tags C)")
    case False
    then have "tag_abs iv (tags C) x y \<noteq> Some v" for x y
      using abs_resident [OF inv] by (auto simp: resident_def valid_entries_def)
    then have "cache_keys iv block_of (tags C') = insert (block_of ?p a, s) ?K"
      using keys_iff [OF inv] by (intro keys_char [OF ip, where a = a and s = s]) (auto simp: abs')
    then show ?thesis using False w k by (simp add: spec_step_simps)
  next
    case True
    then obtain b t where bs: "tag_abs iv (tags C) b t = Some v"
      using inv abs_resident [OF inv] unfolding tags_inv_def by blast
    from True w obtain p where p: "wbs = [p]" "announces iv C v p" by auto
    from p(2) regenerate_resident [OF inv bs] have q: "wb_addr p = block_of ?p b" "wb_secure p = t"
      by (auto simp: announces_def)
    have e: "tag_abs iv (tags C) x y = Some v \<longleftrightarrow> block_of ?p x = block_of ?p b \<and> y = t" for x y
      using keys_entry [OF inv bs, of x y] abs_block [OF inv, of x b y] bs by auto
    have "cache_keys iv block_of (tags C') = insert (block_of ?p a, s) (?K - {(block_of ?p b, t)})"
      using keys_iff [OF inv] e by (intro keys_char [OF ip, where a = a and s = s]) (auto simp: abs')
    moreover have "(block_of ?p b, t) \<in> ?K" using keys_iff [OF inv, of b t] bs by simp
    ultimately show ?thesis using p(1) q k by (simp add: spec_step_simps)
  qed
qed

lemma cache_do_refines:
  assumes inv: "tags_inv ip_wf iv rp_inv rp_cands (tags C)" and d: "data_ok (tags C)"
    and cfg: "\<not> isReadOnly cfg \<or> writebackClean cfg" and ok: "op_ok cfg (fm, env, op)"
  shows "case cache_do cfg iv rv block_of fm env op C of
     Inl err \<Rightarrow> (\<exists>pkt. op = Fill pkt) \<and> evict_clash iv block_of fm (tags C) err
   | Inr (ob, C') \<Rightarrow> tags_inv ip_wf iv rp_inv rp_cands (tags C') \<and> data_ok (tags C') \<and>
       spec_step (cache_keys iv block_of (tags C)) ob (cache_keys iv block_of (tags C'))"
proof (cases op)
  case (Lookup a sec)
  from accessBlock_ok [OF inv, of env a sec] obtain lat T where
    T: "accessBlock iv rv env (tags C) a sec = Inr (tag_abs iv (tags C) a sec, lat, T)" "tags_inv ip_wf iv rp_inv rp_cands T"
    "tag_abs iv T = tag_abs iv (tags C)" "indexingPolicy T = indexingPolicy (tags C)" "data_ok T"
    using d by (auto elim!: succeedsE)
  have "cache_keys iv block_of T = cache_keys iv block_of (tags C)" by (simp add: cache_keys_def T(3,4))
  then show ?thesis using T keys_iff [OF inv, of a sec] by (auto simp: cache_do_def Lookup spec_step_simps)
next
  case (Drop a sec)
  show ?thesis
  proof (cases "tag_abs iv (tags C) a sec")
    case None
    then show ?thesis using inv d keys_iff [OF inv, of a sec]
      by (auto simp: cache_do_def Drop findBlock_abs [OF inv] spec_step_simps)
  next
    case (Some e)
    then obtain x where "blks (tags C) e = Some x" "isValid x" using inv by (auto simp: abs_resident resident_def)
    then have "e \<in> valid_entries (tags C)" by (auto simp: valid_entries_def)
    from invalidateBlock_ok [OF inv this d, of env] obtain C' where
      C': "invalidateBlock rv env C (TagBlk e) = Inr C'" "tags_inv ip_wf iv rp_inv rp_cands (tags C')" "data_ok (tags C')"
      "indexingPolicy (tags C') = indexingPolicy (tags C)"
      "\<forall>a sec. tag_abs iv (tags C') a sec = (if tag_abs iv (tags C) a sec = Some e then None else tag_abs iv (tags C) a sec)"
      by (auto elim: succeedsE)
    from keys_remove [OF inv Some C'(4,5)] keys_iff [OF inv, of a sec] C'(1-3) Some show ?thesis
      by (simp add: cache_do_def Drop findBlock_abs [OF inv] spec_step_simps)
  qed
next
  case (Fill pkt)
  let ?a = "pkt_addr pkt" and ?s = "pkt_isSecure pkt" and ?p = "indexingPolicy (tags C)" and ?K = "cache_keys iv block_of (tags C)"
  show ?thesis
  proof (cases "tag_abs iv (tags C) ?a ?s")
    case (Some e)
    then show ?thesis using inv d keys_iff [OF inv, of ?a ?s]
      by (auto simp: cache_do_def Fill findBlock_abs [OF inv] spec_step_simps)
  next
    case None
    note alloc = allocateBlock_ok [OF inv d _ cfg None, of env fm]
    show ?thesis
    proof (cases "allocateBlock cfg iv rv fm env C pkt")
      case (Inl err)
      then show ?thesis using alloc ok None by (simp add: cache_do_def Fill findBlock_abs [OF inv] op_ok_def)
    next
      case (Inr res)
      from Inr alloc ok obtain r wbs C' where
        run: "allocateBlock cfg iv rv fm env C pkt = Inr (r, wbs, C')"
        and i: "tags_inv ip_wf iv rp_inv rp_cands (tags C')" "data_ok (tags C')" "indexingPolicy (tags C') = ?p"
        and c: "case r of None \<Rightarrow> wbs = [] \<and> tag_abs iv (tags C') = tag_abs iv (tags C) \<and> blks (tags C') = blks (tags C)
          | Some v \<Rightarrow>
            (\<forall>a sec. tag_abs iv (tags C') a sec = (if block_of ?p a = block_of ?p ?a \<and> sec = ?s
                then Some v else if tag_abs iv (tags C) a sec = Some v then None else tag_abs iv (tags C) a sec)) \<and>
            (\<forall>x. x \<noteq> v \<longrightarrow> blks (tags C') x = blks (tags C) x) \<and>
            (if v \<in> valid_entries (tags C) then \<exists>p. wbs = [p] \<and> announces iv C v p else wbs = [])"
        by (cases res) (auto simp: op_ok_def Fill)
      have k: "(block_of ?p ?a, ?s) \<notin> ?K" using keys_iff [OF inv, of ?a ?s] None by simp
      have do: "cache_do cfg iv rv block_of fm env op C = Inr (if r = None then Refused (block_of ?p ?a, ?s)
          else Filled (block_of ?p ?a, ?s) (case wbs of [] \<Rightarrow> None | p # _ \<Rightarrow> Some (wb_addr p, wb_secure p)), C')"
        using run None by (simp add: cache_do_def Fill findBlock_abs [OF inv])
      show ?thesis
      proof (cases r)
        case r: None
        then have "cache_keys iv block_of (tags C') = ?K" using c i(3) by (simp add: cache_keys_def)
        then show ?thesis using r do i k by (simp add: spec_step_simps)
      next
        case (Some v)
        then have abs': "\<And>a sec. tag_abs iv (tags C') a sec = (if block_of ?p a = block_of ?p ?a \<and> sec = ?s
                then Some v else if tag_abs iv (tags C) a sec = Some v then None else tag_abs iv (tags C) a sec)"
          and w: "if v \<in> valid_entries (tags C) then \<exists>p. wbs = [p] \<and> announces iv C v p else wbs = []"
          using c by auto
        from keys_fill [OF inv None i(3) abs' w] show ?thesis using Some do i by simp
      qed
    qed
  qed
qed

lemma cache_run_refines:
  assumes "tags_inv ip_wf iv rp_inv rp_cands (tags C)" and "data_ok (tags C)"
    and "\<not> isReadOnly cfg \<or> writebackClean cfg" and "\<forall>x \<in> set ops. op_ok cfg x"
  shows "\<exists>served rest obs C'. ops = served @ rest \<and> cache_run cfg iv rv block_of served C = Inr (obs, C') \<and>
     tags_inv ip_wf iv rp_inv rp_cands (tags C') \<and> data_ok (tags C') \<and>
     spec_run (cache_keys iv block_of (tags C)) obs (cache_keys iv block_of (tags C')) \<and>
     (case rest of [] \<Rightarrow> True
      | (fm, env, op) # _ \<Rightarrow> \<exists>err pkt. cache_do cfg iv rv block_of fm env op C' = Inl err \<and> op = Fill pkt \<and>
          evict_clash iv block_of fm (tags C') err)"
  using assms
proof (induction ops arbitrary: C)
  case Nil
  then show ?case by (auto intro: r_done)
next
  case (Cons x ops)
  obtain fm env op where x: "x = (fm, env, op)" by (cases x)
  note step = cache_do_refines [OF Cons.prems(1-3), of fm env op]
  show ?case
  proof (cases "cache_do cfg iv rv block_of fm env op C")
    case (Inl err)
    then have "\<exists>pkt. op = Fill pkt \<and> evict_clash iv block_of fm (tags C) err" using step Cons.prems(4) by (auto simp: x)
    then show ?thesis
      using Cons.prems(1,2) Inl by (intro exI [of _ "[]"] exI [of _ "x # ops"] exI [of _ C]) (auto simp: x intro: r_done)
  next
    case (Inr oc)
    then obtain ob C1 where oc: "cache_do cfg iv rv block_of fm env op C = Inr (ob, C1)" by (cases oc) simp
    with step Cons.prems(4) have c: "tags_inv ip_wf iv rp_inv rp_cands (tags C1)" "data_ok (tags C1)"
      "spec_step (cache_keys iv block_of (tags C)) ob (cache_keys iv block_of (tags C1))" by (auto simp: x)
    from Cons.IH [OF c(1,2) Cons.prems(3)] Cons.prems(4) obtain served rest obs C' where
      r: "ops = served @ rest" "cache_run cfg iv rv block_of served C1 = Inr (obs, C')"
        "tags_inv ip_wf iv rp_inv rp_cands (tags C')" "data_ok (tags C')"
        "spec_run (cache_keys iv block_of (tags C1)) obs (cache_keys iv block_of (tags C'))"
        "case rest of [] \<Rightarrow> True
          | (fm, env, op) # _ \<Rightarrow> \<exists>err pkt. cache_do cfg iv rv block_of fm env op C' = Inl err \<and> op = Fill pkt \<and>
              evict_clash iv block_of fm (tags C') err" by auto
    have "cache_run cfg iv rv block_of (x # served) C = Inr (ob # obs, C')" using oc r(2) by (simp add: x)
    with r(1,3-6) c(3) show ?thesis
      by (intro exI [of _ "x # served"] exI [of _ rest] exI [of _ "ob # obs"] exI [of _ C']) (auto intro: r_step)
  qed
qed

end

subsection \<open>Properties\<close>

text \<open>
  C5 A classic cache with set associative tags and the DRRIP policy refines the set of blocks: whatever the
  order of lookups, fills and invalidations, and whatever the queue of miss registers answers, the invariant of
  the tag store is kept and every observation (hit, miss, the key announced as evicted, a refused fill) is one
  of the abstract cache. The operations are served to the last, or up to a fill that stops in
  \<open>handleEvictions\<close>: the search of the miss registers fails there, or its assertion does, because the
  request outstanding on a resident block is neither an upgrade nor a clean request. The cache is not read-only
  or writes back clean blocks (\<open>writebackBlk\<close> asserts this), the random numbers are in range, and the
  masters of the fills are known to the system.
\<close>

theorem drrip_cache_refines_set:
  assumes "drrip_tags_inv q (tags C)" and "data_ok (tags C)" and "\<not> isReadOnly cfg \<or> writebackClean cfg"
    and "\<forall>x \<in> set ops. op_ok cfg x"
  shows "\<exists>served rest obs C'. ops = served @ rest \<and>
     cache_run cfg sa_vtable (DRRIP q) block_addr served C = Inr (obs, C') \<and> drrip_tags_inv q (tags C') \<and> data_ok (tags C') \<and>
     spec_run (cache_keys sa_vtable block_addr (tags C)) obs (cache_keys sa_vtable block_addr (tags C')) \<and>
     (case rest of [] \<Rightarrow> True
      | (fm, env, op) # _ \<Rightarrow> \<exists>err pkt. cache_do cfg sa_vtable (DRRIP q) block_addr fm env op C' = Inl err \<and> op = Fill pkt \<and>
          evict_clash sa_vtable block_addr fm (tags C') err)"
  by (rule sa_drrip.cache_run_refines [OF assms])

text \<open>
  C15 No dirty data is lost by an allocation: when the victim held a dirty block, the one packet sent is a
  dirty writeback of exactly that block, with its address, security space and bytes, and no other entry changes.
  (The block was not resident, the cache is not read-only or writes back clean blocks, the random numbers are in
  range and the master is known.)
\<close>

theorem dirty_victim_written_back:
  assumes "drrip_tags_inv q (tags C)" and "data_ok (tags C)" and "env_ok env"
    and "\<not> isReadOnly cfg \<or> writebackClean cfg"
    and "tag_abs sa_vtable (tags C) (pkt_addr pkt) (pkt_isSecure pkt) = None"
    and "unat (req_masterId (pkt_req pkt)) < maxMasters cfg"
    and "allocateBlock cfg sa_vtable (DRRIP q) findMatch env C pkt = Inr (Some v, wbs, C')"
    and "tag_abs sa_vtable (tags C) a sec = Some v" and "blks (tags C) v = Some b" and "isDirty b"
  shows "\<exists>p. wbs = [p] \<and> wb_command p = WritebackDirty \<and> wb_addr p = block_addr (indexingPolicy (tags C)) a \<and>
     wb_secure p = sec \<and> blk_bytes C (TagBlk v) b = Inr (wb_data p) \<and> (\<forall>x. x \<noteq> v \<longrightarrow> blks (tags C') x = blks (tags C) x)"
proof -
  have "v \<in> valid_entries (tags C)"
    using assms(8) sa_drrip.abs_resident [OF assms(1)] by (auto simp: resident_def valid_entries_def)
  with sa_drrip.allocateBlock_ok [OF assms(1-6), of findMatch] assms(7) obtain p where
    p: "wbs = [p]" "announces sa_vtable C v p" "\<forall>x. x \<noteq> v \<longrightarrow> blks (tags C') x = blks (tags C) x"
    by auto
  with sa_drrip.regenerate_resident [OF assms(1,8)] assms(9,10) show ?thesis by (auto simp: announces_def)
qed

text \<open>The empty four-block cache.\<close>

definition example_env :: rp_env where
  "example_env = \<lparr>curTick = 9, random_mt = (\<lambda>lo hi. lo)\<rparr>"

definition example_cfg :: cache_cfg where
  "example_cfg = \<lparr>writebackClean = False, isReadOnly = False, maxMasters = 4\<rparr>"

definition example_pkt :: "Addr \<Rightarrow> Packet" where
  "example_pkt a = \<lparr>pkt_req = \<lparr>req_paddr = a, req_size = 8, req_contextId = 0, req_masterId = 1, req_taskId = 0\<rparr>,
     pkt_addr = a, pkt_isSecure = False, pkt_isLLSC = False, pkt_isWrite = False\<rparr>"

definition example_C :: "(unit, drrip_state) Cache" where
  "example_C = \<lparr>tags = projr (tagsInit (DRRIP example_q) example_T),
     tempBlock = CacheBlk.CacheBlk.extend (CacheBlk_new 0 0) \<lparr>temp_addr = 0\<rparr>, tagData = (\<lambda>i. of_nat i), tempData = (\<lambda>_. 0),
     unusedPrefetches = 0, replacements = 0, writebacks = 0\<rparr>"

abbreviation no_mshr :: mshr_query where
  "no_mshr \<equiv> (\<lambda>_ _. Inr None)"

text \<open>The same cache once block 0x1040 is filled and written.\<close>

definition example_C1 :: "(unit, drrip_state) Cache" where
  "example_C1 = (case allocateBlock example_cfg sa_vtable (DRRIP example_q) no_mshr example_env example_C (example_pkt 0x1040) of
     Inr (r, wbs, C) \<Rightarrow> C)"

definition example_C2 :: "(unit, drrip_state) Cache" where
  "example_C2 = set_status (BlkValid OR BlkDirty) example_C1 (TagBlk 1)"

lemma example_side: "env_ok example_env" "\<not> isReadOnly example_cfg \<or> writebackClean example_cfg"
  "unat (req_masterId (pkt_req (example_pkt a))) < maxMasters example_cfg"
  by (simp_all add: env_ok_def example_env_def example_cfg_def example_pkt_def)

lemma example_ready:
  "drrip_tags_inv example_q (tags example_C)" "data_ok (tags example_C)" "tag_abs sa_vtable (tags example_C) = (\<lambda>a sec. None)"
proof -
  have "\<exists>T'. tagsInit (DRRIP example_q) example_T = Inr T' \<and> drrip_tags_inv example_q T' \<and> data_ok T' \<and>
      tag_abs sa_vtable T' = (\<lambda>a sec. None)"
    using drrip_init [OF example_new(1) _ example_new(2) example_q_ok example_new(3)]
    by (simp add: example_new(4)) (simp add: example_ip_def)
  then show "drrip_tags_inv example_q (tags example_C)" "data_ok (tags example_C)"
    "tag_abs sa_vtable (tags example_C) = (\<lambda>a sec. None)" by (auto simp: example_C_def)
qed

theorem drrip_cache_refines_set_witness:
  "\<exists>obs C'. cache_run example_cfg sa_vtable (DRRIP example_q) block_addr
       [(no_mshr, example_env, Fill (example_pkt 0x1040)), (no_mshr, example_env, Lookup 0x1048 False)] example_C = Inr (obs, C') \<and>
     spec_run {} obs (cache_keys sa_vtable block_addr (tags C'))"
proof -
  let ?ops = "[(no_mshr, example_env, Fill (example_pkt 0x1040)), (no_mshr, example_env, Lookup 0x1048 False)]"
  have K: "cache_keys sa_vtable block_addr (tags example_C) = {}" by (simp add: cache_keys_def example_ready(3))
  have "\<forall>x \<in> set ?ops. op_ok example_cfg x" using example_side by (simp add: op_ok_def)
  from drrip_cache_refines_set [OF example_ready(1,2) example_side(2) this] obtain served rest obs C' where
    r: "?ops = served @ rest" "cache_run example_cfg sa_vtable (DRRIP example_q) block_addr served example_C = Inr (obs, C')"
      "spec_run {} obs (cache_keys sa_vtable block_addr (tags C'))"
      "case rest of [] \<Rightarrow> True
        | (fm, env, op) # _ \<Rightarrow> \<exists>err pkt. cache_do example_cfg sa_vtable (DRRIP example_q) block_addr fm env op C' = Inl err \<and>
            op = Fill pkt \<and> evict_clash sa_vtable block_addr fm (tags C') err"
    unfolding K by blast
  have "rest = []"
  proof (rule ccontr)
    assume "rest \<noteq> []"
    then obtain fm env op more where rest: "rest = (fm, env, op) # more" by (cases rest) auto
    then have "(fm, env, op) \<in> set ?ops" unfolding r(1) by simp
    with r(4) show False by (auto simp: rest evict_clash_def mshr_clash_def)
  qed
  with r show ?thesis by (intro exI [of _ obs] exI [of _ C']) simp
qed

lemma example_C1_ok:
  "drrip_tags_inv example_q (tags example_C1)" "data_ok (tags example_C1)" "tag_abs sa_vtable (tags example_C1) 0x1040 False = Some 1"
proof -
  from sa_drrip.allocateBlock_ok [OF example_ready(1,2) example_side(1,2), of "example_pkt 0x1040" no_mshr] example_side(3)
  obtain r w C where C: "allocateBlock example_cfg sa_vtable (DRRIP example_q) no_mshr example_env example_C (example_pkt 0x1040) = Inr (r, w, C)"
    "drrip_tags_inv example_q (tags C)" "data_ok (tags C)"
    by (auto simp: example_ready(3) evict_clash_def split: sum.splits)
  have "tag_abs sa_vtable (tags example_C1) 0x1040 False = Some 1" by code_simp
  then show "drrip_tags_inv example_q (tags example_C1)" "data_ok (tags example_C1)"
    "tag_abs sa_vtable (tags example_C1) 0x1040 False = Some 1"
    using C by (simp_all add: example_C1_def)
qed

lemma example_C2_ok:
  obtains b where "drrip_tags_inv example_q (tags example_C2)" "data_ok (tags example_C2)"
    "tag_abs sa_vtable (tags example_C2) 0x1040 False = Some 1" "blks (tags example_C2) 1 = Some b" "isDirty b"
proof -
  have "resident sa_vtable (tags example_C1) 0x1040 False 1"
    using example_C1_ok sa_drrip.abs_resident by blast
  then obtain b where b: "blks (tags example_C1) 1 = Some b" "isValid b" "\<not> isSecure b" by (auto simp: resident_def)
  let ?b = "b\<lparr>status := BlkValid OR BlkDirty\<rparr>"
  have t: "tags example_C2 = (tags example_C1)\<lparr>blks := (blks (tags example_C1))(1 \<mapsto> ?b)\<rparr>"
    using b(1) by (simp add: example_C2_def set_status_def)
  have st: "isValid ?b" "isSecure ?b = isSecure b" using b(3) by (simp_all add: isValid_def isSecure_def blk_bits)
  note f = sa_drrip.status_frame [OF example_C1_ok(1) b(1,2) st, folded t]
  have "data_ok (tags example_C2)" unfolding t using example_C1_ok(2) b(1) by (auto simp: data_ok_def)
  moreover have "blks (tags example_C2) 1 = Some ?b" by (simp add: t)
  moreover have "isDirty ?b" by (simp add: isDirty_def blk_bits)
  ultimately show thesis using f(1,2) example_C1_ok(3) that by simp
qed

theorem dirty_victim_written_back_witness:
  "\<exists>p C'. allocateBlock example_cfg sa_vtable (DRRIP example_q) no_mshr example_env example_C2 (example_pkt 0x2040) =
     Inr (Some 1, [p], C') \<and> wb_command p = WritebackDirty \<and> wb_addr p = block_addr (indexingPolicy (tags example_C2)) 0x1040"
proof -
  obtain b where b: "drrip_tags_inv example_q (tags example_C2)" "data_ok (tags example_C2)"
    "tag_abs sa_vtable (tags example_C2) 0x1040 False = Some 1" "blks (tags example_C2) 1 = Some b" "isDirty b"
    by (rule example_C2_ok)
  have m: "tag_abs sa_vtable (tags example_C2) (pkt_addr (example_pkt 0x2040)) (pkt_isSecure (example_pkt 0x2040)) = None" by code_simp
  have "case allocateBlock example_cfg sa_vtable (DRRIP example_q) no_mshr example_env example_C2 (example_pkt 0x2040) of
      Inr (r, w, C) \<Rightarrow> r = Some 1 | Inl _ \<Rightarrow> False" by code_simp
  then obtain w C where "allocateBlock example_cfg sa_vtable (DRRIP example_q) no_mshr example_env example_C2 (example_pkt 0x2040) =
      Inr (Some 1, w, C)" by (auto split: sum.splits)
  with dirty_victim_written_back [OF b(1,2) example_side(1,2) m example_side(3) this b(3,4,5)] show ?thesis by auto
qed

end
