(* ===== verification/MinorBuffers.thy ===== *)
theory MinorBuffers
  imports Prelude
begin

text \<open>
  The buffers between the stages of the Minor pipeline (\<open>cpu/timebuf.hh\<close>, \<open>cpu/minor/buffers.hh\<close>):
  the ring of time slots behind every latch, the self stalling pipeline of the functional units, the queue
  with reservations and the input buffer of a stage. \<open>isBubble\<close> is the traits argument of the templates and
  \<open>dflt\<close> the value the default constructor of an element gives. The lemmas show that the ring is a
  shift register, that a latch delivers after its delay, and that an input buffer is a bounded FIFO.
\<close>

subsection \<open>Time buffer\<close>

record 'a TimeBuffer =
  tb_past :: int
  tb_future :: int
  tb_index :: "'a list"
  tb_base :: nat

definition tb_size :: "'a TimeBuffer \<Rightarrow> nat" where
  "tb_size b = nat (tb_past b + tb_future b + 1)"

definition TimeBuffer_new :: "'a \<Rightarrow> int \<Rightarrow> int \<Rightarrow> 'a TimeBuffer res" where
  "TimeBuffer_new dflt p f =
     (if p \<ge> 0 \<and> f \<ge> 0
      then Inr \<lparr>tb_past = p, tb_future = f, tb_index = replicate (nat (p + f + 1)) dflt, tb_base = 0\<rparr>
      else Inl AssertFailed)"

definition tb_valid :: "'a TimeBuffer \<Rightarrow> int \<Rightarrow> bool" where
  "tb_valid b idx \<longleftrightarrow> idx \<ge> - tb_past b \<and> idx \<le> tb_future b"

definition tb_advance :: "'a \<Rightarrow> 'a TimeBuffer \<Rightarrow> 'a TimeBuffer" where
  "tb_advance dflt b =
     (let base = (if Suc (tb_base b) \<ge> tb_size b then 0 else Suc (tb_base b));
          ptr = int base + tb_future b;
          ptr = (if ptr \<ge> int (tb_size b) then ptr - int (tb_size b) else ptr)
      in b\<lparr>tb_base := base, tb_index := (tb_index b)[nat ptr := dflt]\<rparr>)"

definition calculateVectorIndex :: "'a TimeBuffer \<Rightarrow> int \<Rightarrow> int res" where
  "calculateVectorIndex b idx =
     (if \<not> tb_valid b idx then Inl AssertFailed
      else
        let vector_index = idx + int (tb_base b) in
        Inr (if vector_index \<ge> int (tb_size b) then vector_index - int (tb_size b)
             else if vector_index < 0 then vector_index + int (tb_size b) else vector_index))"

text \<open>Reading and writing through \<open>access\<close>, \<open>operator[]\<close> or a wire at \<open>idx\<close>.\<close>

definition tb_get :: "'a TimeBuffer \<Rightarrow> int \<Rightarrow> 'a res" where
  "tb_get b idx = rbind (calculateVectorIndex b idx) (\<lambda>i. Inr (tb_index b ! nat i))"

definition tb_set :: "'a TimeBuffer \<Rightarrow> int \<Rightarrow> 'a \<Rightarrow> 'a TimeBuffer res" where
  "tb_set b idx x = rbind (calculateVectorIndex b idx) (\<lambda>i. Inr (b\<lparr>tb_index := (tb_index b)[nat i := x]\<rparr>))"

text \<open>A wire is the offset it was made with; its operators move the offset inside the buffer.\<close>

definition wire_set :: "'a TimeBuffer \<Rightarrow> int \<Rightarrow> int res" where
  "wire_set b idx = (if tb_valid b idx then Inr idx else Inl AssertFailed)"

definition wire_add :: "'a TimeBuffer \<Rightarrow> int \<Rightarrow> int \<Rightarrow> int res" where
  "wire_add b w offset = wire_set b (w + offset)"

definition wire_sub :: "'a TimeBuffer \<Rightarrow> int \<Rightarrow> int \<Rightarrow> int res" where
  "wire_sub b w offset = wire_set b (w - offset)"

definition getWire :: "'a TimeBuffer \<Rightarrow> int \<Rightarrow> int res" where
  "getWire b idx = (if tb_valid b idx then Inr idx else Inl AssertFailed)"

text \<open>\<open>MinorBuffer::empty\<close>: every slot is visited.\<close>

fun mb_empty_loop :: "('a \<Rightarrow> bool) \<Rightarrow> 'a TimeBuffer \<Rightarrow> bool \<Rightarrow> int list \<Rightarrow> bool res" where
  "mb_empty_loop isBubble b ret [] = Inr ret"
| "mb_empty_loop isBubble b ret (i # is) =
     rbind (tb_get b i) (\<lambda>x. mb_empty_loop isBubble b (if \<not> isBubble x then False else ret) is)"

definition mb_empty :: "('a \<Rightarrow> bool) \<Rightarrow> 'a TimeBuffer \<Rightarrow> bool res" where
  "mb_empty isBubble b = mb_empty_loop isBubble b True [- tb_past b..tb_future b]"

subsection \<open>Latch\<close>

record 'a Latch =
  latch_delay :: int
  latch_buffer :: "'a TimeBuffer"

definition Latch_new :: "'a \<Rightarrow> int \<Rightarrow> 'a Latch res" where
  "Latch_new dflt d = rbind (TimeBuffer_new dflt d 0) (\<lambda>b. Inr \<lparr>latch_delay = d, latch_buffer = b\<rparr>)"

definition latch_empty :: "('a \<Rightarrow> bool) \<Rightarrow> 'a Latch \<Rightarrow> bool res" where
  "latch_empty isBubble l = mb_empty isBubble (latch_buffer l)"

text \<open>The wires of \<open>input()\<close> and \<open>output()\<close>: what a stage writes and what the next one reads.\<close>

definition latch_write :: "'a Latch \<Rightarrow> 'a \<Rightarrow> 'a Latch res" where
  "latch_write l x = rbind (getWire (latch_buffer l) 0) (\<lambda>w.
     rbind (tb_set (latch_buffer l) w x) (\<lambda>b. Inr (l\<lparr>latch_buffer := b\<rparr>)))"

definition latch_read :: "'a Latch \<Rightarrow> 'a res" where
  "latch_read l = rbind (getWire (latch_buffer l) (- latch_delay l)) (\<lambda>w. tb_get (latch_buffer l) w)"

definition latch_evaluate :: "'a \<Rightarrow> 'a Latch \<Rightarrow> 'a Latch" where
  "latch_evaluate dflt l = l\<lparr>latch_buffer := tb_advance dflt (latch_buffer l)\<rparr>"

subsection \<open>Self stalling pipeline\<close>

record 'a SelfStallingPipeline =
  ssp_buffer :: "'a TimeBuffer"
  ssp_depth :: int
  stalled :: bool
  occupancy :: u32

fun ssp_clear :: "'a \<Rightarrow> 'a TimeBuffer \<Rightarrow> int list \<Rightarrow> 'a TimeBuffer res" where
  "ssp_clear bubble b [] = Inr b"
| "ssp_clear bubble b (i # is) = rbind (tb_set b (- i) bubble) (\<lambda>b. ssp_clear bubble b is)"

definition SelfStallingPipeline_new :: "'a \<Rightarrow> 'a \<Rightarrow> int \<Rightarrow> 'a SelfStallingPipeline res" where
  "SelfStallingPipeline_new dflt bubble depth =
     rbind (TimeBuffer_new dflt depth 0) (\<lambda>b.
       if \<not> depth > 0 then Inl AssertFailed
       else rbind (ssp_clear bubble b [0..depth]) (\<lambda>b.
         Inr \<lparr>ssp_buffer = b, ssp_depth = depth, stalled = False, occupancy = 0\<rparr>))"

definition ssp_front :: "'a SelfStallingPipeline \<Rightarrow> 'a res" where
  "ssp_front p = tb_get (ssp_buffer p) (- ssp_depth p)"

definition alreadyPushed :: "('a \<Rightarrow> bool) \<Rightarrow> 'a SelfStallingPipeline \<Rightarrow> bool res" where
  "alreadyPushed isBubble p = rbind (tb_get (ssp_buffer p) 0) (\<lambda>x. Inr (\<not> isBubble x))"

definition isPopable :: "('a \<Rightarrow> bool) \<Rightarrow> 'a SelfStallingPipeline \<Rightarrow> bool res" where
  "isPopable isBubble p = rbind (ssp_front p) (\<lambda>x. Inr (\<not> isBubble x))"

definition ssp_push :: "('a \<Rightarrow> bool) \<Rightarrow> 'a \<Rightarrow> 'a SelfStallingPipeline \<Rightarrow> 'a SelfStallingPipeline res" where
  "ssp_push isBubble elem p =
     rbind (alreadyPushed isBubble p) (\<lambda>already.
       if already then Inl AssertFailed
       else rbind (tb_set (ssp_buffer p) 0 elem) (\<lambda>b.
         Inr (p\<lparr>ssp_buffer := b, occupancy := (if \<not> isBubble elem then occupancy p + 1 else occupancy p)\<rparr>)))"

definition ssp_advance :: "('a \<Rightarrow> bool) \<Rightarrow> 'a \<Rightarrow> 'a \<Rightarrow> 'a SelfStallingPipeline \<Rightarrow> 'a SelfStallingPipeline res" where
  "ssp_advance isBubble dflt bubble p =
     rbind (isPopable isBubble p) (\<lambda>data_at_end.
       if \<not> stalled p then
         let p = p\<lparr>ssp_buffer := tb_advance dflt (ssp_buffer p)\<rparr>;
             p = (if data_at_end then p\<lparr>occupancy := occupancy p - 1\<rparr> else p)
         in rbind (isPopable isBubble p) (\<lambda>s.
            let p = p\<lparr>stalled := s\<rparr> in
            rbind (tb_set (ssp_buffer p) 0 bubble) (\<lambda>b. Inr (p\<lparr>ssp_buffer := b\<rparr>)))
       else Inr p)"

subsection \<open>Queue with reservations\<close>

record 'a Queue =
  q_elems :: "'a list"
  numReservedSlots :: u32
  q_capacity :: u32

definition Queue_new :: "u32 \<Rightarrow> 'a Queue" where
  "Queue_new c = \<lparr>q_elems = [], numReservedSlots = 0, q_capacity = c\<rparr>"

definition q_freeReservation :: "'a Queue \<Rightarrow> 'a Queue" where
  "q_freeReservation q = (if numReservedSlots q \<noteq> 0 then q\<lparr>numReservedSlots := numReservedSlots q - 1\<rparr> else q)"

text \<open>An overfull queue only warns.\<close>

definition q_push :: "('a \<Rightarrow> bool) \<Rightarrow> 'a \<Rightarrow> 'a Queue \<Rightarrow> 'a Queue" where
  "q_push isBubble x q =
     (if \<not> isBubble x then let q = q_freeReservation q in q\<lparr>q_elems := q_elems q @ [x]\<rparr> else q)"

definition clearReservedSpace :: "'a Queue \<Rightarrow> 'a Queue" where
  "clearReservedSpace q = q\<lparr>numReservedSlots := 0\<rparr>"

definition totalSpace :: "'a Queue \<Rightarrow> u32" where
  "totalSpace q = q_capacity q"

definition occupiedSpace :: "'a Queue \<Rightarrow> u32" where
  "occupiedSpace q = of_nat (length (q_elems q))"

definition reservedSpace :: "'a Queue \<Rightarrow> u32" where
  "reservedSpace q = numReservedSlots q"

text \<open>The subtractions are done in \<open>size_t\<close> and truncated to \<open>int\<close>.\<close>

definition remainingSpace :: "'a Queue \<Rightarrow> u32" where
  "remainingSpace q =
     (let ret = sint (ucast (ucast (q_capacity q) - of_nat (length (q_elems q)) :: u64) :: u32)
      in if ret < 0 then 0 else word_of_int ret)"

definition unreservedRemainingSpace :: "'a Queue \<Rightarrow> u32" where
  "unreservedRemainingSpace q =
     (let ret = sint (ucast (ucast (q_capacity q) - (of_nat (length (q_elems q)) + ucast (numReservedSlots q)) :: u64) :: u32)
      in if ret < 0 then 0 else word_of_int ret)"

definition q_canReserve :: "'a Queue \<Rightarrow> bool" where
  "q_canReserve q \<longleftrightarrow> unreservedRemainingSpace q \<noteq> 0"

text \<open>\<open>reserve\<close> warns when nothing is reservable and reserves all the same.\<close>

definition q_reserve :: "'a Queue \<Rightarrow> 'a Queue" where
  "q_reserve q = q\<lparr>numReservedSlots := numReservedSlots q + 1\<rparr>"

text \<open>The front and the removal of the front of an empty \<open>deque\<close> are undefined; they are an error here.\<close>

definition q_front :: "'a Queue \<Rightarrow> 'a res" where
  "q_front q = (case q_elems q of [] \<Rightarrow> Inl OutOfRange | x # xs \<Rightarrow> Inr x)"

definition q_pop :: "'a Queue \<Rightarrow> 'a Queue res" where
  "q_pop q = (case q_elems q of [] \<Rightarrow> Inl OutOfRange | x # xs \<Rightarrow> Inr (q\<lparr>q_elems := xs\<rparr>))"

definition q_empty :: "'a Queue \<Rightarrow> bool" where
  "q_empty q \<longleftrightarrow> q_elems q = []"

subsection \<open>Input buffer\<close>

record 'a InputBuffer =
  ib_queue :: "'a Queue"
  elementPtr :: "'a option"

definition InputBuffer_new :: "u32 \<Rightarrow> 'a InputBuffer" where
  "InputBuffer_new c = \<lparr>ib_queue = Queue_new c, elementPtr = None\<rparr>"

definition setTail :: "('a \<Rightarrow> bool) \<Rightarrow> 'a \<Rightarrow> 'a InputBuffer \<Rightarrow> 'a InputBuffer res" where
  "setTail isBubble x b =
     (if elementPtr b \<noteq> None then Inl AssertFailed
      else if \<not> isBubble x then
        (if q_empty (ib_queue b) then Inr (b\<lparr>elementPtr := Some x\<rparr>)
         else Inr (b\<lparr>ib_queue := q_push isBubble x (ib_queue b)\<rparr>))
      else Inr b)"

definition ib_empty :: "'a InputBuffer \<Rightarrow> bool" where
  "ib_empty b \<longleftrightarrow> elementPtr b = None \<and> q_empty (ib_queue b)"

definition ib_front :: "'a InputBuffer \<Rightarrow> 'a res" where
  "ib_front b = (case elementPtr b of Some x \<Rightarrow> Inr x | None \<Rightarrow> q_front (ib_queue b))"

definition ib_pop :: "'a InputBuffer \<Rightarrow> 'a InputBuffer res" where
  "ib_pop b =
     (case elementPtr b of
        Some x \<Rightarrow> Inr (b\<lparr>elementPtr := None, ib_queue := q_freeReservation (ib_queue b)\<rparr>)
      | None \<Rightarrow> rbind (q_pop (ib_queue b)) (\<lambda>q. Inr (b\<lparr>ib_queue := q\<rparr>)))"

definition pushTail :: "('a \<Rightarrow> bool) \<Rightarrow> 'a InputBuffer \<Rightarrow> 'a InputBuffer" where
  "pushTail isBubble b =
     (case elementPtr b of
        Some x \<Rightarrow> b\<lparr>ib_queue := q_push isBubble x (ib_queue b), elementPtr := None\<rparr>
      | None \<Rightarrow> b\<lparr>elementPtr := None\<rparr>)"

definition ib_canReserve :: "'a InputBuffer \<Rightarrow> bool" where
  "ib_canReserve b = q_canReserve (ib_queue b)"

definition ib_reserve :: "'a InputBuffer \<Rightarrow> 'a InputBuffer" where
  "ib_reserve b = b\<lparr>ib_queue := q_reserve (ib_queue b)\<rparr>"

definition ib_freeReservation :: "'a InputBuffer \<Rightarrow> 'a InputBuffer" where
  "ib_freeReservation b = b\<lparr>ib_queue := q_freeReservation (ib_queue b)\<rparr>"

definition ib_unreservedRemainingSpace :: "('a \<Rightarrow> bool) \<Rightarrow> 'a InputBuffer \<Rightarrow> u32 \<times> 'a InputBuffer" where
  "ib_unreservedRemainingSpace isBubble b =
     (let b = pushTail isBubble b in (unreservedRemainingSpace (ib_queue b), b))"

subsection \<open>The ring is a shift register\<close>

definition tb_wf :: "'a TimeBuffer \<Rightarrow> bool" where
  "tb_wf b \<longleftrightarrow> 0 \<le> tb_past b \<and> 0 \<le> tb_future b \<and> length (tb_index b) = tb_size b \<and> tb_base b < tb_size b"

definition tb_pos :: "'a TimeBuffer \<Rightarrow> int \<Rightarrow> nat" where
  "tb_pos b i = nat ((i + int (tb_base b)) mod int (tb_size b))"

text \<open>The slots from the oldest to the newest.\<close>

definition tb_slots :: "'a TimeBuffer \<Rightarrow> 'a list" where
  "tb_slots b = map (\<lambda>i. tb_index b ! tb_pos b i) [- tb_past b..tb_future b]"

lemma wrap_mod:
  fixes a n :: int
  assumes "- n \<le> a" and "a < 2 * n"
  shows "(if a \<ge> n then a - n else if a < 0 then a + n else a) = a mod n"
proof -
  have n: "0 < n" using assms by linarith
  consider "a < 0" | "0 \<le> a" "a < n" | "n \<le> a" by linarith
  then show ?thesis
  proof cases
    case 1
    have "a mod n = (a + n) mod n" by simp
    also have "\<dots> = a + n" using 1 assms by (intro mod_pos_pos_trivial) auto
    finally show ?thesis using 1 n by simp
  next
    case 3
    have "a mod n = (a - n) mod n" by simp
    also have "\<dots> = a - n" using 3 assms by (intro mod_pos_pos_trivial) auto
    finally show ?thesis using 3 by simp
  qed (use n in \<open>simp add: mod_pos_pos_trivial\<close>)
qed

lemma size_int: "tb_wf b \<Longrightarrow> int (tb_size b) = tb_past b + tb_future b + 1"
  by (simp add: tb_wf_def tb_size_def)

lemma vector_index:
  assumes "tb_wf b" and "tb_valid b i"
  shows "calculateVectorIndex b i = Inr (int (tb_pos b i))" and "tb_pos b i < length (tb_index b)"
proof -
  have s: "0 < tb_size b" and l: "length (tb_index b) = tb_size b" using assms(1) by (auto simp: tb_wf_def)
  have "- int (tb_size b) \<le> i + int (tb_base b)" "i + int (tb_base b) < 2 * int (tb_size b)"
    using assms size_int [OF assms(1)] by (auto simp: tb_wf_def tb_valid_def)
  from wrap_mod [OF this] have "calculateVectorIndex b i = Inr ((i + int (tb_base b)) mod int (tb_size b))"
    using assms(2) by (simp add: calculateVectorIndex_def Let_def)
  moreover have "0 \<le> (i + int (tb_base b)) mod int (tb_size b)" "(i + int (tb_base b)) mod int (tb_size b) < int (tb_size b)"
    using s by simp_all
  ultimately show "calculateVectorIndex b i = Inr (int (tb_pos b i))" "tb_pos b i < length (tb_index b)"
    by (auto simp: tb_pos_def l nat_less_iff)
qed

lemma pos_inj:
  assumes "tb_wf b" and "tb_valid b i" and "tb_valid b j" and "tb_pos b i = tb_pos b j"
  shows "i = j"
proof -
  have s: "0 < int (tb_size b)" using assms(1) by (auto simp: tb_wf_def)
  have "(i + int (tb_base b)) mod int (tb_size b) = (j + int (tb_base b)) mod int (tb_size b)"
    using assms(4) s by (simp add: tb_pos_def eq_nat_nat_iff)
  then have "(i - j) mod int (tb_size b) = 0" by (simp add: mod_eq_dvd_iff algebra_simps mod_0_imp_dvd)
  then obtain k where k: "i - j = int (tb_size b) * k" by (auto elim: dvdE)
  have "\<bar>i - j\<bar> < int (tb_size b)" using assms(2,3) size_int [OF assms(1)] by (auto simp: tb_valid_def)
  then have "\<bar>k\<bar> < 1" using s unfolding k abs_mult by (simp add: mult_less_cancel_left1)
  then show ?thesis using k by simp
qed

lemma slots_nth:
  assumes "tb_valid b i" and "0 \<le> tb_past b"
  shows "tb_slots b ! nat (i + tb_past b) = tb_index b ! tb_pos b i" and "nat (i + tb_past b) < length (tb_slots b)"
  using assms by (auto simp: tb_slots_def tb_valid_def)

lemma tb_get_slot:
  assumes "tb_wf b" and "tb_valid b i"
  shows "tb_get b i = Inr (tb_slots b ! nat (i + tb_past b))"
  using assms vector_index [OF assms] slots_nth [OF assms(2)] by (simp add: tb_get_def tb_wf_def)

lemma tb_set_slot:
  assumes "tb_wf b" and "tb_valid b i"
  obtains b' where "tb_set b i x = Inr b'" "tb_wf b'" "tb_past b' = tb_past b" "tb_future b' = tb_future b"
    "tb_slots b' = (tb_slots b)[nat (i + tb_past b) := x]"
proof -
  let ?b = "b\<lparr>tb_index := (tb_index b)[tb_pos b i := x]\<rparr>"
  have set: "tb_set b i x = Inr ?b" using vector_index [OF assms] by (simp add: tb_set_def)
  have sz: "tb_size (b\<lparr>tb_index := ys\<rparr>) = tb_size b" for ys by (simp add: tb_size_def)
  have pos: "tb_pos (b\<lparr>tb_index := ys\<rparr>) j = tb_pos b j" for j ys by (simp add: tb_pos_def sz)
  have v: "tb_valid b ([- tb_past b..tb_future b] ! k)" if "k < length [- tb_past b..tb_future b]" for k
    using that by (auto simp: tb_valid_def)
  have "tb_slots ?b = (tb_slots b)[nat (i + tb_past b) := x]"
  proof (rule nth_equalityI)
    show "length (tb_slots ?b) = length ((tb_slots b)[nat (i + tb_past b) := x])" by (simp add: tb_slots_def)
    fix k assume "k < length (tb_slots ?b)"
    then have k: "k < nat (tb_future b + tb_past b + 1)" by (simp add: tb_slots_def)
    let ?j = "int k - tb_past b"
    have j: "tb_valid b ?j" "nat (?j + tb_past b) = k" using k by (auto simp: tb_valid_def)
    have "(tb_pos b ?j = tb_pos b i) = (k = nat (i + tb_past b))"
      using pos_inj [OF assms(1) j(1) assms(2)] assms(2) by (auto simp: tb_valid_def)
    then show "tb_slots ?b ! k = (tb_slots b)[nat (i + tb_past b) := x] ! k"
      using k vector_index(2) [OF assms] by (auto simp: tb_slots_def pos nth_list_update)
  qed
  moreover have "tb_wf ?b" using assms(1) by (simp add: tb_wf_def sz)
  ultimately show thesis using set that by simp
qed

lemma tb_advance_slots:
  assumes "tb_wf b"
  shows "tb_wf (tb_advance dflt b)" and "tb_past (tb_advance dflt b) = tb_past b" and "tb_future (tb_advance dflt b) = tb_future b"
    and "tb_slots (tb_advance dflt b) = tl (tb_slots b) @ [dflt]"
proof -
  let ?n = "tb_size b" and ?b = "tb_advance dflt b"
  have n: "0 < ?n" "tb_base b < ?n" "0 \<le> tb_past b" "0 \<le> tb_future b" "length (tb_index b) = ?n"
    using assms by (auto simp: tb_wf_def)
  have base: "int (tb_base ?b) = (int (tb_base b) + 1) mod int ?n"
  proof (cases "Suc (tb_base b) = ?n")
    case True
    then have "int (tb_base b) + 1 = int ?n" by linarith
    then have "(int (tb_base b) + 1) mod int ?n = 0" by simp
    then show ?thesis using True by (simp add: tb_advance_def Let_def)
  next
    case False
    then have "Suc (tb_base b) < ?n" using n(2) by simp
    then have "tb_base ?b = Suc (tb_base b)" "(int (tb_base b) + 1) mod int ?n = int (tb_base b) + 1"
      by (simp_all add: tb_advance_def Let_def mod_pos_pos_trivial)
    then show ?thesis by simp
  qed
  have pf: "tb_past ?b = tb_past b" "tb_future ?b = tb_future b" "tb_size ?b = ?n" by (simp_all add: tb_advance_def Let_def tb_size_def)
  have pos: "tb_pos ?b i = tb_pos b (i + 1)" for i
  proof -
    have "(i + int (tb_base ?b)) mod int ?n = (i + 1 + int (tb_base b)) mod int ?n"
      unfolding base by (simp add: mod_add_right_eq algebra_simps)
    then show ?thesis by (simp add: tb_pos_def pf(3))
  qed
  have "int (tb_base ?b) + tb_future b < 2 * int ?n" "- int ?n \<le> int (tb_base ?b) + tb_future b"
    using n size_int [OF assms] base pos_mod_bound [of "int ?n" "int (tb_base b) + 1"] by auto
  from wrap_mod [OF this(2,1)] n(4)
  have index: "tb_index ?b = (tb_index b)[tb_pos ?b (tb_future b) := dflt]"
    by (simp add: tb_advance_def Let_def tb_pos_def tb_size_def add.commute split: if_splits)
  have "int (tb_base ?b) < int ?n" unfolding base using n(1) by simp
  then show wf: "tb_wf ?b" using n pf index by (simp add: tb_wf_def)
  show "tb_past ?b = tb_past b" "tb_future ?b = tb_future b" by (fact pf)+
  have pl: "tb_pos ?b (tb_future b) < ?n" using vector_index(2) [OF wf, of "tb_future b"] n pf index by (simp add: tb_valid_def)
  show "tb_slots ?b = tl (tb_slots b) @ [dflt]"
  proof (rule nth_equalityI)
    have l: "length (tb_slots b) = ?n" "length (tb_slots ?b) = ?n" using n by (simp_all add: tb_slots_def pf tb_size_def)
    then show "length (tb_slots ?b) = length (tl (tb_slots b) @ [dflt])" using n by simp
    fix k assume k: "k < length (tb_slots ?b)"
    let ?i = "int k - tb_past b"
    have i: "tb_valid ?b ?i" "nat (?i + tb_past b) = k"
      using k l size_int [OF assms] by (auto simp: tb_valid_def pf)
    have e: "tb_slots ?b ! k = tb_index ?b ! tb_pos ?b ?i" using slots_nth(1) [OF i(1)] i(2) n pf by simp
    show "tb_slots ?b ! k = (tl (tb_slots b) @ [dflt]) ! k"
    proof (cases "Suc k = ?n")
      case True
      then have "?i = tb_future b" using size_int [OF assms] by linarith
      moreover have "\<not> k < ?n - Suc 0" using True by linarith
      ultimately show ?thesis using True e index pl n l by (simp add: nth_append)
    next
      case False
      then have lt: "Suc k < ?n" using k l by simp
      then have v: "tb_valid ?b (tb_future b)" "tb_valid b (?i + 1)" "?i \<noteq> tb_future b"
        using n size_int [OF assms] by (auto simp: tb_valid_def pf)
      then have "tb_pos ?b ?i \<noteq> tb_pos ?b (tb_future b)" using pos_inj [OF wf i(1) v(1)] by blast
      then have "tb_slots ?b ! k = tb_index b ! tb_pos b (?i + 1)" using e by (simp add: index pos)
      also have "\<dots> = tb_slots b ! nat (?i + 1 + tb_past b)" using slots_nth(1) [OF v(2) n(3)] by simp
      also have "nat (?i + 1 + tb_past b) = Suc k" by simp
      finally have "tb_slots ?b ! k = tb_slots b ! Suc k" .
      moreover have "k < ?n - Suc 0" using lt by linarith
      ultimately show ?thesis using l by (simp add: nth_append nth_tl)
    qed
  qed
qed

text \<open>
  What a stage pair sees of a latch: every cycle a value is written at the input, the output is read, and the
  latch is evaluated.
\<close>

fun latch_feed :: "'a \<Rightarrow> 'a list \<Rightarrow> 'a Latch \<Rightarrow> ('a list \<times> 'a Latch) res" where
  "latch_feed dflt [] l = Inr ([], l)"
| "latch_feed dflt (x # xs) l =
     rbind (latch_write l x) (\<lambda>l.
     rbind (latch_read l) (\<lambda>y.
     rbind (latch_feed dflt xs (latch_evaluate dflt l)) (\<lambda>(ys, l). Inr (y # ys, l))))"

definition latch_wf :: "'a Latch \<Rightarrow> bool" where
  "latch_wf l \<longleftrightarrow> tb_wf (latch_buffer l) \<and> tb_past (latch_buffer l) = latch_delay l \<and> tb_future (latch_buffer l) = 0 \<and>
     1 \<le> latch_delay l"

lemma slots_length: "length (tb_slots b) = nat (tb_future b + tb_past b + 1)"
  by (simp add: tb_slots_def)

lemma latch_feed_slots:
  assumes "latch_wf l" and "tb_slots (latch_buffer l) = ss @ [z]"
  shows "\<exists>l'. latch_feed dflt xs l = Inr (take (length xs) (ss @ xs), l') \<and> latch_wf l'"
  using assms
proof (induction xs arbitrary: l ss z)
  case (Cons x xs)
  let ?b = "latch_buffer l" and ?d = "latch_delay l"
  have wf: "tb_wf ?b" and d: "tb_past ?b = ?d" "tb_future ?b = 0" "1 \<le> ?d" using Cons.prems(1) by (auto simp: latch_wf_def)
  have len: "length ss = nat ?d" using slots_length [of ?b] Cons.prems(2) d by (simp add: nat_add_distrib)
  then obtain s ss' where ss: "ss = s # ss'" using d(3) by (cases ss) auto
  obtain b1 where b1: "tb_set ?b 0 x = Inr b1" "tb_wf b1" "tb_past b1 = ?d" "tb_future b1 = 0"
    "tb_slots b1 = (tb_slots ?b)[nat ?d := x]"
    using tb_set_slot [OF wf, of 0 x] d by (auto simp: tb_valid_def)
  then have sl: "tb_slots b1 = ss @ [x]" using Cons.prems(2) len by (simp add: list_update_append)
  have w: "latch_write l x = Inr (l\<lparr>latch_buffer := b1\<rparr>)"
    using b1(1) d by (simp add: latch_write_def getWire_def tb_valid_def)
  have r: "latch_read (l\<lparr>latch_buffer := b1\<rparr>) = Inr s"
    using tb_get_slot [OF b1(2), of "- ?d"] b1(3,4) d sl ss by (simp add: latch_read_def getWire_def tb_valid_def)
  let ?l = "latch_evaluate dflt (l\<lparr>latch_buffer := b1\<rparr>)"
  have "latch_wf ?l" "tb_slots (latch_buffer ?l) = (ss' @ [x]) @ [dflt]"
    using tb_advance_slots [OF b1(2), of dflt] b1(3,4) d sl ss by (simp_all add: latch_wf_def latch_evaluate_def)
  from Cons.IH [OF this] show ?case using w r ss by (auto simp: take_Cons')
qed (auto simp: latch_wf_def)

text \<open>
  C35 A latch of delay \<open>d\<close> is a delay line: whatever the sequence of values written at its input, the
  values read at its output are \<open>d\<close> default (bubble) values followed by that sequence, in order, none
  lost or repeated.
\<close>

theorem latch_delays:
  assumes "Latch_new dflt d = Inr l" and "1 \<le> d"
  shows "\<exists>l'. latch_feed dflt xs l = Inr (take (length xs) (replicate (nat d) dflt @ xs), l')"
proof -
  let ?b = "latch_buffer l"
  have l: "latch_delay l = d" "?b = \<lparr>tb_past = d, tb_future = 0, tb_index = replicate (nat (d + 1)) dflt, tb_base = 0\<rparr>"
    using assms by (auto simp: Latch_new_def TimeBuffer_new_def split: if_splits)
  have n: "nat (d + 1) = Suc (nat d)" using assms(2) by (simp add: nat_add_distrib)
  then have wf: "latch_wf l" using assms(2) by (simp add: latch_wf_def tb_wf_def l tb_size_def)
  then have b: "tb_wf ?b" by (simp add: latch_wf_def)
  have "\<forall>k < length (tb_slots ?b). tb_slots ?b ! k = dflt"
  proof (intro allI impI)
    fix k assume k: "k < length (tb_slots ?b)"
    let ?i = "int k - d"
    have i: "tb_valid ?b ?i" "nat (?i + tb_past ?b) = k" using k by (auto simp: slots_length l tb_valid_def)
    have "tb_pos ?b ?i < length (tb_index ?b)" by (rule vector_index(2) [OF b i(1)])
    then show "tb_slots ?b ! k = dflt" using slots_nth(1) [OF i(1)] i(2) assms(2) by (simp add: l)
  qed
  then have "tb_slots ?b = replicate (Suc (nat d)) dflt"
    using n by (intro replicate_eqI) (auto simp: slots_length l in_set_conv_nth)
  then have "tb_slots ?b = replicate (nat d) dflt @ [dflt]" by (simp add: replicate_append_same)
  from latch_feed_slots [OF wf this] show ?thesis by blast
qed

theorem latch_delays_witness:
  "\<exists>l l'. Latch_new (0 :: nat) 2 = Inr l \<and> latch_feed 0 [7, 8, 9] l = Inr ([0, 0, 7], l')"
proof -
  obtain l where l: "Latch_new (0 :: nat) 2 = Inr l" by (simp add: Latch_new_def TimeBuffer_new_def)
  from latch_delays [OF l, of "[7, 8, 9]"] l show ?thesis by (auto simp: numeral_2_eq_2)
qed

subsection \<open>The self stalling pipeline counts its contents\<close>

definition ssp_geo :: "'a SelfStallingPipeline \<Rightarrow> bool" where
  "ssp_geo p \<longleftrightarrow> tb_wf (ssp_buffer p) \<and> tb_past (ssp_buffer p) = ssp_depth p \<and> tb_future (ssp_buffer p) = 0 \<and> 0 < ssp_depth p"

definition ssp_wf :: "('a \<Rightarrow> bool) \<Rightarrow> 'a SelfStallingPipeline \<Rightarrow> bool" where
  "ssp_wf isBubble p \<longleftrightarrow> ssp_geo p \<and> occupancy p = of_nat (length (filter (\<lambda>x. \<not> isBubble x) (tb_slots (ssp_buffer p))))"

lemma ssp_slots:
  assumes "ssp_geo p"
  obtains s ss z where "tb_slots (ssp_buffer p) = s # ss @ [z]" "length ss = nat (ssp_depth p) - 1"
proof -
  let ?d = "ssp_depth p"
  have "length (tb_slots (ssp_buffer p)) = Suc (nat ?d)"
    using assms by (simp add: ssp_geo_def slots_length nat_add_distrib)
  moreover have "0 < nat ?d" using assms by (simp add: ssp_geo_def)
  ultimately obtain s t where t: "tb_slots (ssp_buffer p) = s # t" "length t = nat ?d" by (cases "tb_slots (ssp_buffer p)") auto
  then obtain ss z where "t = ss @ [z]" using \<open>0 < nat ?d\<close> by (cases t rule: rev_cases) auto
  with t that show thesis by simp
qed

lemma ssp_get:
  assumes "ssp_geo p" and "tb_slots (ssp_buffer p) = s # ss @ [z]" and "length ss = nat (ssp_depth p) - 1"
  shows "tb_get (ssp_buffer p) 0 = Inr z" and "ssp_front p = Inr s"
proof -
  have wf: "tb_wf (ssp_buffer p)" and d: "tb_past (ssp_buffer p) = ssp_depth p" "tb_future (ssp_buffer p) = 0" "0 < ssp_depth p"
    using assms(1) by (auto simp: ssp_geo_def)
  have "nat (ssp_depth p) = Suc (length ss)" using assms(3) d(3) by simp
  then show "tb_get (ssp_buffer p) 0 = Inr z"
    using tb_get_slot [OF wf, of 0] d assms(2) by (simp add: tb_valid_def nth_append)
  show "ssp_front p = Inr s"
    using tb_get_slot [OF wf, of "- ssp_depth p"] d assms(2) by (simp add: ssp_front_def tb_valid_def)
qed

lemma ssp_set:
  assumes "ssp_geo p" and "tb_slots (ssp_buffer p) = s # ss @ [z]" and "length ss = nat (ssp_depth p) - 1"
  obtains b where "tb_set (ssp_buffer p) 0 x = Inr b" "tb_wf b" "tb_past b = ssp_depth p" "tb_future b = 0"
    "tb_slots b = s # ss @ [x]"
proof -
  have wf: "tb_wf (ssp_buffer p)" and d: "tb_past (ssp_buffer p) = ssp_depth p" "tb_future (ssp_buffer p) = 0" "0 < ssp_depth p"
    using assms(1) by (auto simp: ssp_geo_def)
  have n: "nat (ssp_depth p) = Suc (length ss)" using assms(3) d(3) by simp
  obtain b where "tb_set (ssp_buffer p) 0 x = Inr b" "tb_wf b" "tb_past b = ssp_depth p" "tb_future b = 0"
    "tb_slots b = (s # ss @ [z])[Suc (length ss) := x]"
    using tb_set_slot [OF wf, of 0 x] d assms(2) n by (auto simp: tb_valid_def)
  then show thesis using that by (simp add: list_update_append)
qed

text \<open>
  A self stalling pipeline counts what it holds: after a push and after an advance, stalled or not,
  \<open>occupancy\<close> is the number of slots that are not bubbles; an advance moves every slot one place, and a
  stalled pipeline does not move.
\<close>

lemma pipeline_occupancy:
  assumes "ssp_wf isBubble p" and "isBubble bubble"
  shows "(\<exists>p'. ssp_advance isBubble dflt bubble p = Inr p' \<and> ssp_wf isBubble p' \<and>
            tb_slots (ssp_buffer p') = (if stalled p then tb_slots (ssp_buffer p) else tl (tb_slots (ssp_buffer p)) @ [bubble])) \<and>
         (case ssp_push isBubble x p of
            Inl e \<Rightarrow> e = AssertFailed \<and> \<not> isBubble (last (tb_slots (ssp_buffer p)))
          | Inr p' \<Rightarrow> ssp_wf isBubble p' \<and> isBubble (last (tb_slots (ssp_buffer p))) \<and>
              tb_slots (ssp_buffer p') = butlast (tb_slots (ssp_buffer p)) @ [x])"
proof -
  have geo: "ssp_geo p" using assms(1) by (simp add: ssp_wf_def)
  obtain s ss z where s: "tb_slots (ssp_buffer p) = s # ss @ [z]" "length ss = nat (ssp_depth p) - 1"
    by (rule ssp_slots [OF geo])
  note g = ssp_get [OF geo s]
  have wf: "tb_wf (ssp_buffer p)" and d: "tb_past (ssp_buffer p) = ssp_depth p" "tb_future (ssp_buffer p) = 0" "0 < ssp_depth p"
    and occ: "occupancy p = of_nat (length (filter (\<lambda>x. \<not> isBubble x) (s # ss @ [z])))"
    using assms(1) s(1) by (auto simp: ssp_wf_def ssp_geo_def)
  have push: "case ssp_push isBubble x p of
            Inl e \<Rightarrow> e = AssertFailed \<and> \<not> isBubble (last (tb_slots (ssp_buffer p)))
          | Inr p' \<Rightarrow> ssp_wf isBubble p' \<and> isBubble (last (tb_slots (ssp_buffer p))) \<and>
              tb_slots (ssp_buffer p') = butlast (tb_slots (ssp_buffer p)) @ [x]"
  proof (cases "isBubble z")
    case True
    obtain b where b: "tb_set (ssp_buffer p) 0 x = Inr b" "tb_wf b" "tb_past b = ssp_depth p" "tb_future b = 0"
      "tb_slots b = s # ss @ [x]" by (rule ssp_set [OF geo s])
    then show ?thesis using True g(1) s occ d(3)
      by (simp add: ssp_push_def alreadyPushed_def ssp_wf_def ssp_geo_def butlast_append)
  qed (use g(1) s in \<open>simp add: ssp_push_def alreadyPushed_def\<close>)
  show ?thesis
  proof (cases "stalled p")
    case True
    then show ?thesis using push assms(1) g(2) by (simp add: ssp_advance_def isPopable_def)
  next
    case False
    note a = tb_advance_slots [OF wf, of dflt]
    define q where "q = (let p = p\<lparr>ssp_buffer := tb_advance dflt (ssp_buffer p)\<rparr>
        in if \<not> isBubble s then p\<lparr>occupancy := occupancy p - 1\<rparr> else p)"
    have q: "ssp_buffer q = tb_advance dflt (ssp_buffer p)" "ssp_depth q = ssp_depth p"
      "occupancy q = of_nat (length (filter (\<lambda>x. \<not> isBubble x) (ss @ [z])))"
      by (simp_all add: q_def Let_def occ)
    have gq: "ssp_geo q" using a d by (simp add: ssp_geo_def q)
    obtain s' ss' where sq: "tb_slots (ssp_buffer q) = s' # ss' @ [dflt]" "length ss' = nat (ssp_depth q) - 1" "ss @ [z] = s' # ss'"
      using a(4) s by (cases ss) (auto simp: q)
    obtain b where b: "tb_set (ssp_buffer q) 0 bubble = Inr b" "tb_wf b" "tb_past b = ssp_depth q" "tb_future b = 0"
      "tb_slots b = s' # ss' @ [bubble]" by (rule ssp_set [OF gq sq(1,2)])
    have run: "ssp_advance isBubble dflt bubble p = Inr (q\<lparr>stalled := (\<not> isBubble s'), ssp_buffer := b\<rparr>)"
      using False g(2) ssp_get(2) [OF gq sq(1,2)] b(1)
      by (simp add: ssp_advance_def isPopable_def Let_def q_def split: if_splits)
    have "ssp_wf isBubble (q\<lparr>stalled := (\<not> isBubble s'), ssp_buffer := b\<rparr>)"
      using b d q(2,3) sq(3) assms(2) by (simp add: ssp_wf_def ssp_geo_def)
    then show ?thesis using run push False b(5) s sq(3) by simp
  qed
qed

subsection \<open>The input buffer is a bounded FIFO\<close>

definition ib_contents :: "'a InputBuffer \<Rightarrow> 'a list" where
  "ib_contents b = (case elementPtr b of Some x \<Rightarrow> x # q_elems (ib_queue b) | None \<Rightarrow> q_elems (ib_queue b))"

text \<open>The slots taken and the slots promised; the element that waits outside the queue holds a reservation.\<close>

definition ib_load :: "'a InputBuffer \<Rightarrow> nat" where
  "ib_load b = length (q_elems (ib_queue b)) + unat (numReservedSlots (ib_queue b))"

definition ib_wf :: "('a \<Rightarrow> bool) \<Rightarrow> 'a InputBuffer \<Rightarrow> bool" where
  "ib_wf isBubble b \<longleftrightarrow> (\<forall>x \<in> set (ib_contents b). \<not> isBubble x) \<and>
     (elementPtr b \<noteq> None \<longrightarrow> q_elems (ib_queue b) = [] \<and> 0 < numReservedSlots (ib_queue b)) \<and>
     ib_load b \<le> unat (q_capacity (ib_queue b)) \<and> unat (q_capacity (ib_queue b)) < 2 ^ 31"

lemma ib_contents_simps:
  "elementPtr b = None \<Longrightarrow> ib_contents b = q_elems (ib_queue b)"
  "elementPtr b = Some x \<Longrightarrow> ib_contents b = x # q_elems (ib_queue b)"
  by (simp_all add: ib_contents_def)

lemma unat_pred: "0 < r \<Longrightarrow> unat (r - 1 :: u32) = unat r - 1 \<and> 0 < unat r"
  by (auto simp: unat_minus_one word_gt_0 unat_gt_0)

lemma setTail_contents:
  assumes "ib_wf isBubble b" and "elementPtr b = None" and "\<not> isBubble x" and "0 < numReservedSlots (ib_queue b)"
  shows "succeeds (setTail isBubble x b) (\<lambda>b'. ib_wf isBubble b' \<and> ib_contents b' = ib_contents b @ [x] \<and> ib_load b' = ib_load b \<and>
           q_capacity (ib_queue b') = q_capacity (ib_queue b))"
  using assms unat_pred [OF assms(4)]
  by (cases "q_elems (ib_queue b) = []")
    (auto simp: setTail_def ib_wf_def ib_contents_simps q_empty_def q_push_def q_freeReservation_def Let_def ib_load_def)

lemma setTail_bubble: "elementPtr b = None \<Longrightarrow> isBubble x \<Longrightarrow> setTail isBubble x b = Inr b"
  by (simp add: setTail_def)

lemma pushTail_contents:
  assumes "ib_wf isBubble b"
  shows "ib_wf isBubble (pushTail isBubble b)" and "ib_contents (pushTail isBubble b) = ib_contents b"
    and "ib_load (pushTail isBubble b) = ib_load b" and "elementPtr (pushTail isBubble b) = None"
    and "q_capacity (ib_queue (pushTail isBubble b)) = q_capacity (ib_queue b)"
proof -
  have "ib_wf isBubble (pushTail isBubble b) \<and> ib_contents (pushTail isBubble b) = ib_contents b \<and>
      ib_load (pushTail isBubble b) = ib_load b \<and> elementPtr (pushTail isBubble b) = None \<and>
      q_capacity (ib_queue (pushTail isBubble b)) = q_capacity (ib_queue b)"
  proof (cases "elementPtr b")
    case (Some x)
    then have "0 < numReservedSlots (ib_queue b)" using assms by (simp add: ib_wf_def)
    from Some assms unat_pred [OF this] show ?thesis
      by (auto simp: pushTail_def ib_wf_def ib_contents_simps q_push_def q_freeReservation_def Let_def ib_load_def)
  qed (use assms in \<open>simp add: pushTail_def ib_wf_def ib_contents_def ib_load_def\<close>)
  then show "ib_wf isBubble (pushTail isBubble b)" "ib_contents (pushTail isBubble b) = ib_contents b"
    "ib_load (pushTail isBubble b) = ib_load b" "elementPtr (pushTail isBubble b) = None"
    "q_capacity (ib_queue (pushTail isBubble b)) = q_capacity (ib_queue b)" by blast+
qed

lemma ib_front_contents: "ib_contents b = x # xs \<Longrightarrow> ib_front b = Inr x"
  by (cases "elementPtr b") (auto simp: ib_contents_def ib_front_def q_front_def)

lemma ib_empty_contents: "ib_empty b \<longleftrightarrow> ib_contents b = []"
  by (cases "elementPtr b") (auto simp: ib_contents_def ib_empty_def q_empty_def)

lemma ib_pop_contents:
  assumes "ib_wf isBubble b" and "ib_contents b = x # xs"
  shows "succeeds (ib_pop b) (\<lambda>b'. ib_wf isBubble b' \<and> ib_contents b' = xs \<and> ib_load b = Suc (ib_load b') \<and>
           q_capacity (ib_queue b') = q_capacity (ib_queue b))"
proof (cases "elementPtr b")
  case (Some y)
  then have r: "0 < numReservedSlots (ib_queue b)" using assms(1) by (simp add: ib_wf_def)
  from Some assms unat_pred [OF r] r show ?thesis
    by (auto simp: ib_pop_def ib_wf_def ib_contents_simps q_freeReservation_def ib_load_def)
next
  case None
  then show ?thesis using assms by (auto simp: ib_pop_def q_pop_def ib_wf_def ib_contents_simps ib_load_def)
qed

lemma unreserved_space:
  assumes "length (q_elems q) + unat (numReservedSlots q) \<le> unat (q_capacity q)" and "unat (q_capacity q) < 2 ^ 31"
  shows "unat (unreservedRemainingSpace q) = unat (q_capacity q) - (length (q_elems q) + unat (numReservedSlots q))"
proof -
  let ?u = "of_nat (length (q_elems q)) + ucast (numReservedSlots q) :: u64" and ?c = "ucast (q_capacity q) :: u64"
  let ?d = "unat (q_capacity q) - (length (q_elems q) + unat (numReservedSlots q))"
  have c: "?c = of_nat (unat (q_capacity q))" and r: "ucast (numReservedSlots q) = (of_nat (unat (numReservedSlots q)) :: u64)"
    by simp_all
  have "?c - ?u = of_nat ?d" unfolding c r using assms(1) by (simp add: of_nat_diff)
  moreover have lt: "?d < 2 ^ 31" using assms(2) by linarith
  ultimately have e: "(ucast (?c - ?u) :: u32) = of_nat ?d"
    by (simp add: unsigned_of_nat take_bit_nat_eq_self)
  have "sint (of_nat ?d :: u32) = int ?d"
    using lt by (simp add: signed_of_nat signed_take_bit_int_eq_self)
  then have "unreservedRemainingSpace q = of_nat ?d" unfolding unreservedRemainingSpace_def e by (simp add: Let_def)
  then show ?thesis using lt by (simp add: unat_of_nat)
qed

lemma canReserve_iff:
  assumes "ib_wf isBubble b"
  shows "ib_canReserve b \<longleftrightarrow> ib_load b < unat (q_capacity (ib_queue b))"
proof -
  have "unat (unreservedRemainingSpace (ib_queue b)) = unat (q_capacity (ib_queue b)) - ib_load b"
    unfolding ib_load_def by (rule unreserved_space) (use assms in \<open>simp_all add: ib_wf_def ib_load_def\<close>)
  then show ?thesis by (auto simp: ib_canReserve_def q_canReserve_def simp flip: unat_eq_zero)
qed

lemma reserve_contents:
  assumes "ib_wf isBubble b" and "ib_canReserve b"
  shows "ib_wf isBubble (ib_reserve b)" and "ib_contents (ib_reserve b) = ib_contents b"
    and "ib_load (ib_reserve b) = Suc (ib_load b)" and "0 < numReservedSlots (ib_queue (ib_reserve b))"
proof -
  let ?r = "numReservedSlots (ib_queue b)"
  have lt: "ib_load b < unat (q_capacity (ib_queue b))" using assms canReserve_iff by blast
  then have "unat ?r < unat (q_capacity (ib_queue b))" by (simp add: ib_load_def)
  then have u: "unat (?r + 1) = Suc (unat ?r)" by (intro word_inc_less [of _ "q_capacity (ib_queue b)"]) (simp add: word_less_nat_alt)
  then have p: "0 < ?r + 1" by (simp add: word_less_nat_alt)
  have c: "ib_contents (ib_reserve b) = ib_contents b" by (simp add: ib_contents_def ib_reserve_def q_reserve_def split: option.split)
  moreover have l: "ib_load (ib_reserve b) = Suc (ib_load b)" using u by (simp add: ib_load_def ib_reserve_def q_reserve_def)
  moreover have "ib_wf isBubble (ib_reserve b)"
    using assms(1) lt p unfolding ib_wf_def c l by (simp add: ib_reserve_def q_reserve_def)
  ultimately show "ib_wf isBubble (ib_reserve b)" "ib_contents (ib_reserve b) = ib_contents b"
    "ib_load (ib_reserve b) = Suc (ib_load b)" "0 < numReservedSlots (ib_queue (ib_reserve b))"
    using p by (simp_all add: ib_reserve_def q_reserve_def)
qed

text \<open>
  What the stages around an input buffer do: the earlier one reserves a slot when it can, and sends a value
  for a reserved slot; the stage itself takes the front and, at the end of its cycle, settles the tail. A
  step yields the value sent and the value taken.
\<close>

datatype 'a ib_op = Reserve | Send 'a | Take | Settle

definition ib_do :: "('a \<Rightarrow> bool) \<Rightarrow> 'a ib_op \<Rightarrow> 'a InputBuffer \<Rightarrow> ('a list \<times> 'a list \<times> 'a InputBuffer) res" where
  "ib_do isBubble op b =
     (case op of
        Reserve \<Rightarrow> Inr ([], [], if ib_canReserve b then ib_reserve b else b)
      | Send x \<Rightarrow>
          if elementPtr b = None \<and> \<not> isBubble x \<and> 0 < numReservedSlots (ib_queue b)
          then rbind (setTail isBubble x b) (\<lambda>b. Inr ([x], [], b)) else Inr ([], [], b)
      | Take \<Rightarrow> if ib_empty b then Inr ([], [], b)
                else rbind (ib_front b) (\<lambda>x. rbind (ib_pop b) (\<lambda>b. Inr ([], [x], b)))
      | Settle \<Rightarrow> Inr ([], [], pushTail isBubble b))"

fun ib_run :: "('a \<Rightarrow> bool) \<Rightarrow> 'a ib_op list \<Rightarrow> 'a InputBuffer \<Rightarrow> ('a list \<times> 'a list \<times> 'a InputBuffer) res" where
  "ib_run isBubble [] b = Inr ([], [], b)"
| "ib_run isBubble (op # ops) b =
     rbind (ib_do isBubble op b) (\<lambda>(sent, taken, b).
     rbind (ib_run isBubble ops b) (\<lambda>(sent', taken', b). Inr (sent @ sent', taken @ taken', b)))"

lemma ib_do_fifo:
  assumes wf: "ib_wf isBubble b"
  shows "succeeds (ib_do isBubble op b) (\<lambda>(sent, taken, b'). ib_wf isBubble b' \<and> taken @ ib_contents b' = ib_contents b @ sent)"
proof (cases op)
  case Reserve
  then show ?thesis using wf reserve_contents [OF wf] by (simp add: ib_do_def)
next
  case (Send x)
  then show ?thesis using wf setTail_contents [OF wf, of x] by (auto simp: ib_do_def succeeds_def)
next
  case Take
  then show ?thesis
  proof (cases "ib_contents b")
    case (Cons x xs)
    then show ?thesis
      using Take ib_front_contents [OF Cons] ib_pop_contents [OF wf Cons]
      by (auto simp: ib_do_def ib_empty_contents elim!: succeedsE)
  qed (use wf in \<open>simp add: ib_do_def ib_empty_contents\<close>)
next
  case Settle
  then show ?thesis using pushTail_contents [OF wf] by (simp add: ib_do_def)
qed

text \<open>
  C34 The input buffer of a stage is a bounded FIFO: whatever the order in which slots are reserved, values are
  sent for them, the front is taken and the tail settled, no operation fails, what was taken followed by what is left is
  what was there followed by what was sent, and the queue never exceeds its capacity.
\<close>

theorem input_buffer_bounded_fifo:
  assumes "ib_wf isBubble b"
  shows "\<exists>sent taken b'. ib_run isBubble ops b = Inr (sent, taken, b') \<and> taken @ ib_contents b' = ib_contents b @ sent \<and>
     ib_wf isBubble b' \<and> length (q_elems (ib_queue b')) \<le> unat (q_capacity (ib_queue b'))"
  using assms
proof (induction ops arbitrary: b)
  case (Cons op ops)
  from ib_do_fifo [OF Cons.prems, of op] obtain s t b1 where
    1: "ib_do isBubble op b = Inr (s, t, b1)" "ib_wf isBubble b1" "t @ ib_contents b1 = ib_contents b @ s"
    by (auto elim!: succeedsE)
  from Cons.IH [OF 1(2)] obtain s' t' b2 where
    2: "ib_run isBubble ops b1 = Inr (s', t', b2)" "t' @ ib_contents b2 = ib_contents b1 @ s'" "ib_wf isBubble b2"
    "length (q_elems (ib_queue b2)) \<le> unat (q_capacity (ib_queue b2))" by blast
  have "(t @ t') @ ib_contents b2 = ib_contents b @ s @ s'" using 1(3) 2(2) by (metis append.assoc)
  then show ?case using 1(1) 2 by simp
qed (simp add: ib_wf_def ib_load_def)

theorem input_buffer_bounded_fifo_witness:
  "\<exists>sent taken b'. ib_run (\<lambda>x. x = 0) [Reserve, Send 7, Reserve, Take, Send 8, Settle] (InputBuffer_new 1 :: nat InputBuffer) =
       Inr (sent, taken, b') \<and> taken @ ib_contents b' = sent"
proof -
  have "ib_wf (\<lambda>x. x = 0) (InputBuffer_new 1 :: nat InputBuffer)" "ib_contents (InputBuffer_new 1 :: nat InputBuffer) = []"
    by (simp_all add: ib_wf_def InputBuffer_new_def Queue_new_def ib_contents_def ib_load_def)
  from input_buffer_bounded_fifo [OF this(1), of "[Reserve, Send 7, Reserve, Take, Send 8, Settle]"] this(2) show ?thesis by auto
qed

end
