(* ===== verification/MinorStage.thy ===== *)
theory MinorStage
  imports MinorBuffers
begin

text \<open>
  The Decode stage of the Minor pipeline and the Dummy stage the programming assignment puts between Decode and
  Execute (\<open>cpu/minor/decode.cc\<close>, \<open>cpu/minor/dummy.cc\<close>, \<open>pipe_data.cc\<close>, \<open>dyn_inst.hh\<close>). The Dummy
  stage is a copy of Decode but for the reset of \<open>inMacroop\<close> in \<open>popInput\<close>, so both are instances of one
  definition. Static instructions and PC states belong to the instruction set, which the build generates:
  they are type variables, and their operations a parameter. Tracing is left out.
\<close>

subsection \<open>Instructions\<close>

type_synonym InstSeqNum = u64

record InstId =
  id_threadId :: nat
  streamSeqNum :: InstSeqNum
  predictionSeqNum :: InstSeqNum
  lineSeqNum :: InstSeqNum
  fetchSeqNum :: InstSeqNum
  execSeqNum :: InstSeqNum

record ('si, 'pc) isa =
  isa_isMacroop :: "'si \<Rightarrow> bool"
  isa_isLastMicroop :: "'si \<Rightarrow> bool"
  isa_fetchMicroop :: "'si \<Rightarrow> 16 word \<Rightarrow> 'si"
  isa_microPC :: "'pc \<Rightarrow> 16 word"
  isa_advancePC :: "'si \<Rightarrow> 'pc \<Rightarrow> 'pc"
  isa_pc0 :: 'pc

text \<open>The members the stages read or write; a fault is present or not.\<close>

record ('si, 'pc) MinorDynInst =
  staticInst :: "'si option"
  inst_id :: InstId
  inst_pc :: 'pc
  inst_fault :: bool
  predictedTaken :: bool
  predictedTarget :: 'pc

definition MinorDynInst_new :: "('si, 'pc) isa \<Rightarrow> InstId \<Rightarrow> ('si, 'pc) MinorDynInst" where
  "MinorDynInst_new isa i = \<lparr>staticInst = None, inst_id = i, inst_pc = isa_pc0 isa, inst_fault = False,
     predictedTaken = False, predictedTarget = isa_pc0 isa\<rparr>"

definition inst_isBubble :: "('si, 'pc) MinorDynInst \<Rightarrow> bool" where
  "inst_isBubble inst \<longleftrightarrow> fetchSeqNum (inst_id inst) = 0"

definition inst_isFault :: "('si, 'pc) MinorDynInst \<Rightarrow> bool" where
  "inst_isFault inst \<longleftrightarrow> inst_fault inst"

definition bubbleInst :: "('si, 'pc) isa \<Rightarrow> ('si, 'pc) MinorDynInst" where
  "bubbleInst isa = MinorDynInst_new isa \<lparr>id_threadId = 0, streamSeqNum = 0, predictionSeqNum = 0, lineSeqNum = 0,
     fetchSeqNum = 0, execSeqNum = 0\<rparr>"

subsection \<open>Data between the stages\<close>

text \<open>\<open>numInsts\<close> is the length of the list; the array has room for \<open>MAX_FORWARD_INSTS\<close>.\<close>

record ('si, 'pc) ForwardInstData =
  fid_insts :: "('si, 'pc) MinorDynInst list"
  fid_threadId :: nat

definition MAX_FORWARD_INSTS :: nat where
  "MAX_FORWARD_INSTS = 16"

definition InvalidThreadID :: nat where
  "InvalidThreadID = 2 ^ 16 - 1"

definition ForwardInstData_new :: "('si, 'pc) ForwardInstData" where
  "ForwardInstData_new = \<lparr>fid_insts = [], fid_threadId = InvalidThreadID\<rparr>"

definition fid_isBubble :: "('si, 'pc) ForwardInstData \<Rightarrow> bool" where
  "fid_isBubble f \<longleftrightarrow> length (fid_insts f) = 0 \<or> inst_isBubble (fid_insts f ! 0)"

definition bubbleFill :: "('si, 'pc) isa \<Rightarrow> ('si, 'pc) ForwardInstData \<Rightarrow> ('si, 'pc) ForwardInstData" where
  "bubbleFill isa f = f\<lparr>fid_insts := replicate (length (fid_insts f)) (bubbleInst isa)\<rparr>"

definition fid_resize :: "('si, 'pc) isa \<Rightarrow> nat \<Rightarrow> ('si, 'pc) ForwardInstData \<Rightarrow> ('si, 'pc) ForwardInstData res" where
  "fid_resize isa width f =
     (if width < MAX_FORWARD_INSTS
      then Inr (bubbleFill isa (f\<lparr>fid_insts := replicate width (bubbleInst isa)\<rparr>)) else Inl AssertFailed)"

subsection \<open>State of a stage\<close>

datatype ThreadPolicy = SingleThreaded | RoundRobin | RandomPolicy

record stage_cfg =
  outputWidth :: nat
  processMoreThanOneInput :: bool
  numThreads :: nat
  threadPolicy :: ThreadPolicy

record 'pc ThreadInfo =
  inputIndex :: nat
  inMacroop :: bool
  microopPC :: 'pc
  ti_execSeqNum :: InstSeqNum
  blocked :: bool

record ('si, 'pc) Stage =
  inputBuffer :: "('si, 'pc) ForwardInstData InputBuffer list"
  threadInfo :: "'pc ThreadInfo list"
  threadPriority :: nat

definition ThreadInfo_new :: "'pc \<Rightarrow> 'pc ThreadInfo" where
  "ThreadInfo_new pc = \<lparr>inputIndex = 0, inMacroop = False, microopPC = pc, ti_execSeqNum = 1, blocked = False\<rparr>"

definition Stage_new :: "('si, 'pc) isa \<Rightarrow> nat \<Rightarrow> u32 \<Rightarrow> nat \<Rightarrow> ('si, 'pc) Stage res" where
  "Stage_new isa width bufferSize n =
     (if width < 1 then Inl FatalError
      else if bufferSize < 1 then Inl FatalError
      else Inr \<lparr>inputBuffer = replicate n (InputBuffer_new bufferSize),
                threadInfo = replicate n (ThreadInfo_new (isa_pc0 isa)), threadPriority = 0\<rparr>)"

subsection \<open>Operations\<close>

definition getInput :: "('si, 'pc) ForwardInstData InputBuffer \<Rightarrow> ('si, 'pc) ForwardInstData option res" where
  "getInput ib =
     (if \<not> ib_empty ib then rbind (ib_front ib) (\<lambda>head. Inr (if fid_isBubble head then None else Some head))
      else Inr None)"

definition dummy_popInfo :: "'pc ThreadInfo \<Rightarrow> 'pc ThreadInfo" where
  "dummy_popInfo info = info\<lparr>inputIndex := 0\<rparr>"

definition decode_popInfo :: "'pc ThreadInfo \<Rightarrow> 'pc ThreadInfo" where
  "decode_popInfo info = info\<lparr>inputIndex := 0, inMacroop := False\<rparr>"

definition popInput :: "('pc ThreadInfo \<Rightarrow> 'pc ThreadInfo) \<Rightarrow> ('si, 'pc) ForwardInstData InputBuffer \<Rightarrow> 'pc ThreadInfo \<Rightarrow>
    (('si, 'pc) ForwardInstData InputBuffer \<times> 'pc ThreadInfo) res" where
  "popInput popInfo ib info =
     rbind (if \<not> ib_empty ib then ib_pop ib else Inr ib) (\<lambda>ib. Inr (ib, popInfo info))"

text \<open>One instruction of the packing loop that is not a bubble: the state after it and the instruction to output.\<close>

definition stage_inst :: "('si, 'pc) isa \<Rightarrow> ('si, 'pc) MinorDynInst \<Rightarrow> 'pc ThreadInfo \<Rightarrow>
    ('pc ThreadInfo \<times> ('si, 'pc) MinorDynInst) res" where
  "stage_inst isa inst info =
     (if inst_isFault inst then Inr (info\<lparr>inputIndex := inputIndex info + 1, inMacroop := False\<rparr>, inst)
      else case staticInst inst of
        None \<Rightarrow> Inl NullDeref
      | Some static_inst \<Rightarrow>
          if isa_isMacroop isa static_inst then
            let info = (if \<not> inMacroop info then info\<lparr>microopPC := inst_pc inst, inMacroop := True\<rparr> else info);
                static_micro_inst = isa_fetchMicroop isa static_inst (isa_microPC isa (microopPC info));
                output_inst = (MinorDynInst_new isa (inst_id inst))\<lparr>inst_pc := microopPC info,
                    staticInst := Some static_micro_inst, inst_fault := False\<rparr>;
                output_inst = (if isa_isLastMicroop isa static_micro_inst
                    then output_inst\<lparr>predictedTaken := predictedTaken inst, predictedTarget := predictedTarget inst\<rparr>
                    else output_inst);
                info = info\<lparr>microopPC := isa_advancePC isa static_micro_inst (microopPC info)\<rparr>;
                info = (if isa_isLastMicroop isa static_micro_inst
                    then info\<lparr>inputIndex := inputIndex info + 1, inMacroop := False\<rparr> else info)
            in Inr (info, output_inst)
          else Inr (info\<lparr>inputIndex := inputIndex info + 1, inMacroop := False\<rparr>, inst))"

text \<open>Numbering an instruction and writing it to the output.\<close>

definition stage_emit :: "('si, 'pc) isa \<Rightarrow> nat \<Rightarrow> ('si, 'pc) MinorDynInst \<Rightarrow> 'pc ThreadInfo \<Rightarrow> ('si, 'pc) ForwardInstData \<Rightarrow> nat \<Rightarrow>
    ('pc ThreadInfo \<times> ('si, 'pc) ForwardInstData) res" where
  "stage_emit isa width output_inst info insts_out output_index =
     (let output_inst = output_inst\<lparr>inst_id := (inst_id output_inst)\<lparr>execSeqNum := ti_execSeqNum info\<rparr>\<rparr>;
          info = info\<lparr>ti_execSeqNum := ti_execSeqNum info + 1\<rparr>
      in rbind (if output_index = 0 then fid_resize isa width insts_out else Inr insts_out) (\<lambda>insts_out.
           if output_index < length (fid_insts insts_out)
           then Inr (info, insts_out\<lparr>fid_insts := (fid_insts insts_out)[output_index := output_inst]\<rparr>)
           else Inl OutOfRange))"

text \<open>The body of the packing loop up to the test for the end of the input: the new state, output and output index.\<close>

definition stage_slot :: "('si, 'pc) isa \<Rightarrow> nat \<Rightarrow> ('si, 'pc) MinorDynInst \<Rightarrow> 'pc ThreadInfo \<Rightarrow> ('si, 'pc) ForwardInstData \<Rightarrow> nat \<Rightarrow>
    ('pc ThreadInfo \<times> ('si, 'pc) ForwardInstData \<times> nat) res" where
  "stage_slot isa width inst info insts_out output_index =
     (if inst_isBubble inst
      then Inr (info\<lparr>inputIndex := inputIndex info + 1, inMacroop := False\<rparr>, insts_out, output_index)
      else
        rbind (stage_inst isa inst info) (\<lambda>(info, output_inst).
        rbind (stage_emit isa width output_inst info insts_out output_index) (\<lambda>(info, insts_out).
          Inr (info, insts_out, output_index + 1))))"

lemma stage_slot_index:
  "stage_slot isa width inst info out oi = Inr (info', out', oi') \<Longrightarrow> oi' = (if inst_isBubble inst then oi else oi + 1) \<and>
     (inst_isBubble inst \<longrightarrow> inputIndex info' = inputIndex info + 1)"
  by (auto simp: stage_slot_def rbind_eq_Inr split: if_splits)

lemma getInput_popped:
  assumes "ib_contents ib = x # xs" and "ib_pop ib = Inr ib'"
  shows "length (ib_contents ib') < length (ib_contents ib)"
  using assms by (auto simp: ib_pop_def ib_contents_def q_pop_def q_freeReservation_def split: option.splits list.splits)

lemma popInput_shorter:
  assumes "popInput popInfo ib info = Inr (ib', info')" and "getInput ib' = Inr (Some line)"
  shows "length (ib_contents ib') < length (ib_contents ib)"
proof (cases "ib_contents ib")
  case Nil
  then have "ib' = ib" "ib_empty ib" using assms(1) by (auto simp: popInput_def ib_empty_contents)
  then show ?thesis using assms(2) by (simp add: getInput_def)
next
  case (Cons x xs)
  then show ?thesis using assms(1) getInput_popped [OF Cons] by (auto simp: popInput_def ib_empty_contents rbind_eq_Inr)
qed

text \<open>
  The packing loop. Each round either fills an output slot or passes a bubble or the end of an input
  line, so the loop ends: the free output slots, the lines left and the instructions left of the line decrease
  lexicographically.
\<close>

function stage_loop :: "('si, 'pc) isa \<Rightarrow> stage_cfg \<Rightarrow> ('pc ThreadInfo \<Rightarrow> 'pc ThreadInfo) \<Rightarrow> ('si, 'pc) ForwardInstData option \<Rightarrow>
    ('si, 'pc) ForwardInstData InputBuffer \<Rightarrow> 'pc ThreadInfo \<Rightarrow> ('si, 'pc) ForwardInstData \<Rightarrow> nat \<Rightarrow>
    (('si, 'pc) ForwardInstData InputBuffer \<times> 'pc ThreadInfo \<times> ('si, 'pc) ForwardInstData) res" where
  "stage_loop isa cfg popInfo insts_in ib info insts_out output_index =
     (case insts_in of
        None \<Rightarrow> Inr (ib, info, insts_out)
      | Some line \<Rightarrow>
          if inputIndex info < length (fid_insts line) \<and> output_index < outputWidth cfg then
            rbind (stage_slot isa (outputWidth cfg) (fid_insts line ! inputIndex info) info insts_out output_index)
              (\<lambda>(info', insts_out', output_index').
                if inputIndex info' = length (fid_insts line) then
                  (if inMacroop info' then Inl AssertFailed
                   else rbind (popInput popInfo ib info') (\<lambda>(ib', info'').
                     rbind (if processMoreThanOneInput cfg then getInput ib' else Inr None) (\<lambda>insts_in'.
                       stage_loop isa cfg popInfo insts_in' ib' info'' insts_out' output_index')))
                else stage_loop isa cfg popInfo insts_in ib info' insts_out' output_index')
          else Inr (ib, info, insts_out))"
  by pat_completeness auto
termination
proof (relation "measures [\<lambda>(isa, cfg, popInfo, insts_in, ib, info, insts_out, oi). outputWidth cfg - oi,
    \<lambda>(isa, cfg, popInfo, insts_in, ib, info, insts_out, oi). case insts_in of None \<Rightarrow> 0 | Some _ \<Rightarrow> Suc (length (ib_contents ib)),
    \<lambda>(isa, cfg, popInfo, insts_in, ib, info, insts_out, oi).
      case insts_in of None \<Rightarrow> 0 | Some line \<Rightarrow> length (fid_insts line) - inputIndex info]", goal_cases)
  case prems: (2 isa cfg popInfo insts_in ib info insts_out oi line x info' y insts_out' oi' z ib' info'' insts_in')
  then show ?case
    using stage_slot_index [of isa "outputWidth cfg" _ info insts_out oi info' insts_out' oi']
      popInput_shorter [of popInfo ib info' ib' info'']
    by (auto split: if_splits option.splits)
next
  case prems: (3 isa cfg popInfo insts_in ib info insts_out oi line x info' y insts_out' oi')
  then show ?case
    using stage_slot_index [of isa "outputWidth cfg" _ info insts_out oi info' insts_out' oi']
    by (auto split: if_splits)
qed simp

declare stage_loop.simps [simp del]

definition roundRobinPriority :: "nat \<Rightarrow> nat \<Rightarrow> nat list" where
  "roundRobinPriority n priority = map (\<lambda>i. (priority + i) mod n) [1..<n + 1]"

text \<open>The order \<open>std::random_shuffle\<close> gives to the threads is the argument \<open>shuffle\<close>.\<close>

definition randomPriority :: "(nat list \<Rightarrow> nat list) \<Rightarrow> nat \<Rightarrow> nat list" where
  "randomPriority shuffle n = shuffle [0..<n]"

definition priority_list :: "stage_cfg \<Rightarrow> (nat list \<Rightarrow> nat list) \<Rightarrow> nat \<Rightarrow> nat list" where
  "priority_list cfg shuffle priority =
     (case threadPolicy cfg of
        SingleThreaded \<Rightarrow> [0]
      | RoundRobin \<Rightarrow> roundRobinPriority (numThreads cfg) priority
      | RandomPolicy \<Rightarrow> randomPriority shuffle (numThreads cfg))"

fun sched_loop :: "('si, 'pc) Stage \<Rightarrow> nat list \<Rightarrow> nat option res" where
  "sched_loop st [] = Inr None"
| "sched_loop st (tid # tids) =
     rbind (vget (inputBuffer st) tid) (\<lambda>ib.
     rbind (getInput ib) (\<lambda>input.
     rbind (vget (threadInfo st) tid) (\<lambda>info.
       if input \<noteq> None \<and> \<not> blocked info then Inr (Some tid) else sched_loop st tids)))"

definition getScheduledThread :: "stage_cfg \<Rightarrow> (nat list \<Rightarrow> nat list) \<Rightarrow> ('si, 'pc) Stage \<Rightarrow> (nat option \<times> ('si, 'pc) Stage) res" where
  "getScheduledThread cfg shuffle st =
     rbind (sched_loop st (priority_list cfg shuffle (threadPriority st))) (\<lambda>r.
       Inr (case r of None \<Rightarrow> (None, st) | Some tid \<Rightarrow> (Some tid, st\<lparr>threadPriority := tid\<rparr>)))"

fun set_blocked :: "('si, 'pc) ForwardInstData InputBuffer list \<Rightarrow> nat list \<Rightarrow> 'pc ThreadInfo list \<Rightarrow> 'pc ThreadInfo list res" where
  "set_blocked nexts [] infos = Inr infos"
| "set_blocked nexts (tid # tids) infos =
     rbind (vget nexts tid) (\<lambda>next.
     rbind (vget infos tid) (\<lambda>info.
       set_blocked nexts tids (infos[tid := info\<lparr>blocked := \<not> ib_canReserve next\<rparr>])))"

text \<open>Whether the stage stays active: some thread has input and room in the next stage.\<close>

fun stage_active :: "('si, 'pc) Stage \<Rightarrow> ('si, 'pc) ForwardInstData InputBuffer list \<Rightarrow> nat list \<Rightarrow> bool res" where
  "stage_active st nexts [] = Inr False"
| "stage_active st nexts (i # is) =
     rbind (vget (inputBuffer st) i) (\<lambda>ib.
     rbind (getInput ib) (\<lambda>input.
     rbind (vget nexts i) (\<lambda>next.
       if input \<noteq> None \<and> ib_canReserve next then Inr True else stage_active st nexts is)))"

definition stage_accept :: "('si, 'pc) ForwardInstData \<Rightarrow> ('si, 'pc) Stage \<Rightarrow> ('si, 'pc) Stage res" where
  "stage_accept inp st =
     (if \<not> fid_isBubble inp then
        rbind (vget (inputBuffer st) (fid_threadId inp)) (\<lambda>ib.
        rbind (setTail fid_isBubble inp ib) (\<lambda>ib.
          Inr (st\<lparr>inputBuffer := (inputBuffer st)[fid_threadId inp := ib]\<rparr>)))
      else Inr st)"

definition stage_settle :: "('si, 'pc) ForwardInstData \<Rightarrow> ('si, 'pc) Stage \<Rightarrow> ('si, 'pc) Stage res" where
  "stage_settle inp st =
     (if \<not> fid_isBubble inp then
        rbind (vget (inputBuffer st) (fid_threadId inp)) (\<lambda>ib.
          Inr (st\<lparr>inputBuffer := (inputBuffer st)[fid_threadId inp := pushTail fid_isBubble ib]\<rparr>))
      else Inr st)"

text \<open>
  \<open>evaluate\<close>: \<open>inp\<close> is what the input wire holds, \<open>insts_out\<close> the word at the output wire, \<open>nexts\<close> the
  input buffers of the next stage. The result is the stage, the output, the next stage's buffers and
  whether the stage marks itself active. With no thread scheduled and no output, \<open>insts_out.threadId\<close> is not written.
\<close>

definition stage_pack :: "('si, 'pc) isa \<Rightarrow> stage_cfg \<Rightarrow> ('pc ThreadInfo \<Rightarrow> 'pc ThreadInfo) \<Rightarrow> nat option \<Rightarrow> ('si, 'pc) Stage \<Rightarrow>
    ('si, 'pc) ForwardInstData \<Rightarrow> (('si, 'pc) Stage \<times> ('si, 'pc) ForwardInstData) res" where
  "stage_pack isa cfg popInfo tid st insts_out =
     (case tid of
        None \<Rightarrow> Inr (st, insts_out)
      | Some tid \<Rightarrow>
          rbind (vget (inputBuffer st) tid) (\<lambda>ib.
          rbind (vget (threadInfo st) tid) (\<lambda>info.
          rbind (getInput ib) (\<lambda>insts_in.
          rbind (stage_loop isa cfg popInfo insts_in ib info insts_out 0) (\<lambda>(ib, info, insts_out).
            Inr (st\<lparr>inputBuffer := (inputBuffer st)[tid := ib], threadInfo := (threadInfo st)[tid := info]\<rparr>, insts_out))))))"

definition stage_reserve :: "nat option \<Rightarrow> ('si, 'pc) ForwardInstData \<Rightarrow> ('si, 'pc) ForwardInstData InputBuffer list \<Rightarrow>
    (('si, 'pc) ForwardInstData \<times> ('si, 'pc) ForwardInstData InputBuffer list) res" where
  "stage_reserve tid insts_out nexts =
     (if \<not> fid_isBubble insts_out then
        (let t = (case tid of None \<Rightarrow> InvalidThreadID | Some t \<Rightarrow> t) in
         rbind (vget nexts t) (\<lambda>next. Inr (insts_out\<lparr>fid_threadId := t\<rparr>, nexts[t := ib_reserve next])))
      else Inr (insts_out, nexts))"

definition stage_evaluate :: "('si, 'pc) isa \<Rightarrow> stage_cfg \<Rightarrow> ('pc ThreadInfo \<Rightarrow> 'pc ThreadInfo) \<Rightarrow> (nat list \<Rightarrow> nat list) \<Rightarrow>
    ('si, 'pc) ForwardInstData \<Rightarrow> ('si, 'pc) ForwardInstData \<Rightarrow> ('si, 'pc) ForwardInstData InputBuffer list \<Rightarrow> ('si, 'pc) Stage \<Rightarrow>
    (('si, 'pc) Stage \<times> ('si, 'pc) ForwardInstData \<times> ('si, 'pc) ForwardInstData InputBuffer list \<times> bool) res" where
  "stage_evaluate isa cfg popInfo shuffle inp insts_out nexts st =
     rbind (stage_accept inp st) (\<lambda>st.
     if \<not> fid_isBubble insts_out then Inl AssertFailed
     else
       rbind (set_blocked nexts [0..<numThreads cfg] (threadInfo st)) (\<lambda>infos.
       rbind (getScheduledThread cfg shuffle (st\<lparr>threadInfo := infos\<rparr>)) (\<lambda>(tid, st).
       rbind (stage_pack isa cfg popInfo tid st insts_out) (\<lambda>(st, insts_out).
       rbind (stage_reserve tid insts_out nexts) (\<lambda>(insts_out, nexts).
       rbind (stage_active st nexts [0..<numThreads cfg]) (\<lambda>active.
       rbind (stage_settle inp st) (\<lambda>st.
         Inr (st, insts_out, nexts, active))))))))"

definition stage_isDrained :: "('si, 'pc) ForwardInstData \<Rightarrow> ('si, 'pc) Stage \<Rightarrow> bool" where
  "stage_isDrained inp st \<longleftrightarrow> list_all ib_empty (inputBuffer st) \<and> fid_isBubble inp"

text \<open>The two stages.\<close>

definition Dummy_evaluate where
  "Dummy_evaluate isa cfg = stage_evaluate isa cfg dummy_popInfo"

definition Decode_evaluate where
  "Decode_evaluate isa cfg = stage_evaluate isa cfg decode_popInfo"

subsection \<open>The packing loop keeps the program order\<close>

text \<open>An instruction that needs no decomposition, as every instruction is that leaves Decode.\<close>

definition inst_plain :: "('si, 'pc) isa \<Rightarrow> ('si, 'pc) MinorDynInst \<Rightarrow> bool" where
  "inst_plain isa inst \<longleftrightarrow> inst_isBubble inst \<or> inst_isFault inst \<or>
     (\<exists>si. staticInst inst = Some si \<and> \<not> isa_isMacroop isa si)"

definition line_ok :: "('si, 'pc) isa \<Rightarrow> ('si, 'pc) ForwardInstData \<Rightarrow> bool" where
  "line_ok isa line \<longleftrightarrow> (\<forall>inst \<in> set (fid_insts line). inst_plain isa inst)"

text \<open>The instruction slots a thread has still to process, and the instructions in them.\<close>

definition slots_of :: "('si, 'pc) ForwardInstData InputBuffer \<Rightarrow> 'pc ThreadInfo \<Rightarrow> ('si, 'pc) MinorDynInst list" where
  "slots_of ib info = drop (inputIndex info) (concat (map fid_insts (ib_contents ib)))"

definition real_insts :: "('si, 'pc) MinorDynInst list \<Rightarrow> ('si, 'pc) MinorDynInst list" where
  "real_insts xs = filter (\<lambda>x. \<not> inst_isBubble x) xs"

fun numbered :: "InstSeqNum \<Rightarrow> ('si, 'pc) MinorDynInst list \<Rightarrow> ('si, 'pc) MinorDynInst list" where
  "numbered n [] = []"
| "numbered n (x # xs) = x\<lparr>inst_id := (inst_id x)\<lparr>execSeqNum := n\<rparr>\<rparr> # numbered (n + 1) xs"

definition thread_wf :: "('si, 'pc) isa \<Rightarrow> ('si, 'pc) ForwardInstData InputBuffer \<Rightarrow> 'pc ThreadInfo \<Rightarrow> bool" where
  "thread_wf isa ib info \<longleftrightarrow> ib_wf fid_isBubble ib \<and> \<not> inMacroop info \<and> (\<forall>line \<in> set (ib_contents ib). line_ok isa line) \<and>
     (case ib_contents ib of [] \<Rightarrow> inputIndex info = 0 | line # _ \<Rightarrow> inputIndex info < length (fid_insts line))"

definition pop_ok :: "('pc ThreadInfo \<Rightarrow> 'pc ThreadInfo) \<Rightarrow> bool" where
  "pop_ok popInfo \<longleftrightarrow> (\<forall>i. inputIndex (popInfo i) = 0 \<and> ti_execSeqNum (popInfo i) = ti_execSeqNum i \<and>
     (inMacroop (popInfo i) \<longrightarrow> inMacroop i))"

lemma pop_ok_stages: "pop_ok dummy_popInfo" "pop_ok decode_popInfo"
  by (simp_all add: pop_ok_def dummy_popInfo_def decode_popInfo_def)

text \<open>An output word with \<open>k\<close> instructions in its first slots and bubbles behind them.\<close>

definition packed :: "('si, 'pc) isa \<Rightarrow> nat \<Rightarrow> ('si, 'pc) ForwardInstData \<Rightarrow> ('si, 'pc) MinorDynInst list \<Rightarrow> bool" where
  "packed isa W out xs \<longleftrightarrow> (if xs = [] then fid_isBubble out
     else fid_insts out = xs @ replicate (W - length xs) (bubbleInst isa))"

lemma stage_slot_plain:
  assumes "inst_plain isa inst" and "packed isa W out xs" and "length xs < W" and "W < MAX_FORWARD_INSTS" and "\<not> inst_isBubble inst"
  shows "\<exists>info' out'. stage_slot isa W inst info out (length xs) = Inr (info', out', Suc (length xs)) \<and>
     inputIndex info' = Suc (inputIndex info) \<and> \<not> inMacroop info' \<and> ti_execSeqNum info' = ti_execSeqNum info + 1 \<and>
     packed isa W out' (xs @ [inst\<lparr>inst_id := (inst_id inst)\<lparr>execSeqNum := ti_execSeqNum info\<rparr>\<rparr>])"
proof -
  let ?inst = "inst\<lparr>inst_id := (inst_id inst)\<lparr>execSeqNum := ti_execSeqNum info\<rparr>\<rparr>"
  let ?info = "info\<lparr>inputIndex := inputIndex info + 1, inMacroop := False\<rparr>"
  have i: "stage_inst isa inst info = Inr (?info, inst)"
    using assms(1,5) by (auto simp: stage_inst_def inst_plain_def)
  obtain W' where W: "W - length xs = Suc W'" using assms(3) by (cases "W - length xs") auto
  have "\<exists>out'. stage_emit isa W inst ?info out (length xs) = Inr (?info\<lparr>ti_execSeqNum := ti_execSeqNum info + 1\<rparr>, out') \<and>
      packed isa W out' (xs @ [?inst])"
  proof (cases "xs = []")
    case True
    then show ?thesis using assms(3,4) W
      by (cases W) (simp_all add: stage_emit_def fid_resize_def bubbleFill_def Let_def packed_def)
  next
    case False
    then have "fid_insts out = xs @ bubbleInst isa # replicate W' (bubbleInst isa)" "W - Suc (length xs) = W'"
      using assms(2) W by (auto simp: packed_def)
    then show ?thesis using False
      by (simp add: stage_emit_def Let_def packed_def list_update_append)
  qed
  then show ?thesis using i assms(5) by (auto simp: stage_slot_def)
qed

lemma numbered_append: "numbered n (xs @ ys) = numbered n xs @ numbered (n + of_nat (length xs)) ys"
  by (induction xs arbitrary: n) (auto simp: algebra_simps)

lemma numbered_length [simp]: "length (numbered n xs) = length xs"
  by (induction xs arbitrary: n) auto

lemma getInput_contents:
  assumes "ib_wf fid_isBubble ib"
  shows "getInput ib = Inr (case ib_contents ib of [] \<Rightarrow> None | line # _ \<Rightarrow> Some line)"
proof (cases "ib_contents ib")
  case (Cons line rest)
  then have "\<not> fid_isBubble line" using assms by (simp add: ib_wf_def)
  then show ?thesis using Cons ib_front_contents [OF Cons] by (simp add: getInput_def ib_empty_contents)
qed (simp add: getInput_def ib_empty_contents)

lemma line_nonempty: "ib_wf fid_isBubble ib \<Longrightarrow> ib_contents ib = line # rest \<Longrightarrow> 0 < length (fid_insts line)"
  by (auto simp: ib_wf_def fid_isBubble_def)

lemma popInput_ok:
  assumes "thread_wf isa ib info" and "ib_contents ib = line # rest" and "pop_ok popInfo" and "\<not> inMacroop info'"
  shows "\<exists>ib'. popInput popInfo ib info' = Inr (ib', popInfo info') \<and> thread_wf isa ib' (popInfo info') \<and> ib_contents ib' = rest \<and>
     slots_of ib' (popInfo info') = concat (map fid_insts rest) \<and> q_capacity (ib_queue ib') = q_capacity (ib_queue ib)"
proof -
  have wf: "ib_wf fid_isBubble ib" and ok: "\<forall>l \<in> set (line # rest). line_ok isa l"
    using assms(1,2) by (auto simp: thread_wf_def)
  from ib_pop_contents [OF wf assms(2)] obtain ib' where
    p: "ib_pop ib = Inr ib'" "ib_wf fid_isBubble ib'" "ib_contents ib' = rest" "q_capacity (ib_queue ib') = q_capacity (ib_queue ib)"
    by (auto elim: succeedsE)
  have i: "inputIndex (popInfo info') = 0" "\<not> inMacroop (popInfo info')" using assms(3,4) by (auto simp: pop_ok_def)
  have "thread_wf isa ib' (popInfo info')"
    using p i ok line_nonempty [OF p(2)] by (auto simp: thread_wf_def split: list.split)
  then show ?thesis using p assms(2) i by (auto simp: popInput_def ib_empty_contents slots_of_def)
qed

lemma slots_cons:
  assumes "thread_wf isa ib info" and "ib_contents ib = line # rest"
  shows "slots_of ib info = fid_insts line ! inputIndex info # drop (Suc (inputIndex info)) (fid_insts line) @ concat (map fid_insts rest)"
proof -
  have "inputIndex info < length (fid_insts line)" using assms by (simp add: thread_wf_def)
  then show ?thesis using assms(2) by (simp add: slots_of_def Cons_nth_drop_Suc)
qed

lemma thread_step:
  assumes "thread_wf isa ib info" and "ib_contents ib = line # rest" and "inputIndex info' = Suc (inputIndex info)"
    and "Suc (inputIndex info) \<noteq> length (fid_insts line)" and "\<not> inMacroop info'"
  shows "thread_wf isa ib info'" and "slots_of ib info = fid_insts line ! inputIndex info # slots_of ib info'"
proof -
  have i: "inputIndex info < length (fid_insts line)" using assms by (simp add: thread_wf_def)
  then show "thread_wf isa ib info'" using assms by (simp add: thread_wf_def)
  show "slots_of ib info = fid_insts line ! inputIndex info # slots_of ib info'"
    using slots_cons [OF assms(1,2)] assms(2,3) i by (simp add: slots_of_def Suc_leI)
qed

text \<open>One slot of the loop, bubble or not.\<close>

lemma stage_slot_ok:
  assumes "inst_plain isa inst" and "packed isa W out xs" and "length xs < W" and "W < MAX_FORWARD_INSTS"
  shows "\<exists>info' out'. stage_slot isa W inst info out (length xs) = Inr (info', out', length (xs @ numbered (ti_execSeqNum info) (real_insts [inst]))) \<and>
     inputIndex info' = Suc (inputIndex info) \<and> \<not> inMacroop info' \<and>
     ti_execSeqNum info' = ti_execSeqNum info + of_nat (length (real_insts [inst])) \<and>
     packed isa W out' (xs @ numbered (ti_execSeqNum info) (real_insts [inst]))"
proof (cases "inst_isBubble inst")
  case True
  then show ?thesis using assms(2) by (simp add: stage_slot_def real_insts_def)
next
  case False
  from stage_slot_plain [OF assms False] show ?thesis using False by (simp add: real_insts_def)
qed

lemma stage_loop_ok:
  assumes "pop_ok popInfo" and "outputWidth cfg < MAX_FORWARD_INSTS"
    and "thread_wf isa ib info" and "\<And>line. insts_in = Some line \<Longrightarrow> \<exists>rest. ib_contents ib = line # rest"
    and "packed isa (outputWidth cfg) out xs" and "oi = length xs" and "length xs \<le> outputWidth cfg"
  shows "\<exists>ib' info' out' ys. stage_loop isa cfg popInfo insts_in ib info out oi = Inr (ib', info', out') \<and> thread_wf isa ib' info' \<and>
     slots_of ib info = ys @ slots_of ib' info' \<and>
     packed isa (outputWidth cfg) out' (xs @ numbered (ti_execSeqNum info) (real_insts ys)) \<and>
     length xs + length (real_insts ys) \<le> outputWidth cfg \<and> (insts_in \<noteq> None \<and> oi < outputWidth cfg \<longrightarrow> ys \<noteq> []) \<and>
     ti_execSeqNum info' = ti_execSeqNum info + of_nat (length (real_insts ys))"
  using assms
proof (induction isa cfg popInfo insts_in ib info out oi arbitrary: xs rule: stage_loop.induct)
  case (1 isa cfg popInfo insts_in ib info out oi)
  note IH = "1.IH" and P = "1.prems"
  show ?case
  proof (cases "insts_in = None \<or> \<not> oi < outputWidth cfg")
    case True
    then have "stage_loop isa cfg popInfo insts_in ib info out oi = Inr (ib, info, out)"
      by (subst stage_loop.simps) (auto split: option.split)
    then show ?thesis using P True by (auto simp: real_insts_def intro!: exI [of _ "[]"])
  next
    case False
    then obtain line where line: "insts_in = Some line" by auto
    then obtain rest where c: "ib_contents ib = line # rest" using P(4) by blast
    have lt: "oi < outputWidth cfg" "inputIndex info < length (fid_insts line)" using False P(3) c by (auto simp: thread_wf_def)
    let ?inst = "fid_insts line ! inputIndex info" and ?n = "ti_execSeqNum info"
    have pl: "inst_plain isa ?inst" using P(3) c lt(2) by (auto simp: thread_wf_def line_ok_def)
    let ?xs = "xs @ numbered ?n (real_insts [?inst])"
    obtain info1 out1 where s: "stage_slot isa (outputWidth cfg) ?inst info out oi = Inr (info1, out1, length ?xs)"
      "inputIndex info1 = Suc (inputIndex info)" "\<not> inMacroop info1" "ti_execSeqNum info1 = ?n + of_nat (length (real_insts [?inst]))"
      "packed isa (outputWidth cfg) out1 ?xs"
      using stage_slot_ok [OF pl P(5) _ P(2), of info] lt(1) P(6) by auto
    have len: "length ?xs \<le> outputWidth cfg" using lt(1) P(6) by (simp add: real_insts_def)
    have join: "real_insts (?inst # ys) = real_insts [?inst] @ real_insts ys" for ys by (simp add: real_insts_def)
    show ?thesis
    proof (cases "inputIndex info1 = length (fid_insts line)")
      case False
      have st: "thread_wf isa ib info1" "slots_of ib info = ?inst # slots_of ib info1"
        using thread_step [OF P(3) c s(2) _ s(3)] False s(2) by auto
      have run: "stage_loop isa cfg popInfo insts_in ib info out oi = stage_loop isa cfg popInfo insts_in ib info1 out1 (length ?xs)"
        using line lt s(1) False by (subst stage_loop.simps) simp
      from IH(2) [OF line _ s(1) refl refl False P(1,2) st(1) P(4) s(5) refl len] lt obtain ib' info' out' ys where
        r: "stage_loop isa cfg popInfo insts_in ib info1 out1 (length ?xs) = Inr (ib', info', out')" "thread_wf isa ib' info'"
        "slots_of ib info1 = ys @ slots_of ib' info'"
        "packed isa (outputWidth cfg) out' (?xs @ numbered (ti_execSeqNum info1) (real_insts ys))"
        "length ?xs + length (real_insts ys) \<le> outputWidth cfg"
        "ti_execSeqNum info' = ti_execSeqNum info1 + of_nat (length (real_insts ys))" by blast
      then show ?thesis
        using run st(2) s(4) by (intro exI [of _ ib'] exI [of _ info'] exI [of _ out'] exI [of _ "?inst # ys"])
          (simp add: join [of ys] numbered_append algebra_simps)
    next
      case True
      obtain ib1 where p: "popInput popInfo ib info1 = Inr (ib1, popInfo info1)" "thread_wf isa ib1 (popInfo info1)"
        "ib_contents ib1 = rest" "slots_of ib1 (popInfo info1) = concat (map fid_insts rest)"
        using popInput_ok [OF P(3) c P(1) s(3)] by blast
      have sl: "slots_of ib info = ?inst # slots_of ib1 (popInfo info1)"
        using slots_cons [OF P(3) c] True s(2) p(4) by simp
      have seq: "ti_execSeqNum (popInfo info1) = ti_execSeqNum info1" using P(1) by (simp add: pop_ok_def)
      define next_in where "next_in = (if processMoreThanOneInput cfg then case rest of [] \<Rightarrow> None | l # _ \<Rightarrow> Some l else None)"
      have gi: "(if processMoreThanOneInput cfg then getInput ib1 else Inr None) = Inr next_in"
        using getInput_contents [of ib1] p(2,3) by (auto simp: thread_wf_def next_in_def)
      have ni: "\<exists>r. ib_contents ib1 = l # r" if "next_in = Some l" for l
        using that p(3) by (auto simp: next_in_def split: if_splits list.splits)
      have run: "stage_loop isa cfg popInfo insts_in ib info out oi = stage_loop isa cfg popInfo next_in ib1 (popInfo info1) out1 (length ?xs)"
        using line lt s(1,3) True p(1) gi by (subst stage_loop.simps) simp
      from IH(1) [OF line _ s(1) refl refl True s(3) p(1) refl gi P(1,2) p(2) ni s(5) refl len] lt obtain ib' info' out' ys where
        r: "stage_loop isa cfg popInfo next_in ib1 (popInfo info1) out1 (length ?xs) = Inr (ib', info', out')" "thread_wf isa ib' info'"
        "slots_of ib1 (popInfo info1) = ys @ slots_of ib' info'"
        "packed isa (outputWidth cfg) out' (?xs @ numbered (ti_execSeqNum (popInfo info1)) (real_insts ys))"
        "length ?xs + length (real_insts ys) \<le> outputWidth cfg"
        "ti_execSeqNum info' = ti_execSeqNum (popInfo info1) + of_nat (length (real_insts ys))" by blast
      then show ?thesis
        using run sl s(4) seq by (intro exI [of _ ib'] exI [of _ info'] exI [of _ out'] exI [of _ "?inst # ys"])
          (simp add: join [of ys] numbered_append algebra_simps)
    qed
  qed
qed

lemma popInput_settled:
  "popInput popInfo ib info = Inr (ib', info') \<Longrightarrow> elementPtr ib = None \<Longrightarrow> elementPtr ib' = None"
  by (auto simp: popInput_def ib_pop_def rbind_eq_Inr q_pop_def split: if_splits list.splits)

lemma stage_loop_settled:
  "stage_loop isa cfg popInfo insts_in ib info out oi = Inr (ib', info', out') \<Longrightarrow> elementPtr ib = None \<Longrightarrow> elementPtr ib' = None"
proof (induction isa cfg popInfo insts_in ib info out oi rule: stage_loop.induct)
  case (1 isa cfg popInfo insts_in ib info out oi)
  show ?case
  proof (cases insts_in)
    case None
    then show ?thesis using "1.prems" by (subst (asm) stage_loop.simps) simp
  next
    case (Some line)
    show ?thesis
    proof (cases "inputIndex info < length (fid_insts line) \<and> oi < outputWidth cfg")
      case True
      with "1.prems"(1) Some obtain info1 out1 oi1 where
        s: "stage_slot isa (outputWidth cfg) (fid_insts line ! inputIndex info) info out oi = Inr (info1, out1, oi1)"
        and r: "(if inputIndex info1 = length (fid_insts line) then
            (if inMacroop info1 then Inl AssertFailed
             else rbind (popInput popInfo ib info1) (\<lambda>(ib', info'').
               rbind (if processMoreThanOneInput cfg then getInput ib' else Inr None) (\<lambda>insts_in'.
                 stage_loop isa cfg popInfo insts_in' ib' info'' out1 oi1)))
          else stage_loop isa cfg popInfo insts_in ib info1 out1 oi1) = Inr (ib', info', out')"
        by (subst (asm) stage_loop.simps) (auto simp: rbind_eq_Inr)
      show ?thesis
      proof (cases "inputIndex info1 = length (fid_insts line)")
        case end_of_line: True
        have nm: "\<not> inMacroop info1" using r end_of_line by (cases "inMacroop info1") simp_all
        with r end_of_line obtain ib1 info2 in1 where p: "popInput popInfo ib info1 = Inr (ib1, info2)"
          "(if processMoreThanOneInput cfg then getInput ib1 else Inr None) = Inr in1"
          "stage_loop isa cfg popInfo in1 ib1 info2 out1 oi1 = Inr (ib', info', out')"
          unfolding rbind_eq_Inr if_True if_False by (auto elim!: rbind_InrE)
        from "1.IH"(1) [OF Some True s refl refl end_of_line nm p(1) refl p(2,3)] popInput_settled [OF p(1) "1.prems"(2)]
        show ?thesis .
      next
        case False
        then show ?thesis using "1.IH"(2) [OF Some True s refl refl False] r "1.prems"(2) by simp
      qed
    next
      case False
      then show ?thesis using "1.prems" Some by (subst (asm) stage_loop.simps) auto
    qed
  qed
qed

subsection \<open>A whole cycle of a stage\<close>

definition stage_wf :: "('si, 'pc) isa \<Rightarrow> stage_cfg \<Rightarrow> ('si, 'pc) Stage \<Rightarrow> bool" where
  "stage_wf isa cfg st \<longleftrightarrow> length (inputBuffer st) = numThreads cfg \<and> length (threadInfo st) = numThreads cfg \<and>
     1 \<le> outputWidth cfg \<and> outputWidth cfg < MAX_FORWARD_INSTS \<and>
     (\<forall>t < numThreads cfg. thread_wf isa (inputBuffer st ! t) (threadInfo st ! t) \<and> elementPtr (inputBuffer st ! t) = None)"

definition stage_slots :: "('si, 'pc) Stage \<Rightarrow> nat \<Rightarrow> ('si, 'pc) MinorDynInst list" where
  "stage_slots st t = slots_of (inputBuffer st ! t) (threadInfo st ! t)"

text \<open>What a word on a wire brings for a thread.\<close>

definition word_insts :: "('si, 'pc) ForwardInstData \<Rightarrow> nat \<Rightarrow> ('si, 'pc) MinorDynInst list" where
  "word_insts w t = (if \<not> fid_isBubble w \<and> fid_threadId w = t then fid_insts w else [])"

text \<open>A word the stage may receive: for a thread of the processor, with a slot reserved, without macro-ops.\<close>

definition input_ok :: "('si, 'pc) isa \<Rightarrow> stage_cfg \<Rightarrow> ('si, 'pc) Stage \<Rightarrow> ('si, 'pc) ForwardInstData \<Rightarrow> bool" where
  "input_ok isa cfg st inp \<longleftrightarrow> fid_isBubble inp \<or> (fid_threadId inp < numThreads cfg \<and> line_ok isa inp \<and>
     0 < numReservedSlots (ib_queue (inputBuffer st ! fid_threadId inp)))"

definition sched_ok :: "stage_cfg \<Rightarrow> (nat list \<Rightarrow> nat list) \<Rightarrow> bool" where
  "sched_ok cfg shuffle \<longleftrightarrow> (\<forall>p. set (priority_list cfg shuffle p) = {..<numThreads cfg})"

lemma round_robin_covers: "0 < n \<Longrightarrow> set (roundRobinPriority n p) = {..<n}"
proof -
  assume n: "0 < n"
  have "t \<in> (\<lambda>i. (p + i) mod n) ` {1..<n + 1}" if "t < n" for t
  proof -
    define i where "i = (t + (n - p mod n)) mod n"
    have i: "i < n" using n by (simp add: i_def)
    have "(p + i) mod n = (p mod n + (t + (n - p mod n))) mod n" by (simp add: i_def mod_simps)
    also have "p mod n + (t + (n - p mod n)) = t + n" using mod_less_divisor [OF n, of p] by linarith
    finally have e: "(p + i) mod n = t" using that by simp
    show ?thesis
    proof (cases "i = 0")
      case True
      then have "(p + n) mod n = t" using e by simp
      then show ?thesis using n by (intro image_eqI [of _ _ n]) auto
    next
      case False
      then show ?thesis using e i by (intro image_eqI [of _ _ i]) auto
    qed
  qed
  moreover have "set (roundRobinPriority n p) = (\<lambda>i. (p + i) mod n) ` {1..<n + 1}"
    unfolding roundRobinPriority_def set_map set_upt ..
  ultimately show ?thesis using n by auto
qed

lemma accept_ok:
  assumes wf: "stage_wf isa cfg st" and inp: "input_ok isa cfg st inp"
  shows "\<exists>st1. stage_accept inp st = Inr st1 \<and> threadInfo st1 = threadInfo st \<and> threadPriority st1 = threadPriority st \<and>
     length (inputBuffer st1) = numThreads cfg \<and>
     (\<forall>t < numThreads cfg. thread_wf isa (inputBuffer st1 ! t) (threadInfo st ! t) \<and>
        slots_of (inputBuffer st1 ! t) (threadInfo st ! t) = stage_slots st t @ word_insts inp t \<and>
        (t = fid_threadId inp \<and> \<not> fid_isBubble inp \<or> elementPtr (inputBuffer st1 ! t) = None))"
proof (cases "fid_isBubble inp")
  case True
  then show ?thesis using wf by (simp add: stage_accept_def stage_wf_def word_insts_def stage_slots_def)
next
  case False
  let ?t = "fid_threadId inp" and ?n = "numThreads cfg"
  have t: "?t < ?n" "line_ok isa inp" "0 < numReservedSlots (ib_queue (inputBuffer st ! ?t))"
    using inp False by (auto simp: input_ok_def)
  have th: "thread_wf isa (inputBuffer st ! ?t) (threadInfo st ! ?t)" "elementPtr (inputBuffer st ! ?t) = None"
    using wf t(1) by (auto simp: stage_wf_def)
  then have ib: "ib_wf fid_isBubble (inputBuffer st ! ?t)" by (simp add: thread_wf_def)
  from setTail_contents [OF ib th(2) False t(3)] obtain ib' where
    ib': "setTail fid_isBubble inp (inputBuffer st ! ?t) = Inr ib'" "ib_wf fid_isBubble ib'"
    "ib_contents ib' = ib_contents (inputBuffer st ! ?t) @ [inp]" by (auto elim: succeedsE)
  have len: "0 < length (fid_insts inp)" using False by (simp add: fid_isBubble_def)
  have w: "thread_wf isa ib' (threadInfo st ! ?t)"
    using th(1) ib'(2,3) t(2) len by (cases "ib_contents (inputBuffer st ! ?t)") (auto simp: thread_wf_def)
  have "inputIndex (threadInfo st ! ?t) \<le> length (concat (map fid_insts (ib_contents (inputBuffer st ! ?t))))"
    using th(1) by (cases "ib_contents (inputBuffer st ! ?t)") (auto simp: thread_wf_def)
  then have sl: "slots_of ib' (threadInfo st ! ?t) = stage_slots st ?t @ word_insts inp ?t"
    using ib'(3) False by (simp add: slots_of_def stage_slots_def word_insts_def)
  let ?st = "st\<lparr>inputBuffer := (inputBuffer st)[?t := ib']\<rparr>"
  have "stage_accept inp st = Inr ?st" using False t(1) ib'(1) wf by (simp add: stage_accept_def vget_def stage_wf_def)
  then show ?thesis
    using wf t(1) w sl False
    by (auto simp: stage_wf_def nth_list_update word_insts_def stage_slots_def)
qed

lemma set_blocked_ok:
  assumes "length infos = n" and "length nexts = n" and "k \<le> n"
  shows "set_blocked nexts [k..<n] infos =
    Inr (map (\<lambda>t. if k \<le> t then (infos ! t)\<lparr>blocked := \<not> ib_canReserve (nexts ! t)\<rparr> else infos ! t) [0..<n])"
  using assms
proof (induction "n - k" arbitrary: k infos)
  case 0
  then have "k = n" by simp
  moreover have "infos = map (\<lambda>t. if n \<le> t then (infos ! t)\<lparr>blocked := \<not> ib_canReserve (nexts ! t)\<rparr> else infos ! t) [0..<n]"
    using 0 by (intro nth_equalityI) auto
  ultimately show ?case by simp
next
  case (Suc d)
  then have k: "k < n" by simp
  let ?infos = "infos[k := (infos ! k)\<lparr>blocked := \<not> ib_canReserve (nexts ! k)\<rparr>]"
  have "set_blocked nexts [k..<n] infos = set_blocked nexts [Suc k..<n] ?infos"
    using k Suc.prems by (simp add: upt_conv_Cons vget_def)
  also have "\<dots> = Inr (map (\<lambda>t. if Suc k \<le> t then (?infos ! t)\<lparr>blocked := \<not> ib_canReserve (nexts ! t)\<rparr> else ?infos ! t) [0..<n])"
    using Suc.hyps(1) [of "Suc k" ?infos] Suc.hyps(2) Suc.prems k by simp
  also have "\<dots> = Inr (map (\<lambda>t. if k \<le> t then (infos ! t)\<lparr>blocked := \<not> ib_canReserve (nexts ! t)\<rparr> else infos ! t) [0..<n])"
    using Suc.prems k by (auto simp: nth_list_update not_less_eq_eq)
  finally show ?case .
qed

definition threads_wf :: "('si, 'pc) isa \<Rightarrow> stage_cfg \<Rightarrow> ('si, 'pc) Stage \<Rightarrow> bool" where
  "threads_wf isa cfg st \<longleftrightarrow> length (inputBuffer st) = numThreads cfg \<and> length (threadInfo st) = numThreads cfg \<and>
     (\<forall>t < numThreads cfg. thread_wf isa (inputBuffer st ! t) (threadInfo st ! t))"

lemma thread_input:
  assumes "thread_wf isa ib info"
  shows "getInput ib = Inr (case ib_contents ib of [] \<Rightarrow> None | line # _ \<Rightarrow> Some line)" and "slots_of ib info = [] \<longleftrightarrow> ib_contents ib = []"
proof -
  show "getInput ib = Inr (case ib_contents ib of [] \<Rightarrow> None | line # _ \<Rightarrow> Some line)"
    using assms getInput_contents by (auto simp: thread_wf_def)
  show "slots_of ib info = [] \<longleftrightarrow> ib_contents ib = []"
    using slots_cons [OF assms] by (cases "ib_contents ib") (auto simp: slots_of_def)
qed

lemma sched_loop_ok:
  assumes "threads_wf isa cfg st" and "set ts \<subseteq> {..<numThreads cfg}"
  shows "\<exists>r. sched_loop st ts = Inr r \<and>
     (case r of None \<Rightarrow> \<forall>t \<in> set ts. ib_contents (inputBuffer st ! t) = [] \<or> blocked (threadInfo st ! t)
      | Some t \<Rightarrow> t \<in> set ts \<and> ib_contents (inputBuffer st ! t) \<noteq> [] \<and> \<not> blocked (threadInfo st ! t))"
  using assms(2)
proof (induction ts)
  case (Cons t ts)
  have t: "thread_wf isa (inputBuffer st ! t) (threadInfo st ! t)" "t < length (inputBuffer st)" "t < length (threadInfo st)"
    using Cons.prems assms(1) by (auto simp: threads_wf_def)
  from Cons obtain r where r: "sched_loop st ts = Inr r"
    "case r of None \<Rightarrow> \<forall>t \<in> set ts. ib_contents (inputBuffer st ! t) = [] \<or> blocked (threadInfo st ! t)
      | Some t \<Rightarrow> t \<in> set ts \<and> ib_contents (inputBuffer st ! t) \<noteq> [] \<and> \<not> blocked (threadInfo st ! t)" by auto
  show ?case
    using t thread_input(1) [OF t(1)] r by (cases r; cases "ib_contents (inputBuffer st ! t)") (auto simp: vget_def)
qed simp

lemma stage_active_total:
  assumes "threads_wf isa cfg st" and "length nexts = numThreads cfg" and "set ts \<subseteq> {..<numThreads cfg}"
  shows "stage_active st nexts ts \<noteq> Inl e"
  using assms(3)
proof (induction ts)
  case (Cons t ts)
  have t: "thread_wf isa (inputBuffer st ! t) (threadInfo st ! t)" "t < length (inputBuffer st)" "t < length nexts"
    using Cons.prems assms(1,2) by (auto simp: threads_wf_def)
  then show ?case using Cons thread_input(1) [OF t(1)] by (auto simp: vget_def)
qed simp

lemma numbered_bubbles: "(\<forall>x \<in> set (numbered n xs). \<not> inst_isBubble x) \<longleftrightarrow> (\<forall>x \<in> set xs. \<not> inst_isBubble x)"
  by (induction xs arbitrary: n) (auto simp: inst_isBubble_def)

lemma real_numbered: "real_insts (numbered n (real_insts xs)) = numbered n (real_insts xs)"
  by (simp add: real_insts_def filter_id_conv numbered_bubbles)

lemma packed_real:
  assumes "packed isa W out (numbered n (real_insts ys))"
  shows "fid_isBubble out \<longleftrightarrow> real_insts ys = []" and "\<not> fid_isBubble out \<Longrightarrow> real_insts (fid_insts out) = numbered n (real_insts ys)"
proof -
  have b: "real_insts (replicate k (bubbleInst isa)) = []" for k
    by (simp add: real_insts_def bubbleInst_def MinorDynInst_new_def inst_isBubble_def)
  have e: "numbered n (real_insts ys) = [] \<longleftrightarrow> real_insts ys = []" by (cases "real_insts ys") auto
  show f: "fid_isBubble out \<longleftrightarrow> real_insts ys = []"
  proof (cases "real_insts ys")
    case (Cons x xs)
    then have "\<not> inst_isBubble x" by (metis Cons_eq_filterD real_insts_def)
    then show ?thesis using assms Cons e by (auto simp: packed_def fid_isBubble_def inst_isBubble_def)
  qed (use assms e in \<open>simp add: packed_def\<close>)
  assume "\<not> fid_isBubble out"
  then have "fid_insts out = numbered n (real_insts ys) @ replicate (W - length (numbered n (real_insts ys))) (bubbleInst isa)"
    using assms f e by (auto simp: packed_def)
  then have "real_insts (fid_insts out) = real_insts (numbered n (real_insts ys)) @ real_insts (replicate (W - length (numbered n (real_insts ys))) (bubbleInst isa))"
    by (simp add: real_insts_def)
  then show "real_insts (fid_insts out) = numbered n (real_insts ys)" using b real_numbered by simp
qed

lemma settle_ok:
  assumes "threads_wf isa cfg st" and "1 \<le> outputWidth cfg" and "outputWidth cfg < MAX_FORWARD_INSTS"
    and "\<not> fid_isBubble inp \<Longrightarrow> fid_threadId inp < numThreads cfg"
    and "\<forall>t < numThreads cfg. t = fid_threadId inp \<and> \<not> fid_isBubble inp \<or> elementPtr (inputBuffer st ! t) = None"
  shows "\<exists>st'. stage_settle inp st = Inr st' \<and> stage_wf isa cfg st' \<and> threadInfo st' = threadInfo st \<and>
     (\<forall>t < numThreads cfg. stage_slots st' t = stage_slots st t)"
proof (cases "fid_isBubble inp")
  case True
  then show ?thesis using assms by (auto simp: stage_settle_def stage_wf_def threads_wf_def)
next
  case False
  let ?t = "fid_threadId inp" and ?n = "numThreads cfg"
  let ?ib = "pushTail fid_isBubble (inputBuffer st ! ?t)"
  have t: "?t < ?n" "thread_wf isa (inputBuffer st ! ?t) (threadInfo st ! ?t)" using assms(1,4) False by (auto simp: threads_wf_def)
  then have "ib_wf fid_isBubble (inputBuffer st ! ?t)" by (simp add: thread_wf_def)
  note p = pushTail_contents [OF this]
  have w: "thread_wf isa ?ib (threadInfo st ! ?t)" using t(2) p(1,2) by (simp add: thread_wf_def)
  have sl: "slots_of ?ib (threadInfo st ! ?t) = stage_slots st ?t" using p(2) by (simp add: slots_of_def stage_slots_def)
  have "stage_settle inp st = Inr (st\<lparr>inputBuffer := (inputBuffer st)[?t := ?ib]\<rparr>)"
    using False t(1) assms(1) by (simp add: stage_settle_def vget_def threads_wf_def)
  then show ?thesis
    using assms(1,2,3,5) t(1) w p(4) sl by (auto simp: stage_wf_def threads_wf_def nth_list_update stage_slots_def)
qed

lemma stage_pack_ok:
  assumes "threads_wf isa cfg st" and "pop_ok popInfo" and "1 \<le> outputWidth cfg" and "outputWidth cfg < MAX_FORWARD_INSTS"
    and "fid_isBubble out" and "t < numThreads cfg" and "ib_contents (inputBuffer st ! t) \<noteq> []"
  shows "\<exists>st' out' ys. stage_pack isa cfg popInfo (Some t) st out = Inr (st', out') \<and> threads_wf isa cfg st' \<and>
     stage_slots st t = ys @ stage_slots st' t \<and> ys \<noteq> [] \<and> length (real_insts ys) \<le> outputWidth cfg \<and>
     packed isa (outputWidth cfg) out' (numbered (ti_execSeqNum (threadInfo st ! t)) (real_insts ys)) \<and>
     ti_execSeqNum (threadInfo st' ! t) = ti_execSeqNum (threadInfo st ! t) + of_nat (length (real_insts ys)) \<and>
     (elementPtr (inputBuffer st ! t) = None \<longrightarrow> elementPtr (inputBuffer st' ! t) = None) \<and>
     (\<forall>u. u \<noteq> t \<longrightarrow> inputBuffer st' ! u = inputBuffer st ! u \<and> threadInfo st' ! u = threadInfo st ! u)"
proof -
  let ?ib = "inputBuffer st ! t" and ?info = "threadInfo st ! t"
  have w: "thread_wf isa ?ib ?info" and l: "t < length (inputBuffer st)" "t < length (threadInfo st)"
    using assms(1,6) by (auto simp: threads_wf_def)
  obtain line rest where c: "ib_contents ?ib = line # rest" using assms(7) by (cases "ib_contents ?ib") auto
  have gi: "getInput ?ib = Inr (Some line)" using thread_input(1) [OF w] c by simp
  have "packed isa (outputWidth cfg) out []" using assms(5) by (simp add: packed_def)
  from stage_loop_ok [OF assms(2,4) w, of "Some line" out "[]" 0] this c assms(3) obtain ib' info' out' ys where
    r: "stage_loop isa cfg popInfo (Some line) ?ib ?info out 0 = Inr (ib', info', out')" "thread_wf isa ib' info'"
    "slots_of ?ib ?info = ys @ slots_of ib' info'" "packed isa (outputWidth cfg) out' (numbered (ti_execSeqNum ?info) (real_insts ys))"
    "length (real_insts ys) \<le> outputWidth cfg" "ys \<noteq> []"
    "ti_execSeqNum info' = ti_execSeqNum ?info + of_nat (length (real_insts ys))" by auto
  let ?st = "st\<lparr>inputBuffer := (inputBuffer st)[t := ib'], threadInfo := (threadInfo st)[t := info']\<rparr>"
  have "stage_pack isa cfg popInfo (Some t) st out = Inr (?st, out')"
    using l gi r(1) by (simp add: stage_pack_def vget_def)
  moreover have "threads_wf isa cfg ?st" using assms(1) r(2) l by (auto simp: threads_wf_def nth_list_update)
  ultimately show ?thesis
    using r l stage_loop_settled [OF r(1)] by (auto simp: stage_slots_def)
qed

text \<open>What one evaluation does for the thread it schedules, and that the other threads are left alone.\<close>

definition thread_moves :: "('si, 'pc) Stage \<Rightarrow> ('si, 'pc) ForwardInstData \<Rightarrow> ('si, 'pc) Stage \<Rightarrow> ('si, 'pc) ForwardInstData \<Rightarrow> nat \<Rightarrow>
    ('si, 'pc) MinorDynInst list \<Rightarrow> bool" where
  "thread_moves st inp st' out t ys \<longleftrightarrow> stage_slots st t @ word_insts inp t = ys @ stage_slots st' t \<and>
     real_insts (word_insts out t) = numbered (ti_execSeqNum (threadInfo st ! t)) (real_insts ys) \<and>
     ti_execSeqNum (threadInfo st' ! t) = ti_execSeqNum (threadInfo st ! t) + of_nat (length (real_insts ys))"

lemma stage_prepare:
  assumes wf: "stage_wf isa cfg st" and inp: "input_ok isa cfg st inp" and nexts: "length nexts = numThreads cfg"
  shows "\<exists>st1 infos st2. stage_accept inp st = Inr st1 \<and> set_blocked nexts [0..<numThreads cfg] (threadInfo st1) = Inr infos \<and>
     st2 = st1\<lparr>threadInfo := infos\<rparr> \<and> threads_wf isa cfg st2 \<and>
     (\<forall>t < numThreads cfg. stage_slots st2 t = stage_slots st t @ word_insts inp t \<and>
        ti_execSeqNum (threadInfo st2 ! t) = ti_execSeqNum (threadInfo st ! t) \<and>
        (blocked (threadInfo st2 ! t) \<longleftrightarrow> \<not> ib_canReserve (nexts ! t)) \<and>
        (t = fid_threadId inp \<and> \<not> fid_isBubble inp \<or> elementPtr (inputBuffer st2 ! t) = None))"
proof -
  let ?n = "numThreads cfg"
  obtain st1 where st1: "stage_accept inp st = Inr st1" "threadInfo st1 = threadInfo st" "length (inputBuffer st1) = ?n"
    and th1: "\<forall>t < ?n. thread_wf isa (inputBuffer st1 ! t) (threadInfo st ! t) \<and>
        slots_of (inputBuffer st1 ! t) (threadInfo st ! t) = stage_slots st t @ word_insts inp t \<and>
        (t = fid_threadId inp \<and> \<not> fid_isBubble inp \<or> elementPtr (inputBuffer st1 ! t) = None)"
    using accept_ok [OF wf inp] by blast
  have lti: "length (threadInfo st) = ?n" using wf by (simp add: stage_wf_def)
  define infos where "infos = map (\<lambda>t. (threadInfo st ! t)\<lparr>blocked := \<not> ib_canReserve (nexts ! t)\<rparr>) [0..<?n]"
  have bl: "set_blocked nexts [0..<?n] (threadInfo st1) = Inr infos"
    using set_blocked_ok [OF lti nexts, of 0] by (simp add: infos_def st1(2))
  have wi: "thread_wf isa ib (i\<lparr>blocked := x\<rparr>) = thread_wf isa ib i" "slots_of ib (i\<lparr>blocked := x\<rparr>) = slots_of ib i" for ib i x
    by (simp_all add: thread_wf_def slots_of_def split: list.split)
  have "threads_wf isa cfg (st1\<lparr>threadInfo := infos\<rparr>)" using st1(3) th1 by (simp add: threads_wf_def infos_def wi)
  with st1(1) bl th1 show ?thesis by (simp add: stage_slots_def infos_def wi)
qed

lemma stage_finish:
  assumes "threads_wf isa cfg st" and "length nexts = numThreads cfg" and "1 \<le> outputWidth cfg" and "outputWidth cfg < MAX_FORWARD_INSTS"
    and "input_ok isa cfg st0 inp"
    and "\<forall>t < numThreads cfg. t = fid_threadId inp \<and> \<not> fid_isBubble inp \<or> elementPtr (inputBuffer st ! t) = None"
  obtains active st' where "stage_active st nexts [0..<numThreads cfg] = Inr active" "stage_settle inp st = Inr st'"
    "stage_wf isa cfg st'" "threadInfo st' = threadInfo st" "\<forall>t < numThreads cfg. stage_slots st' t = stage_slots st t"
proof -
  obtain active where "stage_active st nexts [0..<numThreads cfg] = Inr active"
    using stage_active_total [OF assms(1,2), of "[0..<numThreads cfg]"]
    by (cases "stage_active st nexts [0..<numThreads cfg]") (auto simp: atLeast0LessThan)
  moreover have "\<not> fid_isBubble inp \<Longrightarrow> fid_threadId inp < numThreads cfg" using assms(5) by (auto simp: input_ok_def)
  ultimately show thesis using settle_ok [OF assms(1,3,4) _ assms(6)] that by blast
qed

text \<open>The scheduled thread, if any, has input and room; if none is scheduled, no thread has both.\<close>

lemma stage_schedule:
  assumes "threads_wf isa cfg st" and "sched_ok cfg shuffle"
  obtains r where "getScheduledThread cfg shuffle st = Inr (r, case r of None \<Rightarrow> st | Some t \<Rightarrow> st\<lparr>threadPriority := t\<rparr>)"
    "case r of None \<Rightarrow> \<forall>t < numThreads cfg. stage_slots st t = [] \<or> blocked (threadInfo st ! t)
      | Some t \<Rightarrow> t < numThreads cfg \<and> ib_contents (inputBuffer st ! t) \<noteq> [] \<and> \<not> blocked (threadInfo st ! t)"
proof -
  let ?ts = "priority_list cfg shuffle (threadPriority st)"
  have pl: "set ?ts = {..<numThreads cfg}" using assms(2) by (simp add: sched_ok_def)
  have e: "stage_slots st t = [] \<longleftrightarrow> ib_contents (inputBuffer st ! t) = []" if "t < numThreads cfg" for t
    using that assms(1) thread_input(2) unfolding threads_wf_def stage_slots_def by blast
  obtain r where r: "sched_loop st ?ts = Inr r" and c: "case r of None \<Rightarrow> \<forall>t < numThreads cfg. ib_contents (inputBuffer st ! t) = [] \<or> blocked (threadInfo st ! t)
      | Some t \<Rightarrow> t < numThreads cfg \<and> ib_contents (inputBuffer st ! t) \<noteq> [] \<and> \<not> blocked (threadInfo st ! t)"
    using sched_loop_ok [OF assms(1), of ?ts] unfolding pl by (auto split: option.splits)
  have "getScheduledThread cfg shuffle st = Inr (r, case r of None \<Rightarrow> st | Some t \<Rightarrow> st\<lparr>threadPriority := t\<rparr>)"
    using r by (simp add: getScheduledThread_def split: option.split)
  then show thesis using c e by (intro that [of r]) (auto split: option.splits)
qed

lemma stage_packed_cycle:
  assumes tw: "threads_wf isa cfg st" and pop: "pop_ok popInfo" and W: "1 \<le> outputWidth cfg" "outputWidth cfg < MAX_FORWARD_INSTS"
    and out: "fid_isBubble out" and t: "t < numThreads cfg" "ib_contents (inputBuffer st ! t) \<noteq> []"
    and inp: "input_ok isa cfg st0 inp"
    and el: "\<forall>u < numThreads cfg. u = fid_threadId inp \<and> \<not> fid_isBubble inp \<or> elementPtr (inputBuffer st ! u) = None"
    and nexts: "length nexts = numThreads cfg"
  shows "\<exists>st4 out1 out' nexts' active st' ys.
     stage_pack isa cfg popInfo (Some t) (st\<lparr>threadPriority := t\<rparr>) out = Inr (st4, out1) \<and>
     stage_reserve (Some t) out1 nexts = Inr (out', nexts') \<and> stage_active st4 nexts' [0..<numThreads cfg] = Inr active \<and>
     stage_settle inp st4 = Inr st' \<and> stage_wf isa cfg st' \<and> ys \<noteq> [] \<and> stage_slots st t = ys @ stage_slots st' t \<and>
     word_insts out' = (\<lambda>u. if u = t then word_insts out' t else []) \<and>
     real_insts (word_insts out' t) = numbered (ti_execSeqNum (threadInfo st ! t)) (real_insts ys) \<and>
     ti_execSeqNum (threadInfo st' ! t) = ti_execSeqNum (threadInfo st ! t) + of_nat (length (real_insts ys)) \<and>
     (\<forall>u < numThreads cfg. u \<noteq> t \<longrightarrow> stage_slots st' u = stage_slots st u \<and> threadInfo st' ! u = threadInfo st ! u)"
proof -
  let ?n = "numThreads cfg" and ?st = "st\<lparr>threadPriority := t\<rparr>"
  have tw': "threads_wf isa cfg ?st" using tw by (simp add: threads_wf_def)
  have sl: "stage_slots ?st = stage_slots st" by (simp add: stage_slots_def fun_eq_iff)
  obtain st4 out1 ys where p: "stage_pack isa cfg popInfo (Some t) ?st out = Inr (st4, out1)" "threads_wf isa cfg st4"
    "stage_slots ?st t = ys @ stage_slots st4 t" "ys \<noteq> []"
    "packed isa (outputWidth cfg) out1 (numbered (ti_execSeqNum (threadInfo ?st ! t)) (real_insts ys))"
    "ti_execSeqNum (threadInfo st4 ! t) = ti_execSeqNum (threadInfo ?st ! t) + of_nat (length (real_insts ys))"
    "elementPtr (inputBuffer ?st ! t) = None \<longrightarrow> elementPtr (inputBuffer st4 ! t) = None"
    "\<forall>u. u \<noteq> t \<longrightarrow> inputBuffer st4 ! u = inputBuffer ?st ! u \<and> threadInfo st4 ! u = threadInfo ?st ! u"
    using stage_pack_ok [OF tw' pop W out t(1)] t(2) by auto
  note q = packed_real [OF p(5)]
  define out' where "out' = (if fid_isBubble out1 then out1 else out1\<lparr>fid_threadId := t\<rparr>)"
  have ob: "fid_isBubble out' = fid_isBubble out1" "fid_insts out' = fid_insts out1" by (simp_all add: out'_def fid_isBubble_def)
  have "\<exists>nexts'. stage_reserve (Some t) out1 nexts = Inr (out', nexts') \<and> length nexts' = ?n"
    using t(1) nexts by (cases "fid_isBubble out1") (simp_all add: stage_reserve_def vget_def out'_def)
  then obtain nexts' where rs: "stage_reserve (Some t) out1 nexts = Inr (out', nexts')" "length nexts' = ?n" by blast
  have el4: "\<forall>u < ?n. u = fid_threadId inp \<and> \<not> fid_isBubble inp \<or> elementPtr (inputBuffer st4 ! u) = None"
  proof (intro allI impI)
    fix u assume "u < ?n"
    with el p(7,8) show "u = fid_threadId inp \<and> \<not> fid_isBubble inp \<or> elementPtr (inputBuffer st4 ! u) = None"
      by (cases "u = t") auto
  qed
  obtain active st' where f: "stage_active st4 nexts' [0..<?n] = Inr active" "stage_settle inp st4 = Inr st'" "stage_wf isa cfg st'"
    "threadInfo st' = threadInfo st4" "\<forall>t < ?n. stage_slots st' t = stage_slots st4 t"
    by (rule stage_finish [OF p(2) rs(2) W inp el4])
  have "word_insts out' = (\<lambda>u. if u = t then word_insts out' t else [])" by (auto simp: word_insts_def out'_def fun_eq_iff)
  moreover have "real_insts (word_insts out' t) = numbered (ti_execSeqNum (threadInfo st ! t)) (real_insts ys)"
    using q ob by (cases "fid_isBubble out1") (auto simp: word_insts_def real_insts_def out'_def)
  moreover have "stage_slots st' u = stage_slots st u \<and> threadInfo st' ! u = threadInfo st ! u" if "u < ?n" "u \<noteq> t" for u
  proof -
    have "stage_slots st4 u = stage_slots st u" using p(8) that(2) by (simp add: stage_slots_def)
    then show ?thesis using that f(4,5) p(8) by simp
  qed
  ultimately show ?thesis using p(1,3,4,6) rs(1) f t(1) sl
    by (intro exI [of _ st4] exI [of _ out1] exI [of _ out'] exI [of _ nexts'] exI [of _ active] exI [of _ st'] exI [of _ ys]) simp
qed

lemma stage_cycle:
  assumes wf: "stage_wf isa cfg st" and pop: "pop_ok popInfo" and inp: "input_ok isa cfg st inp" and out: "fid_isBubble out"
    and nexts: "length nexts = numThreads cfg" and sched: "sched_ok cfg shuffle"
  shows "\<exists>st' out' nexts' active ys. stage_evaluate isa cfg popInfo shuffle inp out nexts st = Inr (st', out', nexts', active) \<and>
     stage_wf isa cfg st' \<and> (\<forall>t < numThreads cfg. thread_moves st inp st' out' t (ys t)) \<and>
     ((\<exists>t < numThreads cfg. stage_slots st t @ word_insts inp t \<noteq> [] \<and> ib_canReserve (nexts ! t)) \<longrightarrow> (\<exists>t < numThreads cfg. ys t \<noteq> []))"
proof -
  let ?n = "numThreads cfg"
  have W: "1 \<le> outputWidth cfg" "outputWidth cfg < MAX_FORWARD_INSTS" using wf by (auto simp: stage_wf_def)
  from stage_prepare [OF wf inp nexts] obtain st1 infos st2 where
    st1: "stage_accept inp st = Inr st1" "set_blocked nexts [0..<?n] (threadInfo st1) = Inr infos" "st2 = st1\<lparr>threadInfo := infos\<rparr>"
    and tw: "threads_wf isa cfg st2"
    and all: "\<forall>t < ?n. stage_slots st2 t = stage_slots st t @ word_insts inp t \<and>
        ti_execSeqNum (threadInfo st2 ! t) = ti_execSeqNum (threadInfo st ! t) \<and>
        (blocked (threadInfo st2 ! t) \<longleftrightarrow> \<not> ib_canReserve (nexts ! t)) \<and>
        (t = fid_threadId inp \<and> \<not> fid_isBubble inp \<or> elementPtr (inputBuffer st2 ! t) = None)" by (elim exE conjE)
  have st2: "stage_slots st2 t = stage_slots st t @ word_insts inp t"
      "ti_execSeqNum (threadInfo st2 ! t) = ti_execSeqNum (threadInfo st ! t)"
      "blocked (threadInfo st2 ! t) \<longleftrightarrow> \<not> ib_canReserve (nexts ! t)" if "t < ?n" for t using that all by auto
  have el: "\<forall>t < ?n. t = fid_threadId inp \<and> \<not> fid_isBubble inp \<or> elementPtr (inputBuffer st2 ! t) = None"
  proof (intro allI impI)
    fix t assume "t < ?n"
    from all [rule_format, OF this] show "t = fid_threadId inp \<and> \<not> fid_isBubble inp \<or> elementPtr (inputBuffer st2 ! t) = None"
      by (elim conjE)
  qed
  obtain r where r: "getScheduledThread cfg shuffle st2 = Inr (r, case r of None \<Rightarrow> st2 | Some t \<Rightarrow> st2\<lparr>threadPriority := t\<rparr>)"
    and rc: "case r of None \<Rightarrow> \<forall>t < ?n. stage_slots st2 t = [] \<or> blocked (threadInfo st2 ! t)
      | Some t \<Rightarrow> t < ?n \<and> ib_contents (inputBuffer st2 ! t) \<noteq> [] \<and> \<not> blocked (threadInfo st2 ! t)"
    by (rule stage_schedule [OF tw sched])
  show ?thesis
  proof (cases r)
    case None
    obtain active st' where f: "stage_active st2 nexts [0..<?n] = Inr active" "stage_settle inp st2 = Inr st'" "stage_wf isa cfg st'"
      "threadInfo st' = threadInfo st2" "\<forall>t < ?n. stage_slots st' t = stage_slots st2 t"
      by (rule stage_finish [OF tw nexts W inp el])
    have run: "stage_evaluate isa cfg popInfo shuffle inp out nexts st = Inr (st', out, nexts, active)"
      using st1 out r None f(1,2) by (simp add: stage_evaluate_def stage_pack_def stage_reserve_def)
    have "thread_moves st inp st' out t []" if "t < ?n" for t
      using that f(4,5) st2 out by (simp add: thread_moves_def real_insts_def word_insts_def)
    moreover have "\<not> (stage_slots st t @ word_insts inp t \<noteq> [] \<and> ib_canReserve (nexts ! t))" if "t < ?n" for t
      using rc None that st2 by auto
    ultimately show ?thesis
      using run f(3) by (intro exI [of _ st'] exI [of _ out] exI [of _ nexts] exI [of _ active] exI [of _ "\<lambda>_. []"]) auto
  next
    case (Some t)
    then have t: "t < ?n" "ib_contents (inputBuffer st2 ! t) \<noteq> []" using rc by auto
    from stage_packed_cycle [OF tw pop W out t inp el nexts] obtain st4 out1 out' nexts' active st' ys where
      p: "stage_pack isa cfg popInfo (Some t) (st2\<lparr>threadPriority := t\<rparr>) out = Inr (st4, out1)"
        "stage_reserve (Some t) out1 nexts = Inr (out', nexts')" "stage_active st4 nexts' [0..<?n] = Inr active"
        "stage_settle inp st4 = Inr st'" "stage_wf isa cfg st'" "ys \<noteq> []"
        "stage_slots st2 t = ys @ stage_slots st' t" "word_insts out' = (\<lambda>u. if u = t then word_insts out' t else [])"
        "real_insts (word_insts out' t) = numbered (ti_execSeqNum (threadInfo st2 ! t)) (real_insts ys)"
        "ti_execSeqNum (threadInfo st' ! t) = ti_execSeqNum (threadInfo st2 ! t) + of_nat (length (real_insts ys))"
        "\<forall>u < ?n. u \<noteq> t \<longrightarrow> stage_slots st' u = stage_slots st2 u \<and> threadInfo st' ! u = threadInfo st2 ! u" by blast
    have run: "stage_evaluate isa cfg popInfo shuffle inp out nexts st = Inr (st', out', nexts', active)"
      using st1 out r Some p(1-4) by (simp add: stage_evaluate_def)
    have "thread_moves st inp st' out' u (if u = t then ys else [])" if u: "u < ?n" for u
    proof (cases "u = t")
      case True
      then show ?thesis using p(7,9,10) st2 [OF t(1)] by (simp add: thread_moves_def)
    next
      case False
      then have "word_insts out' u = []" using p(8) by (metis (full_types))
      then show ?thesis using False u p(11) st2 [OF u] by (simp add: thread_moves_def real_insts_def)
    qed
    then show ?thesis using run p(5,6) t(1)
      by (intro exI [of _ st'] exI [of _ out'] exI [of _ nexts'] exI [of _ active] exI [of _ "\<lambda>u. if u = t then ys else []"]) auto
  qed
qed

subsection \<open>Properties\<close>

text \<open>
  C11 The Dummy stage keeps the program order: in every cycle and for every thread, the instructions it sends are
  the next instructions of that thread, in order, changed in nothing but consecutive execution sequence
  numbers, and nothing it holds or receives is lost or repeated.
\<close>

theorem dummy_keeps_program_order:
  assumes "stage_wf isa cfg st" and "input_ok isa cfg st inp" and "fid_isBubble out" and "length nexts = numThreads cfg"
    and "sched_ok cfg shuffle"
  shows "\<exists>st' out' nexts' active. Dummy_evaluate isa cfg shuffle inp out nexts st = Inr (st', out', nexts', active) \<and>
     stage_wf isa cfg st' \<and> (\<forall>t < numThreads cfg. \<exists>ys.
       stage_slots st t @ word_insts inp t = ys @ stage_slots st' t \<and>
       real_insts (word_insts out' t) = numbered (ti_execSeqNum (threadInfo st ! t)) (real_insts ys))"
  using stage_cycle [OF assms(1) pop_ok_stages(1) assms(2-5)] unfolding thread_moves_def Dummy_evaluate_def by fast

text \<open>A stage that receives nothing more: every cycle it is given the buffers of the next stage.\<close>

fun stage_run :: "('si, 'pc) isa \<Rightarrow> stage_cfg \<Rightarrow> ('pc ThreadInfo \<Rightarrow> 'pc ThreadInfo) \<Rightarrow> (nat list \<Rightarrow> nat list) \<Rightarrow>
    ('si, 'pc) ForwardInstData InputBuffer list list \<Rightarrow> ('si, 'pc) Stage \<Rightarrow> (('si, 'pc) ForwardInstData list \<times> ('si, 'pc) Stage) res" where
  "stage_run isa cfg popInfo shuffle [] st = Inr ([], st)"
| "stage_run isa cfg popInfo shuffle (nexts # cycles) st =
     rbind (stage_evaluate isa cfg popInfo shuffle ForwardInstData_new ForwardInstData_new nexts st) (\<lambda>(st, out, nexts', active).
     rbind (stage_run isa cfg popInfo shuffle cycles st) (\<lambda>(outs, st). Inr (out # outs, st)))"

definition words_insts :: "('si, 'pc) ForwardInstData list \<Rightarrow> nat \<Rightarrow> ('si, 'pc) MinorDynInst list" where
  "words_insts ws t = concat (map (\<lambda>w. real_insts (word_insts w t)) ws)"

definition stage_total :: "stage_cfg \<Rightarrow> ('si, 'pc) Stage \<Rightarrow> nat" where
  "stage_total cfg st = (\<Sum>t < numThreads cfg. length (stage_slots st t))"

lemma bubble_word: "fid_isBubble ForwardInstData_new" "word_insts ForwardInstData_new t = []" "input_ok isa cfg st ForwardInstData_new"
  by (simp_all add: ForwardInstData_new_def fid_isBubble_def word_insts_def input_ok_def)

lemma stage_total_decreases:
  assumes "\<forall>t < numThreads cfg. stage_slots st t = ys t @ stage_slots st' t"
    and "0 < stage_total cfg st \<longrightarrow> (\<exists>t < numThreads cfg. ys t \<noteq> [])"
  shows "stage_total cfg st' \<le> stage_total cfg st - 1"
proof -
  have le: "length (stage_slots st' t) \<le> length (stage_slots st t)" if "t < numThreads cfg" for t using assms(1) that by simp
  show ?thesis
  proof (cases "0 < stage_total cfg st")
    case True
    then obtain t where t: "t < numThreads cfg" "ys t \<noteq> []" using assms(2) by blast
    then have "length (stage_slots st' t) < length (stage_slots st t)" using assms(1) by simp
    then have "stage_total cfg st' < stage_total cfg st"
      unfolding stage_total_def using le t(1) by (intro sum_strict_mono_ex1) auto
    then show ?thesis by simp
  next
    case False
    then show ?thesis using le by (simp add: stage_total_def)
  qed
qed

lemma stage_run_ok:
  assumes "stage_wf isa cfg st" and "pop_ok popInfo" and "sched_ok cfg shuffle"
    and "\<forall>nexts \<in> set cycles. length nexts = numThreads cfg \<and> (\<forall>t < numThreads cfg. ib_canReserve (nexts ! t))"
    and "stage_total cfg st \<le> length cycles"
  shows "\<exists>outs st'. stage_run isa cfg popInfo shuffle cycles st = Inr (outs, st') \<and> stage_wf isa cfg st' \<and> stage_total cfg st' = 0 \<and>
     (\<forall>t < numThreads cfg. words_insts outs t = numbered (ti_execSeqNum (threadInfo st ! t)) (real_insts (stage_slots st t)))"
  using assms
proof (induction cycles arbitrary: st)
  case Nil
  then show ?case by (auto simp: words_insts_def stage_total_def real_insts_def)
next
  case (Cons nexts cycles)
  have nx: "length nexts = numThreads cfg" "\<forall>t < numThreads cfg. ib_canReserve (nexts ! t)" using Cons.prems(4) by auto
  from stage_cycle [OF Cons.prems(1,2) bubble_word(3,1) nx(1) Cons.prems(3)] obtain st1 out nexts' active ys where
    c: "stage_evaluate isa cfg popInfo shuffle ForwardInstData_new ForwardInstData_new nexts st = Inr (st1, out, nexts', active)"
      "stage_wf isa cfg st1" "\<forall>t < numThreads cfg. thread_moves st ForwardInstData_new st1 out t (ys t)"
      "(\<exists>t < numThreads cfg. stage_slots st t @ word_insts ForwardInstData_new t \<noteq> [] \<and> ib_canReserve (nexts ! t)) \<longrightarrow> (\<exists>t < numThreads cfg. ys t \<noteq> [])"
    by (elim exE conjE)
  have m: "stage_slots st t = ys t @ stage_slots st1 t" "real_insts (word_insts out t) = numbered (ti_execSeqNum (threadInfo st ! t)) (real_insts (ys t))"
    "ti_execSeqNum (threadInfo st1 ! t) = ti_execSeqNum (threadInfo st ! t) + of_nat (length (real_insts (ys t)))" if "t < numThreads cfg" for t
    using c(3) that by (simp_all add: thread_moves_def bubble_word)
  have "stage_total cfg st1 \<le> stage_total cfg st - 1"
  proof (rule stage_total_decreases [where ys = ys])
    show "\<forall>t < numThreads cfg. stage_slots st t = ys t @ stage_slots st1 t" using m(1) by blast
    show "0 < stage_total cfg st \<longrightarrow> (\<exists>t < numThreads cfg. ys t \<noteq> [])"
      using c(4) nx(2) by (auto simp: stage_total_def bubble_word)
  qed
  then have "stage_total cfg st1 \<le> length cycles" using Cons.prems(5) by simp
  from Cons.IH [OF c(2) Cons.prems(2,3) _ this] Cons.prems(4) obtain outs st' where
    r: "stage_run isa cfg popInfo shuffle cycles st1 = Inr (outs, st')" "stage_wf isa cfg st'" "stage_total cfg st' = 0"
      "\<forall>t < numThreads cfg. words_insts outs t = numbered (ti_execSeqNum (threadInfo st1 ! t)) (real_insts (stage_slots st1 t))" by auto
  have "words_insts (out # outs) t = numbered (ti_execSeqNum (threadInfo st ! t)) (real_insts (stage_slots st t))" if "t < numThreads cfg" for t
    using r(4) that m [OF that] by (simp add: words_insts_def numbered_append real_insts_def)
  then show ?case using c(1) r(1-3) by simp
qed

text \<open>
  C16 The Dummy stage drains: when nothing more arrives and the next stage has room, within as many cycles as
  there are instruction slots in its input buffers it has sent every instruction of every thread, in order, and reports
  itself drained. The order in which the threads are tried contains every thread (the random policy shuffles by
  some fixed permutation).
\<close>

theorem dummy_drains:
  assumes "stage_wf isa cfg st" and "sched_ok cfg shuffle"
    and "\<forall>nexts \<in> set cycles. length nexts = numThreads cfg \<and> (\<forall>t < numThreads cfg. ib_canReserve (nexts ! t))"
    and "stage_total cfg st \<le> length cycles"
  shows "\<exists>outs st'. stage_run isa cfg dummy_popInfo shuffle cycles st = Inr (outs, st') \<and> stage_isDrained ForwardInstData_new st' \<and>
     (\<forall>t < numThreads cfg. words_insts outs t = numbered (ti_execSeqNum (threadInfo st ! t)) (real_insts (stage_slots st t)))"
proof -
  from stage_run_ok [OF assms(1) pop_ok_stages(1) assms(2-4)] obtain outs st' where
    r: "stage_run isa cfg dummy_popInfo shuffle cycles st = Inr (outs, st')" "stage_wf isa cfg st'" "stage_total cfg st' = 0"
      "\<forall>t < numThreads cfg. words_insts outs t = numbered (ti_execSeqNum (threadInfo st ! t)) (real_insts (stage_slots st t))" by blast
  have "ib_empty (inputBuffer st' ! t)" if "t < numThreads cfg" for t
  proof -
    have w: "thread_wf isa (inputBuffer st' ! t) (threadInfo st' ! t)" using r(2) that by (simp add: stage_wf_def)
    have "stage_slots st' t = []" using r(3) that by (simp add: stage_total_def)
    then show ?thesis using thread_input(2) [OF w] by (simp add: stage_slots_def ib_empty_contents)
  qed
  then have "stage_isDrained ForwardInstData_new st'"
    using r(2) by (auto simp: stage_isDrained_def bubble_word list_all_length stage_wf_def)
  with r(1,4) show ?thesis by blast
qed

text \<open>One thread with two instructions waiting and a third arriving.\<close>

definition ex_isa :: "(nat, nat) isa" where
  "ex_isa = \<lparr>isa_isMacroop = (\<lambda>_. False), isa_isLastMicroop = (\<lambda>_. True), isa_fetchMicroop = (\<lambda>i _. i), isa_microPC = (\<lambda>_. 0),
     isa_advancePC = (\<lambda>_ pc. pc + 4), isa_pc0 = 0\<rparr>"

definition ex_inst :: "u64 \<Rightarrow> (nat, nat) MinorDynInst" where
  "ex_inst n = \<lparr>staticInst = Some 0, inst_id = \<lparr>id_threadId = 0, streamSeqNum = 1, predictionSeqNum = 1, lineSeqNum = 1,
     fetchSeqNum = n, execSeqNum = 0\<rparr>, inst_pc = 0, inst_fault = False, predictedTaken = False, predictedTarget = 0\<rparr>"

definition ex_cfg :: stage_cfg where
  "ex_cfg = \<lparr>outputWidth = 1, processMoreThanOneInput = True, numThreads = 1, threadPolicy = SingleThreaded\<rparr>"

definition ex_stage :: "(nat, nat) Stage" where
  "ex_stage = \<lparr>inputBuffer = [\<lparr>ib_queue = \<lparr>q_elems = [\<lparr>fid_insts = [ex_inst 5, ex_inst 6], fid_threadId = 0\<rparr>],
       numReservedSlots = 1, q_capacity = 3\<rparr>, elementPtr = None\<rparr>],
     threadInfo = [ThreadInfo_new 0], threadPriority = 0\<rparr>"

lemma ex_stage_ok:
  "stage_wf ex_isa ex_cfg ex_stage" "sched_ok ex_cfg shuffle" "stage_total ex_cfg ex_stage = 2"
  "input_ok ex_isa ex_cfg ex_stage \<lparr>fid_insts = [ex_inst 7], fid_threadId = 0\<rparr>"
  "stage_slots ex_stage 0 = [ex_inst 5, ex_inst 6]"
  "ib_canReserve (InputBuffer_new 3 :: (nat, nat) ForwardInstData InputBuffer)"
proof -
  show "stage_wf ex_isa ex_cfg ex_stage"
    by (simp add: stage_wf_def ex_cfg_def ex_stage_def MAX_FORWARD_INSTS_def thread_wf_def ib_wf_def ib_contents_def ib_load_def
        fid_isBubble_def inst_isBubble_def ex_inst_def line_ok_def inst_plain_def ex_isa_def ThreadInfo_new_def)
  show "sched_ok ex_cfg shuffle" by (auto simp: sched_ok_def priority_list_def ex_cfg_def)
  show sl: "stage_slots ex_stage 0 = [ex_inst 5, ex_inst 6]"
    by (simp add: stage_slots_def ex_stage_def slots_of_def ib_contents_def ThreadInfo_new_def)
  then show "stage_total ex_cfg ex_stage = 2" by (simp add: stage_total_def ex_cfg_def)
  show "input_ok ex_isa ex_cfg ex_stage \<lparr>fid_insts = [ex_inst 7], fid_threadId = 0\<rparr>"
    by (simp add: input_ok_def ex_cfg_def ex_stage_def line_ok_def inst_plain_def ex_inst_def ex_isa_def)
  show "ib_canReserve (InputBuffer_new 3 :: (nat, nat) ForwardInstData InputBuffer)"
    by (simp add: ib_canReserve_def q_canReserve_def unreservedRemainingSpace_def InputBuffer_new_def Queue_new_def)
qed

theorem dummy_keeps_program_order_witness:
  "\<exists>st' out' nexts' active ys.
     Dummy_evaluate ex_isa ex_cfg id \<lparr>fid_insts = [ex_inst 7], fid_threadId = 0\<rparr> ForwardInstData_new [InputBuffer_new 3] ex_stage =
       Inr (st', out', nexts', active) \<and>
     [ex_inst 5, ex_inst 6, ex_inst 7] = ys @ stage_slots st' 0 \<and> real_insts (word_insts out' 0) = numbered 1 (real_insts ys)"
proof -
  have n: "numThreads ex_cfg = 1" by (simp add: ex_cfg_def)
  have w: "word_insts \<lparr>fid_insts = [ex_inst 7], fid_threadId = 0\<rparr> 0 = [ex_inst 7]"
    by (simp add: word_insts_def fid_isBubble_def inst_isBubble_def ex_inst_def)
  have i: "ti_execSeqNum (threadInfo ex_stage ! 0) = 1" by (simp add: ex_stage_def ThreadInfo_new_def)
  from dummy_keeps_program_order [OF ex_stage_ok(1,4) bubble_word(1), of "[InputBuffer_new 3]" id] ex_stage_ok(2)
  show ?thesis by (simp add: n w i ex_stage_ok(5)) metis
qed

theorem dummy_drains_witness:
  "\<exists>outs st'. stage_run ex_isa ex_cfg dummy_popInfo id [[InputBuffer_new 3], [InputBuffer_new 3]] ex_stage = Inr (outs, st') \<and>
     stage_isDrained ForwardInstData_new st' \<and> words_insts outs 0 = numbered 1 [ex_inst 5, ex_inst 6]"
proof -
  have n: "numThreads ex_cfg = 1" by (simp add: ex_cfg_def)
  have i: "ti_execSeqNum (threadInfo ex_stage ! 0) = 1" by (simp add: ex_stage_def ThreadInfo_new_def)
  have r: "real_insts [ex_inst 5, ex_inst 6] = [ex_inst 5, ex_inst 6]" by (simp add: real_insts_def inst_isBubble_def ex_inst_def)
  from dummy_drains [OF ex_stage_ok(1,2), of "[[InputBuffer_new 3], [InputBuffer_new 3]]" id] show ?thesis
    by (simp add: n i ex_stage_ok(3,5,6) r)
qed

end
