(* ===== verification/RunMonad.thy ===== *)
theory RunMonad
  imports Prelude
begin

text \<open>
  Computations that may fail or not end, for the code whose loops or recursions follow pointers: the
  event queue and the miss registers. The bind is monotone, so that \<open>partial_function\<close> accepts it.
\<close>

text \<open>\<open>None\<close> is a computation that does not end; an error is a result.\<close>

type_synonym 'a run = "'a res option"

definition ret :: "'a \<Rightarrow> 'a run" where
  "ret x = Some (Inr x)"

definition fail :: "sim_error \<Rightarrow> 'a run" where
  "fail e = Some (Inl e)"

definition obind :: "'a run \<Rightarrow> ('a \<Rightarrow> 'b run) \<Rightarrow> 'b run" where
  "obind m f = Option.bind m (\<lambda>r. case r of Inl e \<Rightarrow> Some (Inl e) | Inr x \<Rightarrow> f x)"

definition guard :: "sim_error \<Rightarrow> bool \<Rightarrow> unit run" where
  "guard e b = (if b then ret () else fail e)"

lemma obind_ret [simp]: "obind (ret x) f = f x"
  by (simp add: obind_def ret_def)

lemma obind_fail [simp]: "obind (fail e) f = fail e"
  by (simp add: obind_def fail_def)

lemma ret_neq_fail [simp]: "ret x \<noteq> fail e" "fail e \<noteq> ret x"
  by (simp_all add: ret_def fail_def)

lemma ret_inject [simp]: "ret x = ret y \<longleftrightarrow> x = y"
  by (simp add: ret_def)

lemma obind_eq_ret: "obind m f = ret y \<longleftrightarrow> (\<exists>x. m = ret x \<and> f x = ret y)"
  by (cases m) (auto simp: obind_def ret_def split: sum.splits)

lemma obind_mono [partial_function_mono]:
  assumes "monotone (fun_ord option_ord) option_ord m"
    and "\<And>y. monotone (fun_ord option_ord) option_ord (\<lambda>f. B y f)"
  shows "monotone (fun_ord option_ord) option_ord (\<lambda>f. obind (m f) (\<lambda>y. B y f))"
  unfolding obind_def
  by (rule bind_mono [OF assms(1)]) (auto split: sum.split intro!: monotoneI monotoneD [OF assms(2)] simp: option.leq_refl)

lemma guard_True [simp]: "obind (guard e True) f = f ()"
  by (simp add: guard_def)

lemma guard_False [simp]: "obind (guard e False) f = fail e"
  by (simp add: guard_def)

lemma guard_eq_ret [simp]: "guard e b = ret u \<longleftrightarrow> b"
  by (simp add: guard_def)

lemma obind_Some_Inr [simp]: "obind (Some (Inr x)) f = f x"
  by (simp add: obind_def)

lemma obind_Some_Inl [simp]: "obind (Some (Inl e)) f = fail e"
  by (simp add: obind_def fail_def)

lemma obind_neq_None: "obind m f \<noteq> None \<longleftrightarrow> m \<noteq> None \<and> (\<forall>x. m = ret x \<longrightarrow> f x \<noteq> None)"
  by (cases m) (auto simp: obind_def ret_def split: sum.splits)

text \<open>\<open>ends m P\<close>: the computation ends, and a result it gives satisfies \<open>P\<close>.\<close>

definition ends :: "'a run \<Rightarrow> ('a \<Rightarrow> bool) \<Rightarrow> bool" where
  "ends m P \<longleftrightarrow> m \<noteq> None \<and> (\<forall>x. m = ret x \<longrightarrow> P x)"

lemma ends_ret [simp]: "ends (ret x) P \<longleftrightarrow> P x"
  by (simp add: ends_def ret_def)

lemma ends_fail [simp]: "ends (fail e) P"
  by (simp add: ends_def ret_def fail_def)

lemma ends_res: "ends (Some r) (\<lambda>x. r = Inr x)"
  by (simp add: ends_def ret_def)

lemma ends_bind: "ends m Q \<Longrightarrow> (\<And>x. Q x \<Longrightarrow> ends (f x) P) \<Longrightarrow> ends (obind m f) P"
  unfolding ends_def obind_neq_None obind_eq_ret by blast

lemmas ends_bind_res = ends_bind [OF ends_res]

lemma ends_if: "(b \<Longrightarrow> ends m P) \<Longrightarrow> (\<not> b \<Longrightarrow> ends m' P) \<Longrightarrow> ends (if b then m else m') P"
  by simp

lemma ends_mono: "ends m P \<Longrightarrow> (\<And>x. P x \<Longrightarrow> Q x) \<Longrightarrow> ends m Q"
  by (auto simp: ends_def)

lemma endsD: "ends m P \<Longrightarrow> m = ret x \<Longrightarrow> P x"
  by (auto simp: ends_def)

lemma ends_not_None: "ends m P \<Longrightarrow> m \<noteq> None"
  by (auto simp: ends_def)

end
