(* ===== verification/EventQueue.thy ===== *)
theory EventQueue
  imports RunMonad "HOL-Library.Product_Lexorder"
begin

text \<open>
  The event queue that drives the simulation (\<open>sim/eventq.hh\<close>, \<open>sim/eventq.cc\<close>,
  \<open>sim/eventq_impl.hh\<close>). The events are objects in a store, linked by \<open>nextBin\<close> and
  \<open>nextInBin\<close> exactly as in the code: a list of bins, each bin a stack of the events of one
  time and priority, where only the \<open>nextBin\<close> of the top of a bin is meaningful. The
  operations walk and splice those pointers. The lemmas show that a queue built by them always
  represents a list of bins strictly sorted by time and priority, that insertion and removal act on
  the flattened list as an ordered insertion (last in, first out among equals) and as \<open>remove1\<close>,
  and that no loop over the pointers fails to end.
\<close>

subsection \<open>Events\<close>

type_synonym EvId = nat
type_synonym FlagsType = "16 word"
type_synonym Priority = "8 word"   \<comment> \<open>\<open>int8_t\<close>: read by \<open>sint\<close>\<close>

definition PublicRead :: FlagsType where "PublicRead = 0x003f"
definition PublicWrite :: FlagsType where "PublicWrite = 0x001d"
definition Squashed :: FlagsType where "Squashed = 0x0001"
definition Scheduled :: FlagsType where "Scheduled = 0x0002"
definition Managed :: FlagsType where "Managed = 0x0004"
definition IsExitEvent :: FlagsType where "IsExitEvent = 0x0010"
definition IsMainQueue :: FlagsType where "IsMainQueue = 0x0020"
definition Initialized :: FlagsType where "Initialized = 0x7a40"
definition InitMask :: FlagsType where "InitMask = 0xffc0"

lemmas flag_defs = PublicRead_def PublicWrite_def Squashed_def Scheduled_def Managed_def
  IsExitEvent_def IsMainQueue_def Initialized_def InitMask_def

text \<open>The operations of \<open>base/flags.hh\<close> the events use.\<close>

definition flags_isSet :: "FlagsType \<Rightarrow> FlagsType \<Rightarrow> bool" where
  "flags_isSet fl msk \<longleftrightarrow> fl AND msk \<noteq> 0"

definition flags_noneSet :: "FlagsType \<Rightarrow> FlagsType \<Rightarrow> bool" where
  "flags_noneSet fl msk \<longleftrightarrow> fl AND msk = 0"

definition flags_set :: "FlagsType \<Rightarrow> FlagsType \<Rightarrow> FlagsType" where
  "flags_set fl msk = fl OR msk"

definition flags_clear :: "FlagsType \<Rightarrow> FlagsType \<Rightarrow> FlagsType" where
  "flags_clear fl msk = fl AND NOT msk"

record Event =
  nextBin :: "EvId option"
  nextInBin :: "EvId option"
  ev_when :: Tick
  ev_priority :: Priority
  ev_flags :: FlagsType
  ev_queue :: "nat option"

definition Event_new :: "Priority \<Rightarrow> FlagsType \<Rightarrow> Event run" where
  "Event_new p f =
     (if flags_noneSet f (NOT PublicWrite)
      then ret \<lparr>nextBin = None, nextInBin = None, ev_when = 0, ev_priority = p,
                ev_flags = Initialized OR f, ev_queue = None\<rparr>
      else fail AssertFailed)"

definition setWhen :: "Tick \<Rightarrow> nat \<Rightarrow> Event \<Rightarrow> Event" where
  "setWhen t q e = e\<lparr>ev_when := t, ev_queue := Some q\<rparr>"

definition initialized :: "Event \<Rightarrow> bool" where
  "initialized e \<longleftrightarrow> ev_flags e AND InitMask = Initialized"

definition getFlags :: "Event \<Rightarrow> FlagsType" where
  "getFlags e = ev_flags e AND PublicRead"

definition isFlagSet :: "FlagsType \<Rightarrow> Event \<Rightarrow> bool run" where
  "isFlagSet f e =
     (if flags_noneSet f (NOT PublicRead) then ret (flags_isSet (ev_flags e) f) else fail AssertFailed)"

definition setFlags :: "FlagsType \<Rightarrow> Event \<Rightarrow> Event run" where
  "setFlags f e =
     (if flags_noneSet f (NOT PublicWrite)
      then ret (e\<lparr>ev_flags := flags_set (ev_flags e) f\<rparr>) else fail AssertFailed)"

definition clearFlags :: "FlagsType \<Rightarrow> Event \<Rightarrow> Event run" where
  "clearFlags f e =
     (if flags_noneSet f (NOT PublicWrite)
      then ret (e\<lparr>ev_flags := flags_clear (ev_flags e) f\<rparr>) else fail AssertFailed)"

definition clearAllFlags :: "Event \<Rightarrow> Event" where
  "clearAllFlags e = e\<lparr>ev_flags := flags_clear (ev_flags e) PublicWrite\<rparr>"

definition scheduled :: "Event \<Rightarrow> bool" where
  "scheduled e \<longleftrightarrow> flags_isSet (ev_flags e) Scheduled"

definition squash :: "Event \<Rightarrow> Event" where
  "squash e = e\<lparr>ev_flags := flags_set (ev_flags e) Squashed\<rparr>"

definition squashed :: "Event \<Rightarrow> bool" where
  "squashed e \<longleftrightarrow> flags_isSet (ev_flags e) Squashed"

definition isExitEvent :: "Event \<Rightarrow> bool" where
  "isExitEvent e \<longleftrightarrow> flags_isSet (ev_flags e) IsExitEvent"

definition isManaged :: "Event \<Rightarrow> bool" where
  "isManaged e \<longleftrightarrow> flags_isSet (ev_flags e) Managed"

definition ev_less :: "Event \<Rightarrow> Event \<Rightarrow> bool" where
  "ev_less l r \<longleftrightarrow> ev_when l < ev_when r \<or>
     (ev_when l = ev_when r \<and> sint (ev_priority l) < sint (ev_priority r))"

definition ev_greater :: "Event \<Rightarrow> Event \<Rightarrow> bool" where
  "ev_greater l r \<longleftrightarrow> ev_when l > ev_when r \<or>
     (ev_when l = ev_when r \<and> sint (ev_priority l) > sint (ev_priority r))"

definition ev_le :: "Event \<Rightarrow> Event \<Rightarrow> bool" where
  "ev_le l r \<longleftrightarrow> ev_when l < ev_when r \<or>
     (ev_when l = ev_when r \<and> sint (ev_priority l) \<le> sint (ev_priority r))"

definition ev_ge :: "Event \<Rightarrow> Event \<Rightarrow> bool" where
  "ev_ge l r \<longleftrightarrow> ev_when l > ev_when r \<or>
     (ev_when l = ev_when r \<and> sint (ev_priority l) \<ge> sint (ev_priority r))"

definition ev_eq :: "Event \<Rightarrow> Event \<Rightarrow> bool" where
  "ev_eq l r \<longleftrightarrow> ev_when l = ev_when r \<and> sint (ev_priority l) = sint (ev_priority r)"

definition ev_neq :: "Event \<Rightarrow> Event \<Rightarrow> bool" where
  "ev_neq l r \<longleftrightarrow> ev_when l \<noteq> ev_when r \<or> sint (ev_priority l) \<noteq> sint (ev_priority r)"

subsection \<open>The store and the queue\<close>

type_synonym evheap = "EvId \<rightharpoonup> Event"

definition deref :: "evheap \<Rightarrow> EvId option \<Rightarrow> Event run" where
  "deref h p = (case p of None \<Rightarrow> fail NullDeref
     | Some a \<Rightarrow> (case h a of None \<Rightarrow> fail NullDeref | Some e \<Rightarrow> ret e))"

lemma deref_Some [simp]: "h a = Some e \<Longrightarrow> deref h (Some a) = ret e"
  by (simp add: deref_def)

lemma deref_None [simp]: "deref h None = fail NullDeref"
  by (simp add: deref_def)

lemma deref_eq_ret [simp]: "deref h (Some a) = ret e \<longleftrightarrow> h a = Some e"
  by (simp add: deref_def split: option.split)

record EventQueue =
  eq_id :: nat
  events :: evheap
  eq_head :: "EvId option"
  eq_curTick :: Tick
  async_queue :: "EvId list"

definition EventQueue_new :: "nat \<Rightarrow> evheap \<Rightarrow> EventQueue" where
  "EventQueue_new n h = \<lparr>eq_id = n, events = h, eq_head = None, eq_curTick = 0, async_queue = []\<rparr>"

definition eq_empty :: "EventQueue \<Rightarrow> bool" where
  "eq_empty q \<longleftrightarrow> eq_head q = None"

definition setCurTick :: "Tick \<Rightarrow> EventQueue \<Rightarrow> EventQueue" where
  "setCurTick t q = q\<lparr>eq_curTick := t\<rparr>"

definition nextTick :: "EventQueue \<Rightarrow> Tick run" where
  "nextTick q = obind (deref (events q) (eq_head q)) (\<lambda>e. ret (ev_when e))"

definition replaceHead :: "EvId option \<Rightarrow> EventQueue \<Rightarrow> EvId option \<times> EventQueue" where
  "replaceHead s q = (eq_head q, q\<lparr>eq_head := s\<rparr>)"

text \<open>\<open>event->flags\<close> is changed in place.\<close>

definition upd_event :: "EvId \<Rightarrow> (Event \<Rightarrow> Event) \<Rightarrow> EventQueue \<Rightarrow> EventQueue run" where
  "upd_event a f q = obind (deref (events q) (Some a)) (\<lambda>e. ret (q\<lparr>events := (events q)(a \<mapsto> f e)\<rparr>))"

subsection \<open>Insertion\<close>

definition insertBefore :: "EvId \<Rightarrow> EvId option \<Rightarrow> evheap \<Rightarrow> (EvId option \<times> evheap) run" where
  "insertBefore event cur h = obind (deref h (Some event)) (\<lambda>ev.
     case cur of
       None \<Rightarrow> ret (Some event, h(event \<mapsto> ev\<lparr>nextBin := cur, nextInBin := None\<rparr>))
     | Some _ \<Rightarrow> obind (deref h cur) (\<lambda>ce.
         if ev_less ev ce
         then ret (Some event, h(event \<mapsto> ev\<lparr>nextBin := cur, nextInBin := None\<rparr>))
         else ret (Some event, h(event \<mapsto> ev\<lparr>nextBin := nextBin ce, nextInBin := cur\<rparr>))))"

text \<open>The loop that \<open>insert\<close> and \<open>remove\<close> share: skip the bins before the event.\<close>

partial_function (option) skip_bins ::
    "evheap \<Rightarrow> Event \<Rightarrow> EvId option \<Rightarrow> EvId option \<Rightarrow> (EvId option \<times> EvId option) run" where
  "skip_bins h ev prev cur =
     (if cur = None then ret (prev, cur)
      else obind (deref h cur) (\<lambda>ce.
        if ev_less ce ev then skip_bins h ev cur (nextBin ce) else ret (prev, cur)))"

text \<open>\<open>prev->nextBin = p\<close>\<close>

definition set_nextBin :: "EvId option \<Rightarrow> EvId option \<Rightarrow> evheap \<Rightarrow> evheap run" where
  "set_nextBin prev p h = obind (deref h prev) (\<lambda>pe. ret (h(the prev \<mapsto> pe\<lparr>nextBin := p\<rparr>)))"

definition set_nextInBin :: "EvId option \<Rightarrow> EvId option \<Rightarrow> evheap \<Rightarrow> evheap run" where
  "set_nextInBin prev p h = obind (deref h prev) (\<lambda>pe. ret (h(the prev \<mapsto> pe\<lparr>nextInBin := p\<rparr>)))"

definition heap_insert :: "EvId \<Rightarrow> EvId option \<Rightarrow> evheap \<Rightarrow> (EvId option \<times> evheap) run" where
  "heap_insert event head h = obind (deref h (Some event)) (\<lambda>ev.
     if head = None then insertBefore event head h
     else obind (deref h head) (\<lambda>hde.
       if ev_le ev hde then insertBefore event head h
       else obind (skip_bins h ev head (nextBin hde)) (\<lambda>(prev, cur).
         obind (insertBefore event cur h) (\<lambda>(p, h).
         obind (set_nextBin prev p h) (\<lambda>h. ret (head, h))))))"

definition eq_insert :: "EvId \<Rightarrow> EventQueue \<Rightarrow> EventQueue run" where
  "eq_insert event q = obind (heap_insert event (eq_head q) (events q)) (\<lambda>(p, h).
     ret (q\<lparr>eq_head := p, events := h\<rparr>))"

subsection \<open>Removal\<close>

partial_function (option) removeItem_loop ::
    "evheap \<Rightarrow> EvId \<Rightarrow> EvId option \<Rightarrow> EvId option \<Rightarrow> (EvId option \<times> EvId option) run" where
  "removeItem_loop h event cur nxt =
     (if Some event = nxt then ret (cur, nxt)
      else if nxt = None then fail PanicError
      else obind (deref h nxt) (\<lambda>ne. removeItem_loop h event nxt (nextInBin ne)))"

definition removeItem :: "EvId \<Rightarrow> EvId option \<Rightarrow> evheap \<Rightarrow> (EvId option \<times> evheap) run" where
  "removeItem event tp h = obind (deref h tp) (\<lambda>te.
     if Some event = tp then
       (if nextInBin te = None then ret (nextBin te, h)
        else obind (set_nextBin (nextInBin te) (nextBin te) h) (\<lambda>h. ret (nextInBin te, h)))
     else obind (removeItem_loop h event tp (nextInBin te)) (\<lambda>(cur, nxt).
       obind (deref h nxt) (\<lambda>ne.
       obind (set_nextInBin cur (nextInBin ne) h) (\<lambda>h. ret (tp, h)))))"

definition heap_remove :: "nat \<Rightarrow> EvId \<Rightarrow> EvId option \<Rightarrow> evheap \<Rightarrow> (EvId option \<times> evheap) run" where
  "heap_remove this event head h =
     (if head = None then fail PanicError
      else obind (deref h (Some event)) (\<lambda>ev.
        obind (guard AssertFailed (ev_queue ev = Some this)) (\<lambda>_.
        obind (deref h head) (\<lambda>hde.
          if ev_eq hde ev then removeItem event head h
          else obind (skip_bins h ev head (nextBin hde)) (\<lambda>(prev, cur).
            if cur = None then fail PanicError
            else obind (deref h cur) (\<lambda>ce.
              if ev_neq ce ev then fail PanicError
              else obind (removeItem event cur h) (\<lambda>(p, h).
                obind (set_nextBin prev p h) (\<lambda>h. ret (head, h)))))))))"

definition eq_remove :: "EvId \<Rightarrow> EventQueue \<Rightarrow> EventQueue run" where
  "eq_remove event q = obind (heap_remove (eq_id q) event (eq_head q) (events q)) (\<lambda>(p, h).
     ret (q\<lparr>eq_head := p, events := h\<rparr>))"

subsection \<open>Scheduling\<close>

text \<open>
  \<open>acquire\<close> and \<open>release\<close> with the default memory management: a managed event that is no longer
  scheduled is deleted (its destructor asserts that it is not scheduled).
\<close>

definition release :: "EvId \<Rightarrow> EventQueue \<Rightarrow> EventQueue run" where
  "release a q = obind (deref (events q) (Some a)) (\<lambda>e.
     ret (if flags_isSet (ev_flags e) Managed \<and> \<not> scheduled e then q\<lparr>events := (events q)(a := None)\<rparr> else q))"

definition asyncInsert :: "EvId \<Rightarrow> EventQueue \<Rightarrow> EventQueue" where
  "asyncInsert a q = q\<lparr>async_queue := async_queue q @ [a]\<rparr>"

definition schedule :: "bool \<Rightarrow> nat \<Rightarrow> EvId \<Rightarrow> Tick \<Rightarrow> bool \<Rightarrow> EventQueue \<Rightarrow> EventQueue run" where
  "schedule inParallelMode curEventQueue event t global q =
     obind (guard AssertFailed (t \<ge> eq_curTick q)) (\<lambda>_.
     obind (deref (events q) (Some event)) (\<lambda>ev.
     obind (guard AssertFailed (\<not> scheduled ev)) (\<lambda>_.
     obind (guard AssertFailed (initialized ev)) (\<lambda>_.
     obind (upd_event event (setWhen t (eq_id q)) q) (\<lambda>q.
     obind (if inParallelMode \<and> (eq_id q \<noteq> curEventQueue \<or> global) then ret (asyncInsert event q)
            else eq_insert event q) (\<lambda>q.
     upd_event event (\<lambda>e. e\<lparr>ev_flags := flags_set (ev_flags e) Scheduled\<rparr>) q))))))"

definition deschedule :: "bool \<Rightarrow> nat \<Rightarrow> EvId \<Rightarrow> EventQueue \<Rightarrow> EventQueue run" where
  "deschedule inParallelMode curEventQueue event q =
     obind (deref (events q) (Some event)) (\<lambda>ev.
     obind (guard AssertFailed (scheduled ev)) (\<lambda>_.
     obind (guard AssertFailed (initialized ev)) (\<lambda>_.
     obind (guard AssertFailed (\<not> inParallelMode \<or> eq_id q = curEventQueue)) (\<lambda>_.
     obind (eq_remove event q) (\<lambda>q.
     obind (upd_event event (\<lambda>e. e\<lparr>ev_flags := flags_clear (flags_clear (ev_flags e) Squashed) Scheduled\<rparr>) q) (\<lambda>q.
     release event q))))))"

definition reschedule :: "bool \<Rightarrow> nat \<Rightarrow> EvId \<Rightarrow> Tick \<Rightarrow> bool \<Rightarrow> EventQueue \<Rightarrow> EventQueue run" where
  "reschedule inParallelMode curEventQueue event t always q =
     obind (guard AssertFailed (t \<ge> eq_curTick q)) (\<lambda>_.
     obind (deref (events q) (Some event)) (\<lambda>ev.
     obind (guard AssertFailed (always \<or> scheduled ev)) (\<lambda>_.
     obind (guard AssertFailed (initialized ev)) (\<lambda>_.
     obind (guard AssertFailed (\<not> inParallelMode \<or> eq_id q = curEventQueue)) (\<lambda>_.
     obind (if scheduled ev then eq_remove event q else ret q) (\<lambda>q.
     obind (upd_event event (setWhen t (eq_id q)) q) (\<lambda>q.
     obind (eq_insert event q) (\<lambda>q.
     upd_event event (\<lambda>e. e\<lparr>ev_flags := flags_set (flags_clear (ev_flags e) Squashed) Scheduled\<rparr>) q))))))))"

text \<open>\<open>Event::squash\<close> through a pointer to an event.\<close>

definition squash_event :: "EvId \<Rightarrow> EventQueue \<Rightarrow> EventQueue run" where
  "squash_event a q = upd_event a squash q"

text \<open>\<open>handleAsyncInsertions\<close>: the queue of the other threads' events is drained.\<close>

fun drain_async :: "EvId list \<Rightarrow> EventQueue \<Rightarrow> EventQueue run" where
  "drain_async [] q = ret q"
| "drain_async (a # as) q = obind (eq_insert a q) (\<lambda>q. drain_async as (q\<lparr>async_queue := as\<rparr>))"

definition handleAsyncInsertions :: "nat \<Rightarrow> EventQueue \<Rightarrow> EventQueue run" where
  "handleAsyncInsertions curEventQueue q =
     obind (guard AssertFailed (eq_id q = curEventQueue)) (\<lambda>_. drain_async (async_queue q) q)"

subsection \<open>Service\<close>

text \<open>
  \<open>process\<close> is the virtual method of the event: what the handler of event \<open>a\<close> does to the queue.
  The first component of the result is the exit event, if the event serviced was one.
\<close>

definition serviceOne :: "(EvId \<Rightarrow> EventQueue \<Rightarrow> EventQueue run) \<Rightarrow> EventQueue \<Rightarrow> (EvId option \<times> EventQueue) run" where
  "serviceOne process q =
     obind (deref (events q) (eq_head q)) (\<lambda>e.
     let event = the (eq_head q); nxt = nextInBin e in
     obind (upd_event event (\<lambda>e. e\<lparr>ev_flags := flags_clear (ev_flags e) Scheduled\<rparr>) q) (\<lambda>q.
     obind (if nxt \<noteq> None
            then obind (set_nextBin nxt (nextBin e) (events q)) (\<lambda>h. ret (q\<lparr>events := h, eq_head := nxt\<rparr>))
            else ret (q\<lparr>eq_head := nextBin e\<rparr>)) (\<lambda>q.
     if \<not> squashed e then
       obind (process event (setCurTick (ev_when e) q)) (\<lambda>q.
       obind (deref (events q) (Some event)) (\<lambda>e.
         if isExitEvent e then
           obind (guard AssertFailed (\<not> flags_isSet (ev_flags e) Managed \<or> \<not> flags_isSet (ev_flags e) IsMainQueue)) (\<lambda>_.
           ret (Some event, q))
         else obind (release event q) (\<lambda>q. ret (None, q))))
     else
       obind (upd_event event (\<lambda>e. e\<lparr>ev_flags := flags_clear (ev_flags e) Squashed\<rparr>) q) (\<lambda>q.
       obind (release event q) (\<lambda>q. ret (None, q))))))"

partial_function (option) serviceEvents_loop ::
    "(EvId \<Rightarrow> EventQueue \<Rightarrow> EventQueue run) \<Rightarrow> Tick \<Rightarrow> EventQueue \<Rightarrow> EventQueue run" where
  "serviceEvents_loop process t q =
     (if eq_empty q then ret q
      else obind (nextTick q) (\<lambda>nt.
        if nt > t then ret q
        else obind (serviceOne process q) (\<lambda>(x, q). serviceEvents_loop process t q)))"

definition serviceEvents :: "(EvId \<Rightarrow> EventQueue \<Rightarrow> EventQueue run) \<Rightarrow> Tick \<Rightarrow> EventQueue \<Rightarrow> EventQueue run" where
  "serviceEvents process t q = obind (serviceEvents_loop process t q) (\<lambda>q. ret (setCurTick t q))"

text \<open>\<open>~EventQueue\<close>: whatever is still scheduled is descheduled, head first.\<close>

partial_function (option) EventQueue_delete :: "bool \<Rightarrow> nat \<Rightarrow> EventQueue \<Rightarrow> EventQueue run" where
  "EventQueue_delete inParallelMode curEventQueue q =
     (if eq_empty q then ret q
      else obind (deschedule inParallelMode curEventQueue (the (eq_head q)) q)
             (EventQueue_delete inParallelMode curEventQueue))"

subsection \<open>Checkpoints\<close>

text \<open>
  What \<open>serialize\<close> writes for an event and \<open>unserialize\<close> reads back. The flags go out as a
  (signed) \<open>short\<close> and come back as an \<open>unsigned short\<close>; the flags of an initialised event
  have the top bit clear, so both print the same digits.
\<close>

record EventCheckpoint =
  cp_when :: Tick
  cp_priority :: Priority
  cp_flags :: FlagsType

definition ev_serialize :: "Event \<Rightarrow> EventCheckpoint" where
  "ev_serialize e = \<lparr>cp_when = ev_when e, cp_priority = ev_priority e, cp_flags = ev_flags e\<rparr>"

definition ev_unserialize :: "EventCheckpoint \<Rightarrow> Event \<Rightarrow> Event run" where
  "ev_unserialize cp e =
     (if scheduled e then fail AssertFailed
      else if \<not> initialized e then fail AssertFailed
      else
        let fl = flags_set (cp_flags cp) Initialized;
            fl = (if flags_isSet fl Scheduled \<and> \<not> flags_isSet fl Squashed
                  then flags_clear fl (Squashed OR Scheduled) else fl)
        in ret (e\<lparr>ev_when := cp_when cp, ev_priority := cp_priority cp, ev_flags := fl\<rparr>))"

definition checkpointReschedule :: "EvId \<Rightarrow> EventQueue \<Rightarrow> EventQueue run" where
  "checkpointReschedule a q = obind (deref (events q) (Some a)) (\<lambda>e.
     if flags_isSet (ev_flags e) Scheduled then eq_insert a q else ret q)"

subsection \<open>Self check\<close>

text \<open>
  \<open>debugVerify\<close>: the state of its loops is the last time and priority and the nodes seen; the
  result of the inner loop is \<open>None\<close> when it returned \<open>false\<close>.
\<close>

type_synonym verify_state = "Tick \<times> int \<times> EvId set"

partial_function (option) debugVerify_bin :: "evheap \<Rightarrow> verify_state \<Rightarrow> EvId option \<Rightarrow> verify_state option run" where
  "debugVerify_bin h st p =
     (case st of (time, priority, seen) \<Rightarrow>
      if p = None then ret (Some st)
      else obind (deref h p) (\<lambda>e.
        if ev_when e < time then ret None
        else if ev_when e = time \<and> sint (ev_priority e) < priority then ret None
        else if the p \<in> seen then ret None
        else debugVerify_bin h (ev_when e, sint (ev_priority e), insert (the p) seen) (nextInBin e)))"

partial_function (option) debugVerify_loop :: "evheap \<Rightarrow> verify_state \<Rightarrow> EvId option \<Rightarrow> bool run" where
  "debugVerify_loop h st p =
     (if p = None then ret True
      else obind (debugVerify_bin h st p) (\<lambda>r.
        if r = None then ret False
        else obind (deref h p) (\<lambda>e. debugVerify_loop h (the r) (nextBin e))))"

definition debugVerify :: "EventQueue \<Rightarrow> bool run" where
  "debugVerify q = debugVerify_loop (events q) (0, 0, {}) (eq_head q)"

subsection \<open>Order\<close>

text \<open>The time and the priority as a key: the order operators compare keys lexicographically.\<close>

definition ekey :: "Event \<Rightarrow> nat \<times> int" where
  "ekey e = (unat (ev_when e), sint (ev_priority e))"

lemma ev_less_ekey: "ev_less l r \<longleftrightarrow> ekey l < ekey r"
  by (auto simp: ev_less_def ekey_def less_prod_def word_less_nat_alt word_unat_eq_iff)

lemma ev_le_ekey: "ev_le l r \<longleftrightarrow> ekey l \<le> ekey r"
  by (auto simp: ev_le_def ekey_def less_eq_prod_def word_less_nat_alt word_unat_eq_iff)

lemma ev_eq_ekey: "ev_eq l r \<longleftrightarrow> ekey l = ekey r"
  by (auto simp: ev_eq_def ekey_def word_unat_eq_iff)

lemma ev_neq_ekey: "ev_neq l r \<longleftrightarrow> ekey l \<noteq> ekey r"
  by (auto simp: ev_neq_def ekey_def word_unat_eq_iff)

lemma ev_greater_ekey: "ev_greater l r \<longleftrightarrow> ekey l > ekey r"
  by (auto simp: ev_greater_def ekey_def less_prod_def word_less_nat_alt word_unat_eq_iff)

lemma ev_ge_ekey: "ev_ge l r \<longleftrightarrow> ekey l \<ge> ekey r"
  by (auto simp: ev_ge_def ekey_def less_eq_prod_def word_less_nat_alt word_unat_eq_iff)

lemmas ev_order = ev_less_ekey ev_le_ekey ev_eq_ekey ev_neq_ekey ev_greater_ekey ev_ge_ekey

lemma ekey_links [simp]:
  "ekey (e\<lparr>nextBin := p\<rparr>) = ekey e" "ekey (e\<lparr>nextInBin := p\<rparr>) = ekey e" "ekey (e\<lparr>ev_flags := f\<rparr>) = ekey e"
  by (simp_all add: ekey_def)

subsection \<open>Bins in the store\<close>

text \<open>
  \<open>chain h p b\<close>: the \<open>nextInBin\<close> pointers lead from \<open>p\<close> through the events \<open>b\<close> to null.
  \<open>bpath h p bs r\<close>: the \<open>nextBin\<close> pointers of the tops lead from \<open>p\<close> through the bins \<open>bs\<close>
  to \<open>r\<close>. The \<open>nextBin\<close> of an event below the top of its bin plays no role: it may be stale.
\<close>

fun chain :: "evheap \<Rightarrow> EvId option \<Rightarrow> EvId list \<Rightarrow> bool" where
  "chain h p [] \<longleftrightarrow> p = None"
| "chain h p (a # as) \<longleftrightarrow> p = Some a \<and> (\<exists>e. h a = Some e \<and> chain h (nextInBin e) as)"

fun bpath :: "evheap \<Rightarrow> EvId option \<Rightarrow> EvId list list \<Rightarrow> EvId option \<Rightarrow> bool" where
  "bpath h p [] r \<longleftrightarrow> p = r"
| "bpath h p (b # bs) r \<longleftrightarrow> b \<noteq> [] \<and> chain h p b \<and> bpath h (nextBin (the (h (hd b)))) bs r"

definition hkey :: "evheap \<Rightarrow> EvId \<Rightarrow> nat \<times> int" where
  "hkey h a = ekey (the (h a))"

definition uniform :: "('a \<Rightarrow> 'k) \<Rightarrow> 'a list \<Rightarrow> bool" where
  "uniform k b \<longleftrightarrow> b \<noteq> [] \<and> (\<forall>x \<in> set b. \<forall>y \<in> set b. k x = k y)"

definition bins_sorted :: "('a \<Rightarrow> 'k::linorder) \<Rightarrow> 'a list list \<Rightarrow> bool" where
  "bins_sorted k bs \<longleftrightarrow> (\<forall>b \<in> set bs. uniform k b) \<and>
     sorted_wrt (\<lambda>b c. k (hd b) < k (hd c)) bs"

definition bins :: "evheap \<Rightarrow> EvId option \<Rightarrow> EvId list list \<Rightarrow> bool" where
  "bins h p bs \<longleftrightarrow> bpath h p bs None \<and> distinct (concat bs) \<and> bins_sorted (hkey h) bs"

lemma chain_dom: "chain h p b \<Longrightarrow> x \<in> set b \<Longrightarrow> \<exists>e. h x = Some e"
  by (induction b arbitrary: p) auto

lemma chain_cong:
  assumes "chain h p b" and "\<And>x. x \<in> set b \<Longrightarrow> map_option nextInBin (h' x) = map_option nextInBin (h x)"
  shows "chain h' p b"
  using assms
proof (induction b arbitrary: p)
  case (Cons a b)
  then obtain e where e: "h a = Some e" "chain h (nextInBin e) b" by auto
  with Cons.prems(2) [of a] obtain e' where "h' a = Some e'" "nextInBin e' = nextInBin e" by auto
  with Cons e show ?case by auto
qed simp

lemma chain_upd_other: "chain h p b \<Longrightarrow> a \<notin> set b \<Longrightarrow> chain (h(a := v)) p b"
  by (erule chain_cong) auto

lemma chain_head: "chain h p b \<Longrightarrow> b \<noteq> [] \<Longrightarrow> p = Some (hd b)"
  by (cases b) auto

lemma bpath_append: "bpath h p (xs @ ys) r \<longleftrightarrow> (\<exists>q. bpath h p xs q \<and> bpath h q ys r)"
  by (induction xs arbitrary: p) auto

lemma bpath_nonempty: "bpath h p bs r \<Longrightarrow> b \<in> set bs \<Longrightarrow> b \<noteq> []"
  by (induction bs arbitrary: p) auto

lemma bpath_dom: "bpath h p bs r \<Longrightarrow> x \<in> set (concat bs) \<Longrightarrow> \<exists>e. h x = Some e"
  by (induction bs arbitrary: p) (auto dest: chain_dom)

lemma bpath_head: "bpath h p bs r \<Longrightarrow> p = (if bs = [] then r else Some (hd (hd bs)))"
  by (cases bs) (auto dest: chain_head)

lemma bpath_cong:
  assumes "bpath h p bs r"
    and "\<And>x. x \<in> set (concat bs) \<Longrightarrow> map_option nextInBin (h' x) = map_option nextInBin (h x)"
    and "\<And>b. b \<in> set bs \<Longrightarrow> nextBin (the (h' (hd b))) = nextBin (the (h (hd b)))"
  shows "bpath h' p bs r"
  using assms
proof (induction bs arbitrary: p)
  case (Cons b bs)
  have "chain h p b" and nb: "bpath h (nextBin (the (h (hd b)))) bs r" and ne: "b \<noteq> []"
    using Cons.prems(1) by simp_all
  then have "chain h' p b" by (rule_tac chain_cong) (simp_all add: Cons.prems(2))
  moreover have "bpath h' (nextBin (the (h (hd b)))) bs r"
    by (rule Cons.IH [OF nb]) (simp_all add: Cons.prems(2,3))
  ultimately show ?case using ne by (simp add: Cons.prems(3))
qed simp

lemma bpath_hd_mem:
  assumes "bpath h p bs r" and "b \<in> set bs"
  shows "hd b \<in> set (concat bs)"
  using hd_in_set [OF bpath_nonempty [OF assms]] assms(2) by (auto simp: set_concat)

lemma bpath_upd_other:
  assumes "bpath h p bs r" and "a \<notin> set (concat bs)"
  shows "bpath (h(a := v)) p bs r"
proof (rule bpath_cong [OF assms(1)])
  fix b assume "b \<in> set bs"
  with assms have "hd b \<noteq> a" using bpath_hd_mem by blast
  then show "nextBin (the ((h(a := v)) (hd b))) = nextBin (the (h (hd b)))" by simp
qed (use assms(2) in auto)

text \<open>The last bin of a path can be made to point elsewhere.\<close>

lemma bpath_relink:
  assumes "bpath h p (bs @ [b]) q" and "distinct (concat (bs @ [b]))" and "h (hd b) = Some e"
  shows "bpath (h(hd b \<mapsto> e\<lparr>nextBin := r\<rparr>)) p (bs @ [b]) r"
proof -
  obtain m where m: "bpath h p bs m" "b \<noteq> []" "chain h m b"
    using assms(1) by (auto simp: bpath_append)
  have "hd b \<notin> set (concat bs)" using m(2) assms(2) hd_in_set by fastforce
  then have "bpath (h(hd b \<mapsto> e\<lparr>nextBin := r\<rparr>)) p bs m" by (rule bpath_upd_other [OF m(1)])
  moreover have "chain (h(hd b \<mapsto> e\<lparr>nextBin := r\<rparr>)) m b"
    by (rule chain_cong [OF m(3)]) (use assms(3) in auto)
  ultimately show ?thesis using m(2) by (auto simp: bpath_append)
qed

text \<open>Two stores whose events differ at most in their links.\<close>

definition ev_data :: "Event \<Rightarrow> Tick \<times> Priority \<times> FlagsType \<times> nat option" where
  "ev_data e = (ev_when e, ev_priority e, ev_flags e, ev_queue e)"

definition same_data :: "evheap \<Rightarrow> evheap \<Rightarrow> bool" where
  "same_data h h' \<longleftrightarrow> (\<forall>a. map_option ev_data (h' a) = map_option ev_data (h a))"

lemma same_data_refl [simp]: "same_data h h"
  by (simp add: same_data_def)

lemma same_data_trans: "same_data h h' \<Longrightarrow> same_data h' h'' \<Longrightarrow> same_data h h''"
  by (simp add: same_data_def)

lemma same_data_upd: "h a = Some e \<Longrightarrow> ev_data e' = ev_data e \<Longrightarrow> same_data h (h(a \<mapsto> e'))"
  by (simp add: same_data_def)

lemma ev_data_links [simp]: "ev_data (e\<lparr>nextBin := p\<rparr>) = ev_data e" "ev_data (e\<lparr>nextInBin := p\<rparr>) = ev_data e"
  by (simp_all add: ev_data_def)

lemma same_data_None: "same_data h h' \<Longrightarrow> h' a = None \<longleftrightarrow> h a = None"
  unfolding same_data_def by (metis option.map_disc_iff)

lemma same_data_Some:
  assumes "same_data h h'" and "h a = Some e"
  obtains e' where "h' a = Some e'" and "ev_data e' = ev_data e"
  using assms unfolding same_data_def by (metis (no_types, lifting) map_option_eq_Some option.simps(9))

lemma same_data_hkey:
  assumes "same_data h h'" and "h a = Some e"
  shows "hkey h' a = hkey h a"
  by (rule same_data_Some [OF assms]) (simp add: assms(2) hkey_def ev_data_def ekey_def)

subsection \<open>Sorted bins\<close>

lemma uniformD: "uniform k b \<Longrightarrow> x \<in> set b \<Longrightarrow> k x = k (hd b)"
  unfolding uniform_def by (meson list.set_sel(1))

lemma uniform_single [simp]: "uniform k [a]"
  by (simp add: uniform_def)

lemma uniform_Cons: "b \<noteq> [] \<Longrightarrow> uniform k (a # b) \<longleftrightarrow> k a = k (hd b) \<and> uniform k b"
  unfolding uniform_def by (metis list.set_sel(1) list.distinct(1) set_ConsD list.set_intros)

lemma uniform_hd: "uniform k b \<Longrightarrow> hd b \<in> set b"
  by (simp add: uniform_def)

lemma bins_sorted_Cons:
  "bins_sorted k (b # bs) \<longleftrightarrow> uniform k b \<and> (\<forall>c \<in> set bs. k (hd b) < k (hd c)) \<and> bins_sorted k bs"
  by (auto simp: bins_sorted_def)

lemma bins_sorted_Nil [simp]: "bins_sorted k []"
  by (simp add: bins_sorted_def)

lemma bins_sorted_uniform: "bins_sorted k bs \<Longrightarrow> b \<in> set bs \<Longrightarrow> uniform k b"
  by (simp add: bins_sorted_def)

lemma bins_sorted_later:
  assumes "bins_sorted k (b # bs)" and "x \<in> set (concat bs)"
  shows "k (hd b) < k x"
proof -
  obtain c where c: "c \<in> set bs" "x \<in> set c" using assms(2) by auto
  from assms(1) c(1) have "uniform k c" "k (hd b) < k (hd c)" by (auto simp: bins_sorted_def)
  with uniformD [OF this(1) c(2)] show ?thesis by simp
qed

lemma uniform_cong: "uniform k b \<Longrightarrow> (\<And>x. x \<in> set b \<Longrightarrow> k' x = k x) \<Longrightarrow> uniform k' b"
  unfolding uniform_def by metis

lemma bins_sorted_cong:
  assumes "bins_sorted k bs" and "\<And>x. x \<in> set (concat bs) \<Longrightarrow> k' x = k x"
  shows "bins_sorted k' bs"
  using assms
proof (induction bs)
  case (Cons b bs)
  have hd: "k' (hd c) = k (hd c)" if "c \<in> set (b # bs)" for c
    using that uniform_hd [OF bins_sorted_uniform [OF Cons.prems(1) that]] by (intro Cons.prems(2)) auto
  have "uniform k' b"
    by (rule uniform_cong [of k]) (use Cons.prems in \<open>simp_all add: bins_sorted_Cons\<close>)
  moreover from Cons have "bins_sorted k' bs" by (simp add: bins_sorted_Cons)
  ultimately show ?case using Cons.prems(1) hd by (simp add: bins_sorted_Cons)
qed simp

text \<open>Insertion and removal on the list of bins and on the flat list of events.\<close>

fun ins_bins :: "('a \<Rightarrow> 'k::linorder) \<Rightarrow> 'a \<Rightarrow> 'a list list \<Rightarrow> 'a list list" where
  "ins_bins k a [] = [[a]]"
| "ins_bins k a (b # bs) =
     (if k a < k (hd b) then [a] # b # bs
      else if k a = k (hd b) then (a # b) # bs
      else b # ins_bins k a bs)"

definition ins_flat :: "('a \<Rightarrow> 'k::linorder) \<Rightarrow> 'a \<Rightarrow> 'a list \<Rightarrow> 'a list" where
  "ins_flat k a xs = takeWhile (\<lambda>x. k x < k a) xs @ a # dropWhile (\<lambda>x. k x < k a) xs"

definition del_bins :: "'a \<Rightarrow> 'a list list \<Rightarrow> 'a list list" where
  "del_bins a bs = filter (\<lambda>b. b \<noteq> []) (map (remove1 a) bs)"

lemma ins_flat_set: "set (ins_flat k a xs) = insert a (set xs)"
proof -
  have "set xs = set (takeWhile (\<lambda>x. k x < k a) xs @ dropWhile (\<lambda>x. k x < k a) xs)" by simp
  then show ?thesis unfolding ins_flat_def set_append by auto
qed

lemma ins_flat_distinct: "distinct xs \<Longrightarrow> a \<notin> set xs \<Longrightarrow> distinct (ins_flat k a xs)"
proof -
  assume "distinct xs" "a \<notin> set xs"
  then have "distinct (takeWhile (\<lambda>x. k x < k a) xs @ dropWhile (\<lambda>x. k x < k a) xs)"
    and "a \<notin> set (takeWhile (\<lambda>x. k x < k a) xs @ dropWhile (\<lambda>x. k x < k a) xs)" by simp_all
  then show ?thesis by (simp add: ins_flat_def del: takeWhile_dropWhile_id)
qed

lemma takeWhile_all_append: "(\<forall>x \<in> set xs. P x) \<Longrightarrow> takeWhile P (xs @ ys) = xs @ takeWhile P ys"
  by (induction xs) auto

lemma dropWhile_all_append: "(\<forall>x \<in> set xs. P x) \<Longrightarrow> dropWhile P (xs @ ys) = dropWhile P ys"
  by (induction xs) auto

lemma concat_ins_bins: "bins_sorted k bs \<Longrightarrow> concat (ins_bins k a bs) = ins_flat k a (concat bs)"
proof (induction bs)
  case (Cons b bs)
  then have b: "uniform k b" and bs: "bins_sorted k bs" by (simp_all add: bins_sorted_Cons)
  then have ne: "b \<noteq> []" by (simp add: uniform_def)
  show ?case
  proof (cases "k (hd b) < k a")
    case True
    then have "\<forall>x \<in> set b. k x < k a" using uniformD [OF b] by auto
    with less_not_sym [OF True] less_imp_neq [OF True, symmetric] Cons.IH [OF bs] show ?thesis
      by (simp add: ins_flat_def takeWhile_all_append dropWhile_all_append)
  next
    case False
    with ne show ?thesis by (cases b) (auto simp: ins_flat_def)
  qed
qed (simp add: ins_flat_def)

lemma ins_bins_tops: "c \<in> set (ins_bins k a bs) \<Longrightarrow> k (hd c) = k a \<or> (\<exists>d \<in> set bs. k (hd c) = k (hd d))"
  by (induction bs) (auto split: if_splits)

lemma ins_bins_sorted: "bins_sorted k bs \<Longrightarrow> bins_sorted k (ins_bins k a bs)"
proof (induction bs)
  case (Cons b bs)
  consider "k a < k (hd b)" | "k a = k (hd b)" | "k (hd b) < k a" by (metis linorder_neqE)
  then show ?case
  proof cases
    case 3
    have "k (hd b) < k (hd c)" if "c \<in> set (ins_bins k a bs)" for c
      using ins_bins_tops [OF that] 3 Cons.prems by (auto simp: bins_sorted_Cons)
    with less_not_sym [OF 3] less_imp_neq [OF 3, symmetric] Cons show ?thesis by (simp add: bins_sorted_Cons)
  next
    case 2
    from Cons.prems have "uniform k b" by (simp add: bins_sorted_Cons)
    with 2 have "uniform k (a # b)" by (subst uniform_Cons) (auto dest: uniform_hd)
    with 2 Cons.prems show ?thesis by (simp add: bins_sorted_Cons)
  next
    case 1
    then show ?thesis using Cons.prems by (auto simp: bins_sorted_Cons intro: less_trans)
  qed
qed (simp add: bins_sorted_Cons)

lemma concat_del_bins: "distinct (concat bs) \<Longrightarrow> concat (del_bins a bs) = remove1 a (concat bs)"
proof (induction bs)
  case (Cons b bs)
  have "concat (del_bins a (b # bs)) = remove1 a b @ concat (del_bins a bs)" by (simp add: del_bins_def)
  also have "\<dots> = remove1 a b @ remove1 a (concat bs)" using Cons by simp
  also have "\<dots> = remove1 a (concat (b # bs))"
  proof (cases "a \<in> set b")
    case True
    then have "a \<notin> set (concat bs)" using Cons.prems by auto
    then show ?thesis using True by (simp add: remove1_append remove1_idem del: set_concat)
  qed (simp add: remove1_append remove1_idem)
  finally show ?case .
qed (simp add: del_bins_def)

lemma uniform_remove1: "uniform k b \<Longrightarrow> remove1 a b \<noteq> [] \<Longrightarrow> uniform k (remove1 a b)"
  unfolding uniform_def using notin_set_remove1 by metis

lemma del_bins_sorted: "bins_sorted k bs \<Longrightarrow> bins_sorted k (del_bins a bs)"
proof (induction bs)
  case (Cons b bs)
  then have b: "uniform k b" and IH: "bins_sorted k (del_bins a bs)" by (simp_all add: bins_sorted_Cons)
  have later: "k (hd b) < k (hd c)" if "c \<in> set (del_bins a bs)" for c
  proof (rule bins_sorted_later [OF Cons.prems])
    from that obtain d where "d \<in> set bs" "c = remove1 a d" "c \<noteq> []" by (auto simp: del_bins_def)
    then have "hd c \<in> set d" using hd_in_set [of c] notin_set_remove1 [of "hd c" d a] by blast
    with \<open>d \<in> set bs\<close> show "hd c \<in> set (concat bs)" by auto
  qed
  show ?case
  proof (cases "remove1 a b = []")
    case True
    then show ?thesis using IH by (simp add: del_bins_def)
  next
    case False
    then have "hd (remove1 a b) \<in> set b" using hd_in_set notin_set_remove1 by metis
    then have "k (hd (remove1 a b)) = k (hd b)" by (rule uniformD [OF b])
    with False later IH uniform_remove1 [OF b] show ?thesis by (simp add: del_bins_def bins_sorted_Cons)
  qed
qed (simp add: del_bins_def)

subsection \<open>The operations on the store refine those on bins\<close>

definition first_ptr :: "EvId list list \<Rightarrow> EvId option" where
  "first_ptr bs = (if bs = [] then None else Some (hd (hd bs)))"

definition last_ptr :: "EvId option \<Rightarrow> EvId list list \<Rightarrow> EvId option" where
  "last_ptr prev bs = (if bs = [] then prev else Some (hd (last bs)))"

lemma last_ptr_Cons: "last_ptr prev (b # bs) = last_ptr (Some (hd b)) bs"
  by (simp add: last_ptr_def)

lemma bpath_ConsE:
  assumes "bpath h p (b # bs) r"
  obtains e where "h (hd b) = Some e" and "p = Some (hd b)" and "b \<noteq> []" and "chain h p b"
    and "bpath h (nextBin e) bs r"
  using assms chain_head [of h p b] chain_dom [of h p b "hd b"] by auto

lemma skip_bins_spec:
  assumes "bpath h cur bs None"
  shows "skip_bins h ev prev cur =
    ret (last_ptr prev (takeWhile (\<lambda>b. hkey h (hd b) < ekey ev) bs),
         first_ptr (dropWhile (\<lambda>b. hkey h (hd b) < ekey ev) bs))"
  using assms
proof (induction bs arbitrary: prev cur)
  case Nil
  then show ?case by (subst skip_bins.simps) (simp add: last_ptr_def first_ptr_def)
next
  case (Cons b bs)
  from Cons.prems obtain e where e: "h (hd b) = Some e" "cur = Some (hd b)" and rest: "bpath h (nextBin e) bs None"
    by (rule bpath_ConsE)
  show ?case
  proof (cases "hkey h (hd b) < ekey ev")
    case True
    with e have "skip_bins h ev prev cur = skip_bins h ev cur (nextBin e)"
      by (subst skip_bins.simps) (simp add: ev_order hkey_def)
    with True e Cons.IH [OF rest] show ?thesis by (simp add: last_ptr_Cons)
  next
    case False
    with e show ?thesis
      by (subst skip_bins.simps) (simp add: ev_order hkey_def last_ptr_def first_ptr_def)
  qed
qed

lemma insertBefore_spec:
  assumes "bpath h cur rs None" and "event \<notin> set (concat rs)" and "h event = Some ev"
    and "rs \<noteq> [] \<Longrightarrow> ekey ev \<le> hkey h (hd (hd rs))"
  obtains e' where "insertBefore event cur h = ret (Some event, h(event \<mapsto> e'))"
    and "ev_data e' = ev_data ev"
    and "bpath (h(event \<mapsto> e')) (Some event) (ins_bins (hkey h) event rs) None"
proof (cases rs)
  case Nil
  with assms that show ?thesis by (simp add: insertBefore_def)
next
  case (Cons b bs)
  from assms(1) [unfolded Cons] obtain ce where ce: "h (hd b) = Some ce" "cur = Some (hd b)" "b \<noteq> []"
    by (rule bpath_ConsE)
  have k: "hkey h event = ekey ev" "hkey h (hd b) = ekey ce" by (simp_all add: hkey_def assms(3) ce)
  have fr: "bpath (h(event \<mapsto> e')) cur (b # bs) None" for e'
    using bpath_upd_other [OF assms(1,2)] Cons by simp
  show ?thesis
  proof (cases "ekey ev < ekey ce")
    case True
    have "insertBefore event cur h = ret (Some event, h(event \<mapsto> ev\<lparr>nextBin := cur, nextInBin := None\<rparr>))"
      by (simp add: insertBefore_def ce assms(3) ev_order True)
    with True fr show ?thesis
      by (intro that [of "ev\<lparr>nextBin := cur, nextInBin := None\<rparr>"]) (auto simp: Cons k)
  next
    case False
    then have eq: "ekey ev = ekey ce" using assms(4) Cons k by simp
    have "insertBefore event cur h = ret (Some event, h(event \<mapsto> ev\<lparr>nextBin := nextBin ce, nextInBin := cur\<rparr>))"
      by (simp add: insertBefore_def ce assms(3) ev_order False)
    moreover have "hd b \<noteq> event" using assms(2) Cons hd_in_set [OF ce(3)] by auto
    ultimately show ?thesis
      using fr [of "ev\<lparr>nextBin := nextBin ce, nextInBin := cur\<rparr>"] 
      by (intro that [of "ev\<lparr>nextBin := nextBin ce, nextInBin := cur\<rparr>"]) (auto simp: Cons k eq ce)
  qed
qed

lemma set_ins_bins: "set (concat (ins_bins k a bs)) = insert a (set (concat bs))"
  by (induction bs) auto

lemma ins_bins_skip:
  "ins_bins k a bs = takeWhile (\<lambda>b. k (hd b) < k a) bs @ ins_bins k a (dropWhile (\<lambda>b. k (hd b) < k a) bs)"
proof (induction bs)
  case (Cons b bs)
  show ?case
  proof (cases "k (hd b) < k a")
    case True
    with less_not_sym [OF True] less_imp_neq [OF True, symmetric] Cons show ?thesis by simp
  qed simp
qed simp

lemma bins_upd_same:
  assumes "bins h p bs" and "same_data h h'" and "bpath h' p' bs' None"
    and "distinct (concat bs')" and "bins_sorted (hkey h) bs'" and "\<And>x. x \<in> set (concat bs') \<Longrightarrow> h x \<noteq> None"
  shows "bins h' p' bs'"
  unfolding bins_def
proof (intro conjI assms)
  show "bins_sorted (hkey h') bs'"
    by (rule bins_sorted_cong [OF assms(5)]) (use assms(2,6) same_data_hkey in blast)
qed

lemma bins_ins:
  assumes "bins h p bs" and "same_data h h'" and "bpath h' p' (ins_bins (hkey h) a bs) None"
    and "a \<notin> set (concat bs)" and "h a = Some e"
  shows "bins h' p' (ins_bins (hkey h) a bs)"
proof (rule bins_upd_same [OF assms(1-3)])
  from assms(1) have srt: "bins_sorted (hkey h) bs" and "distinct (concat bs)" and path: "bpath h p bs None"
    by (simp_all add: bins_def)
  then show "distinct (concat (ins_bins (hkey h) a bs))"
    using assms(4) by (simp add: concat_ins_bins ins_flat_distinct del: set_concat)
  show "bins_sorted (hkey h) (ins_bins (hkey h) a bs)" by (rule ins_bins_sorted [OF srt])
  show "h x \<noteq> None" if "x \<in> set (concat (ins_bins (hkey h) a bs))" for x
    using that assms(5) bpath_dom [OF path] by (auto simp: concat_ins_bins [OF srt] ins_flat_set simp del: set_concat)
qed

lemma heap_insert_spec:
  assumes "bins h p bs" and "event \<notin> set (concat bs)" and "h event = Some ev"
  obtains p' h' where "heap_insert event p h = ret (p', h')"
    and "bins h' p' (ins_bins (hkey h) event bs)" and "same_data h h'"
proof -
  note fin = bins_ins [OF assms(1) _ _ assms(2,3)]
  from assms(1) have path: "bpath h p bs None" and dist: "distinct (concat bs)" by (simp_all add: bins_def)
  have kev: "hkey h event = ekey ev" by (simp add: hkey_def assms(3))
  show ?thesis
  proof (cases "bs = [] \<or> ekey ev \<le> hkey h (hd (hd bs))")
    case True
    obtain e' where e': "insertBefore event p h = ret (Some event, h(event \<mapsto> e'))" "ev_data e' = ev_data ev"
      "bpath (h(event \<mapsto> e')) (Some event) (ins_bins (hkey h) event bs) None"
      by (rule insertBefore_spec [OF path assms(2,3)]) (use True in auto)
    have "heap_insert event p h = insertBefore event p h"
    proof (cases bs)
      case Nil
      with path show ?thesis by (simp add: heap_insert_def assms(3))
    next
      case (Cons b bs')
      from path [unfolded Cons] obtain e where "h (hd b) = Some e" "p = Some (hd b)" by (rule bpath_ConsE)
      with True Cons show ?thesis by (simp add: heap_insert_def assms(3) ev_order hkey_def)
    qed
    with e' have "heap_insert event p h = ret (Some event, h(event \<mapsto> e'))" by simp
    then show ?thesis
      by (rule that) (use e' same_data_upd [of h event, OF assms(3) e'(2)] in \<open>auto intro: fin\<close>)
  next
    case False
    then obtain b bs' where bs: "bs = b # bs'" and lt: "hkey h (hd b) < ekey ev" by (cases bs) auto
    define ps where "ps = takeWhile (\<lambda>b. hkey h (hd b) < ekey ev) bs'"
    define rs where "rs = dropWhile (\<lambda>b. hkey h (hd b) < ekey ev) bs'"
    have spl: "bs' = ps @ rs" by (simp add: ps_def rs_def)
    from path [unfolded bs] obtain e where e: "h (hd b) = Some e" "p = Some (hd b)" "bpath h (nextBin e) bs' None"
      by (rule bpath_ConsE)
    define l where "l = last (b # ps)"
    define fs where "fs = butlast (b # ps)"
    have front: "b # ps = fs @ [l]" by (simp add: l_def fs_def)
    from path obtain m where m: "bpath h p (b # ps) m" "bpath h m rs None"
      using bpath_append [of h p "b # ps" rs None] by (auto simp: bs spl)
    have mfirst: "m = first_ptr rs" using bpath_head [OF m(2)] by (simp add: first_ptr_def)
    have skip: "skip_bins h ev p (nextBin e) = ret (Some (hd l), m)"
      using skip_bins_spec [OF e(3), of ev p] by (simp add: ps_def rs_def mfirst l_def last_ptr_def e(2))
    have nin: "event \<notin> set (concat rs)" "event \<notin> set (concat (b # ps))" using assms(2) by (auto simp: bs spl)
    obtain e' where e': "insertBefore event m h = ret (Some event, h(event \<mapsto> e'))" "ev_data e' = ev_data ev"
      "bpath (h(event \<mapsto> e')) (Some event) (ins_bins (hkey h) event rs) None"
    proof (rule insertBefore_spec [OF m(2) nin(1) assms(3)])
      show "ekey ev \<le> hkey h (hd (hd rs))" if "rs \<noteq> []"
        using hd_dropWhile [of "\<lambda>b. hkey h (hd b) < ekey ev" bs'] that by (simp add: rs_def)
    qed
    have "hd l \<in> set (concat (b # ps))" by (rule bpath_hd_mem [OF m(1)]) (simp add: l_def)
    moreover from this obtain le where le: "h (hd l) = Some le" using bpath_dom [OF m(1)] by blast
    ultimately have lne: "hd l \<noteq> event" "hd l \<notin> set (concat (ins_bins (hkey h) event rs))"
      using nin dist by (auto simp: set_ins_bins bs spl simp del: set_concat)
    define h' where "h' = (h(event \<mapsto> e'))(hd l \<mapsto> le\<lparr>nextBin := Some event\<rparr>)"
    have "\<not> ekey ev \<le> ekey e" using lt by (simp add: hkey_def e(1) not_le)
    then have "heap_insert event p h = ret (p, h')"
      using lne(1) by (simp add: heap_insert_def assms(3) e(1,2) skip [unfolded e(2)] e'(1) set_nextBin_def
          ev_order hkey_def le h'_def)
    moreover have "bpath h' p (b # ps) (Some event)"
      unfolding h'_def unfolding front
    proof (rule bpath_relink [where e = le])
      show "bpath (h(event \<mapsto> e')) p (fs @ [l]) m"
        using bpath_upd_other [OF m(1) nin(2)] by (simp flip: front)
      show "distinct (concat (fs @ [l]))" using dist by (auto simp flip: front simp: bs spl)
    qed (simp add: lne le)
    moreover have "bpath h' (Some event) (ins_bins (hkey h) event rs) None"
      unfolding h'_def by (rule bpath_upd_other [OF e'(3) lne(2)])
    moreover have "ins_bins (hkey h) event bs = (b # ps) @ ins_bins (hkey h) event rs"
      using ins_bins_skip [of "hkey h" event bs] lt by (simp add: bs ps_def rs_def kev)
    ultimately have "bpath h' p (ins_bins (hkey h) event bs) None" by (auto simp: bpath_append)
    moreover have "same_data h h'"
      unfolding h'_def
      by (rule same_data_trans [OF same_data_upd [of h event, OF assms(3) e'(2)] same_data_upd [of _ _ le]])
        (simp_all add: lne le)
    ultimately show ?thesis using that [OF \<open>heap_insert event p h = ret (p, h')\<close>] fin by blast
  qed
qed
lemma removeItem_loop_spec:
  assumes "chain h nxt (xs @ event # ys)" and "event \<notin> set xs"
  shows "removeItem_loop h event cur nxt = ret (last (cur # map Some xs), Some event)"
  using assms
proof (induction xs arbitrary: cur nxt)
  case Nil
  then show ?case by (subst removeItem_loop.simps) simp
next
  case (Cons x xs)
  then obtain e where e: "h x = Some e" "nxt = Some x" "chain h (nextInBin e) (xs @ event # ys)" by auto
  with Cons show ?case by (subst removeItem_loop.simps) (auto simp: e Cons.IH [OF e(3)])
qed

lemma removeItem_loop_panic:
  assumes "chain h nxt xs" and "event \<notin> set xs"
  shows "removeItem_loop h event cur nxt = fail PanicError"
  using assms
proof (induction xs arbitrary: cur nxt)
  case (Cons x xs)
  then obtain e where e: "h x = Some e" "nxt = Some x" "chain h (nextInBin e) xs" by auto
  with Cons show ?case by (subst removeItem_loop.simps) (auto simp: e Cons.IH [OF e(3)])
qed (subst removeItem_loop.simps, simp)

lemma chain_unlink:
  assumes "chain h p (xs @ c # event # ys)" and "distinct (xs @ c # event # ys)"
    and "h c = Some ce" and "h event = Some ee"
  shows "chain (h(c \<mapsto> ce\<lparr>nextInBin := nextInBin ee\<rparr>)) p (xs @ c # ys)"
  using assms
proof (induction xs arbitrary: p)
  case Nil
  then have "chain h (nextInBin ee) ys" by auto
  then have "chain (h(c \<mapsto> ce\<lparr>nextInBin := nextInBin ee\<rparr>)) (nextInBin ee) ys"
    by (rule chain_upd_other) (use Nil in auto)
  with Nil show ?case by (auto simp del: fun_upd_apply simp: fun_upd_same)
next
  case (Cons x xs)
  then show ?case by auto
qed

lemma removeItem_spec:
  assumes "chain h p b" and "distinct b" and "event \<in> set b" and "h (hd b) = Some te"
  obtains p' h' where "removeItem event p h = ret (p', h')" and "same_data h h'"
    and "\<And>x. x \<notin> set b \<Longrightarrow> h' x = h x"
    and "bpath h' p' (if remove1 event b = [] then [] else [remove1 event b]) (nextBin te)"
proof -
  obtain t b' where b: "b = t # b'" using assms(3) by (cases b) auto
  with assms have p: "p = Some t" "h t = Some te" "chain h (nextInBin te) b'" by auto
  show ?thesis
  proof (cases "event = t")
    case True
    show ?thesis
    proof (cases b')
      case Nil
      with p True have "removeItem event p h = ret (nextBin te, h)" by (simp add: removeItem_def)
      then show ?thesis by (rule that) (simp_all add: b Nil True)
    next
      case (Cons n ns)
      with p(3) obtain ne where ne: "h n = Some ne" "nextInBin te = Some n" by auto
      define h' where "h' = h(n \<mapsto> ne\<lparr>nextBin := nextBin te\<rparr>)"
      have "removeItem event p h = ret (Some n, h')"
        using p True ne by (simp add: removeItem_def set_nextBin_def h'_def)
      then show ?thesis
      proof (rule that)
        show "same_data h h'" unfolding h'_def by (rule same_data_upd [of h n, OF ne(1)]) simp
        have "chain h' (Some n) b'"
          unfolding h'_def by (rule chain_cong [OF p(3) [unfolded ne(2)]]) (auto simp: ne)
        then show "bpath h' (Some n) (if remove1 event b = [] then [] else [remove1 event b]) (nextBin te)"
          by (simp add: b True Cons h'_def)
      qed (auto simp: h'_def b Cons)
    qed
  next
    case False
    with assms(3) b have "event \<in> set b'" by auto
    then obtain xs ys where b': "b' = xs @ event # ys" and nin: "event \<notin> set xs" by (meson split_list_first)
    define ls where "ls = t # xs"
    define c where "c = last ls"
    have ls: "b = butlast ls @ c # event # ys" by (simp add: b b' ls_def c_def)
    have "c \<in> set b" "event \<in> set b" by (auto simp: ls)
    then obtain ce ee where ce: "h c = Some ce" "h event = Some ee" using chain_dom [OF assms(1)] by metis
    define h' where "h' = h(c \<mapsto> ce\<lparr>nextInBin := nextInBin ee\<rparr>)"
    have "last (Some t # map Some xs) = Some c" by (simp add: c_def ls_def last_map)
    then have "removeItem event p h = ret (Some t, h')"
      using False p removeItem_loop_spec [OF p(3) [unfolded b'] nin, of p] ce
      by (simp add: removeItem_def set_nextInBin_def h'_def)
    then show ?thesis
    proof (rule that)
      show "same_data h h'" unfolding h'_def by (rule same_data_upd [of h c, OF ce(1)]) simp
      have "chain h' p (butlast ls @ c # ys)"
        unfolding h'_def by (rule chain_unlink) (use assms(1,2) ce in \<open>simp_all add: ls [symmetric]\<close>)
      moreover have rem: "remove1 event b = t # xs @ ys" using False nin by (simp add: b b' remove1_append)
      moreover have "butlast ls @ c # ys = t # xs @ ys" by (simp add: c_def ls_def)
      moreover have "nextBin (the (h' t)) = nextBin te" using p(2) ce(1) by (auto simp: h'_def)
      ultimately show "bpath h' (Some t) (if remove1 event b = [] then [] else [remove1 event b]) (nextBin te)"
        by (simp add: p(1))
    qed (use \<open>c \<in> set b\<close> in \<open>auto simp: h'_def\<close>)
  qed
qed

lemma bpath_agree:
  assumes "bpath h p bs r" and "\<And>x. x \<in> set (concat bs) \<Longrightarrow> h' x = h x"
  shows "bpath h' p bs r"
proof (rule bpath_cong [OF assms(1)])
  fix b assume "b \<in> set bs"
  then have "hd b \<in> set (concat bs)" by (rule bpath_hd_mem [OF assms(1)])
  then show "nextBin (the (h' (hd b))) = nextBin (the (h (hd b)))" by (simp only: assms(2))
qed (simp only: assms(2))

lemma del_bins_split:
  assumes "distinct (concat (ps @ b # rs))" and "event \<in> set b" and "\<And>c. c \<in> set (ps @ b # rs) \<Longrightarrow> c \<noteq> []"
  shows "del_bins event (ps @ b # rs) = ps @ (if remove1 event b = [] then [] else [remove1 event b]) @ rs"
proof -
  have idem: "filter (\<lambda>b. b \<noteq> []) (map (remove1 event) xs) = xs"
    if "event \<notin> set (concat xs)" "\<And>c. c \<in> set xs \<Longrightarrow> c \<noteq> []" for xs
    using that by (induction xs) (auto simp: remove1_idem)
  have "event \<notin> set (concat ps)" "event \<notin> set (concat rs)" using assms(1,2) by auto
  then show ?thesis using idem [of ps] idem [of rs] assms(3) by (simp add: del_bins_def)
qed

lemma bins_del:
  assumes "bins h p bs" and "same_data h h'" and "bpath h' p' (del_bins event bs) None"
  shows "bins h' p' (del_bins event bs)"
proof (rule bins_upd_same [OF assms])
  from assms(1) have srt: "bins_sorted (hkey h) bs" and d: "distinct (concat bs)" and path: "bpath h p bs None"
    by (simp_all add: bins_def)
  show "distinct (concat (del_bins event bs))" by (simp add: concat_del_bins [OF d] d distinct_remove1)
  show "bins_sorted (hkey h) (del_bins event bs)" by (rule del_bins_sorted [OF srt])
  show "h x \<noteq> None" if "x \<in> set (concat (del_bins event bs))" for x
    using that bpath_dom [OF path] notin_set_remove1 unfolding concat_del_bins [OF d] by fastforce
qed

lemma bins_locate:
  assumes "bins h p bs" and "event \<in> set (concat bs)"
  obtains ps b rs where "bs = ps @ b # rs" and "event \<in> set b" and "hkey h (hd b) = hkey h event"
    and "\<And>c. c \<in> set ps \<Longrightarrow> hkey h (hd c) < hkey h event"
proof -
  obtain b where "b \<in> set bs" "event \<in> set b" using assms(2) by auto
  then obtain ps rs where bs: "bs = ps @ b # rs" by (meson split_list)
  have srt: "bins_sorted (hkey h) bs" using assms(1) by (simp add: bins_def)
  then have "hkey h event = hkey h (hd b)"
    by (intro uniformD [OF bins_sorted_uniform [OF srt \<open>b \<in> set bs\<close>]] \<open>event \<in> set b\<close>)
  then show ?thesis
    by (intro that [OF bs \<open>event \<in> set b\<close>]) (use srt in \<open>auto simp: bs bins_sorted_def sorted_wrt_append\<close>)
qed

lemma heap_remove_spec:
  assumes "bins h p bs" and "event \<in> set (concat bs)" and "h event = Some ev" and "ev_queue ev = Some this"
  obtains p' h' where "heap_remove this event p h = ret (p', h')"
    and "bins h' p' (del_bins event bs)" and "same_data h h'"
proof -
  from assms(1) have path: "bpath h p bs None" and dist: "distinct (concat bs)" by (simp_all add: bins_def)
  obtain ps b rs where bs: "bs = ps @ b # rs" and eb: "event \<in> set b" and kb: "hkey h (hd b) = ekey ev"
    and kps: "\<And>c. c \<in> set ps \<Longrightarrow> hkey h (hd c) < ekey ev"
    using bins_locate [OF assms(1,2)] assms(3) by (metis hkey_def option.sel)
  from path obtain m where m: "bpath h p ps m" "bpath h m (b # rs) None" by (auto simp: bs bpath_append)
  from m(2) obtain te where te: "h (hd b) = Some te" "m = Some (hd b)" "b \<noteq> []" "chain h m b" "bpath h (nextBin te) rs None"
    by (rule bpath_ConsE)
  have "distinct b" using dist by (simp add: bs)
  then obtain p1 h1 where rem: "removeItem event m h = ret (p1, h1)" and sd: "same_data h h1"
    and fr: "\<And>x. x \<notin> set b \<Longrightarrow> h1 x = h x"
    and new: "bpath h1 p1 (if remove1 event b = [] then [] else [remove1 event b]) (nextBin te)"
    using removeItem_spec [OF te(4) _ eb te(1)] by metis
  have del: "del_bins event bs = ps @ (if remove1 event b = [] then [] else [remove1 event b]) @ rs" (is "_ = ps @ ?new @ rs")
    unfolding bs by (rule del_bins_split [OF dist [unfolded bs] eb]) (use bpath_nonempty [OF path] in \<open>simp add: bs\<close>)
  have "bpath h1 (nextBin te) rs None" by (rule bpath_agree [OF te(5) fr]) (use dist in \<open>auto simp: bs\<close>)
  with new have bck: "bpath h1 p1 (?new @ rs) None" by (auto simp only: bpath_append)
  have front: "bpath h1 p ps m" by (rule bpath_agree [OF m(1) fr]) (use dist in \<open>auto simp: bs\<close>)
  have eqb: "ev_eq te ev" using kb te(1) by (simp add: ev_order hkey_def)
  show ?thesis
  proof (cases ps)
    case Nil
    with m te(2) have "p = Some (hd b)" by simp
    with eqb rem te(1,2) have "heap_remove this event p h = ret (p1, h1)"
      by (simp add: heap_remove_def assms(3,4))
    moreover have "bpath h1 p1 (del_bins event bs) None" using bck by (simp only: del Nil append_Nil)
    ultimately show ?thesis using sd by (intro that bins_del [OF assms(1)])
  next
    case (Cons b0 ps')
    from m(1) [unfolded Cons] obtain e where e: "h (hd b0) = Some e" "p = Some (hd b0)" "bpath h (nextBin e) ps' m"
      by (rule bpath_ConsE)
    define l where "l = last ps"
    define fs where "fs = butlast ps"
    have l: "ps = fs @ [l]" by (simp add: l_def fs_def Cons)
    have tw: "takeWhile (\<lambda>b. hkey h (hd b) < ekey ev) (ps' @ b # rs) = ps'"
      and dw: "dropWhile (\<lambda>b. hkey h (hd b) < ekey ev) (ps' @ b # rs) = b # rs"
      using kps kb by (simp_all add: Cons takeWhile_all_append dropWhile_all_append)
    have "bpath h (nextBin e) (ps' @ b # rs) None" using e(3) m(2) by (auto simp only: bpath_append)
    from skip_bins_spec [OF this, of ev p] have skip: "skip_bins h ev p (nextBin e) = ret (Some (hd l), m)"
      unfolding tw dw by (simp add: last_ptr_def first_ptr_def l_def Cons te(2) e(2))
    have lmem: "hd l \<in> set (concat ps)" by (rule bpath_hd_mem [OF m(1)]) (simp add: l)
    then obtain le where le: "h1 (hd l) = Some le" using bpath_dom [OF front] by blast
    define h' where "h' = h1(hd l \<mapsto> le\<lparr>nextBin := p1\<rparr>)"
    have "\<not> ev_eq e ev" using kps [of b0] e(1) by (simp add: Cons ev_order hkey_def less_imp_neq)
    then have run: "heap_remove this event p h = ret (p, h')"
      using eqb by (simp add: heap_remove_def assms(3,4) e(1,2) skip [unfolded e(2)] te(1,2) rem [unfolded te(2)]
          set_nextBin_def le h'_def ev_order)
    have "bpath h' p ps p1"
      using bpath_relink [of h1 p fs l m le p1] front dist le by (simp add: h'_def bs flip: l)
    moreover have "bpath h' p1 (?new @ rs) None"
      unfolding h'_def
    proof (rule bpath_upd_other [OF bck])
      have "set (concat (?new @ rs)) \<subseteq> set (concat (b # rs))" using set_remove1_subset [of event b] by auto
      then show "hd l \<notin> set (concat (?new @ rs))" using lmem dist by (auto simp: bs)
    qed
    ultimately have "bpath h' p (del_bins event bs) None" unfolding del by (auto simp only: bpath_append)
    moreover have "same_data h h'"
      unfolding h'_def by (rule same_data_trans [OF sd same_data_upd [of h1 "hd l", OF le]]) simp
    ultimately show ?thesis by (intro that [OF run] bins_del [OF assms(1)])
  qed
qed

end
