(* ===== verification/EventSchedule.thy ===== *)
theory EventSchedule
  imports EventQueue
begin
text \<open>
  The operations of the event queue (schedule, deschedule, reschedule, service, checkpoints, destruction)
  on whole queue states: the invariant they keep, the list of pending events they act on, the order in which
  events are serviced, and the properties of the component.
\<close>

subsection \<open>Queue states\<close>

text \<open>
  \<open>eq_rep q bs\<close>: the queue represents the bins \<open>bs\<close>. The events of the bins and of the queue of
  asynchronous insertions are exactly the events scheduled on this queue, and none occurs twice. Nothing is
  said of the clock: \<open>eq_future\<close> states that no scheduled event lies in the past, which the merge of
  events that waited too long can break.
\<close>

definition scheduled_on :: "EventQueue \<Rightarrow> EvId \<Rightarrow> bool" where
  "scheduled_on q a = (case events q a of None \<Rightarrow> False
     | Some e \<Rightarrow> scheduled e \<and> initialized e \<and> ev_queue e = Some (eq_id q))"

definition eq_rep :: "EventQueue \<Rightarrow> EvId list list \<Rightarrow> bool" where
  "eq_rep q bs \<longleftrightarrow> bins (events q) (eq_head q) bs \<and> distinct (concat bs @ async_queue q) \<and>
     (\<forall>a. a \<in> set (concat bs @ async_queue q) \<longleftrightarrow> scheduled_on q a)"

definition eq_future :: "EventQueue \<Rightarrow> bool" where
  "eq_future q \<longleftrightarrow> (\<forall>a. scheduled_on q a \<longrightarrow> eq_curTick q \<le> ev_when (the (events q a)))"

lemma eq_repD:
  assumes "eq_rep q bs"
  shows "bins (events q) (eq_head q) bs" and "distinct (concat bs)" and "distinct (async_queue q)"
    and "set (concat bs) \<inter> set (async_queue q) = {}"
    and "scheduled_on q a \<longleftrightarrow> a \<in> set (concat bs) \<or> a \<in> set (async_queue q)"
  using assms unfolding eq_rep_def distinct_append set_append Un_iff by blast+

lemma bins_cong:
  assumes "bins h p bs"
    and "\<And>x. x \<in> set (concat bs) \<Longrightarrow> \<exists>e e'. h x = Some e \<and> h' x = Some e' \<and>
           nextBin e' = nextBin e \<and> nextInBin e' = nextInBin e \<and> ekey e' = ekey e"
  shows "bins h' p bs"
  unfolding bins_def
proof (intro conjI)
  from assms(1) have path: "bpath h p bs None" and srt: "bins_sorted (hkey h) bs" by (simp_all add: bins_def)
  show "bpath h' p bs None"
  proof (rule bpath_cong [OF path])
    show "map_option nextInBin (h' x) = map_option nextInBin (h x)" if "x \<in> set (concat bs)" for x
      using assms(2) [OF that] by auto
    show "nextBin (the (h' (hd b))) = nextBin (the (h (hd b)))" if "b \<in> set bs" for b
      using assms(2) [OF bpath_hd_mem [OF path that]] by auto
  qed
  show "bins_sorted (hkey h') bs"
  proof (rule bins_sorted_cong [OF srt])
    show "hkey h' x = hkey h x" if "x \<in> set (concat bs)" for x using assms(2) [OF that] by (auto simp: hkey_def)
  qed
  show "distinct (concat bs)" using assms(1) by (simp add: bins_def)
qed

lemma bins_dom: "bins h p bs \<Longrightarrow> x \<in> set (concat bs) \<Longrightarrow> \<exists>e. h x = Some e"
  unfolding bins_def by (blast dest: bpath_dom)

lemma bins_upd_other:
  assumes "bins h p bs" and "a \<notin> set (concat bs)"
  shows "bins (h(a := v)) p bs"
proof (rule bins_cong [OF assms(1)])
  fix x assume x: "x \<in> set (concat bs)"
  with assms(2) have "x \<noteq> a" by blast
  with bins_dom [OF assms(1) x] show "\<exists>e e'. h x = Some e \<and> (h(a := v)) x = Some e' \<and>
      nextBin e' = nextBin e \<and> nextInBin e' = nextInBin e \<and> ekey e' = ekey e" by auto
qed

lemma bins_upd_flags:
  assumes "bins h p bs" and "h a = Some e"
  shows "bins (h(a \<mapsto> e\<lparr>ev_flags := f\<rparr>)) p bs"
  by (rule bins_cong [OF assms(1)]) (use assms(2) in \<open>auto dest!: bins_dom [OF assms(1)] simp del: set_concat\<close>)

text \<open>The flags an operation of the queue changes are not those that mark an event as initialised.\<close>

lemma initialized_flags [simp]:
  "flags_set f Scheduled AND InitMask = f AND InitMask"
  "flags_set f Squashed AND InitMask = f AND InitMask"
  "flags_clear f Scheduled AND InitMask = f AND InitMask"
  "flags_clear f Squashed AND InitMask = f AND InitMask"
  by (simp_all add: flags_set_def flags_clear_def flag_defs bit.conj_disj_distrib2 and.assoc)

lemma scheduled_flags [simp]:
  "flags_isSet (flags_set f Scheduled) Scheduled"
  "\<not> flags_isSet (flags_clear f Scheduled) Scheduled"
  "flags_isSet (flags_set f Squashed) Scheduled \<longleftrightarrow> flags_isSet f Scheduled"
  "flags_isSet (flags_clear f Squashed) Scheduled \<longleftrightarrow> flags_isSet f Scheduled"
  by (simp_all add: flags_isSet_def flags_set_def flags_clear_def flag_defs bit.conj_disj_distrib2 and.assoc)

lemma ev_data_sched:
  assumes "ev_data e' = ev_data e"
  shows "scheduled e' = scheduled e" "initialized e' = initialized e" "ev_queue e' = ev_queue e"
    "ev_when e' = ev_when e" "ev_flags e' = ev_flags e" "ekey e' = ekey e"
  using assms by (simp_all add: ev_data_def scheduled_def initialized_def ekey_def)

lemma eq_insert_spec:
  assumes "bins (events q) (eq_head q) bs" and "a \<notin> set (concat bs)" and "events q a = Some e"
  obtains p h where "eq_insert a q = ret (q\<lparr>eq_head := p, events := h\<rparr>)"
    and "bins h p (ins_bins (hkey (events q)) a bs)" and "same_data (events q) h"
  by (rule heap_insert_spec [OF assms]) (auto simp: eq_insert_def intro!: that)

lemma eq_remove_spec:
  assumes "bins (events q) (eq_head q) bs" and "a \<in> set (concat bs)" and "events q a = Some e"
    and "ev_queue e = Some (eq_id q)"
  obtains p h where "eq_remove a q = ret (q\<lparr>eq_head := p, events := h\<rparr>)"
    and "bins h p (del_bins a bs)" and "same_data (events q) h"
  by (rule heap_remove_spec [OF assms]) (auto simp: eq_remove_def intro!: that)

lemma scheduled_on_data:
  assumes "map_option ev_data (events q' a) = map_option ev_data (events q a)" and "eq_id q' = eq_id q"
  shows "scheduled_on q' a = scheduled_on q a"
  using assms by (cases "events q a"; cases "events q' a") (auto simp: scheduled_on_def dest: ev_data_sched)

lemma ev_when_data:
  assumes "map_option ev_data (h' a) = map_option ev_data (h a)" and "h a \<noteq> None"
  shows "ev_when (the (h' a)) = ev_when (the (h a))" "hkey h' a = hkey h a"
  using assms by (cases "h a"; cases "h' a"; auto simp: hkey_def dest: ev_data_sched)+

lemma eq_rep_mem:
  assumes "eq_rep q bs" and "a \<in> set (concat bs)"
  obtains e where "events q a = Some e" and "scheduled e" and "initialized e" and "ev_queue e = Some (eq_id q)"
proof -
  from assms have "scheduled_on q a" using eq_repD(5) [OF assms(1), of a] by simp
  then show ?thesis using that by (auto simp: scheduled_on_def split: option.splits)
qed


text \<open>
  \<open>eq_rep_but a q bs\<close>: the same for a queue from which the event \<open>a\<close> has been taken out, whatever
  the fields of \<open>a\<close> say. Every operation goes through such a state.
\<close>

definition eq_rep_but :: "EvId \<Rightarrow> EventQueue \<Rightarrow> EvId list list \<Rightarrow> bool" where
  "eq_rep_but a q bs \<longleftrightarrow> bins (events q) (eq_head q) bs \<and> distinct (concat bs @ async_queue q) \<and>
     a \<notin> set (concat bs @ async_queue q) \<and>
     (\<forall>x. x \<noteq> a \<longrightarrow> (x \<in> set (concat bs @ async_queue q) \<longleftrightarrow> scheduled_on q x))"

lemma eq_rep_but_cong:
  assumes rep: "eq_rep_but a q bs" and b: "bins (events q') (eq_head q') bs"
    and fr: "\<And>x. x \<noteq> a \<Longrightarrow> map_option ev_data (events q' x) = map_option ev_data (events q x)"
    and st: "eq_id q' = eq_id q" "async_queue q' = async_queue q"
  shows "eq_rep_but a q' bs"
proof -
  have "x \<in> set (concat bs @ async_queue q') \<longleftrightarrow> scheduled_on q' x" if "x \<noteq> a" for x
    using rep that scheduled_on_data [OF fr [OF that] st(1)] unfolding eq_rep_but_def st by blast
  then show ?thesis using rep b unfolding eq_rep_but_def st by blast
qed

text \<open>Anything may be done to the event outside.\<close>

lemma eq_rep_but_upd:
  assumes "eq_rep_but a q bs"
  shows "eq_rep_but a (q\<lparr>events := (events q)(a := v)\<rparr>) bs"
  by (rule eq_rep_but_cong [OF assms]) (use assms in \<open>auto simp: eq_rep_but_def intro: bins_upd_other\<close>)

lemma eq_rep_but_out:
  assumes "eq_rep q bs" and "\<not> scheduled_on q a"
  shows "eq_rep_but a q bs"
  using assms unfolding eq_rep_def eq_rep_but_def by blast

lemma eq_rep_but_in:
  assumes "eq_rep_but a q bs" and "\<not> scheduled_on q a"
  shows "eq_rep q bs"
  using assms unfolding eq_rep_def eq_rep_but_def by metis

lemma unscheduled: "events q a = Some e \<Longrightarrow> \<not> scheduled e \<Longrightarrow> \<not> scheduled_on q a"
  by (simp add: scheduled_on_def)

lemma take_out:
  assumes b0: "bins (events q) (eq_head q) bs" and d: "distinct (concat bs @ async_queue q)" and a: "a \<in> set (concat bs)"
    and m: "\<And>x. x \<noteq> a \<Longrightarrow> x \<in> set (concat bs @ async_queue q) \<longleftrightarrow> scheduled_on q x"
    and e: "events q a = Some e" "ev_queue e = Some (eq_id q)"
  obtains p h where "eq_remove a q = ret (q\<lparr>eq_head := p, events := h\<rparr>)"
    and "eq_rep_but a (q\<lparr>eq_head := p, events := h\<rparr>) (del_bins a bs)" and "same_data (events q) h"
proof -
  obtain p h where r: "eq_remove a q = ret (q\<lparr>eq_head := p, events := h\<rparr>)"
    and b: "bins h p (del_bins a bs)" and sd: "same_data (events q) h"
    by (rule eq_remove_spec [OF b0 a e])
  define q' where "q' = q\<lparr>eq_head := p, events := h\<rparr>"
  have dis: "distinct (concat bs)" "distinct (async_queue q)" "set (concat bs) \<inter> set (async_queue q) = {}"
    using d by (simp_all del: set_concat)
  have flat: "set (concat (del_bins a bs)) = set (concat bs) - {a}"
    using concat_del_bins [OF dis(1), of a] dis(1) by (metis set_remove1_eq)
  have "eq_rep_but a q' (del_bins a bs)"
    unfolding eq_rep_but_def
  proof (intro conjI allI impI)
    show "bins (events q') (eq_head q') (del_bins a bs)" using b by (simp add: q'_def)
    show "distinct (concat (del_bins a bs) @ async_queue q')"
      using b dis flat by (auto simp: bins_def q'_def simp del: set_concat)
    show "a \<notin> set (concat (del_bins a bs) @ async_queue q')"
      using flat a dis by (auto simp: q'_def simp del: set_concat)
    show "x \<in> set (concat (del_bins a bs) @ async_queue q') \<longleftrightarrow> scheduled_on q' x" if "x \<noteq> a" for x
      using flat that m [of x] scheduled_on_data [of q' x q] sd
      by (simp add: q'_def same_data_def del: set_concat)
  qed
  with r sd show ?thesis by (intro that) (simp_all add: q'_def)
qed

lemma eq_remove_rep:
  assumes rep: "eq_rep q bs" and a: "a \<in> set (concat bs)"
  obtains p h where "eq_remove a q = ret (q\<lparr>eq_head := p, events := h\<rparr>)"
    and "eq_rep_but a (q\<lparr>eq_head := p, events := h\<rparr>) (del_bins a bs)" and "same_data (events q) h"
proof -
  obtain e where e: "events q a = Some e" "ev_queue e = Some (eq_id q)" by (rule eq_rep_mem [OF rep a])
  have "distinct (concat bs @ async_queue q)"
    and "\<And>x. x \<in> set (concat bs @ async_queue q) \<longleftrightarrow> scheduled_on q x"
    using rep unfolding eq_rep_def by blast+
  then show ?thesis
    by (rule take_out [OF eq_repD(1) [OF rep] _ a _ e]) (assumption | rule that)+
qed

lemma ins_flat_cong:
  assumes "\<And>x. x \<in> insert a (set xs) \<Longrightarrow> k' x = k x"
  shows "ins_flat k a xs = ins_flat k' a xs"
  unfolding ins_flat_def using assms by (simp cong: takeWhile_cong dropWhile_cong)

text \<open>
  The step all scheduling operations share: the time is set, the event is inserted, the flags are set.
\<close>

definition place :: "EvId \<Rightarrow> Tick \<Rightarrow> (FlagsType \<Rightarrow> FlagsType) \<Rightarrow> EventQueue \<Rightarrow> EventQueue run" where
  "place a t f q = obind (upd_event a (setWhen t (eq_id q)) q) (\<lambda>q. obind (eq_insert a q) (\<lambda>q.
     upd_event a (\<lambda>e. e\<lparr>ev_flags := f (ev_flags e)\<rparr>) q))"

definition placed :: "EvId \<Rightarrow> Tick \<Rightarrow> Event \<Rightarrow> EventQueue \<Rightarrow> EvId list \<Rightarrow> EventQueue \<Rightarrow> EvId list list \<Rightarrow> bool" where
  "placed a t ev q xs q' bs' \<longleftrightarrow> eq_rep q' bs' \<and> concat bs' = ins_flat (hkey (events q')) a xs \<and>
     (\<forall>x. x \<noteq> a \<longrightarrow> map_option ev_data (events q' x) = map_option ev_data (events q x)) \<and>
     (\<exists>e. events q' a = Some e \<and> ekey e = (unat t, sint (ev_priority ev)) \<and> scheduled e) \<and>
     eq_curTick q' = eq_curTick q \<and> eq_id q' = eq_id q \<and> async_queue q' = async_queue q"

lemma place_spec:
  assumes rep: "eq_rep_but a q bs" and ev: "events q a = Some ev" "initialized ev"
    and f: "\<And>fl. flags_isSet (f fl) Scheduled" "\<And>fl. f fl AND InitMask = fl AND InitMask"
  obtains q' bs' where "place a t f q = ret q'" and "placed a t ev q (concat bs) q' bs'"
proof -
  have nin: "a \<notin> set (concat bs)" using rep by (simp add: eq_rep_but_def del: set_concat)
  define q1 where "q1 = q\<lparr>events := (events q)(a \<mapsto> setWhen t (eq_id q) ev)\<rparr>"
  have b1: "bins (events q1) (eq_head q1) bs"
    using eq_rep_but_upd [OF rep] by (simp add: q1_def eq_rep_but_def del: set_concat)
  have e1: "events q1 a = Some (setWhen t (eq_id q) ev)" by (simp add: q1_def)
  obtain p h where ins: "eq_insert a q1 = ret (q1\<lparr>eq_head := p, events := h\<rparr>)"
    and b2: "bins h p (ins_bins (hkey (events q1)) a bs)" and sd: "same_data (events q1) h"
    by (rule eq_insert_spec [OF b1 nin e1])
  obtain e2 where e2: "h a = Some e2" "ev_data e2 = ev_data (setWhen t (eq_id q) ev)"
    by (rule same_data_Some [OF sd e1])
  define e3 where "e3 = e2\<lparr>ev_flags := f (ev_flags e2)\<rparr>"
  define q3 where "q3 = q1\<lparr>eq_head := p, events := h(a \<mapsto> e3)\<rparr>"
  define bs' where "bs' = ins_bins (hkey (events q1)) a bs"
  have run: "place a t f q = ret q3"
    using ins e2(1) by (simp add: place_def upd_event_def ev(1) q3_def e3_def flip: q1_def)
  have b3: "bins (events q3) (eq_head q3) bs'"
    using bins_upd_flags [OF b2 e2(1)] by (simp add: q3_def e3_def bs'_def)
  have fr: "map_option ev_data (events q3 x) = map_option ev_data (events q x)" if "x \<noteq> a" for x
    using sd that by (simp add: q3_def q1_def same_data_def)
  have d3: "ev_when e3 = t" "ev_priority e3 = ev_priority ev" "scheduled e3" "initialized e3" "ev_queue e3 = Some (eq_id q)"
    using e2(2) ev(2) f by (simp_all add: e3_def ev_data_def setWhen_def scheduled_def initialized_def)
  have flat: "concat bs' = ins_flat (hkey (events q1)) a (concat bs)"
    using b1 by (simp add: bs'_def concat_ins_bins bins_def)
  have keys: "hkey (events q3) x = hkey (events q1) x" if "x \<in> insert a (set (concat bs))" for x
  proof (cases "x = a")
    case True
    then show ?thesis using ev_data_sched(6) [OF e2(2)] e1 by (simp add: hkey_def q3_def e3_def)
  next
    case False
    with that have "events q1 x \<noteq> None" using bins_dom [OF b1] by blast
    with False show ?thesis using sd by (intro ev_when_data(2)) (simp_all add: q3_def same_data_def)
  qed
  have mem: "set (concat bs') = insert a (set (concat bs))" unfolding flat ins_flat_set ..
  have st: "async_queue q3 = async_queue q" "eq_curTick q3 = eq_curTick q" "eq_id q3 = eq_id q" "events q3 a = Some e3"
    by (simp_all add: q3_def q1_def)
  have "eq_rep q3 bs'"
    unfolding eq_rep_def
  proof (intro conjI allI)
    show "bins (events q3) (eq_head q3) bs'" by (rule b3)
    show "distinct (concat bs' @ async_queue q3)"
      using rep b3 mem by (auto simp: st eq_rep_but_def bins_def simp del: set_concat)
    show "x \<in> set (concat bs' @ async_queue q3) \<longleftrightarrow> scheduled_on q3 x" for x
    proof (cases "x = a")
      case True
      then show ?thesis using d3 mem by (simp add: scheduled_on_def st del: set_concat)
    next
      case False
      then show ?thesis using mem rep scheduled_on_data [OF fr [OF False] st(3)]
        by (simp add: st eq_rep_but_def del: set_concat)
    qed
  qed
  moreover have "concat bs' = ins_flat (hkey (events q3)) a (concat bs)"
    unfolding flat by (rule ins_flat_cong) (rule keys)
  ultimately have "placed a t ev q (concat bs) q3 bs'"
    using fr d3 by (simp add: placed_def st ekey_def)
  then show ?thesis by (rule that [OF run])
qed

subsection \<open>The scheduling operations\<close>

lemma schedule_spec:
  assumes rep: "eq_rep q bs" and ev: "events q a = Some ev" "\<not> scheduled ev" "initialized ev"
    and t: "eq_curTick q \<le> t" and loc: "\<not> (par \<and> (eq_id q \<noteq> cur \<or> global))"
  obtains q' bs' where "schedule par cur a t global q = ret q'" and "placed a t ev q (concat bs) q' bs'"
proof -
  have "schedule par cur a t global q = place a t (\<lambda>fl. flags_set fl Scheduled) q"
    using loc by (auto simp: schedule_def place_def t ev upd_event_def [of a "setWhen t (eq_id q)" q])
  moreover obtain q' bs' where "place a t (\<lambda>fl. flags_set fl Scheduled) q = ret q'" "placed a t ev q (concat bs) q' bs'"
    by (rule place_spec [OF eq_rep_but_out [OF rep unscheduled [OF ev(1,2)]] ev(1,3)
          scheduled_flags(1) initialized_flags(1)])
  ultimately show ?thesis by (intro that) simp_all
qed

lemma deschedule_spec:
  assumes rep: "eq_rep q bs" and a: "a \<in> set (concat bs)" and cur: "\<not> par \<or> eq_id q = cur"
  obtains q' where "deschedule par cur a q = ret q'" and "eq_rep q' (del_bins a bs)"
    and "\<And>x. x \<noteq> a \<Longrightarrow> map_option ev_data (events q' x) = map_option ev_data (events q x)"
    and "eq_curTick q' = eq_curTick q" and "eq_id q' = eq_id q" and "async_queue q' = async_queue q"
    and "\<And>e. events q' a = Some e \<Longrightarrow> \<not> scheduled e"
proof -
  obtain e where e: "events q a = Some e" "scheduled e" "initialized e" by (rule eq_rep_mem [OF rep a])
  obtain p h where r: "eq_remove a q = ret (q\<lparr>eq_head := p, events := h\<rparr>)"
    and but: "eq_rep_but a (q\<lparr>eq_head := p, events := h\<rparr>) (del_bins a bs)" and sd: "same_data (events q) h"
    by (rule eq_remove_rep [OF rep a])
  obtain e2 where e2: "h a = Some e2" by (rule same_data_Some [OF sd e(1)])
  define e3 where "e3 = e2\<lparr>ev_flags := flags_clear (flags_clear (ev_flags e2) Squashed) Scheduled\<rparr>"
  define v where "v = (if flags_isSet (ev_flags e3) Managed then None else Some e3)"
  define q' where "q' = q\<lparr>eq_head := p, events := h(a := v)\<rparr>"
  have ns: "\<not> scheduled e3" by (simp add: e3_def scheduled_def)
  have "deschedule par cur a q = ret q'"
    using ns cur by (simp add: deschedule_def e r upd_event_def e2 release_def q'_def v_def flip: e3_def)
  moreover have "eq_rep q' (del_bins a bs)"
  proof (rule eq_rep_but_in)
    show "eq_rep_but a q' (del_bins a bs)" using eq_rep_but_upd [OF but, of v] by (simp add: q'_def)
    show "\<not> scheduled_on q' a" using ns by (simp add: scheduled_on_def q'_def v_def)
  qed
  moreover have "map_option ev_data (events q' x) = map_option ev_data (events q x)" if "x \<noteq> a" for x
    using sd that by (simp add: q'_def same_data_def)
  ultimately show ?thesis by (rule that) (use ns in \<open>auto simp: q'_def v_def split: if_splits\<close>)
qed

lemma reschedule_spec:
  assumes rep: "eq_rep q bs" and ev: "events q a = Some ev" "initialized ev" "always \<or> scheduled ev"
    and a: "scheduled ev \<Longrightarrow> a \<in> set (concat bs)"
    and t: "eq_curTick q \<le> t" and cur: "\<not> par \<or> eq_id q = cur"
  obtains q' bs' where "reschedule par cur a t always q = ret q'" and "placed a t ev q (remove1 a (concat bs)) q' bs'"
proof -
  define f where "f = (\<lambda>fl. flags_set (flags_clear fl Squashed) Scheduled)"
  have f: "flags_isSet (f fl) Scheduled" "f fl AND InitMask = fl AND InitMask" for fl by (simp_all add: f_def)
  show ?thesis
  proof (cases "scheduled ev")
    case True
    obtain p h where r: "eq_remove a q = ret (q\<lparr>eq_head := p, events := h\<rparr>)" (is "_ = ret ?q1")
      and but: "eq_rep_but a (q\<lparr>eq_head := p, events := h\<rparr>) (del_bins a bs)" and sd: "same_data (events q) h"
      by (rule eq_remove_rep [OF rep a [OF True]])
    obtain e1 where e1: "h a = Some e1" "ev_data e1 = ev_data ev" by (rule same_data_Some [OF sd ev(1)])
    obtain q' bs' where q': "place a t f ?q1 = ret q'" "placed a t e1 ?q1 (concat (del_bins a bs)) q' bs'"
      by (rule place_spec [OF but _ _ f, of e1 t]) (use e1 ev ev_data_sched [OF e1(2)] in simp_all)
    have "reschedule par cur a t always q = ret q'"
      using q'(1) cur ev(3) True by (simp add: reschedule_def place_def t ev r f_def upd_event_def [of a "setWhen t _"] e1)
    moreover have "placed a t ev q (remove1 a (concat bs)) q' bs'"
      using q'(2) sd e1(2) concat_del_bins [OF eq_repD(2) [OF rep], of a]
      by (simp add: placed_def same_data_def ev_data_def)
    ultimately show ?thesis by (rule that)
  next
    case False
    have but: "eq_rep_but a q bs" by (rule eq_rep_but_out [OF rep unscheduled [OF ev(1) False]])
    obtain q' bs' where q': "place a t f q = ret q'" "placed a t ev q (concat bs) q' bs'"
      by (rule place_spec [OF but ev(1,2) f])
    have "reschedule par cur a t always q = ret q'"
      using q'(1) cur ev(3) False by (simp add: reschedule_def place_def t ev f_def upd_event_def [of a "setWhen t _"])
    moreover have "a \<notin> set (concat bs)" using but by (simp add: eq_rep_but_def del: set_concat)
    ultimately show ?thesis using q'(2) by (intro that) (simp_all add: remove1_idem del: set_concat)
  qed
qed

lemma flag_upd_spec:
  assumes rep: "eq_rep q bs" and a: "events q a = Some e"
    and f: "\<And>fl. flags_isSet (f fl) Scheduled = flags_isSet fl Scheduled" "\<And>fl. f fl AND InitMask = fl AND InitMask"
  obtains q' where "upd_event a (\<lambda>e. e\<lparr>ev_flags := f (ev_flags e)\<rparr>) q = ret q'" and "eq_rep q' bs"
    and "eq_curTick q' = eq_curTick q" and "eq_future q' = eq_future q"
proof -
  define q' where "q' = q\<lparr>events := (events q)(a \<mapsto> e\<lparr>ev_flags := f (ev_flags e)\<rparr>)\<rparr>"
  have s: "scheduled_on q' x = scheduled_on q x" for x
    using a f by (cases "events q x") (auto simp: scheduled_on_def q'_def scheduled_def initialized_def)
  have w: "ev_when (the (events q' x)) = ev_when (the (events q x))" for x
    using a by (simp add: q'_def)
  have "bins (events q') (eq_head q') bs"
    using bins_upd_flags [OF eq_repD(1) [OF rep] a] by (simp add: q'_def)
  then have "eq_rep q' bs" using rep by (simp add: eq_rep_def s) (simp add: q'_def)
  moreover have "upd_event a (\<lambda>e. e\<lparr>ev_flags := f (ev_flags e)\<rparr>) q = ret q'" by (simp add: upd_event_def a q'_def)
  moreover have "eq_future q' = eq_future q" unfolding eq_future_def s w by (simp add: q'_def)
  ultimately show ?thesis by (intro that [of q']) (simp_all add: q'_def)
qed

subsection \<open>Removing what is not there\<close>

lemma removeItem_absent:
  assumes "chain h p b" and "b \<noteq> []" and "a \<notin> set b"
  shows "removeItem a p h = fail PanicError"
proof -
  obtain t b' where b: "b = t # b'" using assms(2) by (cases b) auto
  with assms(1) obtain e where e: "h t = Some e" "p = Some t" "chain h (nextInBin e) b'" by auto
  have "removeItem_loop h a p (nextInBin e) = fail PanicError"
    by (rule removeItem_loop_panic [OF e(3)]) (use assms(3) b in simp)
  then show ?thesis using e assms(3) b by (simp add: removeItem_def)
qed

lemma heap_remove_absent:
  assumes "bins h p bs" and "a \<notin> set (concat bs)" and "h a = Some ev" and "ev_queue ev = Some this"
  shows "heap_remove this a p h = fail PanicError"
proof (cases bs)
  case Nil
  with assms(1) show ?thesis by (simp add: bins_def heap_remove_def)
next
  case (Cons b bs')
  have path: "bpath h p (b # bs') None" using assms(1) Cons by (simp add: bins_def)
  obtain e where e: "h (hd b) = Some e" "p = Some (hd b)" "b \<noteq> []" "chain h p b" "bpath h (nextBin e) bs' None"
    by (rule bpath_ConsE [OF path])
  show ?thesis
  proof (cases "ev_eq e ev")
    case True
    with e assms(2-4) Cons removeItem_absent [OF e(4,3), of a] show ?thesis by (simp add: heap_remove_def)
  next
    case False
    define ps where "ps = takeWhile (\<lambda>b. hkey h (hd b) < ekey ev) bs'"
    define rs where "rs = dropWhile (\<lambda>b. hkey h (hd b) < ekey ev) bs'"
    from e(5) have "bpath h (nextBin e) (ps @ rs) None" by (simp add: ps_def rs_def)
    then obtain m where m: "bpath h m rs None" by (auto simp: bpath_append)
    note skip = skip_bins_spec [OF e(5), of ev p, folded ps_def rs_def]
    show ?thesis
    proof (cases rs)
      case Nil
      with False e skip assms(3,4) show ?thesis by (simp add: heap_remove_def first_ptr_def)
    next
      case (Cons c cs)
      from m obtain ce where ce: "h (hd c) = Some ce" "m = Some (hd c)" "c \<noteq> []" "chain h m c"
        unfolding Cons by (rule bpath_ConsE)
      have "c \<in> set bs'" using Cons set_dropWhileD unfolding rs_def by (metis list.set_intros(1))
      then have "a \<notin> set c" using assms(2) \<open>bs = b # bs'\<close> by auto
      then have "removeItem a (Some (hd c)) h = fail PanicError" using removeItem_absent [OF ce(4,3)] ce(2) by simp
      with False e skip ce(1) Cons assms(3,4) show ?thesis by (simp add: heap_remove_def first_ptr_def)
    qed
  qed
qed

lemma eq_remove_ret:
  assumes rep: "eq_rep q bs" and ev: "events q a = Some ev" and "eq_remove a q = ret q'"
  shows "a \<in> set (concat bs)"
proof (rule ccontr)
  assume nin: "a \<notin> set (concat bs)"
  show False
  proof (cases "ev_queue ev = Some (eq_id q)")
    case True
    with heap_remove_absent [OF eq_repD(1) [OF rep] nin ev] assms(3) show False by (simp add: eq_remove_def)
  next
    case False
    with assms(3) ev show False by (cases "eq_head q") (simp_all add: eq_remove_def heap_remove_def)
  qed
qed

subsection \<open>Asynchronous insertion\<close>

lemma schedule_async_spec:
  assumes rep: "eq_rep q bs" and ev: "events q a = Some ev" "\<not> scheduled ev" "initialized ev"
    and t: "eq_curTick q \<le> t" and rem: "par" "eq_id q \<noteq> cur \<or> global"
  obtains q' where "schedule par cur a t global q = ret q'" and "eq_rep q' bs"
    and "async_queue q' = async_queue q @ [a]" and "eq_curTick q' = eq_curTick q" and "eq_id q' = eq_id q"
    and "\<And>x. x \<noteq> a \<Longrightarrow> events q' x = events q x"
    and "\<exists>e. events q' a = Some e \<and> ev_when e = t \<and> scheduled e \<and> initialized e \<and> ev_queue e = Some (eq_id q)"
proof -
  have but: "eq_rep_but a q bs" by (rule eq_rep_but_out [OF rep unscheduled [OF ev(1,2)]])
  define e1 where "e1 = setWhen t (eq_id q) ev"
  define e3 where "e3 = e1\<lparr>ev_flags := flags_set (ev_flags e1) Scheduled\<rparr>"
  define q2 where "q2 = q\<lparr>events := (events q)(a \<mapsto> e3)\<rparr>"
  define q3 where "q3 = q2\<lparr>async_queue := async_queue q @ [a]\<rparr>"
  have but2: "eq_rep_but a q2 bs" unfolding q2_def by (rule eq_rep_but_upd [OF but])
  have son: "scheduled_on q3 x = scheduled_on q2 x" for x by (simp add: scheduled_on_def q3_def split: option.split)
  have sa: "scheduled_on q3 a"
    using ev(3) by (simp add: scheduled_on_def q3_def q2_def e3_def e1_def setWhen_def scheduled_def initialized_def)
  have "schedule par cur a t global q = ret q3"
    using rem by (simp add: schedule_def t ev upd_event_def asyncInsert_def q3_def q2_def e3_def e1_def)
  moreover have "eq_rep q3 bs"
    unfolding eq_rep_def
  proof (intro conjI allI)
    show "bins (events q3) (eq_head q3) bs" using but2 by (simp add: eq_rep_but_def q3_def del: set_concat)
    have aq: "async_queue q2 = async_queue q" by (simp add: q2_def)
    show "distinct (concat bs @ async_queue q3)"
      using but2 by (auto simp: eq_rep_but_def q3_def aq simp del: set_concat)
    show "x \<in> set (concat bs @ async_queue q3) \<longleftrightarrow> scheduled_on q3 x" for x
      using but2 sa son [of x] by (cases "x = a") (auto simp: eq_rep_but_def aq q3_def simp del: set_concat)
  qed
  ultimately show ?thesis
    by (rule that) (use ev(3) in \<open>auto simp: q3_def q2_def e3_def e1_def setWhen_def scheduled_def initialized_def\<close>)
qed

text \<open>An event that waits to be merged cannot be descheduled.\<close>

lemma deschedule_waiting:
  assumes rep: "eq_rep q bs" and ev: "events q a = Some ev" "\<not> scheduled ev" "initialized ev"
    and t: "eq_curTick q \<le> t" and rem: "par" "eq_id q \<noteq> cur \<or> global"
  obtains q' where "schedule par cur a t global q = ret q'" and "eq_rep q' bs" and "async_queue q' = async_queue q @ [a]"
    and "deschedule par cur a q' = fail (if eq_id q \<noteq> cur then AssertFailed else PanicError)"
proof -
  obtain q' e where q': "schedule par cur a t global q = ret q'" "eq_rep q' bs" "async_queue q' = async_queue q @ [a]"
    "eq_id q' = eq_id q" and e: "events q' a = Some e" "scheduled e" "initialized e" "ev_queue e = Some (eq_id q)"
    using schedule_async_spec [OF assms] by metis
  have "a \<notin> set (concat bs)" using eq_repD(4) [OF q'(2)] q'(3) by (auto simp del: set_concat)
  then have "eq_remove a q' = fail PanicError"
    using heap_remove_absent [OF eq_repD(1) [OF q'(2)] _ e(1)] e(4) q'(4) by (simp add: eq_remove_def)
  then have "deschedule par cur a q' = fail (if eq_id q \<noteq> cur then AssertFailed else PanicError)"
    using rem(1) e q'(4) by (simp add: deschedule_def)
  then show ?thesis by (rule that [OF q'(1-3)])
qed

text \<open>
  The merge returns in every state: the waiting events are inserted one by one, whatever their times, and
  keep their data.
\<close>

lemma drain_spec:
  assumes "eq_rep q bs" and "async_queue q = as"
  shows "\<exists>q' bs'. drain_async as q = ret q' \<and> eq_rep q' bs' \<and> async_queue q' = [] \<and> eq_id q' = eq_id q \<and>
    eq_curTick q' = eq_curTick q \<and> same_data (events q) (events q')"
  using assms
proof (induction as arbitrary: q bs)
  case Nil
  then show ?case by (auto simp: same_data_def)
next
  case (Cons a as)
  have a: "a \<notin> set (concat bs)" "scheduled_on q a" "distinct (a # as)"
    using eq_repD(3-5) [OF Cons.prems(1)] Cons.prems(2) by (auto simp del: set_concat)
  then obtain e where "events q a = Some e" by (auto simp: scheduled_on_def split: option.splits)
  then obtain p h where ins: "eq_insert a q = ret (q\<lparr>eq_head := p, events := h\<rparr>)"
    and b: "bins h p (ins_bins (hkey (events q)) a bs)" and sd: "same_data (events q) h"
    by (rule eq_insert_spec [OF eq_repD(1) [OF Cons.prems(1)] a(1)])
  define q1 where "q1 = q\<lparr>eq_head := p, events := h, async_queue := as\<rparr>"
  define bs1 where "bs1 = ins_bins (hkey (events q)) a bs"
  have mem: "set (concat bs1) = insert a (set (concat bs))" by (simp add: bs1_def set_ins_bins del: set_concat)
  have "eq_rep q1 bs1"
    unfolding eq_rep_def
  proof (intro conjI allI)
    show "bins (events q1) (eq_head q1) bs1" using b by (simp add: q1_def bs1_def)
    show "distinct (concat bs1 @ async_queue q1)"
      using b a eq_repD(4) [OF Cons.prems(1)] mem Cons.prems(2) by (auto simp: q1_def bins_def bs1_def simp del: set_concat)
    show "x \<in> set (concat bs1 @ async_queue q1) \<longleftrightarrow> scheduled_on q1 x" for x
      using eq_repD(5) [OF Cons.prems(1), of x] scheduled_on_data [of q1 x q] sd mem Cons.prems(2)
      by (auto simp: q1_def same_data_def simp del: set_concat)
  qed
  moreover have "async_queue q1 = as" by (simp add: q1_def)
  ultimately obtain q' bs' where "drain_async as q1 = ret q'" "eq_rep q' bs'" "async_queue q' = []"
    "eq_id q' = eq_id q1" "eq_curTick q' = eq_curTick q1" "same_data (events q1) (events q')"
    using Cons.IH by metis
  then show ?case using ins sd by (auto simp: q1_def intro: same_data_trans)
qed

subsection \<open>The clock\<close>

text \<open>An operation that changes one event keeps the others out of the past.\<close>

lemma eq_future_at:
  assumes "eq_future q" and "eq_id q' = eq_id q" and "scheduled_on q' x"
    and d: "map_option ev_data (events q' x) = map_option ev_data (events q x)"
  shows "eq_curTick q \<le> ev_when (the (events q' x))"
proof -
  have "scheduled_on q x" using assms scheduled_on_data [OF d] by blast
  moreover from this have "events q x \<noteq> None" by (auto simp: scheduled_on_def split: option.splits)
  ultimately show ?thesis using assms(1) ev_when_data(1) [of "events q'" x "events q", OF d] by (simp add: eq_future_def)
qed

lemma eq_future_upd:
  assumes fut: "eq_future q" and st: "eq_id q' = eq_id q" "eq_curTick q' = eq_curTick q"
    and fr: "\<And>x. x \<noteq> a \<Longrightarrow> map_option ev_data (events q' x) = map_option ev_data (events q x)"
    and a: "\<And>e. events q' a = Some e \<Longrightarrow> scheduled_on q' a \<Longrightarrow> eq_curTick q \<le> ev_when e"
  shows "eq_future q'"
  unfolding eq_future_def st
proof (intro allI impI)
  fix x assume x: "scheduled_on q' x"
  then obtain e where e: "events q' x = Some e" by (auto simp: scheduled_on_def split: option.splits)
  show "eq_curTick q \<le> ev_when (the (events q' x))"
    using a [of e] e x eq_future_at [OF fut st(1) x fr] by (cases "x = a") auto
qed

lemma eq_future_data:
  assumes "eq_future q" and "eq_id q' = eq_id q" and "eq_curTick q' = eq_curTick q" and "same_data (events q) (events q')"
  shows "eq_future q'"
  using eq_future_at [OF assms(1,2)] assms(3,4) by (simp add: eq_future_def same_data_def)

lemma placed_keeps:
  assumes "placed a t ev q xs q' bs'" and "eq_curTick q \<le> t"
  shows "eq_rep q' bs' \<and> eq_curTick q' = eq_curTick q \<and> (eq_future q \<longrightarrow> eq_future q')"
proof -
  have "eq_future q'" if "eq_future q"
  proof (rule eq_future_upd [OF that])
    show "eq_curTick q \<le> ev_when e" if "events q' a = Some e" for e
      using assms that by (auto simp: placed_def ekey_def word_le_nat_alt)
  qed (use assms(1) in \<open>auto simp: placed_def\<close>)
  then show ?thesis using assms(1) by (simp add: placed_def)
qed

subsection \<open>Calls of a handler\<close>

text \<open>
  What is done to a queue by the handlers of its events and by the code around it, on the thread of the queue
  or on another one: events are created and the public operations are called. \<open>HandleAsync\<close> is the merge
  that a simulation thread makes when its loop starts (\<open>sim/simulate.cc:181\<close>) and a handler at the end
  of a quantum (\<open>sim/global_event.cc:149\<close>). Every call comes with the mode and the current queue of the
  thread that makes it; a handler is given by its calls, which may depend on the queue it finds.
\<close>

datatype api_call =
    Create EvId Priority FlagsType
  | Schedule EvId Tick bool
  | Deschedule EvId
  | Reschedule EvId Tick bool
  | Squash EvId
  | HandleAsync

fun api_do :: "bool \<Rightarrow> nat \<Rightarrow> api_call \<Rightarrow> EventQueue \<Rightarrow> EventQueue run" where
  "api_do par cur (Create a p f) q =
     (if events q a = None then obind (Event_new p f) (\<lambda>e. ret (q\<lparr>events := (events q)(a \<mapsto> e)\<rparr>)) else ret q)"
| "api_do par cur (Schedule a t g) q = schedule par cur a t g q"
| "api_do par cur (Deschedule a) q = deschedule par cur a q"
| "api_do par cur (Reschedule a t always) q = reschedule par cur a t always q"
| "api_do par cur (Squash a) q = squash_event a q"
| "api_do par cur HandleAsync q = handleAsyncInsertions cur q"

fun run_calls :: "(bool \<times> nat \<times> api_call) list \<Rightarrow> EventQueue \<Rightarrow> EventQueue run" where
  "run_calls [] q = ret q"
| "run_calls ((par, cur, c) # cs) q = obind (api_do par cur c q) (run_calls cs)"

type_synonym script = "EvId \<Rightarrow> EventQueue \<Rightarrow> (bool \<times> nat \<times> api_call) list"

definition handler :: "script \<Rightarrow> EvId \<Rightarrow> EventQueue \<Rightarrow> EventQueue run" where
  "handler script a q = run_calls (script a q) q"

text \<open>What every step keeps of a queue.\<close>

definition eq_kept :: "EventQueue \<Rightarrow> EventQueue \<Rightarrow> bool" where
  "eq_kept q q' \<longleftrightarrow> (\<exists>bs'. eq_rep q' bs') \<and> eq_curTick q' = eq_curTick q \<and> (eq_future q \<longrightarrow> eq_future q')"

lemma eq_keptI: "eq_rep q' bs' \<and> eq_curTick q' = eq_curTick q \<and> (eq_future q \<longrightarrow> eq_future q') \<Longrightarrow> eq_kept q q'"
  by (auto simp: eq_kept_def)

lemma deref_ret:
  assumes "obind (deref h (Some a)) f = ret y"
  obtains e where "h a = Some e" and "f e = ret y"
  using assms by (auto simp: obind_eq_ret)

text \<open>A change to an event that is not scheduled, and is not scheduled by it, matters to nobody.\<close>

lemma upd_unscheduled:
  assumes rep: "eq_rep q bs" and "\<not> scheduled_on q a" and q': "q' = q\<lparr>events := (events q)(a := v)\<rparr>"
    and ns: "\<not> scheduled_on q' a"
  shows "eq_rep q' bs \<and> eq_curTick q' = eq_curTick q \<and> (eq_future q \<longrightarrow> eq_future q')"
proof -
  have "eq_rep_but a q' bs" unfolding q' by (rule eq_rep_but_upd [OF eq_rep_but_out [OF assms(1,2)]])
  then have "eq_rep q' bs" using ns by (rule eq_rep_but_in)
  moreover have "eq_future q'" if "eq_future q"
    by (rule eq_future_upd [OF that, where a = a]) (use ns in \<open>simp_all add: q'\<close>)
  ultimately show ?thesis by (simp add: q')
qed

lemma create_keeps:
  assumes rep: "eq_rep q bs" and "api_do par cur (Create a p f) q = ret q'"
  shows "eq_kept q q'"
proof (cases "events q a")
  case None
  from assms(2) None obtain e where e: "Event_new p f = ret e" and q': "q' = q\<lparr>events := (events q)(a \<mapsto> e)\<rparr>"
    by (auto simp: obind_eq_ret)
  from e have "ev_queue e = None" by (auto simp: Event_new_def split: if_splits)
  then have "\<not> scheduled_on q' a" by (simp add: q' scheduled_on_def)
  moreover have "\<not> scheduled_on q a" using None by (simp add: scheduled_on_def)
  ultimately show ?thesis using upd_unscheduled [OF rep _ q'] by (blast intro: eq_keptI)
qed (use assms in \<open>auto simp: eq_kept_def\<close>)

lemma schedule_keeps:
  assumes rep: "eq_rep q bs" and run: "schedule par cur a t g q = ret q'"
  shows "eq_kept q q'"
proof -
  from run have t: "eq_curTick q \<le> t" by (cases "eq_curTick q \<le> t") (simp_all add: schedule_def)
  with run obtain ev where ev: "events q a = Some ev" "\<not> scheduled ev" "initialized ev"
    by (auto simp: schedule_def obind_eq_ret guard_def split: if_splits)
  show ?thesis
  proof (cases "par \<and> (eq_id q \<noteq> cur \<or> g)")
    case True
    then obtain q2 where q2: "schedule par cur a t g q = ret q2" "eq_rep q2 bs" "eq_curTick q2 = eq_curTick q" "eq_id q2 = eq_id q"
      and fr: "\<And>x. x \<noteq> a \<Longrightarrow> events q2 x = events q x" and e: "\<exists>e. events q2 a = Some e \<and> ev_when e = t"
      using schedule_async_spec [OF rep ev t, of par cur g] by metis
    have "eq_future q2" if "eq_future q"
      by (rule eq_future_upd [OF that, where a = a]) (use q2 fr e t in auto)
    with q2 run show ?thesis by (auto simp: eq_kept_def)
  next
    case False
    obtain bs2 where "placed a t ev q (concat bs) q' bs2"
      by (rule schedule_spec [OF rep ev t False]) (use run in auto)
    from placed_keeps [OF this t] show ?thesis by (rule eq_keptI)
  qed
qed

lemma deschedule_keeps:
  assumes rep: "eq_rep q bs" and run: "deschedule par cur a q = ret q'"
  shows "eq_kept q q'"
proof -
  from run obtain ev q1 where ev: "events q a = Some ev" and "eq_remove a q = ret q1" and c: "\<not> par \<or> eq_id q = cur"
    by (auto simp: deschedule_def obind_eq_ret)
  then have "a \<in> set (concat bs)" by (intro eq_remove_ret [OF rep])
  from deschedule_spec [OF rep this c] run have rep': "eq_rep q' (del_bins a bs)"
    and st: "eq_curTick q' = eq_curTick q" "eq_id q' = eq_id q"
    and fr: "\<And>x. x \<noteq> a \<Longrightarrow> map_option ev_data (events q' x) = map_option ev_data (events q x)"
    and ns: "\<And>e. events q' a = Some e \<Longrightarrow> \<not> scheduled e"
    by (metis ret_inject)+
  have "\<not> scheduled_on q' a" using ns by (auto simp: scheduled_on_def split: option.split)
  then have "eq_future q'" if "eq_future q" by (intro eq_future_upd [OF that st(2,1) fr]) auto
  with rep' st show ?thesis by (auto simp: eq_kept_def)
qed

lemma reschedule_keeps:
  assumes rep: "eq_rep q bs" and run: "reschedule par cur a t always q = ret q'"
  shows "eq_kept q q'"
proof -
  from run have t: "eq_curTick q \<le> t" by (cases "eq_curTick q \<le> t") (simp_all add: reschedule_def)
  from run obtain ev where ev: "events q a = Some ev" "initialized ev" "always \<or> scheduled ev"
    and c: "\<not> par \<or> eq_id q = cur" and r: "scheduled ev \<Longrightarrow> \<exists>q1. eq_remove a q = ret q1"
    by (auto simp: reschedule_def obind_eq_ret split: if_splits)
  have "a \<in> set (concat bs)" if "scheduled ev" using r [OF that] eq_remove_ret [OF rep ev(1)] by blast
  from reschedule_spec [OF rep ev this t c] obtain bs' where "placed a t ev q (remove1 a (concat bs)) q' bs'"
    using run by (metis ret_inject)
  from placed_keeps [OF this t] show ?thesis by (rule eq_keptI)
qed

lemma squash_keeps:
  assumes rep: "eq_rep q bs" and run: "squash_event a q = ret q'"
  shows "eq_kept q q'"
proof -
  have sq: "squash = (\<lambda>e. e\<lparr>ev_flags := flags_set (ev_flags e) Squashed\<rparr>)" by (auto simp: squash_def)
  from run obtain e where e: "events q a = Some e" by (auto simp: squash_event_def upd_event_def obind_eq_ret)
  show ?thesis
    by (rule flag_upd_spec [OF rep e scheduled_flags(3) initialized_flags(2)])
      (use run in \<open>auto simp: squash_event_def sq eq_kept_def\<close>)
qed

lemma merge_keeps:
  assumes rep: "eq_rep q bs" and run: "handleAsyncInsertions cur q = ret q'"
  shows "eq_kept q q'"
proof -
  from run have "drain_async (async_queue q) q = ret q'" by (auto simp: handleAsyncInsertions_def obind_eq_ret)
  with drain_spec [OF rep refl] obtain bs' where "eq_rep q' bs'" "eq_id q' = eq_id q" "eq_curTick q' = eq_curTick q"
    "same_data (events q) (events q')" by auto
  then show ?thesis using eq_future_data by (auto simp: eq_kept_def)
qed

lemma api_do_keeps: "eq_rep q bs \<Longrightarrow> api_do par cur c q = ret q' \<Longrightarrow> eq_kept q q'"
  by (cases c) (simp_all add: create_keeps schedule_keeps deschedule_keeps reschedule_keeps squash_keeps merge_keeps
      del: api_do.simps(1))

lemma run_calls_keeps: "eq_rep q bs \<Longrightarrow> run_calls cs q = ret q' \<Longrightarrow> eq_kept q q'"
proof (induction cs q arbitrary: bs rule: run_calls.induct)
  case (2 par cur c cs q)
  then obtain q1 where q1: "api_do par cur c q = ret q1" "run_calls cs q1 = ret q'" by (auto simp: obind_eq_ret)
  have k: "eq_kept q q1" by (rule api_do_keeps [OF "2.prems"(1) q1(1)])
  then obtain bs1 where "eq_rep q1 bs1" by (auto simp: eq_kept_def)
  from "2.IH" [OF this q1(2)] k show ?case by (auto simp: eq_kept_def)
qed (auto simp: eq_kept_def)

subsection \<open>Service\<close>

lemma bins_head_min:
  assumes "bins h p (b # bs)" and "x \<in> set (concat (b # bs))"
  shows "hkey h (hd b) \<le> hkey h x"
proof -
  have srt: "bins_sorted (hkey h) (b # bs)" using assms(1) by (simp add: bins_def)
  then have "uniform (hkey h) b" by (simp add: bins_sorted_Cons)
  with assms(2) show ?thesis using bins_sorted_later [OF srt, of x] uniformD [of "hkey h" b x]
    by (auto simp del: set_concat)
qed

text \<open>Servicing begins by taking the head out of the queue, as \<open>remove\<close> does.\<close>

definition pop :: "EventQueue \<Rightarrow> EventQueue run" where
  "pop q = obind (deref (events q) (eq_head q)) (\<lambda>e.
     obind (upd_event (the (eq_head q)) (\<lambda>e. e\<lparr>ev_flags := flags_clear (ev_flags e) Scheduled\<rparr>) q) (\<lambda>q.
     if nextInBin e \<noteq> None
     then obind (set_nextBin (nextInBin e) (nextBin e) (events q)) (\<lambda>h. ret (q\<lparr>events := h, eq_head := nextInBin e\<rparr>))
     else ret (q\<lparr>eq_head := nextBin e\<rparr>)))"

lemma pop_spec:
  assumes rep: "eq_rep q (b # bs)" and e: "events q (hd b) = Some e"
  obtains q1 where "pop q = ret q1" and "eq_rep_but (hd b) q1 (del_bins (hd b) (b # bs))"
    and "eq_curTick q1 = eq_curTick q" and "eq_id q1 = eq_id q"
    and "\<And>x. x \<noteq> hd b \<Longrightarrow> map_option ev_data (events q1 x) = map_option ev_data (events q x)"
    and "\<exists>e1. events q1 (hd b) = Some e1 \<and> ev_when e1 = ev_when e \<and> ev_flags e1 = flags_clear (ev_flags e) Scheduled"
proof -
  define a where "a = hd b"
  note b0 = eq_repD(1) [OF rep]
  have hd: "eq_head q = Some a" and ne: "b \<noteq> []"
    using b0 by (auto simp: bins_def a_def dest: chain_head)
  then have a: "a \<in> set (concat (b # bs))" by (simp add: a_def)
  define e1 where "e1 = e\<lparr>ev_flags := flags_clear (ev_flags e) Scheduled\<rparr>"
  define q0 where "q0 = q\<lparr>events := (events q)(a \<mapsto> e1)\<rparr>"
  have q0e: "events q0 a = Some e1" by (simp add: q0_def)
  have que: "ev_queue e1 = Some (eq_id q0)"
    using eq_rep_mem [OF rep a] e by (auto simp: a_def e1_def q0_def)
  have b1: "bins (events q0) (eq_head q0) (b # bs)"
    using bins_upd_flags [OF b0 e] by (simp add: q0_def e1_def a_def)
  obtain p h where r: "eq_remove a q0 = ret (q0\<lparr>eq_head := p, events := h\<rparr>)"
    and but: "eq_rep_but a (q0\<lparr>eq_head := p, events := h\<rparr>) (del_bins a (b # bs))" and sd: "same_data (events q0) h"
  proof (rule take_out [OF b1 _ a _ q0e que])
    show "distinct (concat (b # bs) @ async_queue q0)" using rep unfolding eq_rep_def q0_def by simp
    show "x \<in> set (concat (b # bs) @ async_queue q0) \<longleftrightarrow> scheduled_on q0 x" if "x \<noteq> a" for x
    proof -
      have "scheduled_on q0 x = scheduled_on q x" using that by (simp add: scheduled_on_def q0_def split: option.split)
      then show ?thesis using rep unfolding eq_rep_def by (simp add: q0_def del: set_concat concat.simps)
    qed
  qed
  have "pop q = eq_remove a q0"
  proof -
    have "removeItem a (Some a) (events q0) =
        (if nextInBin e = None then ret (nextBin e, events q0)
         else obind (set_nextBin (nextInBin e) (nextBin e) (events q0)) (\<lambda>h. ret (nextInBin e, h)))"
      by (cases "nextInBin e") (simp_all add: removeItem_def q0e, simp_all add: e1_def)
    moreover have "pop q = (if nextInBin e \<noteq> None
        then obind (set_nextBin (nextInBin e) (nextBin e) (events q0)) (\<lambda>h. ret (q0\<lparr>events := h, eq_head := nextInBin e\<rparr>))
        else ret (q0\<lparr>eq_head := nextBin e\<rparr>))"
      using e hd by (simp add: pop_def upd_event_def a_def q0_def e1_def)
    moreover have "eq_head q0 = Some a" by (simp add: q0_def hd)
    ultimately show ?thesis
      using que q0e by (simp add: eq_remove_def heap_remove_def ev_order) (simp add: set_nextBin_def obind_def deref_def ret_def fail_def split: option.splits)
  qed
  with r have "pop q = ret (q0\<lparr>eq_head := p, events := h\<rparr>)" by simp
  moreover obtain e2 where "h a = Some e2" "ev_data e2 = ev_data e1" by (rule same_data_Some [OF sd q0e])
  ultimately show ?thesis
    using but sd by (intro that [of "q0\<lparr>eq_head := p, events := h\<rparr>"]) (auto simp: a_def q0_def same_data_def ev_data_def e1_def)
qed

lemma obind_assoc: "obind (obind m f) g = obind m (\<lambda>x. obind (f x) g)"
  by (cases m) (auto simp: obind_def split: sum.split)

definition finish :: "(EvId \<Rightarrow> EventQueue \<Rightarrow> EventQueue run) \<Rightarrow> EvId \<Rightarrow> Event \<Rightarrow> EventQueue \<Rightarrow> (EvId option \<times> EventQueue) run" where
  "finish process a e q =
     (if \<not> squashed e then
       obind (process a (setCurTick (ev_when e) q)) (\<lambda>q.
       obind (deref (events q) (Some a)) (\<lambda>e.
         if isExitEvent e then
           obind (guard AssertFailed (\<not> flags_isSet (ev_flags e) Managed \<or> \<not> flags_isSet (ev_flags e) IsMainQueue)) (\<lambda>_.
           ret (Some a, q))
         else obind (release a q) (\<lambda>q. ret (None, q))))
     else
       obind (upd_event a (\<lambda>e. e\<lparr>ev_flags := flags_clear (ev_flags e) Squashed\<rparr>) q) (\<lambda>q.
       obind (release a q) (\<lambda>q. ret (None, q))))"

lemma serviceOne_pop:
  "serviceOne process q = obind (deref (events q) (eq_head q)) (\<lambda>e.
     obind (pop q) (finish process (the (eq_head q)) e))"
proof (cases "eq_head q")
  case (Some a)
  then show ?thesis
    by (cases "events q a") (simp_all add: serviceOne_def pop_def deref_def finish_def [abs_def] obind_assoc Let_def)
qed (simp add: serviceOne_def)

lemma release_keeps:
  assumes "eq_rep q bs" and "release a q = ret q'"
  shows "eq_rep q' bs \<and> eq_curTick q' = eq_curTick q \<and> (eq_future q \<longrightarrow> eq_future q')"
proof -
  obtain e where e: "events q a = Some e" and q': "q' = (if flags_isSet (ev_flags e) Managed \<and> \<not> scheduled e
      then q\<lparr>events := (events q)(a := None)\<rparr> else q)"
    using assms(2) by (auto simp: release_def obind_eq_ret)
  show ?thesis
  proof (cases "flags_isSet (ev_flags e) Managed \<and> \<not> scheduled e")
    case True
    then have "q' = q\<lparr>events := (events q)(a := None)\<rparr>" using q' by simp
    then show ?thesis
      by (intro upd_unscheduled [OF assms(1) unscheduled [OF e]]) (use True in \<open>simp_all add: scheduled_on_def\<close>)
  qed (use assms(1) q' in auto)
qed

text \<open>
  The rule of \<open>sim/eventq.hh\<close> for events of other threads, which must lie beyond the end of the quantum:
  the clock does not overtake an event that still waits to be merged.
\<close>

definition head_first :: "EventQueue \<Rightarrow> bool" where
  "head_first q \<longleftrightarrow> (case eq_head q of None \<Rightarrow> True
     | Some a \<Rightarrow> \<forall>x \<in> set (async_queue q). ev_when (the (events q a)) \<le> ev_when (the (events q x)))"

text \<open>
  Handlers that keep the queue well formed, bring no event into the past and do not move the clock. Whatever
  such handlers do, the event serviced is the first one and the clock becomes its time.
\<close>

locale event_handlers =
  fixes process :: "EvId \<Rightarrow> EventQueue \<Rightarrow> EventQueue run"
  assumes process_keeps: "eq_rep q bs \<Longrightarrow> process a q = ret q' \<Longrightarrow> eq_kept q q'"
begin

lemma finish_squashed:
  assumes rep: "eq_rep q bs" and a: "events q a = Some e1" "\<not> scheduled e1" and "squashed e"
    and fin: "finish process a e q = ret (r, q')"
  shows "eq_kept q q'"
proof -
  define q3 where "q3 = q\<lparr>events := (events q)(a \<mapsto> e1\<lparr>ev_flags := flags_clear (ev_flags e1) Squashed\<rparr>)\<rparr>"
  have rel: "release a q3 = ret q'" using fin assms(4) a(1) by (auto simp: finish_def obind_eq_ret upd_event_def q3_def)
  have "eq_rep q3 bs \<and> eq_curTick q3 = eq_curTick q \<and> (eq_future q \<longrightarrow> eq_future q3)"
  proof (rule upd_unscheduled [OF rep unscheduled [OF a] q3_def])
    show "\<not> scheduled_on q3 a" using a(2) by (simp add: scheduled_on_def q3_def scheduled_def)
  qed
  with release_keeps [OF _ rel] show ?thesis by (auto simp: eq_kept_def)
qed

lemma finish_processed:
  assumes rep: "eq_rep q bs" and "\<not> squashed e" and fin: "finish process a e q = ret (r, q')"
  shows "eq_kept (setCurTick (ev_when e) q) q'"
proof -
  define qt where "qt = setCurTick (ev_when e) q"
  from assms(2) fin obtain q3 where q3: "process a qt = ret q3" and fin3: "r = Some a \<and> q' = q3 \<or> release a q3 = ret q'"
    by (auto simp: finish_def obind_eq_ret qt_def split: if_splits)
  have "scheduled_on qt x = scheduled_on q x" for x
    by (simp add: scheduled_on_def qt_def setCurTick_def split: option.split)
  then have "eq_rep qt bs" using rep by (simp add: eq_rep_def) (simp add: qt_def setCurTick_def)
  then have "eq_kept qt q3" using q3 by (rule process_keeps)
  with fin3 release_keeps [of q3 _ a q'] show ?thesis by (auto simp: eq_kept_def simp flip: qt_def)
qed

lemma serviceOne_keeps:
  assumes rep: "eq_rep q bs" and run: "serviceOne process q = ret (r, q')"
  shows "\<exists>a e. eq_head q = Some a \<and> events q a = Some e \<and> a \<in> set (concat bs) \<and>
    (\<forall>x \<in> set (concat bs). hkey (events q) a \<le> hkey (events q) x) \<and>
    (\<exists>bs'. eq_rep q' bs') \<and> eq_curTick q' = (if squashed e then eq_curTick q else ev_when e) \<and>
    (eq_future q \<and> head_first q \<longrightarrow> eq_future q')"
proof -
  from run obtain a e q1 where hd: "eq_head q = Some a" "events q a = Some e" and q1: "pop q = ret q1"
    and fin: "finish process a e q1 = ret (r, q')"
    by (cases "eq_head q") (auto simp: serviceOne_pop obind_eq_ret)
  obtain b cs where bs: "bs = b # cs" and a: "a = hd b" and ne: "b \<noteq> []"
    using eq_repD(1) [OF rep] hd(1) by (cases bs) (auto simp: bins_def dest: chain_head)
  have mem: "a \<in> set (concat bs)" using ne by (simp add: bs a)
  obtain q2 where q2: "pop q = ret q2" "eq_rep_but a q2 (del_bins a bs)" "eq_curTick q2 = eq_curTick q" "eq_id q2 = eq_id q"
    and fr: "\<And>x. x \<noteq> a \<Longrightarrow> map_option ev_data (events q2 x) = map_option ev_data (events q x)"
    and e1: "\<exists>e1. events q2 a = Some e1 \<and> ev_when e1 = ev_when e \<and> ev_flags e1 = flags_clear (ev_flags e) Scheduled"
    using pop_spec [OF rep [unfolded bs] hd(2) [unfolded a]] unfolding bs a by metis
  have eq: "q2 = q1" using q1 q2(1) by simp
  from e1 obtain e1 where e1: "events q1 a = Some e1" "\<not> scheduled e1" by (auto simp: eq scheduled_def)
  note ns = unscheduled [OF e1]
  have rep1: "eq_rep q1 (del_bins a bs)" using eq_rep_but_in [OF q2(2)] ns eq by simp
  have min: "\<forall>x \<in> set (concat bs). hkey (events q) a \<le> hkey (events q) x"
    using bins_head_min [of "events q" "eq_head q" b cs] eq_repD(1) [OF rep] by (simp add: bs a del: concat.simps set_concat)
  have fut1: "eq_future q1" if "eq_future q"
    by (rule eq_future_upd [OF that, where a = a]) (use q2 fr ns in \<open>auto simp: eq\<close>)
  have fut2: "eq_future (setCurTick (ev_when e) q1)" if "head_first q"
    unfolding eq_future_def
  proof (intro allI impI)
    fix x assume "scheduled_on (setCurTick (ev_when e) q1) x"
    then have x1: "scheduled_on q1 x" by (simp add: scheduled_on_def setCurTick_def split: option.splits)
    then have xa: "x \<noteq> a" using ns by blast
    then have x: "scheduled_on q x" using x1 scheduled_on_data [of q2 x q] fr q2(4) by (simp add: eq)
    then obtain ex where ex: "events q x = Some ex" by (auto simp: scheduled_on_def split: option.splits)
    have "ev_when e \<le> ev_when ex"
    proof (cases "x \<in> set (concat bs)")
      case True
      with min hd(2) ex show ?thesis
        by (fastforce simp: hkey_def ekey_def less_eq_prod_def word_le_nat_alt simp del: set_concat)
    next
      case False
      with x eq_repD(5) [OF rep, of x] have "x \<in> set (async_queue q)" by blast
      with that hd ex show ?thesis by (auto simp: head_first_def)
    qed
    then show "eq_curTick (setCurTick (ev_when e) q1) \<le> ev_when (the (events (setCurTick (ev_when e) q1) x))"
      using ev_when_data(1) [of "events q1" x "events q"] fr [OF xa] ex by (simp add: eq setCurTick_def)
  qed
  have "(\<exists>bs'. eq_rep q' bs') \<and> eq_curTick q' = (if squashed e then eq_curTick q else ev_when e) \<and>
    (eq_future q \<and> head_first q \<longrightarrow> eq_future q')"
  proof (cases "squashed e")
    case True
    from finish_squashed [OF rep1 e1 True fin] True fut1 q2(3) show ?thesis by (auto simp: eq_kept_def eq)
  next
    case False
    from finish_processed [OF rep1 False fin] False fut2 show ?thesis by (auto simp: eq_kept_def setCurTick_def)
  qed
  with hd mem min show ?thesis by blast
qed

end

interpretation calls: event_handlers "handler script" for script
  by unfold_locales (auto simp: handler_def intro: run_calls_keeps)

subsection \<open>Restoring a checkpoint\<close>

text \<open>
  \<open>UNSERIALIZE_EVENT\<close> (\<open>sim/serialize.hh\<close>): an event reads its fields back and is handed to
  \<open>checkpointReschedule\<close>. A checkpoint of an event that was both scheduled and squashed is left out: the
  restored event is put into the queue without its queue pointer being set.
\<close>

definition restore_event :: "EvId \<Rightarrow> EventCheckpoint \<Rightarrow> EventQueue \<Rightarrow> EventQueue run" where
  "restore_event a cp q = obind (deref (events q) (Some a)) (\<lambda>e.
     obind (ev_unserialize cp e) (\<lambda>e. checkpointReschedule a (q\<lparr>events := (events q)(a \<mapsto> e)\<rparr>)))"

definition cp_dead :: "EventCheckpoint \<Rightarrow> bool" where
  "cp_dead cp \<longleftrightarrow> flags_isSet (cp_flags cp) Scheduled \<and> flags_isSet (cp_flags cp) Squashed"

lemma unserialize_unscheduled:
  assumes "ev_unserialize cp e = ret e1" and "\<not> cp_dead cp"
  shows "\<not> scheduled e \<and> \<not> scheduled e1"
proof -
  have fl: "flags_isSet (flags_set f Initialized) Scheduled = flags_isSet f Scheduled"
    "flags_isSet (flags_set f Initialized) Squashed = flags_isSet f Squashed"
    "\<not> flags_isSet (flags_clear f (Squashed OR Scheduled)) Scheduled" for f
    by (simp_all add: flags_isSet_def flags_set_def flags_clear_def flag_defs bit.conj_disj_distrib2 and.assoc)
  show ?thesis
    using assms by (auto simp: ev_unserialize_def Let_def scheduled_def fl cp_dead_def split: if_splits)
qed

lemma restore_keeps:
  assumes rep: "eq_rep q bs" and run: "restore_event a cp q = ret q'" and "\<not> cp_dead cp"
  shows "eq_kept q q'"
proof -
  obtain e e1 where e: "events q a = Some e" and e1: "ev_unserialize cp e = ret e1"
    and cr: "checkpointReschedule a (q\<lparr>events := (events q)(a \<mapsto> e1)\<rparr>) = ret q'"
    using run by (auto simp: restore_event_def obind_eq_ret)
  have ns: "\<not> scheduled e" "\<not> scheduled e1" using unserialize_unscheduled [OF e1 assms(3)] by blast+
  then have q': "q' = q\<lparr>events := (events q)(a \<mapsto> e1)\<rparr>"
    using cr by (simp add: checkpointReschedule_def scheduled_def)
  have "\<not> scheduled_on q' a" using ns by (simp add: scheduled_on_def q')
  from upd_unscheduled [OF rep unscheduled [OF e ns(1)] q' this] show ?thesis by (rule eq_keptI)
qed

subsection \<open>Reachable states\<close>

text \<open>
  The states of a queue that is built empty, is called from its own and from other threads in any mode,
  has events restored into it and its clock set (\<open>sim/serialize.cc\<close>), and is serviced. With \<open>timely\<close>
  the rule above is respected: the clock, whether by service or set from outside, is not moved past a
  scheduled event. Without \<open>timely\<close> there is no such restriction.
\<close>

inductive eq_reach :: "bool \<Rightarrow> script \<Rightarrow> EventQueue \<Rightarrow> bool"
  for timely script where
  start: "(\<And>a e. h a = Some e \<Longrightarrow> \<not> scheduled e) \<Longrightarrow> eq_reach timely script (EventQueue_new n h)"
| call: "eq_reach timely script q \<Longrightarrow> api_do par cur c q = ret q' \<Longrightarrow> eq_reach timely script q'"
| restore: "eq_reach timely script q \<Longrightarrow> restore_event a cp q = ret q' \<Longrightarrow> \<not> cp_dead cp \<Longrightarrow> eq_reach timely script q'"
| clock: "eq_reach timely script q \<Longrightarrow> (timely \<Longrightarrow> eq_future (setCurTick t q)) \<Longrightarrow> eq_reach timely script (setCurTick t q)"
| service: "eq_reach timely script q \<Longrightarrow> (timely \<Longrightarrow> head_first q) \<Longrightarrow>
    serviceOne (handler script) q = ret (r, q') \<Longrightarrow> eq_reach timely script q'"

lemma eq_rep_new: "(\<And>a e. h a = Some e \<Longrightarrow> \<not> scheduled e) \<Longrightarrow> eq_rep (EventQueue_new n h) [] \<and> eq_future (EventQueue_new n h)"
  by (auto simp: eq_rep_def eq_future_def EventQueue_new_def bins_def scheduled_on_def split: option.split)

lemma eq_rep_clock: "eq_rep (setCurTick t q) bs = eq_rep q bs"
proof -
  have "scheduled_on (setCurTick t q) x = scheduled_on q x" for x
    by (simp add: scheduled_on_def setCurTick_def split: option.split)
  then show ?thesis by (simp add: eq_rep_def) (simp add: setCurTick_def)
qed

lemma eq_reach_rep: "eq_reach timely script q \<Longrightarrow> (\<exists>bs. eq_rep q bs) \<and> (timely \<longrightarrow> eq_future q)"
proof (induction rule: eq_reach.induct)
  case (start h n)
  then show ?case using eq_rep_new by blast
next
  case (call q par cur c q')
  then show ?case using api_do_keeps by (metis eq_kept_def)
next
  case (restore q a cp q')
  then show ?case using restore_keeps by (metis eq_kept_def)
next
  case (clock q t)
  then show ?case by (simp add: eq_rep_clock)
next
  case (service q r q')
  then obtain bs where "eq_rep q bs" by blast
  with calls.serviceOne_keeps [OF this service.hyps(3)] service.IH service.hyps(2) show ?case by blast
qed

subsection \<open>Destruction\<close>

lemma EventQueue_delete_spec:
  assumes "eq_rep q bs" and "\<not> par \<or> eq_id q = cur"
  shows "\<exists>q'. EventQueue_delete par cur q = ret q' \<and> eq_rep q' [] \<and> async_queue q' = async_queue q \<and> eq_id q' = eq_id q"
  using assms
proof (induction "length (concat bs)" arbitrary: q bs rule: less_induct)
  case less
  show ?case
  proof (cases bs)
    case Nil
    then have "eq_head q = None" using eq_repD(1) [OF less.prems(1)] by (simp add: bins_def)
    then have "EventQueue_delete par cur q = ret q" by (subst EventQueue_delete.simps) (simp add: eq_empty_def)
    with Nil less.prems show ?thesis by blast
  next
    case (Cons b cs)
    have ne: "b \<noteq> []" and hd: "eq_head q = Some (hd b)"
      using eq_repD(1) [OF less.prems(1)] by (auto simp: Cons bins_def dest: chain_head)
    then have mem: "hd b \<in> set (concat bs)" by (simp add: Cons)
    obtain q1 where q1: "deschedule par cur (hd b) q = ret q1" "eq_rep q1 (del_bins (hd b) bs)"
      "eq_id q1 = eq_id q" "async_queue q1 = async_queue q"
      by (rule deschedule_spec [OF less.prems(1) mem less.prems(2)])
    have "length (concat (del_bins (hd b) bs)) < length (concat bs)"
      using concat_del_bins [OF eq_repD(2) [OF less.prems(1)], of "hd b"] mem
      by (auto simp: length_remove1 simp del: set_concat length_concat intro!: diff_less dest: length_pos_if_in_set)
    from less.hyps [OF this q1(2)] less.prems(2) q1(3,4) obtain q' where
      "EventQueue_delete par cur q1 = ret q'" "eq_rep q' []" "async_queue q' = async_queue q" "eq_id q' = eq_id q" by auto
    moreover have "EventQueue_delete par cur q = EventQueue_delete par cur q1"
      using hd q1(1) by (subst EventQueue_delete.simps) (simp add: eq_empty_def)
    ultimately show ?thesis by auto
  qed
qed

subsection \<open>Self check\<close>

lemma debugVerify_bin_spec:
  assumes "chain h p b" and "\<And>x. x \<in> set b \<Longrightarrow> hkey h x = k" and "(unat time, pri) \<le> k"
    and "distinct b" and "set b \<inter> seen = {}"
  shows "\<exists>t pr. debugVerify_bin h (time, pri, seen) p = ret (Some (t, pr, seen \<union> set b)) \<and>
    (unat t, pr) = (if b = [] then (unat time, pri) else k)"
  using assms
proof (induction b arbitrary: p time pri seen)
  case Nil
  then show ?case by (subst debugVerify_bin.simps) simp
next
  case (Cons a b)
  then obtain e where e: "p = Some a" "h a = Some e" "chain h (nextInBin e) b" by auto
  have k: "k = (unat (ev_when e), sint (ev_priority e))" using Cons.prems(2) [of a] e by (simp add: hkey_def ekey_def)
  have "\<not> ev_when e < time" "\<not> (ev_when e = time \<and> sint (ev_priority e) < pri)"
    using Cons.prems(3) by (auto simp: k less_eq_prod_def word_less_nat_alt)
  then have "debugVerify_bin h (time, pri, seen) p =
      debugVerify_bin h (ev_when e, sint (ev_priority e), insert a seen) (nextInBin e)"
    using e Cons.prems(5) by (subst debugVerify_bin.simps) auto
  moreover from Cons.IH [OF e(3), of "ev_when e" "sint (ev_priority e)" "insert a seen"] Cons.prems
  obtain t pr where "debugVerify_bin h (ev_when e, sint (ev_priority e), insert a seen) (nextInBin e) =
      ret (Some (t, pr, insert a seen \<union> set b))" "(unat t, pr) = k"
    by (auto simp: k split: if_splits)
  ultimately show ?case by auto
qed

lemma debugVerify_bin_reject:
  assumes "h a = Some e" and "ekey e < (unat time, pri)"
  shows "debugVerify_bin h (time, pri, seen) (Some a) = ret None"
  using assms by (subst debugVerify_bin.simps) (auto simp: ekey_def less_prod_def word_less_nat_alt word_unat_eq_iff)

lemma debugVerify_loop_spec:
  assumes "bpath h p bs None" and "bins_sorted (hkey h) bs" and "distinct (concat bs)"
    and "\<And>x. x \<in> set (concat bs) \<Longrightarrow> (unat time, pri) \<le> hkey h x" and "set (concat bs) \<inter> seen = {}"
  shows "debugVerify_loop h (time, pri, seen) p = ret True"
  using assms
proof (induction bs arbitrary: p time pri seen)
  case Nil
  then show ?case by (subst debugVerify_loop.simps) simp
next
  case (Cons b bs)
  obtain e where e: "h (hd b) = Some e" "p = Some (hd b)" "b \<noteq> []" "chain h p b" "bpath h (nextBin e) bs None"
    by (rule bpath_ConsE [OF Cons.prems(1)])
  have u: "uniform (hkey h) b" using Cons.prems(2) by (simp add: bins_sorted_Cons)
  have "(unat time, pri) \<le> hkey h (hd b)" by (rule Cons.prems(4)) (simp add: e(3))
  moreover have "distinct b" "set b \<inter> seen = {}" using Cons.prems(3,5) by auto
  ultimately obtain t pr where r: "debugVerify_bin h (time, pri, seen) p = ret (Some (t, pr, seen \<union> set b))"
    and k: "(unat t, pr) = hkey h (hd b)"
    using debugVerify_bin_spec [OF e(4) uniformD [OF u], of time pri seen] e(3) by auto
  have "debugVerify_loop h (t, pr, seen \<union> set b) (nextBin e) = ret True"
  proof (rule Cons.IH [OF e(5)])
    show "(unat t, pr) \<le> hkey h x" if "x \<in> set (concat bs)" for x
      unfolding k using bins_sorted_later [OF Cons.prems(2) that] by simp
  qed (use Cons.prems in \<open>auto simp: bins_sorted_Cons\<close>)
  with r e show ?case by (subst debugVerify_loop.simps) simp
qed

lemma debugVerify_spec:
  assumes "bins (events q) (eq_head q) bs"
  shows "debugVerify q = ret (bs = [] \<or> (0, 0) \<le> hkey (events q) (hd (hd bs)))"
proof (cases bs)
  case Nil
  with assms show ?thesis by (simp add: bins_def debugVerify_def debugVerify_loop.simps)
next
  case (Cons b cs)
  from assms have path: "bpath (events q) (eq_head q) (b # cs) None" by (simp add: bins_def Cons)
  show ?thesis
  proof (cases "(0, 0) \<le> hkey (events q) (hd b)")
    case True
    have "debugVerify q = ret True"
      unfolding debugVerify_def
    proof (rule debugVerify_loop_spec)
      show "(unat 0, 0) \<le> hkey (events q) x" if "x \<in> set (concat bs)" for x
        using True bins_head_min [of "events q" "eq_head q" b cs x] assms that
        by (simp add: Cons del: concat.simps set_concat)
    qed (use assms in \<open>simp_all add: bins_def\<close>)
    with True Cons show ?thesis by simp
  next
    case False
    obtain e where e: "events q (hd b) = Some e" "eq_head q = Some (hd b)" by (rule bpath_ConsE [OF path])
    then have "debugVerify_bin (events q) (0, 0, {}) (Some (hd b)) = ret None"
      using False by (intro debugVerify_bin_reject) (auto simp: hkey_def)
    with e False Cons show ?thesis by (simp add: debugVerify_def debugVerify_loop.simps)
  qed
qed

subsection \<open>Checkpoints of events\<close>

lemma restored_flags:
  assumes "f AND InitMask = Initialized"
  shows "flags_set f Initialized = f"
proof -
  have "f OR Initialized = f OR (f AND InitMask)" by (simp add: assms)
  then show ?thesis by (simp add: flags_set_def)
qed

lemma unserialize_scheduled:
  assumes e: "initialized e" "scheduled e" "\<not> squashed e" and e0: "initialized e0" "\<not> scheduled e0"
  obtains e1 where "ev_unserialize (ev_serialize e) e0 = ret e1" and "ekey e1 = ekey e" and "\<not> scheduled e1"
proof -
  have fl: "flags_set (ev_flags e) Initialized = ev_flags e" using e(1) by (simp add: restored_flags initialized_def)
  define e1 where "e1 = e0\<lparr>ev_when := ev_when e, ev_priority := ev_priority e,
    ev_flags := flags_clear (ev_flags e) (Squashed OR Scheduled)\<rparr>"
  have "ev_unserialize (ev_serialize e) e0 = ret e1"
    using e e0 by (simp add: ev_unserialize_def ev_serialize_def fl scheduled_def squashed_def e1_def)
  moreover have "\<not> scheduled e1"
    by (simp add: e1_def scheduled_def flags_isSet_def flags_clear_def flag_defs and.assoc)
  ultimately show ?thesis by (intro that [of e1]) (simp_all add: e1_def ekey_def)
qed

subsection \<open>Pending events\<close>

lemma bins_sorted_flat: "bins_sorted k bs \<Longrightarrow> sorted (map k (concat bs))"
proof (induction bs)
  case (Cons b bs)
  have u: "uniform k b" and rest: "bins_sorted k bs" using Cons.prems by (simp_all add: bins_sorted_Cons)
  have "sorted (map k b)" using uniformD [OF u] by (auto simp: sorted_iff_nth_mono)
  moreover have "k x \<le> k y" if "x \<in> set b" "y \<in> set (concat bs)" for x y
    using uniformD [OF u that(1)] bins_sorted_later [OF Cons.prems that(2)] by simp
  ultimately show ?case using Cons.IH [OF rest] by (auto simp: sorted_append simp del: set_concat)
qed simp

lemma remove1_ins_flat: "a \<notin> set xs \<Longrightarrow> remove1 a (ins_flat k a xs) = xs"
proof -
  assume "a \<notin> set xs"
  then have "a \<notin> set (takeWhile (\<lambda>x. k x < k a) xs)" using set_takeWhileD by fastforce
  then show ?thesis by (simp add: ins_flat_def remove1_append)
qed

lemma eq_rep_first:
  assumes "eq_rep q bs" and "eq_head q = Some a"
  obtains b cs where "bs = b # cs" and "a = hd b" and "b \<noteq> []"
  using assms eq_repD(1) [OF assms(1)] by (cases bs) (auto simp: bins_def dest: chain_head)

subsection \<open>An example queue\<close>

definition demo_event :: Event where
  "demo_event = \<lparr>nextBin = None, nextInBin = None, ev_when = 5, ev_priority = 0xE1, ev_flags = 0x7a42, ev_queue = Some 0\<rparr>"

definition demo_queue :: EventQueue where
  "demo_queue = \<lparr>eq_id = 0, events = [7 \<mapsto> demo_event], eq_head = Some 7, eq_curTick = 0, async_queue = []\<rparr>"

lemma demo_event_flags [simp]: "scheduled demo_event" "initialized demo_event" "\<not> squashed demo_event"
  by (simp_all add: demo_event_def scheduled_def initialized_def squashed_def flags_isSet_def flag_defs)

text \<open>Another thread schedules the event, which waits until the queue merges it.\<close>

lemma demo_calls:
  "run_calls [(False, 0, Create 7 0xE1 0), (True, 1, Schedule 7 5 False), (True, 0, HandleAsync)] (EventQueue_new 0 Map.empty)
    = ret demo_queue"
  by (simp add: asyncInsert_def handleAsyncInsertions_def EventQueue_new_def Event_new_def flags_noneSet_def schedule_def guard_def upd_event_def eq_insert_def
      heap_insert_def insertBefore_def scheduled_def initialized_def flags_isSet_def flags_set_def flag_defs setWhen_def
      demo_queue_def demo_event_def)

lemma eq_reach_calls:
  "eq_reach timely script q \<Longrightarrow> run_calls cs q = ret q' \<Longrightarrow> eq_reach timely script q'"
  by (induction cs q rule: run_calls.induct) (auto simp: obind_eq_ret intro: eq_reach.call)

lemma demo_reach: "eq_reach timely script demo_queue"
  by (rule eq_reach_calls [OF eq_reach.start demo_calls]) simp

lemma demo_rep: "eq_rep demo_queue [[7]]"
  by (auto simp: eq_rep_def demo_queue_def bins_def bins_sorted_def uniform_def scheduled_on_def demo_event_def
      initialized_def scheduled_def flags_isSet_def flag_defs)

definition demo_two :: EventQueue where
  "demo_two = demo_queue\<lparr>events := (events demo_queue)(3 \<mapsto> demo_event\<lparr>ev_flags := 0x7a40, ev_queue := None\<rparr>)\<rparr>"

definition demo_after :: EventQueue where
  "demo_after = demo_queue\<lparr>events := [7 \<mapsto> demo_event\<lparr>ev_flags := 0x7a40\<rparr>], eq_head := None, eq_curTick := 5\<rparr>"

lemma demo_two_rep: "eq_rep demo_two [[7]]"
proof -
  have "eq_rep_but 3 demo_queue [[7]]"
    by (rule eq_rep_but_out [OF demo_rep]) (simp add: scheduled_on_def demo_queue_def)
  then have "eq_rep_but 3 demo_two [[7]]" unfolding demo_two_def by (rule eq_rep_but_upd)
  then show ?thesis by (rule eq_rep_but_in) (simp add: scheduled_on_def demo_two_def)
qed

lemma demo_service: "serviceOne (handler (\<lambda>_ _. [])) demo_queue = ret (None, demo_after)"
  by (simp add: serviceOne_def demo_queue_def demo_event_def upd_event_def squashed_def flags_isSet_def flags_clear_def
      flag_defs handler_def setCurTick_def isExitEvent_def release_def demo_after_def)

text \<open>
  An event restored from a checkpoint in which it was scheduled and squashed is put into the queue, but its
  queue pointer is not set: it can never be descheduled.
\<close>

lemma restored_squashed_stuck:
  "obind (restore_event 7 \<lparr>cp_when = 5, cp_priority = 0, cp_flags = 0x7a43\<rparr>
      (EventQueue_new 0 [7 \<mapsto> demo_event\<lparr>ev_flags := 0x7a40, ev_queue := None\<rparr>])) (deschedule False 0 7)
    = fail AssertFailed"
  by (simp add: restore_event_def EventQueue_new_def ev_unserialize_def demo_event_def scheduled_def initialized_def
      flags_isSet_def flags_set_def flag_defs checkpointReschedule_def eq_insert_def heap_insert_def insertBefore_def
      deschedule_def eq_remove_def heap_remove_def)

subsection \<open>Properties\<close>

text \<open>
  C3 in every state a queue can reach from its construction by the calls of its own and of other threads in
  any mode (creation, schedule, deschedule, reschedule, squash, the merge of the waiting events), by restoring
  events from checkpoints (but those of events both scheduled and squashed), by setting its clock and by
  servicing with handlers that make such calls, the pointers form a list of bins with the pending events in
  non-decreasing order of time and priority, no event twice, and an event is in the queue or waiting to be
  merged exactly when it is marked scheduled on it. When moreover the clock was never moved past a scheduled
  event (service does so only to an event still waiting to be merged, which the documentation of the queue
  forbids), no scheduled event lies in the past.
\<close>

theorem eventq_always_ordered:
  assumes "eq_reach timely script q"
  shows "\<exists>bs. eq_rep q bs \<and> sorted (map (hkey (events q)) (concat bs)) \<and> (timely \<longrightarrow> eq_future q)"
proof -
  obtain bs where "eq_rep q bs" using eq_reach_rep [OF assms] by blast
  moreover from eq_repD(1) [OF this] have "sorted (map (hkey (events q)) (concat bs))"
    by (simp add: bins_sorted_flat bins_def)
  ultimately show ?thesis using eq_reach_rep [OF assms] by blast
qed

theorem eventq_always_ordered_witness:
  "\<exists>bs. eq_rep demo_queue bs \<and> sorted (map (hkey (events demo_queue)) (concat bs)) \<and> eq_future demo_queue"
  using eventq_always_ordered [OF demo_reach [of True "\<lambda>_ _. []"]] by simp

text \<open>
  C22 scheduling an event that exists, is initialised and not scheduled, at a time that is not in the past,
  always returns. On the thread of the queue (or outside parallel mode, and not as a global event) it is an
  ordered insertion into the list of pending events: the event is placed after every event with a smaller key
  and before every other one, so that among events of one time and priority the last one scheduled is first;
  descheduling it again always returns and restores the list. In parallel mode, from another thread or as a
  global event, the list stays as it is and the event is the last of those waiting to be merged; descheduling
  it before the merge fails, by the assertion on the current queue or by the panic of \<open>remove\<close>.
\<close>

theorem schedule_deschedule:
  assumes "eq_rep q bs" and "events q a = Some ev" and "\<not> scheduled ev" and "initialized ev"
    and "eq_curTick q \<le> t"
  shows "\<exists>q1 bs1. schedule par cur a t global q = ret q1 \<and> eq_rep q1 bs1 \<and>
    (if par \<and> (eq_id q \<noteq> cur \<or> global)
     then concat bs1 = concat bs \<and> async_queue q1 = async_queue q @ [a] \<and>
       deschedule par cur a q1 = fail (if eq_id q \<noteq> cur then AssertFailed else PanicError)
     else async_queue q1 = async_queue q \<and> hkey (events q1) a = (unat t, sint (ev_priority ev)) \<and>
       concat bs1 = takeWhile (\<lambda>x. hkey (events q1) x < hkey (events q1) a) (concat bs) @
         a # dropWhile (\<lambda>x. hkey (events q1) x < hkey (events q1) a) (concat bs) \<and>
       (\<exists>q2 bs2. deschedule par cur a q1 = ret q2 \<and> eq_rep q2 bs2 \<and> concat bs2 = concat bs \<and>
         async_queue q2 = async_queue q))"
proof (cases "par \<and> (eq_id q \<noteq> cur \<or> global)")
  case True
  then obtain q1 where "schedule par cur a t global q = ret q1" "eq_rep q1 bs" "async_queue q1 = async_queue q @ [a]"
    "deschedule par cur a q1 = fail (if eq_id q \<noteq> cur then AssertFailed else PanicError)"
    using deschedule_waiting [OF assms] by metis
  with True show ?thesis by (intro exI [of _ q1] exI [of _ bs]) simp
next
  case False
  obtain q1 bs1 where q1: "schedule par cur a t global q = ret q1" and pl: "placed a t ev q (concat bs) q1 bs1"
    by (rule schedule_spec [OF assms False])
  have rep1: "eq_rep q1 bs1" and flat: "concat bs1 = ins_flat (hkey (events q1)) a (concat bs)"
    and key: "hkey (events q1) a = (unat t, sint (ev_priority ev))" and aq: "async_queue q1 = async_queue q"
    and cur: "\<not> par \<or> eq_id q1 = cur"
    using pl False by (auto simp: placed_def hkey_def)
  have mem: "a \<in> set (concat bs1)" unfolding flat ins_flat_set by simp
  obtain q2 where q2: "deschedule par cur a q1 = ret q2" "eq_rep q2 (del_bins a bs1)" "async_queue q2 = async_queue q1"
    by (rule deschedule_spec [OF rep1 mem cur])
  have "a \<notin> set (concat bs)"
    using eq_repD(5) [OF assms(1), of a] unscheduled [OF assms(2,3)] by blast
  then have "concat (del_bins a bs1) = concat bs"
    using concat_del_bins [OF eq_repD(2) [OF rep1], of a] unfolding flat by (simp add: remove1_ins_flat)
  with q1 rep1 key flat aq q2 False show ?thesis by (intro exI [of _ q1] exI [of _ bs1]) (auto simp: ins_flat_def)
qed

theorem schedule_deschedule_witness:
  "(\<exists>q1 bs1 q2 bs2. schedule False 0 3 5 False demo_two = ret q1 \<and> eq_rep q1 bs1 \<and>
    set (concat bs1) = {3, 7} \<and> deschedule False 0 3 q1 = ret q2 \<and> eq_rep q2 bs2 \<and> concat bs2 = [7]) \<and>
   (\<exists>q1 bs1. schedule True 0 3 5 True demo_two = ret q1 \<and> eq_rep q1 bs1 \<and> concat bs1 = [7] \<and>
     async_queue q1 = [3] \<and> deschedule True 0 3 q1 = fail PanicError)"
proof -
  have ev: "events demo_two 3 = Some (demo_event\<lparr>ev_flags := 0x7a40, ev_queue := None\<rparr>)" by (simp add: demo_two_def)
  have fl: "\<not> scheduled (demo_event\<lparr>ev_flags := 0x7a40, ev_queue := None\<rparr>)"
    "initialized (demo_event\<lparr>ev_flags := 0x7a40, ev_queue := None\<rparr>)"
    by (simp_all add: scheduled_def initialized_def flags_isSet_def flag_defs)
  have t: "eq_curTick demo_two \<le> 5" by (simp add: demo_two_def demo_queue_def)
  have st: "eq_id demo_two = 0" "async_queue demo_two = []" by (simp_all add: demo_two_def demo_queue_def)
  note sd = schedule_deschedule [OF demo_two_rep ev fl t]
  from sd [of False 0 False] obtain q1 bs1 q2 bs2 where q: "schedule False 0 3 5 False demo_two = ret q1" "eq_rep q1 bs1"
    "deschedule False 0 3 q1 = ret q2" "eq_rep q2 bs2" "concat bs2 = [7]"
    and flat: "concat bs1 = takeWhile (\<lambda>x. hkey (events q1) x < hkey (events q1) 3) [7] @
      3 # dropWhile (\<lambda>x. hkey (events q1) x < hkey (events q1) 3) [7]" by auto
  have "set (concat bs1) = {3, 7}" unfolding flat by auto
  with q sd [of True 0 True] show ?thesis by (auto simp: st)
qed

text \<open>
  C7 from every reachable state, \<open>serviceOne\<close> takes the head, which no pending event precedes in time
  or priority, and the clock becomes the time of that event, unless it was squashed, whatever calls the handler
  makes. The clock never runs backwards as long as it was not moved past a scheduled event before; without
  that, a merge may have brought in an event of the past (as the documentation of the queue warns), and
  servicing it does turn the clock back.
\<close>

theorem clock_never_backwards:
  assumes "eq_reach timely script q" and "serviceOne (handler script) q = ret (r, q')"
  shows "(timely \<longrightarrow> eq_curTick q \<le> eq_curTick q') \<and>
    (\<exists>a e. eq_head q = Some a \<and> events q a = Some e \<and>
      eq_curTick q' = (if squashed e then eq_curTick q else ev_when e) \<and>
      (\<forall>x ex. scheduled_on q x \<and> x \<notin> set (async_queue q) \<and> events q x = Some ex \<longrightarrow> \<not> ev_less ex e))"
proof -
  obtain bs where rep: "eq_rep q bs" using eq_reach_rep [OF assms(1)] by blast
  obtain a e where s: "eq_head q = Some a" "events q a = Some e" "a \<in> set (concat bs)"
    "eq_curTick q' = (if squashed e then eq_curTick q else ev_when e)"
    and min: "\<forall>x \<in> set (concat bs). hkey (events q) a \<le> hkey (events q) x"
    using calls.serviceOne_keeps [OF rep assms(2)] by (elim exE conjE) (rule that)
  have "\<not> ev_less ex e" if "scheduled_on q x" "x \<notin> set (async_queue q)" "events q x = Some ex" for x ex
  proof -
    have "x \<in> set (concat bs)" using eq_repD(5) [OF rep, of x] that by blast
    with min that(3) s(2) show ?thesis by (fastforce simp: ev_order hkey_def not_less simp del: set_concat)
  qed
  moreover have "eq_curTick q \<le> eq_curTick q'" if timely
    using eq_reach_rep [OF assms(1)] that s eq_repD(5) [OF rep, of a] by (auto simp: eq_future_def)
  ultimately show ?thesis using s by blast
qed

theorem clock_never_backwards_witness:
  "serviceOne (handler (\<lambda>_ _. [])) demo_queue = ret (None, demo_after) \<and>
   eq_curTick demo_queue \<le> eq_curTick demo_after \<and>
   (\<exists>a e. eq_head demo_queue = Some a \<and> events demo_queue a = Some e \<and> eq_curTick demo_after = ev_when e)"
  using clock_never_backwards [OF demo_reach [of True] demo_service] demo_service
  by (auto simp: demo_queue_def)

text \<open>
  C25 the destructor's loop ends: whatever state the queue has reached (by the steps of C3), descheduling the
  head until the queue is empty returns, outside parallel mode or on the thread of the queue, as \<open>deschedule\<close>
  asserts; afterwards only the events still waiting to be merged are marked scheduled.
\<close>

theorem destructor_ends:
  assumes "eq_reach timely script q" and "\<not> par \<or> eq_id q = cur"
  shows "\<exists>q'. EventQueue_delete par cur q = ret q' \<and> eq_empty q' \<and>
    (\<forall>a. scheduled_on q' a \<longleftrightarrow> a \<in> set (async_queue q))"
proof -
  obtain bs where "eq_rep q bs" using eq_reach_rep [OF assms(1)] by blast
  then obtain q' where q': "EventQueue_delete par cur q = ret q'" "eq_rep q' []" "async_queue q' = async_queue q"
    using EventQueue_delete_spec assms(2) by blast
  have "eq_empty q'" using eq_repD(1) [OF q'(2)] by (simp add: eq_empty_def bins_def)
  with q' eq_repD(5) [OF q'(2)] show ?thesis by auto
qed

theorem destructor_ends_witness:
  "\<exists>q'. EventQueue_delete False 0 demo_queue = ret q' \<and> eq_empty q' \<and>
    (\<forall>a. scheduled_on q' a \<longleftrightarrow> a \<in> set (async_queue demo_queue))"
  by (rule destructor_ends [OF demo_reach [of True "\<lambda>_ _. []"]]) simp

text \<open>
  C26 the self check of the queue ends and accepts every queue that can be reached (by the steps of C3), with one exception:
  it starts from time 0 and priority 0, so a queue whose head is due at tick 0 with a negative priority is
  reported as inverted although it is in order.
\<close>

theorem debugVerify_exact:
  assumes "eq_reach timely script q"
  shows "debugVerify q = ret (\<forall>a e. eq_head q = Some a \<and> events q a = Some e \<longrightarrow>
    \<not> (ev_when e = 0 \<and> sint (ev_priority e) < 0))"
proof -
  obtain bs where rep: "eq_rep q bs" using eq_reach_rep [OF assms] by blast
  have "(bs = [] \<or> (0, 0) \<le> hkey (events q) (hd (hd bs))) =
    (\<forall>a e. eq_head q = Some a \<and> events q a = Some e \<longrightarrow> \<not> (ev_when e = 0 \<and> sint (ev_priority e) < 0))"
  proof (cases "eq_head q")
    case None
    then show ?thesis using eq_repD(1) [OF rep] by (cases bs) (auto simp: bins_def dest: chain_head)
  next
    case (Some a)
    obtain b cs where bs: "bs = b # cs" "a = hd b" "b \<noteq> []" by (rule eq_rep_first [OF rep Some])
    then have "a \<in> set (concat bs)" by simp
    then obtain e where "events q a = Some e" by (rule eq_rep_mem [OF rep])
    with Some bs show ?thesis by (auto simp: hkey_def ekey_def less_eq_prod_def unat_gt_0)
  qed
  with debugVerify_spec [OF eq_repD(1) [OF rep]] show ?thesis by simp
qed

theorem debugVerify_exact_witness: "debugVerify demo_queue = ret True"
  using debugVerify_exact [OF demo_reach [of True "\<lambda>_ _. []"]] by (simp add: demo_queue_def demo_event_def)

text \<open>
  C27 an event that was scheduled and not squashed when the checkpoint was written keeps its time and
  priority through \<open>serialize\<close> and \<open>unserialize\<close>, but it comes back with the scheduled flag cleared,
  so that \<open>checkpointReschedule\<close>, which is called next, leaves the queue as it is: the event is not
  put back.
\<close>

theorem checkpoint_not_rescheduled:
  assumes "initialized e" and "scheduled e" and "\<not> squashed e" and "initialized e0" and "\<not> scheduled e0"
  shows "\<exists>e1. ev_unserialize (ev_serialize e) e0 = ret e1 \<and> ev_when e1 = ev_when e \<and>
    sint (ev_priority e1) = sint (ev_priority e) \<and>
    checkpointReschedule a (q\<lparr>events := (events q)(a \<mapsto> e1)\<rparr>) = ret (q\<lparr>events := (events q)(a \<mapsto> e1)\<rparr>)"
proof -
  obtain e1 where "ev_unserialize (ev_serialize e) e0 = ret e1" "ekey e1 = ekey e" "\<not> scheduled e1"
    by (rule unserialize_scheduled [OF assms])
  then show ?thesis by (auto simp: checkpointReschedule_def scheduled_def ekey_def word_unat_eq_iff)
qed

theorem checkpoint_not_rescheduled_witness:
  "\<exists>e1. ev_unserialize (ev_serialize demo_event) (demo_event\<lparr>ev_flags := 0x7a40\<rparr>) = ret e1 \<and> ev_when e1 = 5 \<and>
    checkpointReschedule 7 (EventQueue_new 0 [7 \<mapsto> e1]) = ret (EventQueue_new 0 [7 \<mapsto> e1])"
proof -
  have "initialized (demo_event\<lparr>ev_flags := 0x7a40\<rparr>)" "\<not> scheduled (demo_event\<lparr>ev_flags := 0x7a40\<rparr>)"
    by (simp_all add: initialized_def scheduled_def flags_isSet_def flag_defs)
  from checkpoint_not_rescheduled [OF demo_event_flags(2,1,3) this, of 7 "EventQueue_new 0 Map.empty"]
  show ?thesis by (auto simp: EventQueue_new_def demo_event_def)
qed

end
