(* ===== verification/BranchPred.thy ===== *)
theory BranchPred
  imports SatCounter Bitfield
begin

text \<open>
  The tables of the branch prediction unit (\<open>cpu/pred\<close>): the return address stack, the branch target
  buffer and three direction predictors, the local (two bit), bi-mode and tournament predictors. A program
  counter state is a value of a type variable, since the architecture defines it; \<open>zero\<close> is the state
  made from address 0. A history object that a predictor hands out is passed by value, a null pointer is
  \<open>None\<close>. The lemmas show what each structure stores and what squashing a branch restores. The shift of
  the branch address in the predictors' own indices is taken as for any amount (an amount of 64 or more, which the
  language leaves undefined and no configuration has, gives 0); the target buffer checks its shifts.
\<close>

subsection \<open>Return address stack\<close>

record 'pc ReturnAddrStack =
  addrStack :: "'pc list"
  ras_numEntries :: u32
  usedEntries :: u32
  tos :: u32

definition ras_reset :: "'pc \<Rightarrow> 'pc ReturnAddrStack \<Rightarrow> 'pc ReturnAddrStack" where
  "ras_reset zero r = r\<lparr>usedEntries := 0, tos := 0, addrStack := replicate (unat (ras_numEntries r)) zero\<rparr>"

definition ras_init :: "'pc \<Rightarrow> u32 \<Rightarrow> 'pc ReturnAddrStack" where
  "ras_init zero n = ras_reset zero
     \<lparr>addrStack = replicate (unat n) zero, ras_numEntries = n, usedEntries = 0, tos = 0\<rparr>"

definition ras_top :: "'pc ReturnAddrStack \<Rightarrow> 'pc res" where
  "ras_top r = vget (addrStack r) (unat (tos r))"

definition topIdx :: "'pc ReturnAddrStack \<Rightarrow> u32" where
  "topIdx r = tos r"

definition incrTos :: "'pc ReturnAddrStack \<Rightarrow> 'pc ReturnAddrStack" where
  "incrTos r = (let t = tos r + 1 in r\<lparr>tos := (if t = ras_numEntries r then 0 else t)\<rparr>)"

definition decrTos :: "'pc ReturnAddrStack \<Rightarrow> 'pc ReturnAddrStack" where
  "decrTos r = r\<lparr>tos := (if tos r = 0 then ras_numEntries r - 1 else tos r - 1)\<rparr>"

definition ras_push :: "'pc \<Rightarrow> 'pc ReturnAddrStack \<Rightarrow> 'pc ReturnAddrStack res" where
  "ras_push return_addr r =
     (let r = incrTos r in
      rbind (vset (addrStack r) (unat (tos r)) return_addr) (\<lambda>st.
        let r = r\<lparr>addrStack := st\<rparr> in
        Inr (if usedEntries r \<noteq> ras_numEntries r then r\<lparr>usedEntries := usedEntries r + 1\<rparr> else r)))"

definition ras_pop :: "'pc ReturnAddrStack \<Rightarrow> 'pc ReturnAddrStack" where
  "ras_pop r = decrTos (if usedEntries r > 0 then r\<lparr>usedEntries := usedEntries r - 1\<rparr> else r)"

definition ras_restore :: "u32 \<Rightarrow> 'pc \<Rightarrow> 'pc ReturnAddrStack \<Rightarrow> 'pc ReturnAddrStack res" where
  "ras_restore top_entry_idx restored r =
     (let r = r\<lparr>tos := top_entry_idx\<rparr> in
      rbind (vset (addrStack r) (unat (tos r)) restored) (\<lambda>st. Inr (r\<lparr>addrStack := st\<rparr>)))"

definition ras_empty :: "'pc ReturnAddrStack \<Rightarrow> bool" where
  "ras_empty r \<longleftrightarrow> usedEntries r = 0"

definition ras_full :: "'pc ReturnAddrStack \<Rightarrow> bool" where
  "ras_full r \<longleftrightarrow> usedEntries r = ras_numEntries r"

subsection \<open>Branch target buffer\<close>

record 'pc BTBEntry =
  btb_tag :: Addr
  btb_target :: 'pc
  btb_tid :: "nat option"   \<comment> \<open>\<open>None\<close>: never written\<close>
  btb_valid :: bool

record 'pc DefaultBTB =
  btb :: "'pc BTBEntry list"
  btb_numEntries :: u32
  idxMask :: u32
  tagBits :: u32
  tagMask :: u32
  btb_instShiftAmt :: u32
  tagShiftAmt :: u32
  log2NumThreads :: u32

definition BTBEntry_new :: "'pc \<Rightarrow> 'pc BTBEntry" where
  "BTBEntry_new zero = \<lparr>btb_tag = 0, btb_target = zero, btb_tid = None, btb_valid = False\<rparr>"

definition btb_reset :: "'pc DefaultBTB \<Rightarrow> 'pc DefaultBTB" where
  "btb_reset b = b\<lparr>btb := map (\<lambda>e. e\<lparr>btb_valid := False\<rparr>) (btb b)\<rparr>"

definition DefaultBTB_new :: "'pc \<Rightarrow> u32 \<Rightarrow> u32 \<Rightarrow> u32 \<Rightarrow> u32 \<Rightarrow> 'pc DefaultBTB res" where
  "DefaultBTB_new zero n tb shift threads =
     rbind (floorLog2 (ucast threads)) (\<lambda>lt.
       if \<not> isPowerOf2 (ucast n) then Inl FatalError
       else if tb \<ge> 31 then Inl UndefinedShift
       else rbind (floorLog2 (ucast n)) (\<lambda>ln.
         Inr \<lparr>btb = replicate (unat n) (BTBEntry_new zero), btb_numEntries = n, idxMask = n - 1,
              tagBits = tb, tagMask = push_bit (unat tb) 1 - 1, btb_instShiftAmt = shift,
              tagShiftAmt = shift + of_int ln, log2NumThreads = of_int lt\<rparr>))"

definition btb_getIndex :: "'pc DefaultBTB \<Rightarrow> Addr \<Rightarrow> nat \<Rightarrow> u32 res" where
  "btb_getIndex b instPC tid =
     (let k = unat (tagShiftAmt b - btb_instShiftAmt b - log2NumThreads b) in
      if \<not> (unat (btb_instShiftAmt b) < 64 \<and> k < 32 \<and> tid * 2 ^ k < 2 ^ 31) then Inl UndefinedShift
      else Inr (ucast ((drop_bit (unat (btb_instShiftAmt b)) instPC XOR of_nat (tid * 2 ^ k)) AND ucast (idxMask b))))"

definition btb_getTag :: "'pc DefaultBTB \<Rightarrow> Addr \<Rightarrow> Addr res" where
  "btb_getTag b instPC =
     (if \<not> unat (tagShiftAmt b) < 64 then Inl UndefinedShift
      else Inr (drop_bit (unat (tagShiftAmt b)) instPC AND ucast (tagMask b)))"

text \<open>The entry of an address and whether it belongs to the address, shared by \<open>valid\<close> and \<open>lookup\<close>.\<close>

definition btb_probe :: "'pc DefaultBTB \<Rightarrow> Addr \<Rightarrow> nat \<Rightarrow> (bool \<times> 'pc BTBEntry) res" where
  "btb_probe b instPC tid =
     rbind (btb_getIndex b instPC tid) (\<lambda>i.
     rbind (btb_getTag b instPC) (\<lambda>tag.
       if \<not> i < btb_numEntries b then Inl AssertFailed
       else rbind (vget (btb b) (unat i)) (\<lambda>e.
         Inr (btb_valid e \<and> tag = btb_tag e \<and> btb_tid e = Some tid, e))))"

definition BTB_valid :: "'pc DefaultBTB \<Rightarrow> Addr \<Rightarrow> nat \<Rightarrow> bool res" where
  "BTB_valid b instPC tid = rbind (btb_probe b instPC tid) (\<lambda>(hit, e). Inr hit)"

definition BTB_lookup :: "'pc \<Rightarrow> 'pc DefaultBTB \<Rightarrow> Addr \<Rightarrow> nat \<Rightarrow> 'pc res" where
  "BTB_lookup zero b instPC tid =
     rbind (btb_probe b instPC tid) (\<lambda>(hit, e). Inr (if hit then btb_target e else zero))"

definition BTB_update :: "Addr \<Rightarrow> 'pc \<Rightarrow> nat \<Rightarrow> 'pc DefaultBTB \<Rightarrow> 'pc DefaultBTB res" where
  "BTB_update instPC target tid b =
     rbind (btb_getIndex b instPC tid) (\<lambda>i.
       if \<not> i < btb_numEntries b then Inl AssertFailed
       else rbind (btb_getTag b instPC) (\<lambda>tag.
         rbind (vset (btb b) (unat i) \<lparr>btb_tag = tag, btb_target = target, btb_tid = Some tid, btb_valid = True\<rparr>) (\<lambda>es.
           Inr (b\<lparr>btb := es\<rparr>))))"

subsection \<open>Local predictor\<close>

record LocalBP =
  loc_localPredictorSize :: u32
  loc_localCtrBits :: u32
  localPredictorSets :: u32
  loc_localCtrs :: "SatCounter list"
  indexMask :: u32
  loc_instShiftAmt :: u32

definition LocalBP_new :: "u32 \<Rightarrow> u32 \<Rightarrow> u32 \<Rightarrow> LocalBP res" where
  "LocalBP_new sz bits shift =
     (if bits = 0 then Inl DivByZero
      else let sets = sz div bits in
        rbind (SatCounter_new (unat bits) 0) (\<lambda>c.
          if \<not> isPowerOf2 (ucast sz) then Inl FatalError
          else if \<not> isPowerOf2 (ucast sets) then Inl FatalError
          else Inr \<lparr>loc_localPredictorSize = sz, loc_localCtrBits = bits, localPredictorSets = sets,
                    loc_localCtrs = replicate (unat sets) c, indexMask = sets - 1, loc_instShiftAmt = shift\<rparr>))"

definition loc_getPrediction :: "LocalBP \<Rightarrow> u8 \<Rightarrow> bool" where
  "loc_getPrediction p count \<longleftrightarrow> drop_bit (unat (loc_localCtrBits p - 1)) count \<noteq> 0"

definition getLocalIndex :: "LocalBP \<Rightarrow> Addr \<Rightarrow> u32" where
  "getLocalIndex p branch_addr =
     ucast (drop_bit (unat (loc_instShiftAmt p)) branch_addr AND ucast (indexMask p))"

definition loc_lookup :: "LocalBP \<Rightarrow> nat \<Rightarrow> Addr \<Rightarrow> (bool \<times> unit option \<times> LocalBP) res" where
  "loc_lookup p tid branch_addr =
     rbind (vget (loc_localCtrs p) (unat (getLocalIndex p branch_addr))) (\<lambda>c.
       Inr (loc_getPrediction p (sat_read c), None, p))"

definition loc_update :: "LocalBP \<Rightarrow> nat \<Rightarrow> Addr \<Rightarrow> bool \<Rightarrow> unit option \<Rightarrow> bool \<Rightarrow> LocalBP res" where
  "loc_update p tid branch_addr taken h squashed =
     (if h \<noteq> None then Inl AssertFailed
      else if squashed then Inr p
      else let i = unat (getLocalIndex p branch_addr) in
        rbind (vget (loc_localCtrs p) i) (\<lambda>c.
        rbind (vset (loc_localCtrs p) i (if taken then sat_inc c else sat_dec c)) (\<lambda>cs.
          Inr (p\<lparr>loc_localCtrs := cs\<rparr>))))"

definition loc_uncondBranch :: "LocalBP \<Rightarrow> nat \<Rightarrow> Addr \<Rightarrow> (unit option \<times> LocalBP) res" where
  "loc_uncondBranch p tid pc = Inr (None, p)"

definition loc_btbUpdate :: "LocalBP \<Rightarrow> nat \<Rightarrow> Addr \<Rightarrow> unit option \<Rightarrow> (unit option \<times> LocalBP) res" where
  "loc_btbUpdate p tid branch_addr h = Inr (h, p)"

definition loc_squash :: "LocalBP \<Rightarrow> nat \<Rightarrow> unit option \<Rightarrow> LocalBP res" where
  "loc_squash p tid h = (if h \<noteq> None then Inl AssertFailed else Inr p)"

subsection \<open>Bi-mode predictor\<close>

record BiModeHistory =
  bmh_globalHistoryReg :: u32
  takenUsed :: bool
  takenPred :: bool
  notTakenPred :: bool
  finalPred :: bool

record BiModeBP =
  globalHistoryReg :: "u32 list"
  bm_globalHistoryBits :: u32
  bm_historyRegisterMask :: u32
  bm_choicePredictorSize :: u32
  bm_choiceHistoryMask :: u32
  bm_globalPredictorSize :: u32
  bm_globalHistoryMask :: u32
  choiceCounters :: "SatCounter list"
  takenCounters :: "SatCounter list"
  notTakenCounters :: "SatCounter list"
  bm_choiceThreshold :: u32
  takenThreshold :: u32
  notTakenThreshold :: u32
  bm_instShiftAmt :: u32

text \<open>\<open>(ULL(1) << (bits - 1)) - 1\<close>, stored in an \<open>unsigned\<close>.\<close>

definition threshold :: "u32 \<Rightarrow> u32 res" where
  "threshold bits = (let s = unat (bits - 1) in if \<not> s < 64 then Inl UndefinedShift
     else Inr (ucast ((push_bit s 1 :: u64) - 1)))"

definition BiModeBP_new :: "nat \<Rightarrow> u32 \<Rightarrow> u32 \<Rightarrow> u32 \<Rightarrow> u32 \<Rightarrow> u32 \<Rightarrow> BiModeBP res" where
  "BiModeBP_new threads choiceSize choiceBits globalSize globalBits shift =
     rbind (ceilLog2 (ucast globalSize)) (\<lambda>gb.
     rbind (SatCounter_new (unat choiceBits) 0) (\<lambda>cc.
     rbind (SatCounter_new (unat globalBits) 0) (\<lambda>gc.
       if \<not> isPowerOf2 (ucast choiceSize) then Inl FatalError
       else if \<not> isPowerOf2 (ucast globalSize) then Inl FatalError
       else rbind (threshold choiceBits) (\<lambda>ct. rbind (threshold globalBits) (\<lambda>gt.
         Inr \<lparr>globalHistoryReg = replicate threads 0, bm_globalHistoryBits = of_int gb,
              bm_historyRegisterMask = ucast (mask_bf (nat gb)), bm_choicePredictorSize = choiceSize,
              bm_choiceHistoryMask = choiceSize - 1, bm_globalPredictorSize = globalSize,
              bm_globalHistoryMask = globalSize - 1, choiceCounters = replicate (unat choiceSize) cc,
              takenCounters = replicate (unat globalSize) gc, notTakenCounters = replicate (unat globalSize) gc,
              bm_choiceThreshold = ct, takenThreshold = gt, notTakenThreshold = gt, bm_instShiftAmt = shift\<rparr>)))))"

definition updateGlobalHistReg :: "nat \<Rightarrow> bool \<Rightarrow> BiModeBP \<Rightarrow> BiModeBP res" where
  "updateGlobalHistReg tid taken p =
     rbind (vget (globalHistoryReg p) tid) (\<lambda>g.
     rbind (vset (globalHistoryReg p) tid
        ((if taken then push_bit 1 g OR 1 else push_bit 1 g) AND bm_historyRegisterMask p)) (\<lambda>gs.
       Inr (p\<lparr>globalHistoryReg := gs\<rparr>)))"

definition bm_uncondBranch :: "BiModeBP \<Rightarrow> nat \<Rightarrow> Addr \<Rightarrow> (BiModeHistory option \<times> BiModeBP) res" where
  "bm_uncondBranch p tid pc =
     rbind (vget (globalHistoryReg p) tid) (\<lambda>g.
     rbind (updateGlobalHistReg tid True p) (\<lambda>p.
       Inr (Some \<lparr>bmh_globalHistoryReg = g, takenUsed = True, takenPred = True, notTakenPred = True, finalPred = True\<rparr>, p)))"

definition bm_squash :: "BiModeBP \<Rightarrow> nat \<Rightarrow> BiModeHistory option \<Rightarrow> BiModeBP res" where
  "bm_squash p tid h = (case h of None \<Rightarrow> Inl NullDeref
     | Some h \<Rightarrow> rbind (vset (globalHistoryReg p) tid (bmh_globalHistoryReg h)) (\<lambda>gs. Inr (p\<lparr>globalHistoryReg := gs\<rparr>)))"

definition bm_choiceIdx :: "BiModeBP \<Rightarrow> Addr \<Rightarrow> u32" where
  "bm_choiceIdx p branchAddr = ucast (drop_bit (unat (bm_instShiftAmt p)) branchAddr AND ucast (bm_choiceHistoryMask p))"

definition bm_globalIdx :: "BiModeBP \<Rightarrow> Addr \<Rightarrow> u32 \<Rightarrow> u32" where
  "bm_globalIdx p branchAddr g =
     ucast ((drop_bit (unat (bm_instShiftAmt p)) branchAddr XOR ucast g) AND ucast (bm_globalHistoryMask p))"

definition above :: "SatCounter \<Rightarrow> u32 \<Rightarrow> bool" where
  "above c t \<longleftrightarrow> ucast (sat_read c) > t"

definition bm_lookup :: "BiModeBP \<Rightarrow> nat \<Rightarrow> Addr \<Rightarrow> (bool \<times> BiModeHistory option \<times> BiModeBP) res" where
  "bm_lookup p tid branchAddr =
     rbind (vget (globalHistoryReg p) tid) (\<lambda>g.
     let ci = bm_choiceIdx p branchAddr; gi = bm_globalIdx p branchAddr g in
     if \<not> ci < bm_choicePredictorSize p then Inl AssertFailed
     else if \<not> gi < bm_globalPredictorSize p then Inl AssertFailed
     else
       rbind (vget (choiceCounters p) (unat ci)) (\<lambda>cc.
       rbind (vget (takenCounters p) (unat gi)) (\<lambda>tc.
       rbind (vget (notTakenCounters p) (unat gi)) (\<lambda>nc.
         let choice = above cc (bm_choiceThreshold p);
             taken = above tc (takenThreshold p);
             notTaken = above nc (notTakenThreshold p);
             final = (if choice then taken else notTaken);
             h = \<lparr>bmh_globalHistoryReg = g, takenUsed = choice, takenPred = taken, notTakenPred = notTaken, finalPred = final\<rparr>
         in rbind (updateGlobalHistReg tid final p) (\<lambda>p. Inr (final, Some h, p))))))"

definition bm_btbUpdate :: "BiModeBP \<Rightarrow> nat \<Rightarrow> Addr \<Rightarrow> BiModeHistory option \<Rightarrow> (BiModeHistory option \<times> BiModeBP) res" where
  "bm_btbUpdate p tid branchAddr h =
     rbind (vget (globalHistoryReg p) tid) (\<lambda>g.
     rbind (vset (globalHistoryReg p) tid (g AND (bm_historyRegisterMask p AND NOT 1))) (\<lambda>gs.
       Inr (h, p\<lparr>globalHistoryReg := gs\<rparr>)))"

text \<open>One counter of a table moves towards the outcome.\<close>

definition train :: "bool \<Rightarrow> nat \<Rightarrow> SatCounter list \<Rightarrow> SatCounter list res" where
  "train taken i cs = rbind (vget cs i) (\<lambda>c. vset cs i (if taken then sat_inc c else sat_dec c))"

definition bm_update :: "BiModeBP \<Rightarrow> nat \<Rightarrow> Addr \<Rightarrow> bool \<Rightarrow> BiModeHistory option \<Rightarrow> bool \<Rightarrow> BiModeBP res" where
  "bm_update p tid branchAddr taken h squashed = (case h of None \<Rightarrow> Inl AssertFailed
     | Some h \<Rightarrow>
       if squashed then
         rbind (vset (globalHistoryReg p) tid (push_bit 1 (bmh_globalHistoryReg h) OR of_bool taken)) (\<lambda>gs.
           Inr (p\<lparr>globalHistoryReg := gs\<rparr>))
       else
         let ci = bm_choiceIdx p branchAddr; gi = bm_globalIdx p branchAddr (bmh_globalHistoryReg h) in
         if \<not> ci < bm_choicePredictorSize p then Inl AssertFailed
         else if \<not> gi < bm_globalPredictorSize p then Inl AssertFailed
         else
           rbind (if takenUsed h
                  then rbind (train taken (unat gi) (takenCounters p)) (\<lambda>cs. Inr (p\<lparr>takenCounters := cs\<rparr>))
                  else rbind (train taken (unat gi) (notTakenCounters p)) (\<lambda>cs. Inr (p\<lparr>notTakenCounters := cs\<rparr>))) (\<lambda>p.
           if finalPred h = taken \<and> finalPred h \<noteq> takenUsed h then Inr p
           else rbind (train taken (unat ci) (choiceCounters p)) (\<lambda>cs. Inr (p\<lparr>choiceCounters := cs\<rparr>))))"

subsection \<open>Tournament predictor\<close>

record TournamentHistory =
  th_globalHistory :: u32
  localHistoryIdx :: u32
  localHistory :: u32
  localPredTaken :: bool
  globalPredTaken :: bool
  globalUsed :: bool

definition invalidPredictorIndex :: u32 where
  "invalidPredictorIndex = - 1"

record TournamentBP =
  localPredictorSize :: u32
  localPredictorMask :: u32
  tn_localCtrs :: "SatCounter list"
  localHistoryTable :: "u32 list"
  localHistoryTableSize :: u32
  localHistoryBits :: u32
  globalCtrs :: "SatCounter list"
  globalHistory :: "u32 list"
  tn_globalHistoryBits :: u32
  globalHistoryMask :: u32
  choiceHistoryMask :: u32
  historyRegisterMask :: u32
  choiceCtrs :: "SatCounter list"
  localThreshold :: u32
  globalThreshold :: u32
  choiceThreshold :: u32
  tn_instShiftAmt :: u32

definition TournamentBP_new ::
    "nat \<Rightarrow> u32 \<Rightarrow> u32 \<Rightarrow> u32 \<Rightarrow> u32 \<Rightarrow> u32 \<Rightarrow> u32 \<Rightarrow> u32 \<Rightarrow> u32 \<Rightarrow> TournamentBP res" where
  "TournamentBP_new threads localSize localBits histSize globalSize globalBits choiceSize choiceBits shift =
     rbind (SatCounter_new (unat localBits) 0) (\<lambda>lc.
     rbind (ceilLog2 (ucast localSize)) (\<lambda>lb.
     rbind (SatCounter_new (unat globalBits) 0) (\<lambda>gc.
     rbind (ceilLog2 (ucast globalSize)) (\<lambda>gb.
     rbind (ceilLog2 (ucast choiceSize)) (\<lambda>cb.
     rbind (SatCounter_new (unat choiceBits) 0) (\<lambda>cc.
       let hb = (if gb > cb then gb else cb);
           hm = (ucast (mask_bf (nat hb)) :: u32);
           gm = globalSize - 1;
           cm = choiceSize - 1
       in
       if \<not> isPowerOf2 (ucast localSize) then Inl FatalError
       else if \<not> isPowerOf2 (ucast globalSize) then Inl FatalError
       else if \<not> isPowerOf2 (ucast histSize) then Inl FatalError
       else if \<not> isPowerOf2 (ucast choiceSize) then Inl FatalError
       else if gm > hm then Inl FatalError
       else if cm > hm then Inl FatalError
       else
         rbind (threshold localBits) (\<lambda>lt. rbind (threshold globalBits) (\<lambda>gt. rbind (threshold choiceBits) (\<lambda>ct.
           Inr \<lparr>localPredictorSize = localSize, localPredictorMask = ucast (mask_bf (nat lb)),
                tn_localCtrs = replicate (unat localSize) lc, localHistoryTable = replicate (unat histSize) 0,
                localHistoryTableSize = histSize, localHistoryBits = of_int lb,
                globalCtrs = replicate (unat globalSize) gc, globalHistory = replicate threads 0,
                tn_globalHistoryBits = of_int hb, globalHistoryMask = gm, choiceHistoryMask = cm,
                historyRegisterMask = hm, choiceCtrs = replicate (unat choiceSize) cc,
                localThreshold = lt, globalThreshold = gt, choiceThreshold = ct, tn_instShiftAmt = shift\<rparr>)))))))))"

definition calcLocHistIdx :: "TournamentBP \<Rightarrow> Addr \<Rightarrow> u32" where
  "calcLocHistIdx p branch_addr =
     ucast (drop_bit (unat (tn_instShiftAmt p)) branch_addr AND ucast (localHistoryTableSize p - 1))"

definition updateGlobalHist :: "bool \<Rightarrow> nat \<Rightarrow> TournamentBP \<Rightarrow> TournamentBP res" where
  "updateGlobalHist taken tid p =
     rbind (vget (globalHistory p) tid) (\<lambda>g.
     rbind (vset (globalHistory p) tid ((if taken then push_bit 1 g OR 1 else push_bit 1 g) AND historyRegisterMask p)) (\<lambda>gs.
       Inr (p\<lparr>globalHistory := gs\<rparr>)))"

definition updateLocalHist :: "bool \<Rightarrow> u32 \<Rightarrow> TournamentBP \<Rightarrow> TournamentBP res" where
  "updateLocalHist taken i p =
     rbind (vget (localHistoryTable p) (unat i)) (\<lambda>l.
     rbind (vset (localHistoryTable p) (unat i) (if taken then push_bit 1 l OR 1 else push_bit 1 l)) (\<lambda>ls.
       Inr (p\<lparr>localHistoryTable := ls\<rparr>)))"

definition tn_btbUpdate :: "TournamentBP \<Rightarrow> nat \<Rightarrow> Addr \<Rightarrow> TournamentHistory option \<Rightarrow>
    (TournamentHistory option \<times> TournamentBP) res" where
  "tn_btbUpdate p tid branch_addr h =
     (let i = unat (calcLocHistIdx p branch_addr) in
      rbind (vget (globalHistory p) tid) (\<lambda>g.
      rbind (vset (globalHistory p) tid (g AND (historyRegisterMask p AND NOT 1))) (\<lambda>gs.
      rbind (vget (localHistoryTable p) i) (\<lambda>l.
      rbind (vset (localHistoryTable p) i (l AND (localPredictorMask p AND NOT 1))) (\<lambda>ls.
        Inr (h, p\<lparr>globalHistory := gs, localHistoryTable := ls\<rparr>))))))"

definition tn_lookup :: "TournamentBP \<Rightarrow> nat \<Rightarrow> Addr \<Rightarrow> (bool \<times> TournamentHistory option \<times> TournamentBP) res" where
  "tn_lookup p tid branch_addr =
     (let li = calcLocHistIdx p branch_addr in
      rbind (vget (localHistoryTable p) (unat li)) (\<lambda>l.
      let lp = l AND localPredictorMask p in
      rbind (vget (tn_localCtrs p) (unat lp)) (\<lambda>lc.
      rbind (vget (globalHistory p) tid) (\<lambda>g.
      rbind (vget (globalCtrs p) (unat (g AND globalHistoryMask p))) (\<lambda>gc.
      rbind (vget (choiceCtrs p) (unat (g AND choiceHistoryMask p))) (\<lambda>cc.
        let lpred = above lc (localThreshold p);
            gpred = above gc (globalThreshold p);
            choice = above cc (choiceThreshold p);
            h = \<lparr>th_globalHistory = g, localHistoryIdx = li, localHistory = lp,
                 localPredTaken = lpred, globalPredTaken = gpred, globalUsed = choice\<rparr>;
            taken = (if choice then gpred else lpred)
        in
        if \<not> li < localHistoryTableSize p then Inl AssertFailed
        else rbind (updateGlobalHist taken tid p) (\<lambda>p. rbind (updateLocalHist taken li p) (\<lambda>p.
          Inr (taken, Some h, p)))))))))"

definition tn_uncondBranch :: "TournamentBP \<Rightarrow> nat \<Rightarrow> Addr \<Rightarrow> (TournamentHistory option \<times> TournamentBP) res" where
  "tn_uncondBranch p tid pc =
     rbind (vget (globalHistory p) tid) (\<lambda>g.
     rbind (updateGlobalHist True tid p) (\<lambda>p.
       Inr (Some \<lparr>th_globalHistory = g, localHistoryIdx = invalidPredictorIndex, localHistory = invalidPredictorIndex,
                  localPredTaken = True, globalPredTaken = True, globalUsed = True\<rparr>, p)))"

definition tn_update :: "TournamentBP \<Rightarrow> nat \<Rightarrow> Addr \<Rightarrow> bool \<Rightarrow> TournamentHistory option \<Rightarrow> bool \<Rightarrow> TournamentBP res" where
  "tn_update p tid branch_addr taken h squashed = (case h of None \<Rightarrow> Inl AssertFailed
     | Some h \<Rightarrow>
       let li = calcLocHistIdx p branch_addr; valid = (localHistory h \<noteq> invalidPredictorIndex) in
       if \<not> li < localHistoryTableSize p then Inl AssertFailed
       else if squashed then
         rbind (vset (globalHistory p) tid ((push_bit 1 (th_globalHistory h) OR of_bool taken) AND historyRegisterMask p)) (\<lambda>gs.
         let p = p\<lparr>globalHistory := gs\<rparr> in
         if valid then
           rbind (vset (localHistoryTable p) (unat li) (push_bit 1 (localHistory h) OR of_bool taken)) (\<lambda>ls.
             Inr (p\<lparr>localHistoryTable := ls\<rparr>))
         else Inr p)
       else
         let lp = localHistory h AND localPredictorMask p in
         if \<not> lp < localPredictorSize p then Inl AssertFailed
         else
           rbind (if localPredTaken h \<noteq> globalPredTaken h \<and> valid then
                    let ci = unat (th_globalHistory h AND choiceHistoryMask p) in
                    if localPredTaken h = taken
                    then rbind (train False ci (choiceCtrs p)) (\<lambda>cs. Inr (p\<lparr>choiceCtrs := cs\<rparr>))
                    else if globalPredTaken h = taken
                    then rbind (train True ci (choiceCtrs p)) (\<lambda>cs. Inr (p\<lparr>choiceCtrs := cs\<rparr>))
                    else Inr p
                  else Inr p) (\<lambda>p.
           rbind (train taken (unat (th_globalHistory h AND globalHistoryMask p)) (globalCtrs p)) (\<lambda>cs.
           let p = p\<lparr>globalCtrs := cs\<rparr> in
           if valid then rbind (train taken (unat lp) (tn_localCtrs p)) (\<lambda>cs. Inr (p\<lparr>tn_localCtrs := cs\<rparr>))
           else Inr p)))"

definition tn_squash :: "TournamentBP \<Rightarrow> nat \<Rightarrow> TournamentHistory option \<Rightarrow> TournamentBP res" where
  "tn_squash p tid h = (case h of None \<Rightarrow> Inl NullDeref
     | Some h \<Rightarrow>
       rbind (vset (globalHistory p) tid (th_globalHistory h)) (\<lambda>gs.
       let p = p\<lparr>globalHistory := gs\<rparr> in
       if localHistoryIdx h \<noteq> invalidPredictorIndex
       then rbind (vset (localHistoryTable p) (unat (localHistoryIdx h)) (localHistory h)) (\<lambda>ls.
              Inr (p\<lparr>localHistoryTable := ls\<rparr>))
       else Inr p))"

end
