(* ===== verification/BPredUnit.thy ===== *)
theory BPredUnit
  imports BranchPred
begin

text \<open>
  The branch prediction unit (\<open>cpu/pred/bpred_unit.cc\<close>): prediction with the return address stack, the
  target buffer and the indirect predictor, the history of predictions in flight, commit and the two forms
  of squash. The direction predictor and the indirect predictor are tables of operations, as their abstract
  classes declare them; what the architecture defines (program counter states) is a parameter.
  The lemmas say what one prediction does to the parts that a squash has to restore.
\<close>

subsection \<open>Interfaces\<close>

text \<open>
  A direction predictor hands out history objects by pointer; here an operation that is given a history returns
  the contents the object has afterwards. The instruction and the corrected target that \<open>update\<close> is also
  given are left out, since none of the modelled predictors looks at them.
\<close>

record StaticInst =
  isUncondCtrl :: bool
  isReturn :: bool
  isCall :: bool
  isDirectCtrl :: bool

record ('p, 'h) DirPredictor =
  dp_lookup :: "'p \<Rightarrow> nat \<Rightarrow> Addr \<Rightarrow> (bool \<times> 'h \<times> 'p) res"
  dp_uncondBranch :: "'p \<Rightarrow> nat \<Rightarrow> Addr \<Rightarrow> ('h \<times> 'p) res"
  dp_btbUpdate :: "'p \<Rightarrow> nat \<Rightarrow> Addr \<Rightarrow> 'h \<Rightarrow> ('h \<times> 'p) res"
  dp_update :: "'p \<Rightarrow> nat \<Rightarrow> Addr \<Rightarrow> bool \<Rightarrow> 'h \<Rightarrow> bool \<Rightarrow> 'p res"
  dp_squash :: "'p \<Rightarrow> nat \<Rightarrow> 'h \<Rightarrow> 'p res"

record ('i, 'ih, 'pc) IndirectPredictor =
  ip_lookup :: "'i \<Rightarrow> Addr \<Rightarrow> 'pc \<Rightarrow> nat \<Rightarrow> bool \<times> 'pc \<times> 'i"
  ip_recordIndirect :: "'i \<Rightarrow> Addr \<Rightarrow> Addr \<Rightarrow> u64 \<Rightarrow> nat \<Rightarrow> 'i"
  ip_commit :: "'i \<Rightarrow> u64 \<Rightarrow> nat \<Rightarrow> 'ih \<Rightarrow> 'i"
  ip_squash :: "'i \<Rightarrow> u64 \<Rightarrow> nat \<Rightarrow> 'i"
  ip_recordTarget :: "'i \<Rightarrow> u64 \<Rightarrow> 'ih \<Rightarrow> 'pc \<Rightarrow> nat \<Rightarrow> 'i"
  ip_genIndirectInfo :: "'i \<Rightarrow> nat \<Rightarrow> 'ih \<times> 'i"
  ip_updateDirectionInfo :: "'i \<Rightarrow> nat \<Rightarrow> bool \<Rightarrow> 'i"
  ip_deleteIndirectInfo :: "'i \<Rightarrow> nat \<Rightarrow> 'ih \<Rightarrow> 'i"
  ip_changeDirectionPrediction :: "'i \<Rightarrow> nat \<Rightarrow> 'ih \<Rightarrow> bool \<Rightarrow> 'i"

text \<open>What the unit is built from; \<open>be_ip\<close> is \<open>None\<close> when there is no indirect predictor.\<close>

record ('p, 'h, 'i, 'ih, 'pc) BPEnv =
  be_dp :: "('p, 'h) DirPredictor"
  be_ip :: "('i, 'ih, 'pc) IndirectPredictor option"
  instAddr :: "'pc \<Rightarrow> Addr"
  buildRetPC :: "'pc \<Rightarrow> 'pc \<Rightarrow> 'pc"
  advancePC :: "'pc \<Rightarrow> StaticInst \<Rightarrow> 'pc"
  zeroPC :: 'pc

subsection \<open>State\<close>

record ('h, 'ih, 'pc) PredictorHistory =
  seqNum :: u64
  ph_pc :: Addr
  bpHistory :: 'h
  indirectHistory :: "'ih option"
  RASTarget :: 'pc
  RASIndex :: u32
  ph_tid :: nat
  predTaken :: bool
  usedRAS :: bool
  pushedRAS :: bool
  wasCall :: bool
  wasReturn :: bool
  wasIndirect :: bool
  ph_target :: Addr
  ph_inst :: StaticInst

record BPStats =
  st_lookups :: nat
  st_condPredicted :: nat
  st_condIncorrect :: nat
  st_BTBLookups :: nat
  st_BTBHits :: nat
  st_usedRAS :: nat
  st_RASIncorrect :: nat
  st_indirectLookups :: nat
  st_indirectHits :: nat
  st_indirectMisses :: nat
  st_indirectMispredicted :: nat

record ('p, 'h, 'i, 'ih, 'pc) BPredUnit =
  bp_state :: 'p
  ip_state :: 'i
  predHist :: "('h, 'ih, 'pc) PredictorHistory list list"
  bp_BTB :: "'pc DefaultBTB"
  bp_RAS :: "'pc ReturnAddrStack list"
  bp_stats :: BPStats

definition BPStats_new :: BPStats where
  "BPStats_new = \<lparr>st_lookups = 0, st_condPredicted = 0, st_condIncorrect = 0, st_BTBLookups = 0, st_BTBHits = 0,
     st_usedRAS = 0, st_RASIncorrect = 0, st_indirectLookups = 0, st_indirectHits = 0, st_indirectMisses = 0,
     st_indirectMispredicted = 0\<rparr>"

definition BPredUnit_new :: "'pc \<Rightarrow> nat \<Rightarrow> u32 \<Rightarrow> u32 \<Rightarrow> u32 \<Rightarrow> u32 \<Rightarrow> 'p \<Rightarrow> 'i \<Rightarrow>
    ('p, 'h, 'i, 'ih, 'pc) BPredUnit res" where
  "BPredUnit_new zero threads btbEntries btbTagSize shift rasSize p i =
     rbind (DefaultBTB_new zero btbEntries btbTagSize shift (of_nat threads)) (\<lambda>b.
       Inr \<lparr>bp_state = p, ip_state = i, predHist = replicate threads [], bp_BTB = b,
            bp_RAS = replicate threads (ras_init zero rasSize), bp_stats = BPStats_new\<rparr>)"

definition PredictorHistory_new :: "'pc \<Rightarrow> u64 \<Rightarrow> Addr \<Rightarrow> bool \<Rightarrow> 'h \<Rightarrow> 'ih option \<Rightarrow> nat \<Rightarrow> StaticInst \<Rightarrow>
    ('h, 'ih, 'pc) PredictorHistory" where
  "PredictorHistory_new zero sn instPC pred_taken bp_history indirect_history tid inst =
     \<lparr>seqNum = sn, ph_pc = instPC, bpHistory = bp_history, indirectHistory = indirect_history,
      RASTarget = zero, RASIndex = 0, ph_tid = tid, predTaken = pred_taken, usedRAS = False, pushedRAS = False,
      wasCall = False, wasReturn = False, wasIndirect = False, ph_target = - 1, ph_inst = inst\<rparr>"

definition ph_eq :: "('h, 'ih, 'pc) PredictorHistory \<Rightarrow> ('h, 'ih, 'pc) PredictorHistory \<Rightarrow> bool" where
  "ph_eq x y \<longleftrightarrow> seqNum x = seqNum y"

definition BTBValid :: "('p, 'h, 'i, 'ih, 'pc) BPredUnit \<Rightarrow> Addr \<Rightarrow> bool res" where
  "BTBValid u instPC = BTB_valid (bp_BTB u) instPC 0"

definition BTBLookup :: "'pc \<Rightarrow> ('p, 'h, 'i, 'ih, 'pc) BPredUnit \<Rightarrow> Addr \<Rightarrow> 'pc res" where
  "BTBLookup zero u instPC = BTB_lookup zero (bp_BTB u) instPC 0"

definition BTBUpdate :: "Addr \<Rightarrow> 'pc \<Rightarrow> ('p, 'h, 'i, 'ih, 'pc) BPredUnit \<Rightarrow> ('p, 'h, 'i, 'ih, 'pc) BPredUnit res" where
  "BTBUpdate instPC target u = rbind (BTB_update instPC target 0 (bp_BTB u)) (\<lambda>b. Inr (u\<lparr>bp_BTB := b\<rparr>))"

definition drainSanityCheck :: "('p, 'h, 'i, 'ih, 'pc) BPredUnit \<Rightarrow> unit res" where
  "drainSanityCheck u = (if list_all (\<lambda>ph. ph = []) (predHist u) then Inr () else Inl AssertFailed)"

subsection \<open>Prediction\<close>

definition set_RAS :: "nat \<Rightarrow> 'pc ReturnAddrStack \<Rightarrow> ('p, 'h, 'i, 'ih, 'pc) BPredUnit \<Rightarrow>
    ('p, 'h, 'i, 'ih, 'pc) BPredUnit res" where
  "set_RAS tid r u = rbind (vset (bp_RAS u) tid r) (\<lambda>rs. Inr (u\<lparr>bp_RAS := rs\<rparr>))"

text \<open>The direction: an unconditional branch is taken, any other asks the direction predictor.\<close>

definition predict_direction where
  "predict_direction env inst pc tid u =
     (if isUncondCtrl inst then
        rbind (dp_uncondBranch (be_dp env) (bp_state u) tid (instAddr env pc)) (\<lambda>(h, p).
          Inr (True, h, u\<lparr>bp_state := p\<rparr>))
      else
        rbind (dp_lookup (be_dp env) (bp_state u) tid (instAddr env pc)) (\<lambda>(taken, h, p).
          Inr (taken, h, u\<lparr>bp_state := p, bp_stats := (bp_stats u)\<lparr>st_condPredicted := st_condPredicted (bp_stats u) + 1\<rparr>\<rparr>)))"

text \<open>A return: the target is the top of the stack, which is remembered and popped.\<close>

definition predict_return where
  "predict_return env pc tid rec u =
     rbind (vget (bp_RAS u) tid) (\<lambda>r.
     rbind (ras_top r) (\<lambda>rasTop.
     rbind (set_RAS tid (ras_pop r) u) (\<lambda>u.
       Inr (True, buildRetPC env pc rasTop,
            rec\<lparr>wasReturn := True, usedRAS := True, RASIndex := topIdx r, RASTarget := rasTop\<rparr>,
            u\<lparr>bp_stats := (bp_stats u)\<lparr>st_usedRAS := st_usedRAS (bp_stats u) + 1\<rparr>\<rparr>))))"

text \<open>No target is known: a call that may not be taken takes its return address back.\<close>

definition undo_call where
  "undo_call inst tid rec u =
     (if isCall inst \<and> \<not> isUncondCtrl inst then
        rbind (vget (bp_RAS u) tid) (\<lambda>r.
        rbind (set_RAS tid (ras_pop r) u) (\<lambda>u. Inr (rec\<lparr>pushedRAS := False\<rparr>, u)))
      else Inr (rec, u))"

definition predict_btb where
  "predict_btb env inst pc tid rec u =
     rbind (BTB_valid (bp_BTB u) (instAddr env pc) tid) (\<lambda>hit.
     let u = u\<lparr>bp_stats := (bp_stats u)\<lparr>st_BTBLookups := st_BTBLookups (bp_stats u) + 1\<rparr>\<rparr> in
     if hit then
       rbind (BTB_lookup (zeroPC env) (bp_BTB u) (instAddr env pc) tid) (\<lambda>target.
         Inr (True, target, rec, u\<lparr>bp_stats := (bp_stats u)\<lparr>st_BTBHits := st_BTBHits (bp_stats u) + 1\<rparr>\<rparr>))
     else
       let rec = rec\<lparr>predTaken := False\<rparr> in
       rbind (if \<not> isCall inst \<and> \<not> isReturn inst then
                rbind (dp_btbUpdate (be_dp env) (bp_state u) tid (instAddr env pc) (bpHistory rec)) (\<lambda>(h, p).
                  Inr (rec\<lparr>bpHistory := h\<rparr>, u\<lparr>bp_state := p\<rparr>))
              else undo_call inst tid rec u) (\<lambda>(rec, u).
         Inr (False, advancePC env pc inst, rec, u)))"

definition predict_indirect where
  "predict_indirect env ip inst sn pc tid rec u =
     (let rec = rec\<lparr>wasIndirect := True\<rparr>;
          (hit, target, i) = ip_lookup ip (ip_state u) (instAddr env pc) pc tid;
          u = u\<lparr>ip_state := i, bp_stats := (bp_stats u)\<lparr>st_indirectLookups := st_indirectLookups (bp_stats u) + 1\<rparr>\<rparr>
      in
      rbind (if hit then
               Inr (True, target, rec, u\<lparr>bp_stats := (bp_stats u)\<lparr>st_indirectHits := st_indirectHits (bp_stats u) + 1\<rparr>\<rparr>)
             else
               let rec = rec\<lparr>predTaken := False\<rparr>;
                   u = u\<lparr>bp_stats := (bp_stats u)\<lparr>st_indirectMisses := st_indirectMisses (bp_stats u) + 1\<rparr>\<rparr>
               in rbind (if \<not> isCall inst \<and> \<not> isReturn inst then Inr (rec, u) else undo_call inst tid rec u) (\<lambda>(rec, u).
                 Inr (False, advancePC env target inst, rec, u))) (\<lambda>(taken, target, rec, u).
        Inr (taken, target, rec,
             u\<lparr>ip_state := ip_recordIndirect ip (ip_state u) (instAddr env pc) (instAddr env target) sn tid\<rparr>)))"

text \<open>The target of a branch predicted taken.\<close>

definition predict_lookup where
  "predict_lookup env inst sn pc tid rec u =
     (case (if isDirectCtrl inst then None else be_ip env) of
        None \<Rightarrow> predict_btb env inst pc tid rec u
      | Some ip \<Rightarrow> predict_indirect env ip inst sn pc tid rec u)"

definition predict_target where
  "predict_target env inst sn pc tid rec u =
     (if isReturn inst then predict_return env pc tid rec u
      else if isCall inst then
        rbind (vget (bp_RAS u) tid) (\<lambda>r.
        rbind (ras_push pc r) (\<lambda>r.
        rbind (set_RAS tid r u) (\<lambda>u.
          predict_lookup env inst sn pc tid (rec\<lparr>pushedRAS := True, wasCall := True\<rparr>) u)))
      else predict_lookup env inst sn pc tid rec u)"

definition predict where
  "predict env inst sn pc tid u =
     (let u = u\<lparr>bp_stats := (bp_stats u)\<lparr>st_lookups := st_lookups (bp_stats u) + 1\<rparr>\<rparr> in
      rbind (predict_direction env inst pc tid u) (\<lambda>(orig_pred_taken, bp_history, u).
      let (ih, u) = (case be_ip env of None \<Rightarrow> (None, u)
             | Some ip \<Rightarrow> (case ip_genIndirectInfo ip (ip_state u) tid of (ih, i) \<Rightarrow> (Some ih, u\<lparr>ip_state := i\<rparr>)));
          rec = PredictorHistory_new (zeroPC env) sn (instAddr env pc) orig_pred_taken bp_history ih tid inst
      in
      rbind (if orig_pred_taken then predict_target env inst sn pc tid rec u
             else Inr (False, advancePC env pc inst, (if isReturn inst then rec\<lparr>wasReturn := True\<rparr> else rec), u))
        (\<lambda>(pred_taken, target, rec, u).
      let rec = rec\<lparr>ph_target := instAddr env target\<rparr>;
          u = (case be_ip env of None \<Rightarrow> u
             | Some ip \<Rightarrow> u\<lparr>ip_state := ip_updateDirectionInfo ip (ip_state u) tid orig_pred_taken\<rparr>)
      in
      rbind (vget (predHist u) tid) (\<lambda>ph.
      rbind (vset (predHist u) tid (rec # ph)) (\<lambda>phs.
        Inr (pred_taken, target, u\<lparr>predHist := phs\<rparr>))))))"

subsection \<open>Commit\<close>

text \<open>\<open>update\<close>: the loop takes the oldest predictions, which are at the back of the history.\<close>

fun commit_loop where
  "commit_loop env done_sn tid [] u = Inr ([], u)"
| "commit_loop env done_sn tid (r # rs) u =
     (if seqNum r \<le> done_sn then
        rbind (dp_update (be_dp env) (bp_state u) tid (ph_pc r) (predTaken r) (bpHistory r) False) (\<lambda>p.
        let u = u\<lparr>bp_state := p\<rparr>;
            u = (case be_ip env of None \<Rightarrow> u
               | Some ip \<Rightarrow> u\<lparr>ip_state := ip_commit ip (ip_state u) done_sn tid (the (indirectHistory r))\<rparr>)
        in commit_loop env done_sn tid rs u)
      else Inr (r # rs, u))"

definition bp_update where
  "bp_update env done_sn tid u =
     rbind (vget (predHist u) tid) (\<lambda>ph.
     rbind (commit_loop env done_sn tid (rev ph) u) (\<lambda>(rest, u).
     rbind (vset (predHist u) tid (rev rest)) (\<lambda>phs. Inr (u\<lparr>predHist := phs\<rparr>))))"

subsection \<open>Squash\<close>

text \<open>What the return address stack takes back for one prediction.\<close>

definition undo_RAS where
  "undo_RAS tid r u =
     (if usedRAS r then
        rbind (vget (bp_RAS u) tid) (\<lambda>s.
        rbind (ras_restore (RASIndex r) (RASTarget r) s) (\<lambda>s. set_RAS tid s u))
      else if wasCall r \<and> pushedRAS r then
        rbind (vget (bp_RAS u) tid) (\<lambda>s. set_RAS tid (ras_pop s) u)
      else Inr u)"

definition squash_one where
  "squash_one env tid r u =
     rbind (undo_RAS tid r u) (\<lambda>u.
     rbind (dp_squash (be_dp env) (bp_state u) tid (bpHistory r)) (\<lambda>p.
     let u = u\<lparr>bp_state := p\<rparr> in
     Inr (case be_ip env of None \<Rightarrow> u
        | Some ip \<Rightarrow> u\<lparr>ip_state := ip_deleteIndirectInfo ip (ip_state u) tid (the (indirectHistory r))\<rparr>)))"

fun squash_loop where
  "squash_loop env squashed_sn tid [] u = Inr ([], u)"
| "squash_loop env squashed_sn tid (r # rs) u =
     (if seqNum r > squashed_sn
      then rbind (squash_one env tid r u) (squash_loop env squashed_sn tid rs)
      else Inr (r # rs, u))"

definition bp_squash where
  "bp_squash env squashed_sn tid u =
     rbind (vget (predHist u) tid) (\<lambda>ph.
     let u = (case be_ip env of None \<Rightarrow> u
            | Some ip \<Rightarrow> u\<lparr>ip_state := ip_squash ip (ip_state u) squashed_sn tid\<rparr>) in
     rbind (squash_loop env squashed_sn tid ph u) (\<lambda>(rest, u).
     rbind (vset (predHist u) tid rest) (\<lambda>phs. Inr (u\<lparr>predHist := phs\<rparr>))))"

text \<open>After the younger branches are squashed, the mispredicted branch itself is corrected.\<close>

definition correct_taken where
  "correct_taken env corrTarget tid r u =
     rbind (if wasReturn r \<and> \<not> usedRAS r then
              rbind (vget (bp_RAS u) tid) (\<lambda>s. rbind (set_RAS tid (ras_pop s) u) (\<lambda>u. Inr (r\<lparr>usedRAS := True\<rparr>, u)))
            else Inr (r, u)) (\<lambda>(r, u).
     if wasIndirect r then
       let u = u\<lparr>bp_stats := (bp_stats u)\<lparr>st_indirectMispredicted := st_indirectMispredicted (bp_stats u) + 1\<rparr>\<rparr> in
       Inr (r, case be_ip env of None \<Rightarrow> u
          | Some ip \<Rightarrow> u\<lparr>ip_state := ip_recordTarget ip (ip_state u) (seqNum r) (the (indirectHistory r)) corrTarget tid\<rparr>)
     else rbind (BTB_update (ph_pc r) corrTarget tid (bp_BTB u)) (\<lambda>b. Inr (r, u\<lparr>bp_BTB := b\<rparr>)))"

definition correct_not_taken where
  "correct_not_taken tid r u =
     (if usedRAS r then
        rbind (vget (bp_RAS u) tid) (\<lambda>s.
        rbind (ras_restore (RASIndex r) (RASTarget r) s) (\<lambda>s.
        rbind (set_RAS tid s u) (\<lambda>u. Inr (r\<lparr>usedRAS := False\<rparr>, u))))
      else if wasCall r \<and> pushedRAS r then
        rbind (vget (bp_RAS u) tid) (\<lambda>s.
        rbind (set_RAS tid (ras_pop s) u) (\<lambda>u. Inr (r\<lparr>pushedRAS := False\<rparr>, u)))
      else Inr (r, u))"

definition bp_squash_correct where
  "bp_squash_correct env squashed_sn corrTarget actually_taken tid u =
     (let u = u\<lparr>bp_stats := (bp_stats u)\<lparr>st_condIncorrect := st_condIncorrect (bp_stats u) + 1\<rparr>\<rparr> in
      rbind (bp_squash env squashed_sn tid u) (\<lambda>u.
      rbind (vget (predHist u) tid) (\<lambda>ph.
      case ph of [] \<Rightarrow> Inr u
      | r # rs \<Rightarrow>
        if seqNum r \<noteq> squashed_sn then Inl AssertFailed
        else
          let u = (if usedRAS r
                   then u\<lparr>bp_stats := (bp_stats u)\<lparr>st_RASIncorrect := st_RASIncorrect (bp_stats u) + 1\<rparr>\<rparr> else u);
              r = r\<lparr>predTaken := actually_taken, ph_target := instAddr env corrTarget\<rparr>
          in
          rbind (dp_update (be_dp env) (bp_state u) tid (ph_pc r) actually_taken (bpHistory r) True) (\<lambda>p.
          let u = u\<lparr>bp_state := p\<rparr>;
              u = (case be_ip env of None \<Rightarrow> u
                 | Some ip \<Rightarrow> u\<lparr>ip_state := ip_changeDirectionPrediction ip (ip_state u) tid (the (indirectHistory r)) actually_taken\<rparr>)
          in
          rbind (if actually_taken then correct_taken env corrTarget tid r u else correct_not_taken tid r u) (\<lambda>(r, u).
          rbind (vset (predHist u) tid (r # rs)) (\<lambda>phs. Inr (u\<lparr>predHist := phs\<rparr>)))))))"

subsection \<open>The return address stack under speculation\<close>

definition ras_wf :: "'pc ReturnAddrStack \<Rightarrow> bool" where
  "ras_wf r \<longleftrightarrow> length (addrStack r) = unat (ras_numEntries r) \<and> tos r < ras_numEntries r"

text \<open>\<open>ras_agree r r' W\<close>: the same stack pointer and the same entries outside the places \<open>W\<close>.\<close>

definition ras_agree :: "'pc ReturnAddrStack \<Rightarrow> 'pc ReturnAddrStack \<Rightarrow> nat set \<Rightarrow> bool" where
  "ras_agree r r' W \<longleftrightarrow> tos r' = tos r \<and> ras_numEntries r' = ras_numEntries r \<and>
     length (addrStack r') = length (addrStack r) \<and>
     (\<forall>i < length (addrStack r). i \<notin> W \<longrightarrow> addrStack r' ! i = addrStack r ! i)"

abbreviation ras_n :: "'pc ReturnAddrStack \<Rightarrow> nat" where
  "ras_n r \<equiv> unat (ras_numEntries r)"

lemma incrTos_unat: "ras_wf r \<Longrightarrow> unat (tos (incrTos r)) = Suc (unat (tos r)) mod ras_n r"
proof -
  assume "ras_wf r"
  then have lt: "tos r < ras_numEntries r" by (simp add: ras_wf_def)
  then have s: "unat (tos r + 1) = Suc (unat (tos r))" by (rule word_inc_less)
  show ?thesis
  proof (cases "tos r + 1 = ras_numEntries r")
    case True
    then show ?thesis using s by (simp add: incrTos_def)
  next
    case False
    then have "Suc (unat (tos r)) \<noteq> ras_n r" using s by (auto simp: word_unat_eq_iff)
    moreover have "unat (tos r) < ras_n r" using lt by (simp add: word_less_nat_alt)
    ultimately show ?thesis using s False by (simp add: incrTos_def)
  qed
qed

lemma decrTos_unat: "ras_wf r \<Longrightarrow> unat (tos (decrTos r)) = (unat (tos r) + (ras_n r - 1)) mod ras_n r"
proof -
  assume "ras_wf r"
  then have lt: "unat (tos r) < ras_n r" by (simp add: ras_wf_def word_less_nat_alt)
  show ?thesis
  proof (cases "tos r = 0")
    case True
    have "ras_numEntries r \<noteq> 0" using lt by auto
    then show ?thesis using True lt by (simp add: decrTos_def word_dec_pos)
  next
    case False
    then have "unat (tos r) > 0" by (simp add: unat_gt_0)
    then have "unat (tos r) + (ras_n r - 1) = (unat (tos r) - 1) + ras_n r" using lt by simp
    moreover have "(unat (tos r) - 1) mod ras_n r = unat (tos r) - 1" using lt by simp
    ultimately show ?thesis using False by (simp add: decrTos_def word_dec_pos)
  qed
qed

lemma decr_incr: "ras_wf r \<Longrightarrow> tos (decrTos (incrTos r)) = tos r"
proof -
  assume wf: "ras_wf r"
  then have lt: "tos r < ras_numEntries r" by (simp add: ras_wf_def)
  then have "tos r + 1 \<noteq> 0" using word_inc_less [OF lt] by auto
  moreover have "ras_numEntries r - 1 = tos r" if "tos r + 1 = ras_numEntries r" using that by (simp flip: that)
  ultimately show ?thesis by (auto simp: decrTos_def incrTos_def Let_def)
qed

datatype ras_kind = RasNone | RasReturn | RasCall | RasTouch

definition kind_of :: "('h, 'ih, 'pc) PredictorHistory \<Rightarrow> ras_kind" where
  "kind_of r = (if usedRAS r then RasReturn else if wasCall r then (if pushedRAS r then RasCall else RasTouch) else RasNone)"

text \<open>What one prediction does to the stack of its thread.\<close>

definition ras_step :: "('h, 'ih, 'pc) PredictorHistory \<Rightarrow> 'pc ReturnAddrStack \<Rightarrow> 'pc ReturnAddrStack \<Rightarrow> bool" where
  "ras_step r s s' = (case kind_of r of
     RasNone \<Rightarrow> s' = s
   | RasReturn \<Rightarrow> RASIndex r = tos s \<and> unat (tos s) < length (addrStack s) \<and> RASTarget r = addrStack s ! unat (tos s) \<and> s' = ras_pop s
   | RasCall \<Rightarrow> (\<exists>pc. ras_push pc s = Inr s')
   | RasTouch \<Rightarrow> (\<exists>pc s1. ras_push pc s = Inr s1 \<and> s' = ras_pop s1))"

text \<open>How high above its start a run of predictions writes.\<close>

fun rise :: "ras_kind list \<Rightarrow> nat" where
  "rise [] = 0"
| "rise (RasNone # ks) = rise ks"
| "rise (RasReturn # ks) = rise ks - 1"
| "rise (RasCall # ks) = Suc (rise ks)"
| "rise (RasTouch # ks) = max 1 (rise ks)"

definition above_tos :: "'pc ReturnAddrStack \<Rightarrow> nat \<Rightarrow> nat set" where
  "above_tos r k = {(unat (tos r) + j) mod ras_n r |j. 1 \<le> j \<and> j \<le> k}"

lemma ras_pop_fields [simp]:
  "addrStack (ras_pop r) = addrStack r" "ras_numEntries (ras_pop r) = ras_numEntries r" "tos (ras_pop r) = tos (decrTos r)"
  by (simp_all add: ras_pop_def decrTos_def)

lemma incrTos_fields [simp]: "addrStack (incrTos r) = addrStack r" "ras_numEntries (incrTos r) = ras_numEntries r"
  by (simp_all add: incrTos_def Let_def)

lemma ras_push_fields:
  assumes "ras_push pc r = Inr r'"
  shows "addrStack r' = (addrStack r)[unat (tos (incrTos r)) := pc]" "ras_numEntries r' = ras_numEntries r"
    "tos r' = tos (incrTos r)"
  using assms by (auto simp: ras_push_def res_simps Let_def)

lemma ras_wf_pop: "ras_wf r \<Longrightarrow> ras_wf (ras_pop r)"
proof -
  assume wf: "ras_wf r"
  then have "unat (tos r) < ras_n r" by (simp add: ras_wf_def word_less_nat_alt)
  then have "unat (tos (decrTos r)) < ras_n r" using decrTos_unat [OF wf] by simp
  with wf show ?thesis by (simp add: ras_wf_def word_less_nat_alt)
qed

lemma ras_wf_push:
  assumes "ras_wf r" and "ras_push pc r = Inr r'"
  shows "ras_wf r'"
proof -
  have "unat (tos r) < ras_n r" using assms(1) by (simp add: ras_wf_def word_less_nat_alt)
  then have "unat (tos (incrTos r)) < ras_n r" using incrTos_unat [OF assms(1)] by simp
  with assms(1) ras_push_fields [OF assms(2)] show ?thesis by (simp add: ras_wf_def word_less_nat_alt)
qed

lemma ras_wf_step: "ras_wf s \<Longrightarrow> ras_step r s s' \<Longrightarrow> ras_wf s'"
  by (auto simp: ras_step_def split: ras_kind.splits intro: ras_wf_pop ras_wf_push)

lemma decrTos_agree: "ras_agree r r' W \<Longrightarrow> tos (decrTos r') = tos (decrTos r)"
  by (simp add: decrTos_def ras_agree_def)

lemma decrTos_push: "ras_wf r \<Longrightarrow> ras_push pc r = Inr r' \<Longrightarrow> tos (decrTos r') = tos r"
  using decr_incr [of r] ras_push_fields [of pc r r'] by (auto simp: decrTos_def split: if_splits)

text \<open>Undoing one prediction after the younger ones have been undone.\<close>

definition ras_undo :: "('h, 'ih, 'pc) PredictorHistory \<Rightarrow> 'pc ReturnAddrStack \<Rightarrow> 'pc ReturnAddrStack res" where
  "ras_undo r s = (case kind_of r of RasReturn \<Rightarrow> ras_restore (RASIndex r) (RASTarget r) s
     | RasCall \<Rightarrow> Inr (ras_pop s) | _ \<Rightarrow> Inr s)"

lemma ras_undo_step:
  assumes wf: "ras_wf s" and st: "ras_step r s s1" and ag: "ras_agree s1 s1' W"
  shows "\<exists>s'. ras_undo r s1' = Inr s' \<and>
    ras_agree s s' (case kind_of r of RasNone \<Rightarrow> W | RasReturn \<Rightarrow> W - {unat (tos s)}
      | _ \<Rightarrow> insert (unat (tos (incrTos s))) W)"
proof (cases "kind_of r")
  case RasNone
  with st ag show ?thesis by (simp add: ras_undo_def ras_step_def)
next
  case RasReturn
  with st have st': "RASIndex r = tos s" "unat (tos s) < length (addrStack s)" "RASTarget r = addrStack s ! unat (tos s)"
    "s1 = ras_pop s" by (auto simp: ras_step_def)
  with ag have "length (addrStack s1') = length (addrStack s)" by (simp add: ras_agree_def)
  with st' RasReturn show ?thesis using ag
    by (auto simp: ras_undo_def ras_restore_def res_simps ras_agree_def Let_def nth_list_update)
next
  case RasCall
  with st obtain pc where p: "ras_push pc s = Inr s1" by (auto simp: ras_step_def)
  have "tos (decrTos s1') = tos s" using decrTos_agree [OF ag] decrTos_push [OF wf p] by simp
  with RasCall ag ras_push_fields [OF p] show ?thesis by (simp add: ras_undo_def ras_agree_def)
next
  case RasTouch
  with st obtain pc s2 where p: "ras_push pc s = Inr s2" and s1: "s1 = ras_pop s2" by (auto simp: ras_step_def)
  have "tos s1 = tos s" using decrTos_push [OF wf p] s1 by simp
  with RasTouch ag ras_push_fields [OF p] s1 show ?thesis by (simp add: ras_undo_def ras_agree_def)
qed

lemma ras_agree_mono: "ras_agree r r' W \<Longrightarrow> W \<subseteq> V \<Longrightarrow> ras_agree r r' V"
  by (auto simp: ras_agree_def)

lemma above_tos_step:
  assumes wf: "ras_wf s" and st: "ras_step r s s1"
  shows "(case kind_of r of RasNone \<Rightarrow> above_tos s1 (rise ks) | RasReturn \<Rightarrow> above_tos s1 (rise ks) - {unat (tos s)}
      | _ \<Rightarrow> insert (unat (tos (incrTos s))) (above_tos s1 (rise ks))) \<subseteq> above_tos s (rise (kind_of r # ks))"
proof (cases "kind_of r")
  case RasNone
  with st show ?thesis by (simp add: ras_step_def)
next
  case RasReturn
  with st have s1: "s1 = ras_pop s" by (simp add: ras_step_def)
  have lt: "unat (tos s) < ras_n s" using wf by (simp add: ras_wf_def word_less_nat_alt)
  have "x \<in> above_tos s (rise ks - 1)" if x: "x \<in> above_tos s1 (rise ks)" "x \<noteq> unat (tos s)" for x
  proof -
    obtain j where j: "1 \<le> j" "j \<le> rise ks" "x = (unat (tos (decrTos s)) + j) mod ras_n s"
      using x(1) by (auto simp: above_tos_def s1)
    then have xx: "x = (unat (tos s) + (ras_n s - 1) + j) mod ras_n s" using decrTos_unat [OF wf] by (simp add: mod_add_left_eq)
    moreover have "unat (tos s) + (ras_n s - 1) + j = (unat (tos s) + (j - 1)) + ras_n s" using lt j(1) by simp
    ultimately have x': "x = (unat (tos s) + (j - 1)) mod ras_n s" by (simp only: mod_add_self2)
    then have "j - 1 \<noteq> 0" using x(2) lt by (metis add_0_right mod_less)
    with x' j show ?thesis unfolding above_tos_def by (intro CollectI exI [of _ "j - 1"]) auto
  qed
  then show ?thesis using RasReturn by auto
next
  case RasCall
  with st obtain pc where p: "ras_push pc s = Inr s1" by (auto simp: ras_step_def)
  note t = incrTos_unat [OF wf] ras_push_fields [OF p]
  have "x \<in> above_tos s (Suc (rise ks))" if x: "x \<in> above_tos s1 (rise ks)" for x
  proof -
    obtain j where j: "1 \<le> j" "j \<le> rise ks" "x = (unat (tos (incrTos s)) + j) mod ras_n s"
      using x by (auto simp: above_tos_def t)
    then have "x = (unat (tos s) + Suc j) mod ras_n s" using t(1) by (simp add: mod_add_left_eq)
    with j show ?thesis unfolding above_tos_def by (intro CollectI exI [of _ "Suc j"]) auto
  qed
  moreover have "unat (tos (incrTos s)) \<in> above_tos s (Suc (rise ks))"
    unfolding above_tos_def using t(1) by (intro CollectI exI [of _ 1]) auto
  ultimately show ?thesis using RasCall by auto
next
  case RasTouch
  with st obtain pc s2 where p: "ras_push pc s = Inr s2" and s1: "s1 = ras_pop s2" by (auto simp: ras_step_def)
  have "tos s1 = tos s" "ras_numEntries s1 = ras_numEntries s"
    using decrTos_push [OF wf p] s1 ras_push_fields [OF p] by simp_all
  then have "above_tos s1 (rise ks) \<subseteq> above_tos s (max 1 (rise ks))" by (auto simp: above_tos_def)
  moreover have "unat (tos (incrTos s)) \<in> above_tos s (max 1 (rise ks))"
    unfolding above_tos_def using incrTos_unat [OF wf] by (intro CollectI exI [of _ 1]) auto
  ultimately show ?thesis using RasTouch by auto
qed

text \<open>The youngest entries are out of reach of a run that does not rise to the size of the stack.\<close>

lemma mod_young:
  fixes t n d j :: nat
  assumes "d + j < n" and "0 < j"
  shows "(t + (n - d)) mod n \<noteq> (t + j) mod n"
proof
  assume "(t + (n - d)) mod n = (t + j) mod n"
  then have "n dvd (t + (n - d)) - (t + j)" using assms by (intro mod_eq_dvd_iff_nat [THEN iffD1]) auto
  moreover have "0 < (t + (n - d)) - (t + j)" "(t + (n - d)) - (t + j) < n" using assms by auto
  ultimately show False using nat_dvd_not_less by blast
qed

lemma above_tos_young:
  assumes "d < ras_n s - k"
  shows "(unat (tos s) + (ras_n s - d)) mod ras_n s \<notin> above_tos s k"
proof
  assume "(unat (tos s) + (ras_n s - d)) mod ras_n s \<in> above_tos s k"
  then obtain j where j: "1 \<le> j" "j \<le> k" "(unat (tos s) + (ras_n s - d)) mod ras_n s = (unat (tos s) + j) mod ras_n s"
    unfolding above_tos_def by blast
  from mod_young [of d j "ras_n s" "unat (tos s)"] j assms show False by simp
qed

subsection \<open>One prediction\<close>

text \<open>
  What finding a target does: it may take back the push of a call, and it may tell the direction predictor
  that the target buffer missed.
\<close>

definition target_step where
  "target_step env inst pc tid rec u rec' u' \<longleftrightarrow>
     predHist u' = predHist u \<and> bp_BTB u' = bp_BTB u \<and> seqNum rec' = seqNum rec \<and>
     usedRAS rec' = usedRAS rec \<and> wasCall rec' = wasCall rec \<and>
     (bp_RAS u' = bp_RAS u \<and> pushedRAS rec' = pushedRAS rec \<or>
      isCall inst \<and> tid < length (bp_RAS u) \<and> bp_RAS u' = (bp_RAS u)[tid := ras_pop (bp_RAS u ! tid)] \<and> \<not> pushedRAS rec') \<and>
     (bp_state u' = bp_state u \<and> bpHistory rec' = bpHistory rec \<or>
      \<not> isCall inst \<and> \<not> isReturn inst \<and>
      dp_btbUpdate (be_dp env) (bp_state u) tid (instAddr env pc) (bpHistory rec) = Inr (bpHistory rec', bp_state u'))"

lemma undo_call_step:
  "undo_call inst tid rec u = Inr (rec', u') \<Longrightarrow> target_step env inst pc tid rec u rec' u'"
  by (auto simp: undo_call_def target_step_def set_RAS_def res_simps split: if_splits)

lemma target_step_stats:
  "target_step env inst pc tid rec (u\<lparr>bp_stats := st\<rparr>) rec' u' \<longleftrightarrow> target_step env inst pc tid rec u rec' u'"
  "target_step env inst pc tid rec (u\<lparr>ip_state := i\<rparr>) rec' u' \<longleftrightarrow> target_step env inst pc tid rec u rec' u'"
  "target_step env inst pc tid rec u rec' (u'\<lparr>bp_stats := st\<rparr>) \<longleftrightarrow> target_step env inst pc tid rec u rec' u'"
  "target_step env inst pc tid rec u rec' (u'\<lparr>ip_state := i\<rparr>) \<longleftrightarrow> target_step env inst pc tid rec u rec' u'"
  "target_step env inst pc tid (rec\<lparr>predTaken := b\<rparr>) u rec' u' \<longleftrightarrow> target_step env inst pc tid rec u rec' u'"
  "target_step env inst pc tid (rec\<lparr>wasIndirect := b\<rparr>) u rec' u' \<longleftrightarrow> target_step env inst pc tid rec u rec' u'"
  by (simp_all add: target_step_def)

lemma target_step_refl: "target_step env inst pc tid rec u rec u"
  by (simp add: target_step_def)

lemma predict_btb_step:
  assumes "predict_btb env inst pc tid rec u = Inr (taken, target, rec', u')"
  shows "target_step env inst pc tid rec u rec' u'"
proof -
  obtain hit where hit: "BTB_valid (bp_BTB u) (instAddr env pc) tid = Inr hit"
    using assms by (auto simp: predict_btb_def res_simps)
  show ?thesis
  proof (cases "hit \<or> \<not> isCall inst \<and> \<not> isReturn inst")
    case True
    then show ?thesis using assms hit by (cases hit) (auto simp: predict_btb_def res_simps Let_def target_step_def)
  next
    case False
    then obtain st where "undo_call inst tid (rec\<lparr>predTaken := False\<rparr>) (u\<lparr>bp_stats := st\<rparr>) = Inr (rec', u')"
      using assms hit by (auto simp: predict_btb_def res_simps Let_def)
    from undo_call_step [OF this, of env pc] show ?thesis by (simp add: target_step_stats)
  qed
qed

lemma predict_indirect_step:
  assumes "predict_indirect env ip inst sn pc tid rec u = Inr (taken, target, rec', u')"
  shows "target_step env inst pc tid rec u rec' u'"
proof -
  obtain hit t i where l: "ip_lookup ip (ip_state u) (instAddr env pc) pc tid = (hit, t, i)"
    by (cases "ip_lookup ip (ip_state u) (instAddr env pc) pc tid") auto
  show ?thesis
  proof (cases "hit \<or> \<not> isCall inst \<and> \<not> isReturn inst")
    case True
    then show ?thesis using assms l by (cases hit) (auto simp: predict_indirect_def res_simps Let_def target_step_def)
  next
    case False
    then obtain u1 st i' where "undo_call inst tid (rec\<lparr>wasIndirect := True, predTaken := False\<rparr>)
        (u\<lparr>ip_state := i, bp_stats := st\<rparr>) = Inr (rec', u1)" and u': "u' = u1\<lparr>ip_state := i'\<rparr>"
      using assms l by (auto simp: predict_indirect_def res_simps Let_def)
    from undo_call_step [OF this(1), of env pc] show ?thesis unfolding u' by (simp add: target_step_stats)
  qed
qed

lemma predict_lookup_step:
  "predict_lookup env inst sn pc tid rec u = Inr (taken, target, rec', u') \<Longrightarrow> target_step env inst pc tid rec u rec' u'"
  unfolding predict_lookup_def
  by (cases "if isDirectCtrl inst then None else be_ip env") (simp_all add: predict_btb_step predict_indirect_step)

text \<open>Everything a prediction does to the parts that a squash restores.\<close>

definition predict_step where
  "predict_step env inst pc tid rec u rec' u' \<longleftrightarrow>
     predHist u' = predHist u \<and> bp_BTB u' = bp_BTB u \<and> seqNum rec' = seqNum rec \<and>
     (\<exists>r. bp_RAS u' = (bp_RAS u)[tid := r] \<and> ras_step rec' (bp_RAS u ! tid) r) \<and>
     (bp_state u' = bp_state u \<and> bpHistory rec' = bpHistory rec \<or>
      \<not> isCall inst \<and> \<not> isReturn inst \<and>
      dp_btbUpdate (be_dp env) (bp_state u) tid (instAddr env pc) (bpHistory rec) = Inr (bpHistory rec', bp_state u'))"

lemma predict_stepI:
  assumes "target_step env inst pc tid rec0 u0 rec' u'"
    and "predHist u0 = predHist u" "bp_BTB u0 = bp_BTB u" "bp_state u0 = bp_state u"
    and "seqNum rec0 = seqNum rec" "bpHistory rec0 = bpHistory rec"
    and "bp_RAS u' = (bp_RAS u)[tid := r]" "ras_step rec' (bp_RAS u ! tid) r"
  shows "predict_step env inst pc tid rec u rec' u'"
proof -
  have "\<exists>r. bp_RAS u' = (bp_RAS u)[tid := r] \<and> ras_step rec' (bp_RAS u ! tid) r" using assms(7,8) by blast
  with assms(1-6) show ?thesis unfolding target_step_def predict_step_def by simp
qed

lemma predict_target_step:
  assumes "predict_target env inst sn pc tid rec u = Inr (taken, target, rec', u')"
    and new: "\<not> usedRAS rec" "\<not> pushedRAS rec" "\<not> wasCall rec"
  shows "predict_step env inst pc tid rec u rec' u'"
proof (cases "isReturn inst")
  case True
  then show ?thesis using assms
    by (auto simp: predict_target_def predict_return_def predict_step_def set_RAS_def ras_step_def kind_of_def
        res_simps ras_top_def topIdx_def)
next
  case ret: False
  show ?thesis
  proof (cases "isCall inst")
    case True
    then obtain r where tid: "tid < length (bp_RAS u)" and r: "ras_push pc (bp_RAS u ! tid) = Inr r"
      and l: "predict_lookup env inst sn pc tid (rec\<lparr>pushedRAS := True, wasCall := True\<rparr>) (u\<lparr>bp_RAS := (bp_RAS u)[tid := r]\<rparr>)
        = Inr (taken, target, rec', u')"
      using assms(1) ret by (auto simp: predict_target_def set_RAS_def res_simps)
    note step = predict_lookup_step [OF l]
    have k: "kind_of rec' = (if pushedRAS rec' then RasCall else RasTouch)"
      using step new by (simp add: target_step_def kind_of_def)
    have "bp_RAS u' = (bp_RAS u)[tid := (if pushedRAS rec' then r else ras_pop r)]"
      using step tid by (auto simp: target_step_def)
    moreover have "ras_step rec' (bp_RAS u ! tid) (if pushedRAS rec' then r else ras_pop r)"
      unfolding ras_step_def k using r by auto
    ultimately show ?thesis by (intro predict_stepI [OF step]) simp_all
  next
    case False
    then have "target_step env inst pc tid rec u rec' u'"
      using assms(1) ret by (intro predict_lookup_step) (simp add: predict_target_def)
    note step = this
    have "bp_RAS u' = (bp_RAS u)[tid := bp_RAS u ! tid]" using step False by (simp add: target_step_def)
    moreover have "ras_step rec' (bp_RAS u ! tid) (bp_RAS u ! tid)"
      using step new by (simp add: target_step_def ras_step_def kind_of_def)
    ultimately show ?thesis by (intro predict_stepI [OF step]) simp_all
  qed
qed

definition dir_step where
  "dir_step dp inst tid a s h t \<longleftrightarrow>
     (if isUncondCtrl inst then dp_uncondBranch dp s tid a = Inr (h, t) else (\<exists>b. dp_lookup dp s tid a = Inr (b, h, t)))"

lemma predict_direction_step:
  assumes "predict_direction env inst pc tid u = Inr (taken, h, u')"
  shows "dir_step (be_dp env) inst tid (instAddr env pc) (bp_state u) h (bp_state u')"
    "predHist u' = predHist u" "bp_BTB u' = bp_BTB u" "bp_RAS u' = bp_RAS u"
  using assms by (auto simp: predict_direction_def dir_step_def res_simps split: if_splits)

text \<open>One prediction, as the squash will see it.\<close>

definition predicted where
  "predicted env inst pc tid rec u u' \<longleftrightarrow>
     tid < length (predHist u) \<and> predHist u' = (predHist u)[tid := rec # predHist u ! tid] \<and> bp_BTB u' = bp_BTB u \<and>
     (\<exists>r. bp_RAS u' = (bp_RAS u)[tid := r] \<and> ras_step rec (bp_RAS u ! tid) r) \<and>
     (\<exists>h t. dir_step (be_dp env) inst tid (instAddr env pc) (bp_state u) h t \<and>
        (bp_state u' = t \<and> bpHistory rec = h \<or>
         \<not> isCall inst \<and> \<not> isReturn inst \<and>
         dp_btbUpdate (be_dp env) t tid (instAddr env pc) h = Inr (bpHistory rec, bp_state u')))"

lemma predict_predicted:
  assumes "predict env inst sn pc tid u = Inr (taken, target, u')"
  shows "\<exists>rec. predicted env inst pc tid rec u u' \<and> seqNum rec = sn"
proof -
  obtain taken0 h u0 where d: "predict_direction env inst pc tid
      (u\<lparr>bp_stats := (bp_stats u)\<lparr>st_lookups := st_lookups (bp_stats u) + 1\<rparr>\<rparr>) = Inr (taken0, h, u0)"
    using assms by (auto simp: predict_def res_simps Let_def)
  note ds = predict_direction_step [OF d]
  obtain ih u1 where g: "(case be_ip env of None \<Rightarrow> (None, u0)
       | Some ip \<Rightarrow> (case ip_genIndirectInfo ip (ip_state u0) tid of (ih, i) \<Rightarrow> (Some ih, u0\<lparr>ip_state := i\<rparr>))) = (ih, u1)"
    by (rule prod.exhaust)
  then have u1: "predHist u1 = predHist u0" "bp_BTB u1 = bp_BTB u0" "bp_RAS u1 = bp_RAS u0" "bp_state u1 = bp_state u0"
    by (auto split: option.splits prod.splits)
  define rec0 where "rec0 = PredictorHistory_new (zeroPC env) sn (instAddr env pc) taken0 h ih tid inst"
  have new: "\<not> usedRAS rec0" "\<not> pushedRAS rec0" "\<not> wasCall rec0" "bpHistory rec0 = h" "seqNum rec0 = sn"
    by (simp_all add: rec0_def PredictorHistory_new_def)
  let ?t = "if taken0 then predict_target env inst sn pc tid rec0 u1
      else Inr (False, advancePC env pc inst, (if isReturn inst then rec0\<lparr>wasReturn := True\<rparr> else rec0), u1)"
  have "rbind ?t (\<lambda>(pred_taken, target, rec, u).
      let rec = rec\<lparr>ph_target := instAddr env target\<rparr>;
          u = (case be_ip env of None \<Rightarrow> u
             | Some ip \<Rightarrow> u\<lparr>ip_state := ip_updateDirectionInfo ip (ip_state u) tid taken0\<rparr>)
      in rbind (vget (predHist u) tid) (\<lambda>ph. rbind (vset (predHist u) tid (rec # ph)) (\<lambda>phs.
        Inr (pred_taken, target, u\<lparr>predHist := phs\<rparr>)))) = Inr (taken, target, u')" (is "rbind _ ?f = _")
    unfolding rec0_def using assms d g by (simp add: predict_def Let_def split del: if_split)
  then obtain x where x: "?t = Inr x" and fx: "?f x = Inr (taken, target, u')" by (rule rbind_InrE)
  obtain taken2 target2 rec1 u2 where xx: "x = (taken2, target2, rec1, u2)" by (metis prod_cases4)
  with fx have "taken2 = taken" "target2 = target" and tid: "tid < length (predHist u2)"
    and u': "predHist u' = (predHist u2)[tid := rec1\<lparr>ph_target := instAddr env target\<rparr> # predHist u2 ! tid]"
      "bp_BTB u' = bp_BTB u2" "bp_RAS u' = bp_RAS u2" "bp_state u' = bp_state u2"
    by (auto simp: Let_def res_simps split: option.splits)
  with x xx have t: "?t = Inr (taken, target, rec1, u2)" by simp
  have step: "predict_step env inst pc tid rec0 u1 rec1 u2"
  proof (cases taken0)
    case True
    with t predict_target_step [OF _ new(1-3)] show ?thesis by simp
  next
    case False
    have "\<not> usedRAS rec1" "\<not> wasCall rec1" using t False new by (auto split: if_splits)
    then have "ras_step rec1 (bp_RAS u1 ! tid) (bp_RAS u1 ! tid)" by (simp add: ras_step_def kind_of_def)
    then show ?thesis using t False
      by (intro predict_stepI [OF target_step_refl, where r = "bp_RAS u1 ! tid"]) (auto split: if_splits)
  qed
  define rec where "rec = rec1\<lparr>ph_target := instAddr env target\<rparr>"
  have rs: "ras_step rec s r = ras_step rec1 s r" for s r by (simp add: ras_step_def kind_of_def rec_def)
  have "predicted env inst pc tid rec u u'"
    unfolding predicted_def
  proof (intro conjI)
    show "\<exists>h t. dir_step (be_dp env) inst tid (instAddr env pc) (bp_state u) h t \<and>
        (bp_state u' = t \<and> bpHistory rec = h \<or> \<not> isCall inst \<and> \<not> isReturn inst \<and>
         dp_btbUpdate (be_dp env) t tid (instAddr env pc) h = Inr (bpHistory rec, bp_state u'))"
      using ds(1) step u1(4) u'(4) new(4)
      by (intro exI [of _ h] exI [of _ "bp_state u0"]) (auto simp: predict_step_def rec_def)
  qed (use step tid u' u1 ds rs in \<open>simp_all add: predict_step_def flip: rec_def\<close>)
  moreover have "seqNum rec = sn" using step new(5) by (simp add: predict_step_def rec_def)
  ultimately show ?thesis by blast
qed

end
