(* ===== verification/BPredSafe.thy ===== *)
theory BPredSafe
  imports BPredUnit
begin

text \<open>
  The branch prediction unit never fails. The invariant of the unit bounds every index it uses: the stack
  pointers, the stack positions saved in the history, the entries of the target buffer and, through the
  contract of the direction predictor, its tables. The contract is a locale; inside it every operation of
  the unit is shown to return and to keep the invariant. The local, bi-mode and tournament predictors are
  shown to meet it.
\<close>

subsection \<open>The stack and the target buffer\<close>

definition ras_ok :: "u32 \<Rightarrow> 'pc ReturnAddrStack \<Rightarrow> bool" where
  "ras_ok n r \<longleftrightarrow> ras_wf r \<and> ras_numEntries r = n"

lemma ras_ok_init: "0 < n \<Longrightarrow> ras_ok n (ras_init zero n)"
  by (simp add: ras_ok_def ras_wf_def ras_init_def ras_reset_def)

lemma ras_ok_pop: "ras_ok n r \<Longrightarrow> ras_ok n (ras_pop r)"
  by (simp add: ras_ok_def ras_wf_pop)

lemma ras_index_in: "ras_ok n r \<Longrightarrow> i < n \<Longrightarrow> unat i < length (addrStack r)"
  by (simp add: ras_ok_def ras_wf_def word_less_nat_alt)

lemma ras_tos_in: "ras_ok n r \<Longrightarrow> unat (tos r) < length (addrStack r)"
  by (auto simp: ras_ok_def ras_wf_def word_less_nat_alt)

lemma ras_top_ok: "ras_ok n r \<Longrightarrow> succeeds (ras_top r) (\<lambda>_. True)"
  using ras_tos_in [of n r] by (auto simp: ras_top_def)

lemma ras_push_ok:
  assumes "ras_ok n r"
  shows "succeeds (ras_push pc r) (ras_ok n)"
proof -
  have wf: "ras_wf r" and n: "ras_numEntries r = n" using assms by (simp_all add: ras_ok_def)
  have "unat (tos r) < ras_n r" using wf by (simp add: ras_wf_def word_less_nat_alt)
  then have "unat (tos (incrTos r)) < length (addrStack r)" using incrTos_unat [OF wf] wf by (simp add: ras_wf_def)
  then obtain r' where r': "ras_push pc r = Inr r'" by (simp add: ras_push_def Let_def)
  with ras_wf_push [OF wf r'] ras_push_fields [OF r'] n show ?thesis by (auto simp: ras_ok_def)
qed

lemma ras_restore_ok:
  assumes "ras_ok n r" and "i < n"
  shows "succeeds (ras_restore i pc r) (ras_ok n)"
  using ras_index_in [OF assms] assms by (auto simp: ras_restore_def Let_def ras_ok_def ras_wf_def)

definition btb_ok :: "nat \<Rightarrow> 'pc DefaultBTB \<Rightarrow> bool" where
  "btb_ok threads b \<longleftrightarrow> length (btb b) = unat (btb_numEntries b) \<and> idxMask b < btb_numEntries b \<and>
     unat (btb_instShiftAmt b) < 64 \<and> unat (tagShiftAmt b) < 64 \<and>
     unat (tagShiftAmt b - btb_instShiftAmt b - log2NumThreads b) < 32 \<and>
     threads * 2 ^ unat (tagShiftAmt b - btb_instShiftAmt b - log2NumThreads b) \<le> 2 ^ 31"

lemma unat_u64: "unat (ucast (m :: u32) :: u64) = unat m"
proof -
  have "unat m < 2 ^ 64" using unsigned_less [of m, where ?'a = nat] by simp
  then show ?thesis by (simp add: unsigned_ucast_eq take_bit_nat_eq_self)
qed

lemma ucast_and_le: "ucast (x AND ucast (m :: u32) :: u64) \<le> m"
proof -
  have "x AND ucast m \<le> (ucast m :: u64)" by (rule word_and_le1)
  then have "unat (x AND ucast m :: u64) \<le> unat m" unfolding word_le_nat_alt unat_u64 .
  moreover have "unat (ucast (x AND ucast m :: u64) :: u32) \<le> unat (x AND ucast m :: u64)"
    by (simp add: unsigned_ucast_eq take_bit_nat_less_eq_self)
  ultimately show ?thesis by (simp add: word_le_nat_alt)
qed

lemma btb_getIndex_ok:
  assumes "btb_ok threads b" and "tid < threads"
  shows "succeeds (btb_getIndex b a tid) (\<lambda>i. i < btb_numEntries b)"
proof -
  define k where "k = unat (tagShiftAmt b - btb_instShiftAmt b - log2NumThreads b)"
  have "tid * 2 ^ k < threads * 2 ^ k" using assms(2) by simp
  also have "\<dots> \<le> 2 ^ 31" using assms(1) by (simp add: btb_ok_def k_def)
  finally have "tid * 2 ^ k < 2 ^ 31" .
  then show ?thesis using assms(1) le_less_trans [OF ucast_and_le]
    by (auto simp: btb_getIndex_def Let_def btb_ok_def k_def)
qed

lemma btb_getTag_ok: "btb_ok threads b \<Longrightarrow> succeeds (btb_getTag b a) (\<lambda>_. True)"
  by (simp add: btb_getTag_def btb_ok_def)

lemma btb_probe_ok:
  assumes ok: "btb_ok threads b" and "tid < threads"
  shows "succeeds (btb_probe b a tid) (\<lambda>_. True)"
  unfolding btb_probe_def
proof (rule succeeds_bind [OF btb_getIndex_ok [OF assms]], rule succeeds_bind [OF btb_getTag_ok [OF ok]])
  fix i :: u32 and tag assume "i < btb_numEntries b"
  moreover from this have "unat i < length (btb b)" using ok by (simp add: btb_ok_def word_less_nat_alt)
  ultimately show "succeeds (if \<not> i < btb_numEntries b then Inl AssertFailed
     else rbind (vget (btb b) (unat i)) (\<lambda>e. Inr (btb_valid e \<and> tag = btb_tag e \<and> btb_tid e = Some tid, e))) (\<lambda>_. True)"
    by simp
qed

lemma BTB_valid_ok: "btb_ok threads b \<Longrightarrow> tid < threads \<Longrightarrow> succeeds (BTB_valid b a tid) (\<lambda>_. True)"
  unfolding BTB_valid_def by (rule succeeds_bind [OF btb_probe_ok]) (auto split: prod.split)

lemma BTB_lookup_ok: "btb_ok threads b \<Longrightarrow> tid < threads \<Longrightarrow> succeeds (BTB_lookup zero b a tid) (\<lambda>_. True)"
  unfolding BTB_lookup_def by (rule succeeds_bind [OF btb_probe_ok]) (auto split: prod.split)

lemma BTB_update_ok:
  assumes ok: "btb_ok threads b" and "tid < threads"
  shows "succeeds (BTB_update a target tid b) (btb_ok threads)"
  unfolding BTB_update_def
proof (rule succeeds_bind [OF btb_getIndex_ok [OF assms]])
  fix i :: u32 assume i: "i < btb_numEntries b"
  then have "unat i < length (btb b)" using ok by (simp add: btb_ok_def word_less_nat_alt)
  then have s: "succeeds (rbind (btb_getTag b a) (\<lambda>tag. rbind (vset (btb b) (unat i)
      \<lparr>btb_tag = tag, btb_target = target, btb_tid = Some tid, btb_valid = True\<rparr>) (\<lambda>es. Inr (b\<lparr>btb := es\<rparr>)))) (btb_ok threads)"
    using ok by (intro succeeds_bind [OF btb_getTag_ok [OF ok]]) (simp add: btb_ok_def)
  show "succeeds (if \<not> i < btb_numEntries b then Inl AssertFailed else rbind (btb_getTag b a) (\<lambda>tag. rbind (vset (btb b) (unat i)
      \<lparr>btb_tag = tag, btb_target = target, btb_tid = Some tid, btb_valid = True\<rparr>) (\<lambda>es. Inr (b\<lparr>btb := es\<rparr>)))) (btb_ok threads)"
    using s i by simp
qed

subsection \<open>The contract of a direction predictor\<close>

text \<open>
  \<open>pok\<close> is the invariant of the predictor and \<open>hok s h\<close> says that \<open>h\<close> is a history it can accept in state
  \<open>s\<close>. An operation keeps the invariant and every history in flight.
\<close>

definition keeps :: "('p \<Rightarrow> bool) \<Rightarrow> ('p \<Rightarrow> 'h \<Rightarrow> bool) \<Rightarrow> 'p \<Rightarrow> 'p \<Rightarrow> bool" where
  "keeps pok hok s t \<longleftrightarrow> pok t \<and> (\<forall>h. hok s h \<longrightarrow> hok t h)"

definition rec_ok :: "u32 \<Rightarrow> ('p \<Rightarrow> 'h \<Rightarrow> bool) \<Rightarrow> 'p \<Rightarrow> ('h, 'ih, 'pc) PredictorHistory \<Rightarrow> bool" where
  "rec_ok n hok s r \<longleftrightarrow> hok s (bpHistory r) \<and> RASIndex r < n"

definition unit_inv :: "nat \<Rightarrow> u32 \<Rightarrow> ('p \<Rightarrow> bool) \<Rightarrow> ('p \<Rightarrow> 'h \<Rightarrow> bool) \<Rightarrow> ('p, 'h, 'i, 'ih, 'pc) BPredUnit \<Rightarrow> bool" where
  "unit_inv threads n pok hok u \<longleftrightarrow> pok (bp_state u) \<and> btb_ok threads (bp_BTB u) \<and> 0 < n \<and>
     length (predHist u) = threads \<and> length (bp_RAS u) = threads \<and> (\<forall>r \<in> set (bp_RAS u). ras_ok n r) \<and>
     (\<forall>ph \<in> set (predHist u). \<forall>r \<in> set ph. rec_ok n hok (bp_state u) r)"

lemma rec_ok_keeps: "rec_ok n hok s r \<Longrightarrow> keeps pok hok s t \<Longrightarrow> rec_ok n hok t r"
  by (simp add: rec_ok_def keeps_def)

lemma unit_inv_upd [simp]:
  "unit_inv threads n pok hok (u\<lparr>bp_stats := st\<rparr>) = unit_inv threads n pok hok u"
  "unit_inv threads n pok hok (u\<lparr>ip_state := i\<rparr>) = unit_inv threads n pok hok u"
  "unit_inv threads n pok hok (u\<lparr>ip_state := i, bp_stats := st\<rparr>) = unit_inv threads n pok hok u"
  by (simp_all add: unit_inv_def)

lemma unit_inv_state: "unit_inv threads n pok hok u \<Longrightarrow> keeps pok hok (bp_state u) p \<Longrightarrow>
    unit_inv threads n pok hok (u\<lparr>bp_state := p\<rparr>)"
  by (auto simp: unit_inv_def keeps_def rec_ok_def)

lemma unit_inv_BTB: "unit_inv threads n pok hok u \<Longrightarrow> btb_ok threads b \<Longrightarrow> unit_inv threads n pok hok (u\<lparr>bp_BTB := b\<rparr>)"
  by (simp add: unit_inv_def)

lemma unit_inv_hist:
  assumes "unit_inv threads n pok hok u" and "\<And>r. r \<in> set ph \<Longrightarrow> rec_ok n hok (bp_state u) r" and "tid < threads"
  shows "unit_inv threads n pok hok (u\<lparr>predHist := (predHist u)[tid := ph]\<rparr>)"
  using assms by (auto simp: unit_inv_def dest!: set_update_subset_insert [THEN subsetD])

lemma unit_inv_thread:
  assumes "unit_inv threads n pok hok u" and "tid < threads"
  shows "tid < length (bp_RAS u)" "tid < length (predHist u)" "ras_ok n (bp_RAS u ! tid)"
    "r \<in> set (predHist u ! tid) \<Longrightarrow> rec_ok n hok (bp_state u) r"
  using assms by (auto simp: unit_inv_def)

lemma set_RAS_ok:
  assumes "unit_inv threads n pok hok u" and "tid < threads" and "ras_ok n r"
  shows "succeeds (set_RAS tid r u) (\<lambda>u'. unit_inv threads n pok hok u' \<and> bp_state u' = bp_state u)"
  using assms by (auto simp: set_RAS_def unit_inv_def dest!: set_update_subset_insert [THEN subsetD])

text \<open>The outcome of a stage of a prediction.\<close>

definition stage_ok where
  "stage_ok threads n pok hok = (\<lambda>(taken, target, rec, u). unit_inv threads n pok hok u \<and> rec_ok n hok (bp_state u) rec)"

definition rec_unit_ok where
  "rec_unit_ok threads n pok hok = (\<lambda>(rec, u). unit_inv threads n pok hok u \<and> rec_ok n hok (bp_state u) rec)"

lemma undo_call_ok:
  assumes "unit_inv threads n pok hok u" and "rec_ok n hok (bp_state u) rec" and "tid < threads"
  shows "succeeds (undo_call inst tid rec u) (rec_unit_ok threads n pok hok)"
proof -
  note t = unit_inv_thread [OF assms(1,3)]
  have "succeeds (rbind (set_RAS tid (ras_pop (bp_RAS u ! tid)) u) (\<lambda>u. Inr (rec\<lparr>pushedRAS := False\<rparr>, u)))
      (rec_unit_ok threads n pok hok)"
    by (rule succeeds_bind [OF set_RAS_ok [OF assms(1,3) ras_ok_pop [OF t(3)]]])
       (use assms(2) in \<open>simp add: rec_unit_ok_def rec_ok_def\<close>)
  then show ?thesis using assms t by (simp add: undo_call_def rec_unit_ok_def)
qed

lemma predict_return_ok:
  assumes "unit_inv threads n pok hok u" and "rec_ok n hok (bp_state u) rec" and "tid < threads"
  shows "succeeds (predict_return env pc tid rec u) (stage_ok threads n pok hok)"
proof -
  note t = unit_inv_thread [OF assms(1,3)]
  have i: "topIdx (bp_RAS u ! tid) < n" using t(3) by (auto simp: topIdx_def ras_ok_def ras_wf_def)
  show ?thesis unfolding predict_return_def vget_in [OF t(1)]
    by (intro succeeds_bind [OF ras_top_ok [OF t(3)]] succeeds_bind [OF set_RAS_ok [OF assms(1,3) ras_ok_pop [OF t(3)]]])
       (use assms(2) i in \<open>simp add: stage_ok_def rec_ok_def\<close>)
qed

lemma predict_indirect_ok:
  assumes "unit_inv threads n pok hok u" and "rec_ok n hok (bp_state u) rec" and "tid < threads"
  shows "succeeds (predict_indirect env ip inst sn pc tid rec u) (stage_ok threads n pok hok)"
proof -
  obtain hit target i where l: "ip_lookup ip (ip_state u) (instAddr env pc) pc tid = (hit, target, i)"
    by (cases "ip_lookup ip (ip_state u) (instAddr env pc) pc tid") auto
  define r1 where "r1 = rec\<lparr>wasIndirect := True, predTaken := False\<rparr>"
  define u1 where "u1 = u\<lparr>ip_state := i, bp_stats := (bp_stats u)\<lparr>st_indirectLookups := Suc (st_indirectLookups (bp_stats u)),
    st_indirectMisses := Suc (st_indirectMisses (bp_stats u))\<rparr>\<rparr>"
  have u1: "unit_inv threads n pok hok u1" "rec_ok n hok (bp_state u1) r1"
    using assms by (simp_all add: u1_def r1_def rec_ok_def)
  note c = undo_call_ok [OF u1 assms(3), of inst]
  show ?thesis
  proof (cases hit)
    case True
    then show ?thesis using assms(1,2) by (simp add: predict_indirect_def l Let_def stage_ok_def rec_ok_def)
  next
    case False
    show ?thesis
    proof (cases "\<not> isCall inst \<and> \<not> isReturn inst")
      case True
      moreover have "rec_ok n hok (bp_state u) r1" using u1(2) by (simp add: u1_def)
      ultimately show ?thesis using False assms(1)
        by (simp add: predict_indirect_def l Let_def stage_ok_def flip: u1_def r1_def)
    next
      case call: False
      from c obtain r2 u2 where "undo_call inst tid r1 u1 = Inr (r2, u2)" "rec_unit_ok threads n pok hok (r2, u2)"
        by (auto elim: succeedsE)
      then show ?thesis using False call
        by (auto simp: predict_indirect_def l Let_def stage_ok_def rec_unit_ok_def simp flip: u1_def r1_def)
    qed
  qed
qed

text \<open>The younger branches are those in front of the first one that is not younger.\<close>

lemma squash_loop_rest:
  "squash_loop env sn tid rs u = Inr (rest, u') \<Longrightarrow> rest = dropWhile (\<lambda>r. sn < seqNum r) rs"
  by (induction rs arbitrary: u) (auto simp: res_simps split: if_splits)

lemma bp_squash_hist:
  assumes "bp_squash env sn tid u = Inr u'"
  shows "predHist u' ! tid = dropWhile (\<lambda>r. sn < seqNum r) (predHist u ! tid)"
  using assms by (auto simp: bp_squash_def Let_def res_simps dest!: squash_loop_rest)

definition correctable where
  "correctable sn ph \<longleftrightarrow> (case dropWhile (\<lambda>r. sn < seqNum r) ph of [] \<Rightarrow> True | r # rs \<Rightarrow> seqNum r = sn)"

locale total_predictor =
  fixes dp :: "('p, 'h) DirPredictor" and threads :: nat and pok :: "'p \<Rightarrow> bool" and hok :: "'p \<Rightarrow> 'h \<Rightarrow> bool"
  assumes lookup_ok: "pok s \<Longrightarrow> tid < threads \<Longrightarrow>
      succeeds (dp_lookup dp s tid a) (\<lambda>(b, h, t). keeps pok hok s t \<and> hok t h)"
    and uncond_ok: "pok s \<Longrightarrow> tid < threads \<Longrightarrow>
      succeeds (dp_uncondBranch dp s tid a) (\<lambda>(h, t). keeps pok hok s t \<and> hok t h)"
    and btbUpdate_ok: "pok s \<Longrightarrow> tid < threads \<Longrightarrow> hok s h \<Longrightarrow>
      succeeds (dp_btbUpdate dp s tid a h) (\<lambda>(h', t). keeps pok hok s t \<and> hok t h')"
    and update_ok: "pok s \<Longrightarrow> tid < threads \<Longrightarrow> hok s h \<Longrightarrow>
      succeeds (dp_update dp s tid a taken h squashed) (keeps pok hok s)"
    and squash_ok: "pok s \<Longrightarrow> tid < threads \<Longrightarrow> hok s h \<Longrightarrow> succeeds (dp_squash dp s tid h) (keeps pok hok s)"
begin

abbreviation inv where "inv n u \<equiv> unit_inv threads n pok hok u"
abbreviation stg where "stg n \<equiv> stage_ok threads n pok hok"

lemma inv_pok: "inv n u \<Longrightarrow> pok (bp_state u)"
  by (simp add: unit_inv_def)

lemma predict_btb_ok:
  assumes env: "be_dp env = dp" and u: "inv n u" and r: "rec_ok n hok (bp_state u) rec" and tid: "tid < threads"
  shows "succeeds (predict_btb env inst pc tid rec u) (stg n)"
proof -
  have b: "btb_ok threads (bp_BTB u)" using u by (simp add: unit_inv_def)
  obtain hit where hit: "BTB_valid (bp_BTB u) (instAddr env pc) tid = Inr hit" using BTB_valid_ok [OF b tid] by (auto elim: succeedsE)
  define u1 where "u1 = u\<lparr>bp_stats := (bp_stats u)\<lparr>st_BTBLookups := Suc (st_BTBLookups (bp_stats u))\<rparr>\<rparr>"
  define r1 where "r1 = rec\<lparr>predTaken := False\<rparr>"
  have u1: "inv n u1" "rec_ok n hok (bp_state u1) r1" using u r by (simp_all add: u1_def r1_def rec_ok_def)
  then have h1: "hok (bp_state u1) (bpHistory r1)" by (simp add: rec_ok_def)
  show ?thesis
  proof (cases hit)
    case True
    obtain t where "BTB_lookup (zeroPC env) (bp_BTB u) (instAddr env pc) tid = Inr t"
      using BTB_lookup_ok [OF b tid, of "zeroPC env" "instAddr env pc"] by (auto elim: succeedsE)
    then show ?thesis using True hit u r by (simp add: predict_btb_def Let_def stage_ok_def)
  next
    case False
    show ?thesis
    proof (cases "\<not> isCall inst \<and> \<not> isReturn inst")
      case True
      obtain h p where p: "dp_btbUpdate dp (bp_state u1) tid (instAddr env pc) (bpHistory r1) = Inr (h, p)"
        "keeps pok hok (bp_state u1) p" "hok p h"
        using btbUpdate_ok [OF inv_pok [OF u1(1)] tid h1, of "instAddr env pc"] by (auto elim: succeedsE)
      have "inv n (u1\<lparr>bp_state := p\<rparr>)" using unit_inv_state [OF u1(1) p(2)] .
      moreover have "rec_ok n hok p (r1\<lparr>bpHistory := h\<rparr>)" using u1(2) p(3) by (simp add: rec_ok_def)
      ultimately show ?thesis using False True hit p(1) env
        by (simp add: predict_btb_def Let_def stage_ok_def flip: u1_def r1_def)
    next
      case call: False
      obtain r2 u2 where "undo_call inst tid r1 u1 = Inr (r2, u2)" "rec_unit_ok threads n pok hok (r2, u2)"
        using undo_call_ok [OF u1 tid, of inst] by (auto elim: succeedsE)
      then show ?thesis using False call hit
        by (auto simp: predict_btb_def Let_def stage_ok_def rec_unit_ok_def simp flip: u1_def r1_def)
    qed
  qed
qed

lemma predict_lookup_ok:
  assumes "be_dp env = dp" and "inv n u" and "rec_ok n hok (bp_state u) rec" and "tid < threads"
  shows "succeeds (predict_lookup env inst sn pc tid rec u) (stg n)"
  unfolding predict_lookup_def
  using predict_btb_ok [OF assms] predict_indirect_ok [OF assms(2-4)] by (auto split: option.split)

lemma predict_target_ok:
  assumes env: "be_dp env = dp" and u: "inv n u" and r: "rec_ok n hok (bp_state u) rec" and tid: "tid < threads"
  shows "succeeds (predict_target env inst sn pc tid rec u) (stg n)"
proof (cases "isReturn inst \<or> \<not> isCall inst")
  case True
  then show ?thesis using predict_return_ok [OF u r tid, of env pc] predict_lookup_ok [OF assms]
    by (auto simp: predict_target_def)
next
  case False
  note t = unit_inv_thread [OF u tid]
  have "succeeds (rbind (ras_push pc (bp_RAS u ! tid)) (\<lambda>r. rbind (set_RAS tid r u) (\<lambda>u.
        predict_lookup env inst sn pc tid (rec\<lparr>pushedRAS := True, wasCall := True\<rparr>) u))) (stg n)"
    by (intro succeeds_bind [OF ras_push_ok [OF t(3)]] succeeds_bind [OF set_RAS_ok [OF u tid]])
       (use r env tid in \<open>auto intro!: predict_lookup_ok simp: rec_ok_def\<close>)
  then show ?thesis using False t(1) by (simp add: predict_target_def)
qed

lemma predict_direction_ok:
  assumes env: "be_dp env = dp" and u: "inv n u" and tid: "tid < threads"
  shows "succeeds (predict_direction env inst pc tid u) (\<lambda>(taken, h, u'). inv n u' \<and> hok (bp_state u') h)"
proof (cases "isUncondCtrl inst")
  case True
  show ?thesis unfolding predict_direction_def env using True
    by (simp, intro succeeds_bind [OF uncond_ok [OF inv_pok [OF u] tid]]) (use u in \<open>auto intro: unit_inv_state\<close>)
next
  case False
  have k: "inv n (u\<lparr>bp_state := p, bp_stats := st\<rparr>)" if "keeps pok hok (bp_state u) p" for p st
    using unit_inv_state [OF u that] unit_inv_upd(1) [of threads n pok hok st "u\<lparr>bp_state := p\<rparr>"] by simp
  show ?thesis unfolding predict_direction_def env using False
    by (simp, intro succeeds_bind [OF lookup_ok [OF inv_pok [OF u] tid]]) (auto intro: k)
qed

lemma push_hist_ok:
  assumes u: "inv n u" and r: "rec_ok n hok (bp_state u) rec" and tid: "tid < threads"
  shows "succeeds (rbind (vget (predHist u) tid) (\<lambda>ph. rbind (vset (predHist u) tid (rec # ph)) (\<lambda>phs.
    Inr (taken, target, u\<lparr>predHist := phs\<rparr>)))) (\<lambda>(taken, target, u'). inv n u')"
  using unit_inv_thread [OF u tid] unit_inv_hist [OF u _ tid, of "rec # predHist u ! tid"] r by auto

lemma predict_ok:
  assumes env: "be_dp env = dp" and u: "inv n u" and tid: "tid < threads"
  shows "succeeds (predict env inst sn pc tid u) (\<lambda>(taken, target, u'). inv n u')"
proof -
  define us where "us = u\<lparr>bp_stats := (bp_stats u)\<lparr>st_lookups := Suc (st_lookups (bp_stats u))\<rparr>\<rparr>"
  have us: "inv n us" and n: "0 < n" using u by (simp_all add: us_def unit_inv_def)
  obtain taken0 h u0 where d: "predict_direction env inst pc tid us = Inr (taken0, h, u0)" "inv n u0" "hok (bp_state u0) h"
    using predict_direction_ok [OF env us tid, of inst pc] by (auto elim: succeedsE)
  obtain ih u1 where ih: "(case be_ip env of None \<Rightarrow> (None, u0)
      | Some ip \<Rightarrow> (case ip_genIndirectInfo ip (ip_state u0) tid of (ih, i) \<Rightarrow> (Some ih, u0\<lparr>ip_state := i\<rparr>))) = (ih, u1)"
    by fastforce
  then have u1: "inv n u1" "hok (bp_state u1) h" using d by (auto split: option.splits prod.splits)
  define rec where "rec = PredictorHistory_new (zeroPC env) sn (instAddr env pc) taken0 h ih tid inst"
  have r: "rec_ok n hok (bp_state u1) rec" using u1(2) n by (simp add: rec_def rec_ok_def PredictorHistory_new_def)
  define m where "m = (if taken0 then predict_target env inst sn pc tid rec u1
    else Inr (False, advancePC env pc inst, (if isReturn inst then rec\<lparr>wasReturn := True\<rparr> else rec), u1))"
  have "succeeds m (stg n)"
    using predict_target_ok [OF env u1(1) r tid, of inst sn pc] u1(1) r by (simp add: m_def stage_ok_def rec_ok_def)
  then obtain taken target rec' u2 where m: "m = Inr (taken, target, rec', u2)" and s: "stg n (taken, target, rec', u2)"
    by (auto elim: succeedsE)
  define u3 where "u3 = (case be_ip env of None \<Rightarrow> u2
    | Some ip \<Rightarrow> u2\<lparr>ip_state := ip_updateDirectionInfo ip (ip_state u2) tid taken0\<rparr>)"
  have "inv n u3" "rec_ok n hok (bp_state u3) (rec'\<lparr>ph_target := instAddr env target\<rparr>)"
    using s by (auto simp: stage_ok_def u3_def rec_ok_def split: option.split)
  from push_hist_ok [OF this tid, of taken target]
  show ?thesis by (simp add: predict_def Let_def d(1) ih m [unfolded m_def rec_def] split del: if_split flip: us_def u3_def)
qed

lemma commit_loop_ok:
  assumes env: "be_dp env = dp" and tid: "tid < threads"
  shows "inv n u \<Longrightarrow> (\<And>r. r \<in> set rs \<Longrightarrow> rec_ok n hok (bp_state u) r) \<Longrightarrow>
    succeeds (commit_loop env done_sn tid rs u) (\<lambda>(rest, u'). inv n u' \<and> (\<forall>r \<in> set rest. rec_ok n hok (bp_state u') r))"
proof (induction rs arbitrary: u)
  case (Cons r rs)
  show ?case
  proof (cases "seqNum r \<le> done_sn")
    case True
    have r: "hok (bp_state u) (bpHistory r)" using Cons.prems(2) [of r] by (simp add: rec_ok_def)
    obtain p where p: "dp_update dp (bp_state u) tid (ph_pc r) (predTaken r) (bpHistory r) False = Inr p"
      "keeps pok hok (bp_state u) p" using update_ok [OF inv_pok [OF Cons.prems(1)] tid r, of "ph_pc r" "predTaken r" False]
      by (auto elim: succeedsE)
    define u1 where "u1 = u\<lparr>bp_state := p\<rparr>"
    define u2 where "u2 = (case be_ip env of None \<Rightarrow> u1
      | Some ip \<Rightarrow> u1\<lparr>ip_state := ip_commit ip (ip_state u1) done_sn tid (the (indirectHistory r))\<rparr>)"
    have "inv n u1" unfolding u1_def by (rule unit_inv_state [OF Cons.prems(1) p(2)])
    then have u2: "inv n u2" "bp_state u2 = p" by (auto simp: u2_def u1_def split: option.split)
    have "succeeds (commit_loop env done_sn tid rs u2) (\<lambda>(rest, u'). inv n u' \<and> (\<forall>r \<in> set rest. rec_ok n hok (bp_state u') r))"
      by (rule Cons.IH [OF u2(1)]) (use u2(2) Cons.prems(2) p(2) rec_ok_keeps in fastforce)
    then show ?thesis unfolding u2_def u1_def using True p(1) env by (simp add: Let_def)
  qed (use Cons.prems in auto)
qed simp

lemma bp_update_ok:
  assumes env: "be_dp env = dp" and u: "inv n u" and tid: "tid < threads"
  shows "succeeds (bp_update env done_sn tid u) (inv n)"
proof -
  note t = unit_inv_thread [OF u tid]
  obtain rest u1 where c: "commit_loop env done_sn tid (rev (predHist u ! tid)) u = Inr (rest, u1)"
    "inv n u1" "\<forall>r \<in> set rest. rec_ok n hok (bp_state u1) r"
    using commit_loop_ok [OF env tid u, of "rev (predHist u ! tid)" done_sn] t(4) by (auto elim: succeedsE)
  have "inv n (u1\<lparr>predHist := (predHist u1)[tid := rev rest]\<rparr>)" using unit_inv_hist [OF c(2) _ tid, of "rev rest"] c(3) by simp
  then show ?thesis using c(1) t(2) unit_inv_thread(2) [OF c(2) tid] by (simp add: bp_update_def)
qed

lemma undo_RAS_ok:
  assumes u: "inv n u" and r: "rec_ok n hok (bp_state u) rec" and tid: "tid < threads"
  shows "succeeds (undo_RAS tid rec u) (\<lambda>u'. inv n u' \<and> bp_state u' = bp_state u)"
proof -
  note t = unit_inv_thread [OF u tid]
  have i: "RASIndex rec < n" using r by (simp add: rec_ok_def)
  have "succeeds (rbind (ras_restore (RASIndex rec) (RASTarget rec) (bp_RAS u ! tid)) (\<lambda>s. set_RAS tid s u))
      (\<lambda>u'. inv n u' \<and> bp_state u' = bp_state u)"
    by (rule succeeds_bind [OF ras_restore_ok [OF t(3) i] set_RAS_ok [OF u tid]])
  then show ?thesis using u t(1) set_RAS_ok [OF u tid ras_ok_pop [OF t(3)]] by (simp add: undo_RAS_def)
qed

lemma squash_one_ok:
  assumes env: "be_dp env = dp" and u: "inv n u" and r: "rec_ok n hok (bp_state u) rec" and tid: "tid < threads"
  shows "succeeds (squash_one env tid rec u) (\<lambda>u'. inv n u' \<and> keeps pok hok (bp_state u) (bp_state u'))"
proof -
  obtain u1 where u1: "undo_RAS tid rec u = Inr u1" "inv n u1" "bp_state u1 = bp_state u"
    using undo_RAS_ok [OF u r tid] by (auto elim: succeedsE)
  have h: "hok (bp_state u1) (bpHistory rec)" using r u1(3) by (simp add: rec_ok_def)
  obtain p where p: "dp_squash dp (bp_state u1) tid (bpHistory rec) = Inr p" "keeps pok hok (bp_state u1) p"
    using squash_ok [OF inv_pok [OF u1(2)] tid h] by (auto elim: succeedsE)
  define u2 where "u2 = u1\<lparr>bp_state := p\<rparr>"
  have "inv n u2" unfolding u2_def by (rule unit_inv_state [OF u1(2) p(2)])
  moreover have "bp_state u2 = p" by (simp add: u2_def)
  ultimately show ?thesis using u1(1,3) p env by (auto simp: squash_one_def Let_def split: option.split simp flip: u2_def)
qed

lemma squash_loop_ok:
  assumes env: "be_dp env = dp" and tid: "tid < threads"
  shows "inv n u \<Longrightarrow> (\<And>r. r \<in> set rs \<Longrightarrow> rec_ok n hok (bp_state u) r) \<Longrightarrow>
    succeeds (squash_loop env sn tid rs u) (\<lambda>(rest, u'). inv n u' \<and> (\<forall>r \<in> set rest. rec_ok n hok (bp_state u') r))"
proof (induction rs arbitrary: u)
  case (Cons r rs)
  show ?case
  proof (cases "seqNum r > sn")
    case True
    obtain u1 where u1: "squash_one env tid r u = Inr u1" "inv n u1" "keeps pok hok (bp_state u) (bp_state u1)"
      using squash_one_ok [OF env Cons.prems(1) _ tid] Cons.prems(2) [of r] by (auto elim: succeedsE)
    have "succeeds (squash_loop env sn tid rs u1) (\<lambda>(rest, u'). inv n u' \<and> (\<forall>r \<in> set rest. rec_ok n hok (bp_state u') r))"
      by (rule Cons.IH [OF u1(2)]) (use u1(3) Cons.prems(2) rec_ok_keeps in fastforce)
    then show ?thesis using True u1(1) by simp
  qed (use Cons.prems in auto)
qed simp

lemma bp_squash_ok:
  assumes env: "be_dp env = dp" and u: "inv n u" and tid: "tid < threads"
  shows "succeeds (bp_squash env sn tid u) (inv n)"
proof -
  note t = unit_inv_thread [OF u tid]
  define v where "v = (case be_ip env of None \<Rightarrow> u | Some ip \<Rightarrow> u\<lparr>ip_state := ip_squash ip (ip_state u) sn tid\<rparr>)"
  have v: "inv n v" "bp_state v = bp_state u" using u by (auto simp: v_def split: option.split)
  obtain rest u1 where c: "squash_loop env sn tid (predHist u ! tid) v = Inr (rest, u1)"
    "inv n u1" "\<forall>r \<in> set rest. rec_ok n hok (bp_state u1) r"
    using squash_loop_ok [OF env tid v(1), of "predHist u ! tid" sn] t(4) v(2) by (auto elim: succeedsE)
  have "inv n (u1\<lparr>predHist := (predHist u1)[tid := rest]\<rparr>)" using unit_inv_hist [OF c(2) _ tid, of rest] c(3) by simp
  then show ?thesis using c(1) t(2) unit_inv_thread(2) [OF c(2) tid] by (simp add: bp_squash_def Let_def flip: v_def)
qed

text \<open>Correcting a record leaves the direction predictor alone.\<close>

definition corrected where
  "corrected n u = (\<lambda>(rec, u'). inv n u' \<and> bp_state u' = bp_state u \<and> rec_ok n hok (bp_state u) rec)"

lemma correct_not_taken_ok:
  assumes u: "inv n u" and r: "rec_ok n hok (bp_state u) rec" and tid: "tid < threads"
  shows "succeeds (correct_not_taken tid rec u) (corrected n u)"
proof -
  note t = unit_inv_thread [OF u tid]
  have i: "RASIndex rec < n" using r by (simp add: rec_ok_def)
  have "succeeds (rbind (ras_restore (RASIndex rec) (RASTarget rec) (bp_RAS u ! tid)) (\<lambda>s.
      rbind (set_RAS tid s u) (\<lambda>u. Inr (rec\<lparr>usedRAS := False\<rparr>, u)))) (corrected n u)"
    by (intro succeeds_bind [OF ras_restore_ok [OF t(3) i]] succeeds_bind [OF set_RAS_ok [OF u tid]])
       (use r in \<open>simp_all add: corrected_def rec_ok_def\<close>)
  moreover have "succeeds (rbind (set_RAS tid (ras_pop (bp_RAS u ! tid)) u) (\<lambda>u. Inr (rec\<lparr>pushedRAS := False\<rparr>, u))) (corrected n u)"
    by (intro succeeds_bind [OF set_RAS_ok [OF u tid ras_ok_pop [OF t(3)]]]) (use r in \<open>simp add: corrected_def rec_ok_def\<close>)
  ultimately show ?thesis using u r t(1) by (simp add: correct_not_taken_def corrected_def)
qed

lemma correct_taken_ok:
  assumes u: "inv n u" and r: "rec_ok n hok (bp_state u) rec" and tid: "tid < threads"
  shows "succeeds (correct_taken env corrTarget tid rec u) (corrected n u)"
proof -
  note t = unit_inv_thread [OF u tid]
  define m where "m = (if wasReturn rec \<and> \<not> usedRAS rec then
      rbind (vget (bp_RAS u) tid) (\<lambda>s. rbind (set_RAS tid (ras_pop s) u) (\<lambda>u. Inr (rec\<lparr>usedRAS := True\<rparr>, u)))
      else Inr (rec, u))"
  have "succeeds (rbind (set_RAS tid (ras_pop (bp_RAS u ! tid)) u) (\<lambda>u. Inr (rec\<lparr>usedRAS := True\<rparr>, u))) (corrected n u)"
    by (intro succeeds_bind [OF set_RAS_ok [OF u tid ras_ok_pop [OF t(3)]]]) (use r in \<open>simp add: corrected_def rec_ok_def\<close>)
  then have "succeeds m (corrected n u)" using u r t(1) by (simp add: m_def corrected_def)
  then obtain r1 u1 where m: "m = Inr (r1, u1)" and c: "corrected n u (r1, u1)" by (auto elim: succeedsE)
  then have b: "btb_ok threads (bp_BTB u1)" by (simp add: corrected_def unit_inv_def)
  have "succeeds (rbind (BTB_update (ph_pc r1) corrTarget tid (bp_BTB u1)) (\<lambda>b. Inr (r1, u1\<lparr>bp_BTB := b\<rparr>))) (corrected n u)"
    by (rule succeeds_bind [OF BTB_update_ok [OF b tid]]) (use c unit_inv_BTB in \<open>auto simp: corrected_def\<close>)
  then show ?thesis using c unfolding correct_taken_def m [unfolded m_def]
    by (simp add: corrected_def Let_def split: option.split)
qed

lemma bp_squash_correct_ok:
  assumes env: "be_dp env = dp" and u: "inv n u" and tid: "tid < threads" and c: "correctable sn (predHist u ! tid)"
  shows "succeeds (bp_squash_correct env sn corrTarget taken tid u) (inv n)"
proof -
  define us where "us = u\<lparr>bp_stats := (bp_stats u)\<lparr>st_condIncorrect := Suc (st_condIncorrect (bp_stats u))\<rparr>\<rparr>"
  have us: "inv n us" "predHist us = predHist u" using u by (simp_all add: us_def)
  obtain u1 where u1: "bp_squash env sn tid us = Inr u1" "inv n u1" using bp_squash_ok [OF env us(1) tid] by (auto elim: succeedsE)
  note t = unit_inv_thread [OF u1(2) tid]
  have h: "predHist u1 ! tid = dropWhile (\<lambda>r. sn < seqNum r) (predHist u ! tid)" using bp_squash_hist [OF u1(1)] us(2) by simp
  show ?thesis
  proof (cases "predHist u1 ! tid")
    case Nil
    then show ?thesis using u1 t(2) by (simp add: bp_squash_correct_def flip: us_def)
  next
    case (Cons r rs)
    then have sn: "seqNum r = sn" using c h by (simp add: correctable_def)
    have r: "rec_ok n hok (bp_state u1) r" and rs: "\<And>x. x \<in> set rs \<Longrightarrow> rec_ok n hok (bp_state u1) x" using t(4) Cons by simp_all
    define u2 where "u2 = (if usedRAS r
      then u1\<lparr>bp_stats := (bp_stats u1)\<lparr>st_RASIncorrect := st_RASIncorrect (bp_stats u1) + 1\<rparr>\<rparr> else u1)"
    define r2 where "r2 = r\<lparr>predTaken := taken, ph_target := instAddr env corrTarget\<rparr>"
    have u2: "inv n u2" "bp_state u2 = bp_state u1" using u1(2) by (simp_all add: u2_def)
    have hk: "hok (bp_state u2) (bpHistory r)" using r u2(2) by (simp add: rec_ok_def)
    obtain p where p: "dp_update dp (bp_state u2) tid (ph_pc r) taken (bpHistory r) True = Inr p" "keeps pok hok (bp_state u2) p"
      using update_ok [OF inv_pok [OF u2(1)] tid hk, of "ph_pc r" taken True] by (auto elim: succeedsE)
    define u3 where "u3 = u2\<lparr>bp_state := p\<rparr>"
    define u4 where "u4 = (case be_ip env of None \<Rightarrow> u3
      | Some ip \<Rightarrow> u3\<lparr>ip_state := ip_changeDirectionPrediction ip (ip_state u3) tid (the (indirectHistory r2)) taken\<rparr>)"
    have "inv n u3" unfolding u3_def by (rule unit_inv_state [OF u2(1) p(2)])
    then have u4: "inv n u4" "bp_state u4 = p" by (auto simp: u4_def u3_def split: option.split)
    have r4: "rec_ok n hok (bp_state u4) r2" and rs4: "\<And>x. x \<in> set rs \<Longrightarrow> rec_ok n hok (bp_state u4) x"
      using p(2) r rs u4(2) u2(2) by (simp_all add: r2_def rec_ok_def keeps_def)
    define m where "m = (if taken then correct_taken env corrTarget tid r2 u4 else correct_not_taken tid r2 u4)"
    have "succeeds m (corrected n u4)"
      using correct_taken_ok [OF u4(1) r4 tid, of env corrTarget] correct_not_taken_ok [OF u4(1) r4 tid] by (simp add: m_def)
    then obtain r5 u5 where m: "m = Inr (r5, u5)" and k: "corrected n u4 (r5, u5)" by (auto elim: succeedsE)
    then have u5: "inv n u5" "\<And>x. x \<in> set (r5 # rs) \<Longrightarrow> rec_ok n hok (bp_state u5) x" using rs4 by (auto simp: corrected_def)
    have "bp_squash_correct env sn corrTarget taken tid u = Inr (u5\<lparr>predHist := (predHist u5)[tid := r5 # rs]\<rparr>)"
      using u1(1) t(2) Cons sn p(1) env m unit_inv_thread(2) [OF u5(1) tid]
      unfolding bp_squash_correct_def u4_def u3_def m_def r2_def u2_def us_def by (simp add: Let_def split del: if_split)
    then show ?thesis using unit_inv_hist [OF u5(1) u5(2) tid, of "r5 # rs"] by simp
  qed
qed

end

subsection \<open>The three predictors meet the contract\<close>

definition loc_dp :: "(LocalBP, unit option) DirPredictor" where
  "loc_dp = \<lparr>dp_lookup = loc_lookup, dp_uncondBranch = loc_uncondBranch, dp_btbUpdate = loc_btbUpdate,
     dp_update = loc_update, dp_squash = loc_squash\<rparr>"

definition bm_dp :: "(BiModeBP, BiModeHistory option) DirPredictor" where
  "bm_dp = \<lparr>dp_lookup = bm_lookup, dp_uncondBranch = bm_uncondBranch, dp_btbUpdate = bm_btbUpdate,
     dp_update = bm_update, dp_squash = bm_squash\<rparr>"

definition tn_dp :: "(TournamentBP, TournamentHistory option) DirPredictor" where
  "tn_dp = \<lparr>dp_lookup = tn_lookup, dp_uncondBranch = tn_uncondBranch, dp_btbUpdate = tn_btbUpdate,
     dp_update = tn_update, dp_squash = tn_squash\<rparr>"

definition loc_ok :: "LocalBP \<Rightarrow> bool" where
  "loc_ok p \<longleftrightarrow> length (loc_localCtrs p) = unat (localPredictorSets p) \<and> indexMask p < localPredictorSets p"

lemma loc_index_in: "loc_ok p \<Longrightarrow> unat (getLocalIndex p a) < length (loc_localCtrs p)"
  using le_less_trans [OF ucast_and_le] by (auto simp: loc_ok_def getLocalIndex_def word_less_nat_alt)

lemma loc_ok_train: "loc_ok p \<Longrightarrow> loc_ok (p\<lparr>loc_localCtrs := (loc_localCtrs p)[i := c]\<rparr>)"
  by (simp add: loc_ok_def)

interpretation loc: total_predictor loc_dp threads loc_ok "\<lambda>p h. h = None" for threads
  by unfold_locales
    (auto simp: loc_dp_def loc_lookup_def loc_uncondBranch_def loc_btbUpdate_def loc_update_def loc_squash_def
      loc_index_in loc_ok_train keeps_def Let_def)

definition bm_ok :: "nat \<Rightarrow> BiModeBP \<Rightarrow> bool" where
  "bm_ok threads p \<longleftrightarrow> length (globalHistoryReg p) = threads \<and>
     length (choiceCounters p) = unat (bm_choicePredictorSize p) \<and> bm_choiceHistoryMask p < bm_choicePredictorSize p \<and>
     length (takenCounters p) = unat (bm_globalPredictorSize p) \<and> length (notTakenCounters p) = unat (bm_globalPredictorSize p) \<and>
     bm_globalHistoryMask p < bm_globalPredictorSize p"

lemma train_ok: "i < length cs \<Longrightarrow> succeeds (train taken i cs) (\<lambda>ds. length ds = length cs)"
  by (simp add: train_def vset_def)

lemma bm_index_in:
  assumes "bm_ok threads p"
  shows "bm_choiceIdx p a < bm_choicePredictorSize p" "unat (bm_choiceIdx p a) < length (choiceCounters p)"
    "bm_globalIdx p a g < bm_globalPredictorSize p" "unat (bm_globalIdx p a g) < length (takenCounters p)"
    "unat (bm_globalIdx p a g) < length (notTakenCounters p)"
  using assms le_less_trans [OF ucast_and_le]
  by (auto simp: bm_ok_def bm_choiceIdx_def bm_globalIdx_def word_less_nat_alt)

lemma bm_ok_train:
  assumes "bm_ok threads p"
  shows "length cs = length (takenCounters p) \<Longrightarrow> bm_ok threads (p\<lparr>takenCounters := cs\<rparr>)"
    "length cs = length (notTakenCounters p) \<Longrightarrow> bm_ok threads (p\<lparr>notTakenCounters := cs\<rparr>)"
    "length cs = length (choiceCounters p) \<Longrightarrow> bm_ok threads (p\<lparr>choiceCounters := cs\<rparr>)"
    "bm_ok threads (p\<lparr>globalHistoryReg := (globalHistoryReg p)[tid := g]\<rparr>)"
  using assms by (simp_all add: bm_ok_def)

lemma bm_lookup_ok:
  assumes p: "bm_ok threads p" and tid: "tid < threads"
  shows "succeeds (bm_lookup p tid a) (\<lambda>(b, h, t). bm_ok threads t \<and> h \<noteq> None)"
proof -
  have l: "tid < length (globalHistoryReg p)" using assms by (simp add: bm_ok_def)
  with bm_index_in [OF p] bm_ok_train(4) [OF p] show ?thesis by (simp add: bm_lookup_def Let_def updateGlobalHistReg_def)
qed

lemma bm_update_ok:
  assumes p: "bm_ok threads p" and tid: "tid < threads"
  shows "succeeds (bm_update p tid a taken (Some h) squashed) (bm_ok threads)"
proof (cases squashed)
  case True
  then show ?thesis using assms by (simp add: bm_update_def bm_ok_def)
next
  case False
  note i = bm_index_in [OF p, where a = a]
  define gi where "gi = unat (bm_globalIdx p a (bmh_globalHistoryReg h))"
  define m where "m = (if takenUsed h then rbind (train taken gi (takenCounters p)) (\<lambda>cs. Inr (p\<lparr>takenCounters := cs\<rparr>))
    else rbind (train taken gi (notTakenCounters p)) (\<lambda>cs. Inr (p\<lparr>notTakenCounters := cs\<rparr>)))"
  have "succeeds m (\<lambda>q. bm_ok threads q \<and> choiceCounters q = choiceCounters p)"
    using i(4,5) unfolding m_def gi_def by (auto intro!: succeeds_bind [OF train_ok] bm_ok_train [OF p])
  then obtain q where q: "m = Inr q" "bm_ok threads q" "choiceCounters q = choiceCounters p" by (auto elim: succeedsE)
  have "succeeds (rbind (train taken (unat (bm_choiceIdx p a)) (choiceCounters q)) (\<lambda>cs. Inr (q\<lparr>choiceCounters := cs\<rparr>))) (bm_ok threads)"
    using i(2) q(3) by (intro succeeds_bind [OF train_ok]) (auto intro!: bm_ok_train [OF q(2)])
  then show ?thesis using False i(1,3) q m_def unfolding gi_def by (simp add: bm_update_def Let_def)
qed

interpretation bm: total_predictor bm_dp threads "bm_ok threads" "\<lambda>p h. h \<noteq> None" for threads
proof unfold_locales
  fix s tid a assume s: "bm_ok threads s" and tid: "tid < threads"
  show "succeeds (dp_lookup bm_dp s tid a) (\<lambda>(b, h, t). keeps (bm_ok threads) (\<lambda>p h. h \<noteq> None) s t \<and> h \<noteq> None)"
    using bm_lookup_ok [OF s tid] by (simp add: bm_dp_def keeps_def)
  show "succeeds (dp_uncondBranch bm_dp s tid a) (\<lambda>(h, t). keeps (bm_ok threads) (\<lambda>p h. h \<noteq> None) s t \<and> h \<noteq> None)"
    using s tid by (simp add: bm_dp_def bm_uncondBranch_def updateGlobalHistReg_def bm_ok_def keeps_def)
  fix h :: "BiModeHistory option" assume "h \<noteq> None"
  then obtain h' where h: "h = Some h'" by blast
  show "succeeds (dp_btbUpdate bm_dp s tid a h) (\<lambda>(h', t). keeps (bm_ok threads) (\<lambda>p h. h \<noteq> None) s t \<and> h' \<noteq> None)"
    using s tid h by (simp add: bm_dp_def bm_btbUpdate_def bm_ok_def keeps_def)
  show "succeeds (dp_update bm_dp s tid a taken h squashed) (keeps (bm_ok threads) (\<lambda>p h. h \<noteq> None) s)" for taken squashed
    using bm_update_ok [OF s tid, of a taken h' squashed] by (auto simp: bm_dp_def keeps_def h elim!: succeeds_mono)
  show "succeeds (dp_squash bm_dp s tid h) (keeps (bm_ok threads) (\<lambda>p h. h \<noteq> None) s)"
    using s tid h by (simp add: bm_dp_def bm_squash_def bm_ok_def keeps_def)
qed

definition tn_ok :: "nat \<Rightarrow> TournamentBP \<Rightarrow> bool" where
  "tn_ok threads p \<longleftrightarrow> length (globalHistory p) = threads \<and>
     length (localHistoryTable p) = unat (localHistoryTableSize p) \<and> 0 < localHistoryTableSize p \<and>
     length (tn_localCtrs p) = unat (localPredictorSize p) \<and> localPredictorMask p < localPredictorSize p \<and>
     localPredictorMask p = mask (unat (localHistoryBits p)) \<and>
     unat (globalHistoryMask p) < length (globalCtrs p) \<and> unat (choiceHistoryMask p) < length (choiceCtrs p)"

definition tn_hok :: "TournamentBP \<Rightarrow> TournamentHistory option \<Rightarrow> bool" where
  "tn_hok p h = (case h of None \<Rightarrow> False
     | Some h \<Rightarrow> localHistoryIdx h \<noteq> invalidPredictorIndex \<longrightarrow> localHistoryIdx h < localHistoryTableSize p)"

lemma tn_hok_Some [simp]:
  "tn_hok p (Some h) \<longleftrightarrow> (localHistoryIdx h \<noteq> invalidPredictorIndex \<longrightarrow> localHistoryIdx h < localHistoryTableSize p)"
  by (simp add: tn_hok_def)

lemma unat_and_in: "unat (m :: u32) < n \<Longrightarrow> unat (x AND m) < n"
  using word_and_le1 [of x m] by (simp add: word_le_nat_alt)

lemma tn_index_in:
  assumes "tn_ok threads p"
  shows "calcLocHistIdx p a < localHistoryTableSize p" "unat (calcLocHistIdx p a) < length (localHistoryTable p)"
    "x AND localPredictorMask p < localPredictorSize p" "unat (x AND localPredictorMask p) < length (tn_localCtrs p)"
    "unat (x AND globalHistoryMask p) < length (globalCtrs p)" "unat (x AND choiceHistoryMask p) < length (choiceCtrs p)"
proof -
  have n: "0 < unat (localHistoryTableSize p)" using assms by (simp add: tn_ok_def word_less_nat_alt)
  then have "localHistoryTableSize p \<noteq> 0" by auto
  then have "localHistoryTableSize p - 1 < localHistoryTableSize p" using n by (simp add: word_less_nat_alt word_dec_pos)
  then show c: "calcLocHistIdx p a < localHistoryTableSize p" unfolding calcLocHistIdx_def by (rule le_less_trans [OF ucast_and_le])
  then show "unat (calcLocHistIdx p a) < length (localHistoryTable p)" using assms by (simp add: tn_ok_def word_less_nat_alt)
  have m: "unat (localPredictorMask p) < unat (localPredictorSize p)" using assms by (auto simp: tn_ok_def word_less_nat_alt)
  show l: "x AND localPredictorMask p < localPredictorSize p" using unat_and_in [OF m] by (simp add: word_less_nat_alt)
  show "unat (x AND localPredictorMask p) < length (tn_localCtrs p)" using unat_and_in [OF m] assms by (simp add: tn_ok_def)
qed (use assms in \<open>simp_all add: tn_ok_def unat_and_in\<close>)

lemma tn_ok_train:
  assumes "tn_ok threads p"
  shows "length cs = length (tn_localCtrs p) \<Longrightarrow> tn_ok threads (p\<lparr>tn_localCtrs := cs\<rparr>)"
    "length cs = length (globalCtrs p) \<Longrightarrow> tn_ok threads (p\<lparr>globalCtrs := cs\<rparr>)"
    "length cs = length (choiceCtrs p) \<Longrightarrow> tn_ok threads (p\<lparr>choiceCtrs := cs\<rparr>)"
    "tn_ok threads (p\<lparr>globalHistory := (globalHistory p)[tid := g]\<rparr>)"
    "tn_ok threads (p\<lparr>globalHistory := (globalHistory p)[tid := g], localHistoryTable := (localHistoryTable p)[i := l]\<rparr>)"
  using assms by (auto simp: tn_ok_def)

lemma tn_hok_upd [simp]:
  "tn_hok (p\<lparr>tn_localCtrs := cs\<rparr>) h = tn_hok p h" "tn_hok (p\<lparr>globalCtrs := cs\<rparr>) h = tn_hok p h"
  "tn_hok (p\<lparr>choiceCtrs := cs\<rparr>) h = tn_hok p h" "tn_hok (p\<lparr>globalHistory := g\<rparr>) h = tn_hok p h"
  "tn_hok (p\<lparr>localHistoryTable := l\<rparr>) h = tn_hok p h"
  "tn_hok (p\<lparr>globalHistory := g, localHistoryTable := l\<rparr>) h = tn_hok p h"
  by (simp_all add: tn_hok_def split: option.split)

text \<open>The history a lookup records, and the state it leaves.\<close>

lemma tn_lookup_result:
  assumes p: "tn_ok threads p" and tid: "tid < threads"
  shows "succeeds (tn_lookup p tid a) (\<lambda>(b, h, t). \<exists>h' x y. h = Some h' \<and> th_globalHistory h' = globalHistory p ! tid \<and>
    localHistoryIdx h' = calcLocHistIdx p a \<and>
    localHistory h' = localHistoryTable p ! unat (calcLocHistIdx p a) AND localPredictorMask p \<and>
    t = p\<lparr>globalHistory := (globalHistory p)[tid := x], localHistoryTable := (localHistoryTable p)[unat (calcLocHistIdx p a) := y]\<rparr>)"
proof -
  have "tid < length (globalHistory p)" using assms by (simp add: tn_ok_def)
  with tn_index_in [OF p] show ?thesis
    by (simp add: tn_lookup_def Let_def updateGlobalHist_def updateLocalHist_def split del: if_split) (intro exI, rule refl)
qed

lemma tn_update_ok:
  assumes p: "tn_ok threads p" and tid: "tid < threads"
  shows "succeeds (tn_update p tid a taken (Some h) squashed) (\<lambda>t. tn_ok threads t \<and> tn_hok t = tn_hok p)"
proof (cases squashed)
  case True
  have "tid < length (globalHistory p)" using assms by (simp add: tn_ok_def)
  then show ?thesis using True tn_index_in(1,2) [OF p] tn_ok_train(4,5) [OF p] by (simp add: tn_update_def Let_def fun_eq_iff)
next
  case False
  note i = tn_index_in [OF p]
  define lp where "lp = localHistory h AND localPredictorMask p"
  define valid where "valid \<longleftrightarrow> localHistory h \<noteq> invalidPredictorIndex"
  define ci where "ci = unat (th_globalHistory h AND choiceHistoryMask p)"
  define m where "m = (if localPredTaken h \<noteq> globalPredTaken h \<and> valid then
      if localPredTaken h = taken then rbind (train False ci (choiceCtrs p)) (\<lambda>cs. Inr (p\<lparr>choiceCtrs := cs\<rparr>))
      else if globalPredTaken h = taken then rbind (train True ci (choiceCtrs p)) (\<lambda>cs. Inr (p\<lparr>choiceCtrs := cs\<rparr>))
      else Inr p else Inr p)"
  have t: "succeeds (rbind (train b ci (choiceCtrs p)) (\<lambda>cs. Inr (p\<lparr>choiceCtrs := cs\<rparr>)))
      (\<lambda>q. \<exists>cs. q = p\<lparr>choiceCtrs := cs\<rparr> \<and> tn_ok threads q)" for b
    using i(6) by (intro succeeds_bind [OF train_ok]) (auto simp: ci_def intro!: tn_ok_train [OF p])
  have "p = p\<lparr>choiceCtrs := choiceCtrs p\<rparr>" by simp
  then have "\<exists>cs. p = p\<lparr>choiceCtrs := cs\<rparr>" by blast
  with t p have "succeeds m (\<lambda>q. \<exists>cs. q = p\<lparr>choiceCtrs := cs\<rparr> \<and> tn_ok threads q)" unfolding m_def by simp
  then obtain q cs where q: "m = Inr q" "q = p\<lparr>choiceCtrs := cs\<rparr>" "tn_ok threads q" by (auto elim: succeedsE)
  define gi where "gi = unat (th_globalHistory h AND globalHistoryMask q)"
  have "gi < length (globalCtrs q)" unfolding gi_def by (rule tn_index_in [OF q(3)])
  then obtain gs where gs: "train taken gi (globalCtrs q) = Inr gs" "length gs = length (globalCtrs q)"
    using train_ok by (blast elim: succeedsE)
  define q2 where "q2 = q\<lparr>globalCtrs := gs\<rparr>"
  have q2: "tn_ok threads q2" unfolding q2_def by (rule tn_ok_train(2) [OF q(3) gs(2)])
  have "unat lp < length (tn_localCtrs q2)" unfolding lp_def using i(4) by (simp add: q2_def q(2))
  then obtain ls where ls: "train taken (unat lp) (tn_localCtrs q2) = Inr ls" "length ls = length (tn_localCtrs q2)"
    using train_ok by (blast elim: succeedsE)
  have "tn_ok threads (q2\<lparr>tn_localCtrs := ls\<rparr>)" by (rule tn_ok_train(1) [OF q2 ls(2)])
  moreover have "tn_hok (q2\<lparr>tn_localCtrs := ls\<rparr>) = tn_hok p" "tn_hok q2 = tn_hok p" by (simp_all add: fun_eq_iff q2_def q(2))
  moreover have "tn_update p tid a taken (Some h) squashed = Inr (if valid then q2\<lparr>tn_localCtrs := ls\<rparr> else q2)"
    using False i(1,3) q(1) gs(1) ls(1) 
    unfolding m_def gi_def lp_def ci_def valid_def q2_def tn_update_def Let_def
    by (cases "localHistory h = invalidPredictorIndex") (simp_all split del: if_split)
  ultimately show ?thesis using q2 by simp
qed

interpretation tn: total_predictor tn_dp threads "tn_ok threads" tn_hok for threads
proof unfold_locales
  fix s tid a assume s: "tn_ok threads s" and tid: "tid < threads"
  have l: "tid < length (globalHistory s)" using s tid by (simp add: tn_ok_def)
  show "succeeds (dp_lookup tn_dp s tid a) (\<lambda>(b, h, t). keeps (tn_ok threads) tn_hok s t \<and> tn_hok t h)"
    using tn_lookup_result [OF s tid, of a] tn_index_in [OF s] tn_ok_train [OF s]
    by (auto simp: tn_dp_def keeps_def elim!: succeeds_mono)
  show "succeeds (dp_uncondBranch tn_dp s tid a) (\<lambda>(h, t). keeps (tn_ok threads) tn_hok s t \<and> tn_hok t h)"
    using l tn_ok_train [OF s] by (simp add: tn_dp_def tn_uncondBranch_def updateGlobalHist_def keeps_def)
  fix h assume h: "tn_hok s h"
  then obtain h' where h': "h = Some h'" by (auto simp: tn_hok_def split: option.splits)
  show "succeeds (dp_btbUpdate tn_dp s tid a h) (\<lambda>(h', t). keeps (tn_ok threads) tn_hok s t \<and> tn_hok t h')"
    using l h tn_index_in [OF s] tn_ok_train [OF s] by (simp add: tn_dp_def tn_btbUpdate_def keeps_def Let_def)
  show "succeeds (dp_update tn_dp s tid a taken h squashed) (keeps (tn_ok threads) tn_hok s)" for taken squashed
    using tn_update_ok [OF s tid, of a taken h' squashed] by (auto simp: tn_dp_def keeps_def h' elim!: succeeds_mono)
  have "unat (localHistoryIdx h') < length (localHistoryTable s)" if "localHistoryIdx h' \<noteq> invalidPredictorIndex"
    using that h s by (simp add: h' tn_ok_def word_less_nat_alt)
  then show "succeeds (dp_squash tn_dp s tid h) (keeps (tn_ok threads) tn_hok s)"
    using l tn_ok_train [OF s] by (simp add: tn_dp_def tn_squash_def h' Let_def keeps_def)
qed

subsection \<open>Constructors\<close>

lemma pow2_u32:
  assumes "isPowerOf2 (ucast (n :: u32))"
  obtains j where "j < 32" and "unat n = 2 ^ j" and "(ucast n :: u64) = 2 ^ j"
proof -
  obtain j where j: "j < 64" "(ucast n :: u64) = 2 ^ j" using assms unfolding isPowerOf2_iff by blast
  then have u: "unat n = 2 ^ j" using unat_2p [where 'a = 64, of j] by (simp flip: unat_u64)
  moreover have "unat n < 2 ^ 32" using unsigned_less [of n, where ?'a = nat] by simp
  ultimately have "(2::nat) ^ j < 2 ^ 32" by (simp only:)
  then have "j < 32" by (rule power_less_imp_less_exp [rotated]) simp
  from that [OF this u j(2)] show ?thesis .
qed

lemma pow2_pred_less: "isPowerOf2 (ucast (n :: u32)) \<Longrightarrow> n - 1 < n"
proof -
  assume "isPowerOf2 (ucast n)"
  then have n: "n \<noteq> 0" by (auto simp: isPowerOf2_def)
  then have "0 < unat n" by (simp add: unat_gt_0)
  with n show ?thesis by (simp add: word_less_nat_alt word_dec_pos)
qed

lemma ceilLog2_pow: "j < 64 \<Longrightarrow> ceilLog2 (2 ^ j) = Inr (int j)"
proof (cases "j = 0")
  case False
  assume j: "j < 64"
  then have u: "unat (2 ^ j :: u64) = 2 ^ j" by (simp add: unat_2p)
  have "(1::nat) < 2 ^ j" using False one_less_power [of "2::nat" j] by simp
  then obtain k where k: "ceilLog2 (2 ^ j) = Inr k" "0 < k" "2 ^ (nat k - 1) < (2::nat) ^ j" "(2::nat) ^ j \<le> 2 ^ nat k"
    using ceilLog2_nat [of "2 ^ j"] unfolding u by (auto elim: succeedsE)
  then have "nat k - 1 < j" "j \<le> nat k" by simp_all
  with k(2) have "k = int j" by linarith
  with k(1) show ?thesis by simp
qed (simp add: ceilLog2_def)

lemma floorLog2_bounds:
  assumes "floorLog2 x = Inr k"
  shows "0 \<le> k" "2 ^ nat k \<le> unat x" "unat x < 2 ^ Suc (nat k)"
proof -
  have x: "x \<noteq> 0" using assms by (auto simp: floorLog2_def)
  then have "k = findMsbSet x" using assms floorLog2_findMsbSet by simp
  then have "0 \<le> k \<and> is_msb x (nat k)" using msb_steps_correct [OF x] by (auto simp: findMsbSet_steps [OF x])
  then show "0 \<le> k" "2 ^ nat k \<le> unat x" "unat x < 2 ^ Suc (nat k)" by (simp_all add: is_msb_bounds)
qed

lemma TournamentBP_new_ok:
  assumes "TournamentBP_new threads localSize localBits histSize globalSize globalBits choiceSize choiceBits shift = Inr p"
  shows "tn_ok threads p"
proof -
  have pw: "isPowerOf2 (ucast localSize)" "isPowerOf2 (ucast histSize)" "isPowerOf2 (ucast globalSize)" "isPowerOf2 (ucast choiceSize)"
    using assms by (auto simp: TournamentBP_new_def res_simps Let_def split: if_splits)
  obtain j where j: "j < 32" "unat localSize = 2 ^ j" "(ucast localSize :: u64) = 2 ^ j" using pow2_u32 [OF pw(1)] .
  have lb: "ceilLog2 (ucast localSize) = Inr (int j)" unfolding j(3) using j(1) by (simp add: ceilLog2_pow)
  have f: "localHistoryBits p = of_nat j" "localPredictorMask p = ucast (mask_bf j)" "localPredictorSize p = localSize"
    "length (tn_localCtrs p) = unat localSize" "localHistoryTableSize p = histSize" "length (localHistoryTable p) = unat histSize"
    "length (globalHistory p) = threads" "globalHistoryMask p = globalSize - 1" "length (globalCtrs p) = unat globalSize"
    "choiceHistoryMask p = choiceSize - 1" "length (choiceCtrs p) = unat choiceSize"
    using assms lb by (auto simp: TournamentBP_new_def res_simps Let_def split: if_splits)
  have b: "unat (of_nat j :: u32) = j" using j(1) by (simp add: unat_of_nat)
  have "(ucast (mask_bf j :: u64) :: u32) = mask j" using j(1) by (intro bit_word_eqI) (auto simp: bit_unsigned_iff bit_mask_iff)
  moreover have e: "unat (2 ^ j :: u32) = 2 ^ j" using j(1) by (simp add: unat_2p)
  have "(2 ^ j :: u32) \<noteq> 0"
  proof
    assume "(2 ^ j :: u32) = 0"
    with e show False by simp
  qed
  then have "unat (mask j :: u32) = 2 ^ j - 1" using e by (simp add: mask_eq_exp_minus_1 word_dec_pos)
  ultimately have m: "localPredictorMask p = mask (unat (localHistoryBits p))" "localPredictorMask p < localPredictorSize p"
    using j(2) by (simp_all add: f b word_less_nat_alt)
  have "0 < histSize" using pw(2) by (auto simp: isPowerOf2_def word_gt_0)
  with m pow2_pred_less [OF pw(3)] pow2_pred_less [OF pw(4)] show ?thesis by (simp add: tn_ok_def f word_less_nat_alt)
qed

lemma BiModeBP_new_ok: "BiModeBP_new threads choiceSize choiceBits globalSize globalBits shift = Inr p \<Longrightarrow> bm_ok threads p"
  by (auto simp: BiModeBP_new_def res_simps Let_def bm_ok_def intro: pow2_pred_less split: if_splits)

lemma LocalBP_new_ok: "LocalBP_new sz bits shift = Inr p \<Longrightarrow> loc_ok p"
  by (auto simp: LocalBP_new_def res_simps Let_def loc_ok_def intro: pow2_pred_less split: if_splits)

text \<open>Sizes that the unit is configured with: at least one entry per thread, and shifts within an address.\<close>

definition unit_config :: "nat \<Rightarrow> u32 \<Rightarrow> u32 \<Rightarrow> u32 \<Rightarrow> bool" where
  "unit_config threads btbEntries shift rasSize \<longleftrightarrow>
     threads \<le> unat btbEntries \<and> unat btbEntries \<le> 2 ^ 30 \<and> unat shift < 32 \<and> 0 < rasSize"

lemma DefaultBTB_new_ok:
  assumes new: "DefaultBTB_new zero n tb shift (of_nat threads) = Inr b" and c: "unit_config threads n shift ras"
  shows "btb_ok threads b"
proof -
  have tn: "threads \<le> unat n" "unat n \<le> 2 ^ 30" and sh: "unat shift < 32" using c by (simp_all add: unit_config_def)
  then have "threads < 2 ^ 32" by simp
  then have t: "unat (ucast (of_nat threads :: u32) :: u64) = threads" by (simp add: unat_u64 unat_of_nat)
  from new obtain lt ln where lt: "floorLog2 (ucast (of_nat threads :: u32)) = Inr lt" and ln: "floorLog2 (ucast n) = Inr ln"
    and pw: "isPowerOf2 (ucast n)" and b: "btb b = replicate (unat n) (BTBEntry_new zero)" "btb_numEntries b = n" "idxMask b = n - 1"
      "btb_instShiftAmt b = shift" "tagShiftAmt b = shift + of_int ln" "log2NumThreads b = of_int lt"
    by (auto simp: DefaultBTB_new_def res_simps split: if_splits)
  note bt = floorLog2_bounds [OF lt, unfolded t] and bn = floorLog2_bounds [OF ln, unfolded unat_u64]
  have "(2::nat) ^ nat lt < 2 ^ Suc (nat ln)" using bt(2) tn(1) bn(3) by linarith
  then have le: "nat lt \<le> nat ln" by (simp only: power_strict_increasing_iff [of "2::nat"] one_less_numeral_iff semiring_norm less_Suc_eq_le)
  have "(2::nat) ^ nat ln \<le> 2 ^ 30" using bn(2) tn(2) by linarith
  then have ln30: "nat ln \<le> 30" by (rule power_le_imp_le_exp [rotated]) simp
  have k: "tagShiftAmt b - btb_instShiftAmt b - log2NumThreads b = of_nat (nat ln - nat lt)"
    using le bt(1) bn(1) by (simp add: b of_nat_diff)
  have uk: "unat (of_nat (nat ln - nat lt) :: u32) = nat ln - nat lt" using ln30 by (simp add: unat_of_nat)
  have "threads * 2 ^ (nat ln - nat lt) \<le> 2 ^ Suc (nat lt) * 2 ^ (nat ln - nat lt)" using bt(3) by (intro mult_right_mono) simp_all
  also have "\<dots> = 2 ^ Suc (nat ln)" using le by (simp flip: power_add)
  also have "\<dots> \<le> 2 ^ 31" using ln30 by (intro power_increasing) simp_all
  finally have "threads * 2 ^ (nat ln - nat lt) \<le> 2 ^ 31" .
  moreover have "(of_int ln :: u32) = of_nat (nat ln)" using bn(1) by simp
  then have "unat (of_int ln :: u32) = nat ln" using ln30 by (simp only: unat_of_nat) simp
  then have "unat (tagShiftAmt b) < 64" using sh ln30 by (simp add: b unat_word_ariths)
  ultimately show ?thesis using pow2_pred_less [OF pw] sh ln30 unfolding btb_ok_def k uk by (simp add: b)
qed

lemma BPredUnit_new_ok:
  assumes "BPredUnit_new zero threads btbEntries tb shift rasSize p i = Inr u" and c: "unit_config threads btbEntries shift rasSize"
    and "pok p"
  shows "unit_inv threads rasSize pok hok u"
proof -
  have n: "0 < rasSize" using c by (simp add: unit_config_def)
  from assms(1) obtain b where b: "DefaultBTB_new zero btbEntries tb shift (of_nat threads) = Inr b"
    and u: "u = \<lparr>bp_state = p, ip_state = i, predHist = replicate threads [], bp_BTB = b,
      bp_RAS = replicate threads (ras_init zero rasSize), bp_stats = BPStats_new\<rparr>"
    by (auto simp: BPredUnit_new_def res_simps)
  show ?thesis unfolding u using DefaultBTB_new_ok [OF b c] ras_ok_init [OF n, of zero] assms(3) n by (simp add: unit_inv_def)
qed

subsection \<open>The states of a unit\<close>

inductive unit_reach for env threads u0 where
  start: "unit_reach env threads u0 u0"
| predicts: "unit_reach env threads u0 u \<Longrightarrow> tid < threads \<Longrightarrow> predict env inst sn pc tid u = Inr (taken, target, u') \<Longrightarrow>
    unit_reach env threads u0 u'"
| commits: "unit_reach env threads u0 u \<Longrightarrow> tid < threads \<Longrightarrow> bp_update env sn tid u = Inr u' \<Longrightarrow> unit_reach env threads u0 u'"
| squashes: "unit_reach env threads u0 u \<Longrightarrow> tid < threads \<Longrightarrow> bp_squash env sn tid u = Inr u' \<Longrightarrow> unit_reach env threads u0 u'"
| corrects: "unit_reach env threads u0 u \<Longrightarrow> tid < threads \<Longrightarrow> correctable sn (predHist u ! tid) \<Longrightarrow>
    bp_squash_correct env sn corrTarget taken tid u = Inr u' \<Longrightarrow> unit_reach env threads u0 u'"

text \<open>Every operation on every reachable state returns.\<close>

definition unit_safe where
  "unit_safe env threads u0 \<longleftrightarrow> (\<forall>u tid. unit_reach env threads u0 u \<longrightarrow> tid < threads \<longrightarrow>
     (\<forall>inst sn pc. \<exists>r. predict env inst sn pc tid u = Inr r) \<and> (\<forall>sn. \<exists>u'. bp_update env sn tid u = Inr u') \<and>
     (\<forall>sn. \<exists>u'. bp_squash env sn tid u = Inr u') \<and>
     (\<forall>sn pc taken. correctable sn (predHist u ! tid) \<longrightarrow> (\<exists>u'. bp_squash_correct env sn pc taken tid u = Inr u')))"

context total_predictor
begin

lemma reach_inv:
  assumes env: "be_dp env = dp" and u0: "inv n u0"
  shows "unit_reach env threads u0 u \<Longrightarrow> inv n u"
proof (induction rule: unit_reach.induct)
  case (predicts u tid inst sn pc taken target u')
  then show ?case using predict_ok [OF env predicts.IH predicts.hyps(2), of inst sn pc] by simp
next
  case (commits u tid sn u')
  then show ?case using bp_update_ok [OF env commits.IH commits.hyps(2), of sn] by simp
next
  case (squashes u tid sn u')
  then show ?case using bp_squash_ok [OF env squashes.IH squashes.hyps(2), of sn] by simp
next
  case (corrects u tid sn corrTarget taken u')
  then show ?case using bp_squash_correct_ok [OF env corrects.IH corrects.hyps(2,3), of corrTarget taken] by simp
qed (rule u0)

lemma inv_safe:
  assumes env: "be_dp env = dp" and u0: "inv n u0"
  shows "unit_safe env threads u0"
  unfolding unit_safe_def
proof (intro allI impI conjI)
  fix u tid assume r: "unit_reach env threads u0 u" and tid: "tid < threads"
  note u = reach_inv [OF env u0 r]
  show "\<exists>r. predict env inst sn pc tid u = Inr r" for inst sn pc using predict_ok [OF env u tid] by (blast elim: succeedsE)
  show "\<exists>u'. bp_update env sn tid u = Inr u'" for sn using bp_update_ok [OF env u tid] by (blast elim: succeedsE)
  show "\<exists>u'. bp_squash env sn tid u = Inr u'" for sn using bp_squash_ok [OF env u tid] by (blast elim: succeedsE)
  show "\<exists>u'. bp_squash_correct env sn pc taken tid u = Inr u'" if "correctable sn (predHist u ! tid)" for sn pc taken
    using bp_squash_correct_ok [OF env u tid that] by (blast elim: succeedsE)
qed

end

subsection \<open>Properties\<close>

lemma btb_key_upd [simp]:
  "btb_getIndex (b\<lparr>btb := es\<rparr>) a tid = btb_getIndex b a tid" "btb_getTag (b\<lparr>btb := es\<rparr>) a = btb_getTag b a"
  by (simp_all add: btb_getIndex_def btb_getTag_def Let_def cong: if_cong)

text \<open>
  C24 The target buffer is a cache of the last targets. Updating the entry of a branch makes a lookup of the same branch
  and thread hit and return the new target. The lookup of any other branch and thread that is stored in the
  same entry then misses, unless it agrees in tag and thread and so is taken for the updated one; the lookup
  of a branch stored in another entry is unchanged.
\<close>

theorem btb_lookup_after_update:
  assumes "btb_ok threads b" and "tid < threads" and "tid' < threads"
  shows "\<exists>b' i i' g g'. BTB_update a target tid b = Inr b' \<and>
    btb_getIndex b a tid = Inr i \<and> btb_getIndex b a' tid' = Inr i' \<and> btb_getTag b a = Inr g \<and> btb_getTag b a' = Inr g' \<and>
    BTB_valid b' a' tid' = (if i' = i then Inr (g' = g \<and> tid' = tid) else BTB_valid b a' tid') \<and>
    BTB_lookup zero b' a' tid' =
      (if i' = i then Inr (if g' = g \<and> tid' = tid then target else zero) else BTB_lookup zero b a' tid')"
proof -
  obtain i where i: "btb_getIndex b a tid = Inr i" "i < btb_numEntries b" using btb_getIndex_ok [OF assms(1,2)] by (auto elim: succeedsE)
  obtain i' where i': "btb_getIndex b a' tid' = Inr i'" "i' < btb_numEntries b" using btb_getIndex_ok [OF assms(1,3)] by (auto elim: succeedsE)
  obtain g where g: "btb_getTag b a = Inr g" using btb_getTag_ok [OF assms(1)] by (blast elim: succeedsE)
  obtain g' where g': "btb_getTag b a' = Inr g'" using btb_getTag_ok [OF assms(1)] by (blast elim: succeedsE)
  have l: "unat i < length (btb b)" "unat i' < length (btb b)" using i i' assms(1) by (simp_all add: btb_ok_def word_less_nat_alt)
  define b' where "b' = b\<lparr>btb := (btb b)[unat i := \<lparr>btb_tag = g, btb_target = target, btb_tid = Some tid, btb_valid = True\<rparr>]\<rparr>"
  have u: "BTB_update a target tid b = Inr b'" using i g l(1) by (simp add: BTB_update_def b'_def)
  have s: "btb_getIndex b' a' tid' = Inr i'" "btb_getTag b' a' = Inr g'" "btb_numEntries b' = btb_numEntries b"
    using i' g' by (simp_all add: b'_def)
  have "btb_probe b' a' tid' = (if i' = i then Inr (g' = g \<and> tid' = tid, btb b' ! unat i) else btb_probe b a' tid')"
    using i' g' l s by (auto simp: btb_probe_def b'_def word_unat_eq_iff)
  then have "BTB_valid b' a' tid' = (if i' = i then Inr (g' = g \<and> tid' = tid) else BTB_valid b a' tid')"
    "BTB_lookup zero b' a' tid' = (if i' = i then Inr (if g' = g \<and> tid' = tid then target else zero) else BTB_lookup zero b a' tid')"
    using l(1) by (simp_all add: BTB_valid_def BTB_lookup_def b'_def)
  with u i(1) i'(1) g g' show ?thesis by blast
qed

theorem btb_lookup_after_update_witness:
  "\<exists>b b'. DefaultBTB_new (0 :: Addr) 4 8 0 1 = Inr b \<and> BTB_update 20 96 0 b = Inr b' \<and>
     BTB_lookup 0 b' 20 0 = Inr 96 \<and> BTB_lookup 0 b' 24 0 = Inr 0"
proof -
  have "floorLog2 4 = Inr 2" "floorLog2 1 = Inr 0" "isPowerOf2 4" by code_simp+
  then obtain b where b: "DefaultBTB_new (0 :: Addr) 4 8 0 1 = Inr b"
    and f: "idxMask b = 3" "tagMask b = 255" "btb_instShiftAmt b = 0" "tagShiftAmt b = 2" "log2NumThreads b = 0"
    by (simp add: DefaultBTB_new_def)
  then have ok: "btb_ok 1 b" using DefaultBTB_new_ok [of 0 4 8 0 1 b 4] by (simp add: unit_config_def)
  have k: "btb_getTag b 20 = Inr 5" "btb_getTag b 24 = Inr 6" "btb_getIndex b 20 0 = Inr 0" "btb_getIndex b 24 0 = Inr 0"
    by (simp_all add: btb_getTag_def btb_getIndex_def f)
  show ?thesis
    using b k btb_lookup_after_update [OF ok, of 0 0 20 96 20 0] btb_lookup_after_update [OF ok, of 0 0 20 96 24 0] by auto
qed

text \<open>
  C12 A branch prediction unit never fails. Take any unit that the constructors accept, with the local, the bi-mode or
  the tournament predictor, at least one target buffer entry per thread and at most \<open>2^30\<close>, a shift of the
  target buffer below 32 and a return address stack that is not empty. After any sequence of predictions, commits, squashes and corrections, every further prediction, commit
  and squash returns: no assertion fails, no table is read or written past its end and no history is missing. A
  correction returns whenever the squashed branch is still in the history, or nothing older is.
\<close>

theorem branch_units_never_fail:
  assumes "unit_config threads btbEntries shift rasSize"
  shows "(LocalBP_new sz bits lshift = Inr pl \<longrightarrow> BPredUnit_new zero threads btbEntries tb shift rasSize pl i = Inr ul \<longrightarrow>
      be_dp el = loc_dp \<longrightarrow> unit_safe el threads ul) \<and>
    (BiModeBP_new threads choiceSize choiceBits globalSize globalBits lshift = Inr pb \<longrightarrow>
      BPredUnit_new zero threads btbEntries tb shift rasSize pb i = Inr ub \<longrightarrow> be_dp eb = bm_dp \<longrightarrow> unit_safe eb threads ub) \<and>
    (TournamentBP_new threads sz bits histSize globalSize globalBits choiceSize choiceBits lshift = Inr pt \<longrightarrow>
      BPredUnit_new zero threads btbEntries tb shift rasSize pt i = Inr ut \<longrightarrow> be_dp et = tn_dp \<longrightarrow> unit_safe et threads ut)"
  using assms BPredUnit_new_ok loc.inv_safe bm.inv_safe tn.inv_safe LocalBP_new_ok BiModeBP_new_ok TournamentBP_new_ok
  by (metis (no_types, lifting))

text \<open>Units for concrete runs: one thread, addresses as program counters and no indirect predictor.\<close>

definition plain_env :: "('p, 'h) DirPredictor \<Rightarrow> ('p, 'h, unit, unit, Addr) BPEnv" where
  "plain_env dp = \<lparr>be_dp = dp, be_ip = None, instAddr = id, buildRetPC = (\<lambda>pc r. r + 4), advancePC = (\<lambda>pc inst. pc + 4), zeroPC = 0\<rparr>"

lemma plain_env_simps [simp]:
  "be_dp (plain_env dp) = dp" "be_ip (plain_env dp) = None" "instAddr (plain_env dp) = id" "zeroPC (plain_env dp) = 0"
  "buildRetPC (plain_env dp) = (\<lambda>pc r. r + 4)" "advancePC (plain_env dp) = (\<lambda>pc inst. pc + 4)"
  by (simp_all add: plain_env_def)

lemma not_isl: "\<not> isl x \<Longrightarrow> \<exists>y. x = Inr y"
  by (cases x) auto

theorem branch_units_never_fail_witness:
  "\<exists>pl ul pb ub pt ut.
     LocalBP_new 8 2 0 = Inr pl \<and> BPredUnit_new 0 1 4 8 0 4 pl () = Inr ul \<and> unit_safe (plain_env loc_dp) 1 ul \<and>
     BiModeBP_new 1 4 2 4 2 0 = Inr pb \<and> BPredUnit_new 0 1 4 8 0 4 pb () = Inr ub \<and> unit_safe (plain_env bm_dp) 1 ub \<and>
     TournamentBP_new 1 8 2 4 4 2 4 2 0 = Inr pt \<and> BPredUnit_new 0 1 4 8 0 4 pt () = Inr ut \<and> unit_safe (plain_env tn_dp) 1 ut"
proof -
  have "\<not> isl (LocalBP_new 8 2 0)" "\<not> isl (BiModeBP_new 1 4 2 4 2 0)" "\<not> isl (TournamentBP_new 1 8 2 4 4 2 4 2 0)"
    by code_simp+
  then obtain pl pb pt where p: "LocalBP_new 8 2 0 = Inr pl" "BiModeBP_new 1 4 2 4 2 0 = Inr pb" "TournamentBP_new 1 8 2 4 4 2 4 2 0 = Inr pt"
    using not_isl by metis
  have "\<not> isl (DefaultBTB_new (0 :: Addr) 4 8 0 (of_nat 1))" by code_simp
  then obtain b where "DefaultBTB_new (0 :: Addr) 4 8 0 (of_nat 1) = Inr b" using not_isl by blast
  then obtain ul ub ut where u: "BPredUnit_new 0 1 4 8 0 4 pl () = Inr (ul :: (LocalBP, unit option, unit, unit, Addr) BPredUnit)"
    "BPredUnit_new 0 1 4 8 0 4 pb () = Inr (ub :: (BiModeBP, BiModeHistory option, unit, unit, Addr) BPredUnit)"
    "BPredUnit_new 0 1 4 8 0 4 pt () = Inr (ut :: (TournamentBP, TournamentHistory option, unit, unit, Addr) BPredUnit)"
    by (simp add: BPredUnit_new_def)
  have c: "unit_config 1 4 0 4" by (simp add: unit_config_def)
  from branch_units_never_fail [OF c, of 8 2 0 pl 0 8 "()" ul "plain_env loc_dp" 4 2 4 2 pb ub "plain_env bm_dp" 4 pt ut "plain_env tn_dp"]
  show ?thesis using p u by auto
qed

end
