(* ===== verification/BPredSquash.thy ===== *)
theory BPredSquash
  imports BPredSafe
begin

text \<open>
  Taking back speculation. A locale extends the contract of a direction predictor by the laws under which its
  speculative updates can be undone, and the lemmas inside show that the unit then takes back a whole run of
  predictions. The three predictors are interpreted.
\<close>

subsection \<open>Squashing a run of predictions\<close>

fun predict_all where
  "predict_all env tid [] u = Inr u"
| "predict_all env tid ((inst, sn, pc) # xs) u =
     rbind (predict env inst sn pc tid u) (\<lambda>(taken, target, u). predict_all env tid xs u)"

fun squash_all where
  "squash_all env tid [] u = Inr u"
| "squash_all env tid (r # rs) u = rbind (squash_one env tid r u) (squash_all env tid rs)"

lemma squash_all_append: "squash_all env tid (rs @ ss) u = rbind (squash_all env tid rs u) (squash_all env tid ss)"
proof (induction rs arbitrary: u)
  case (Cons r rs)
  then show ?case by (cases "squash_one env tid r u") simp_all
qed simp

lemma squash_loop_all:
  assumes "\<And>r. r \<in> set rs \<Longrightarrow> sn < seqNum r" and "ys \<noteq> [] \<Longrightarrow> seqNum (hd ys) \<le> sn"
  shows "squash_loop env sn tid (rs @ ys) u = rbind (squash_all env tid rs u) (\<lambda>u. Inr (ys, u))"
  using assms
proof (induction rs arbitrary: u)
  case Nil
  then show ?case by (cases ys) (auto simp: not_less)
next
  case (Cons r rs)
  then show ?case using Cons.prems(1) [of r] by (cases "squash_one env tid r u") simp_all
qed

lemma undo_RAS_undo:
  assumes "tid < length (bp_RAS u)" and "ras_undo r (bp_RAS u ! tid) = Inr s"
  shows "undo_RAS tid r u = Inr (u\<lparr>bp_RAS := (bp_RAS u)[tid := s]\<rparr>)"
  using assms by (auto simp: undo_RAS_def ras_undo_def kind_of_def set_RAS_def split: if_splits)

definition unit_like where
  "unit_like R tid W u u' \<longleftrightarrow> R (bp_state u') (bp_state u) \<and> bp_BTB u' = bp_BTB u \<and>
     length (bp_RAS u') = length (bp_RAS u) \<and> (\<forall>t. t \<noteq> tid \<longrightarrow> bp_RAS u' ! t = bp_RAS u ! t) \<and>
     ras_agree (bp_RAS u ! tid) (bp_RAS u' ! tid) W"

text \<open>The return address \<open>d\<close> entries below the top, and when all but the \<open>k\<close> oldest entries are back.\<close>

definition ras_entry :: "'pc ReturnAddrStack \<Rightarrow> nat \<Rightarrow> 'pc" where
  "ras_entry r d = addrStack r ! ((unat (tos r) + (ras_n r - d)) mod ras_n r)"

definition ras_restored :: "nat \<Rightarrow> 'pc ReturnAddrStack \<Rightarrow> 'pc ReturnAddrStack \<Rightarrow> bool" where
  "ras_restored k r r' \<longleftrightarrow> ras_numEntries r' = ras_numEntries r \<and> tos r' = tos r \<and>
     (\<forall>d < ras_n r - k. ras_entry r' d = ras_entry r d)"

lemma ras_restoredI:
  assumes wf: "ras_wf r" and ag: "ras_agree r r' (above_tos r k)"
  shows "ras_restored k r r'"
proof -
  have "ras_entry r' d = ras_entry r d" if d: "d < ras_n r - k" for d
  proof -
    have "(unat (tos r) + (ras_n r - d)) mod ras_n r < length (addrStack r)" using wf d by (simp add: ras_wf_def)
    with ag above_tos_young [OF d] show ?thesis by (simp add: ras_agree_def ras_entry_def)
  qed
  with ag show ?thesis by (simp add: ras_restored_def ras_agree_def)
qed

text \<open>
  A direction predictor that can take back its speculative updates, up to an equivalence under which it
  makes the same predictions. \<open>uncond_undoable\<close> says whether this includes an unconditional branch that missed
  in the target buffer.
\<close>

locale speculative_predictor = total_predictor +
  fixes R :: "'a \<Rightarrow> 'a \<Rightarrow> bool" and uncond_undoable :: bool
  assumes R_refl: "R s s"
    and lookup_same: "pok s \<Longrightarrow> tid < threads \<Longrightarrow> R s s' \<Longrightarrow> dp_lookup dp s tid a = Inr (b, h, t) \<Longrightarrow>
      \<exists>t'. dp_lookup dp s' tid a = Inr (b, h, t') \<and> R t t'"
    and lookup_undo: "pok s \<Longrightarrow> tid < threads \<Longrightarrow> dp_lookup dp s tid a = Inr (b, h, t) \<Longrightarrow> R t' t \<Longrightarrow>
      \<exists>s'. dp_squash dp t' tid h = Inr s' \<and> R s' s"
    and uncond_undo: "pok s \<Longrightarrow> tid < threads \<Longrightarrow> dp_uncondBranch dp s tid a = Inr (h, t) \<Longrightarrow> R t' t \<Longrightarrow>
      \<exists>s'. dp_squash dp t' tid h = Inr s' \<and> R s' s"
    and lookup_btb_undo: "pok s \<Longrightarrow> tid < threads \<Longrightarrow> dp_lookup dp s tid a = Inr (b, h, t) \<Longrightarrow>
      dp_btbUpdate dp t tid a h = Inr (h2, v) \<Longrightarrow> R v' v \<Longrightarrow> \<exists>s'. dp_squash dp v' tid h2 = Inr s' \<and> R s' s"
    and uncond_btb_undo: "uncond_undoable \<Longrightarrow> pok s \<Longrightarrow> tid < threads \<Longrightarrow> dp_uncondBranch dp s tid a = Inr (h, t) \<Longrightarrow>
      dp_btbUpdate dp t tid a h = Inr (h2, v) \<Longrightarrow> R v' v \<Longrightarrow> \<exists>s'. dp_squash dp v' tid h2 = Inr s' \<and> R s' s"
begin

text \<open>The branches this predictor can take back.\<close>

definition undoable :: "StaticInst \<Rightarrow> bool" where
  "undoable inst \<longleftrightarrow> uncond_undoable \<or> \<not> isUncondCtrl inst \<or> isCall inst \<or> isReturn inst"

lemma predicted_undo:
  assumes p: "predicted env inst pc tid rec u u1" and env: "be_dp env = dp" and ok: "undoable inst"
    and wf: "pok (bp_state u)" and tid: "tid < threads" and R: "R t' (bp_state u1)"
  shows "\<exists>s'. dp_squash dp t' tid (bpHistory rec) = Inr s' \<and> R s' (bp_state u)"
proof -
  obtain h t where d: "dir_step dp inst tid (instAddr env pc) (bp_state u) h t"
    and c: "bp_state u1 = t \<and> bpHistory rec = h \<or> \<not> isCall inst \<and> \<not> isReturn inst \<and>
         dp_btbUpdate dp t tid (instAddr env pc) h = Inr (bpHistory rec, bp_state u1)"
    using p env unfolding predicted_def by blast
  show ?thesis
  proof (cases "isUncondCtrl inst")
    case True
    with d have l: "dp_uncondBranch dp (bp_state u) tid (instAddr env pc) = Inr (h, t)" by (simp add: dir_step_def)
    from c show ?thesis
    proof (elim disjE conjE)
      assume "bp_state u1 = t" "bpHistory rec = h"
      with uncond_undo [OF wf tid l] R show ?thesis by simp
    next
      assume a: "\<not> isCall inst" "\<not> isReturn inst"
        and b: "dp_btbUpdate dp t tid (instAddr env pc) h = Inr (bpHistory rec, bp_state u1)"
      with ok True have uncond_undoable by (simp add: undoable_def)
      from uncond_btb_undo [OF this wf tid l b R] show ?thesis .
    qed
  next
    case False
    with d obtain b where l: "dp_lookup dp (bp_state u) tid (instAddr env pc) = Inr (b, h, t)" by (auto simp: dir_step_def)
    from c show ?thesis
    proof (elim disjE conjE)
      assume "bp_state u1 = t" "bpHistory rec = h"
      with lookup_undo [OF wf tid l] R show ?thesis by simp
    qed (rule lookup_btb_undo [OF wf tid l _ R])
  qed
qed

lemma squash_one_undo:
  assumes p: "predicted env inst pc tid rec u u1" and env: "be_dp env = dp" and ok: "undoable inst"
    and like: "unit_like R tid (above_tos (bp_RAS u1 ! tid) (rise ks)) u1 u1'"
    and ok_p: "pok (bp_state u)" and th: "tid < threads" and wf: "ras_wf (bp_RAS u ! tid)" and tid: "tid < length (bp_RAS u)"
  shows "\<exists>u'. squash_one env tid rec u1' = Inr u' \<and> predHist u' = predHist u1' \<and>
    unit_like R tid (above_tos (bp_RAS u ! tid) (rise (kind_of rec # ks))) u u'"
proof -
  obtain r where r: "bp_RAS u1 = (bp_RAS u)[tid := r]" "ras_step rec (bp_RAS u ! tid) r"
    using p unfolding predicted_def by blast
  have r1: "bp_RAS u1 ! tid = r" and tid': "tid < length (bp_RAS u1')"
    using r tid like by (simp_all add: unit_like_def)
  have "ras_agree r (bp_RAS u1' ! tid) (above_tos r (rise ks))" using like r1 by (simp add: unit_like_def)
  from ras_undo_step [OF wf r(2) this] obtain s' where s': "ras_undo rec (bp_RAS u1' ! tid) = Inr s'"
    and ag: "ras_agree (bp_RAS u ! tid) s' (above_tos (bp_RAS u ! tid) (rise (kind_of rec # ks)))"
    using above_tos_step [OF wf r(2), of ks] ras_agree_mono by blast
  obtain p' where p': "dp_squash dp (bp_state u1') tid (bpHistory rec) = Inr p'" "R p' (bp_state u)"
    using predicted_undo [OF p env ok ok_p th, of "bp_state u1'"] like by (auto simp: unit_like_def)
  define u2 where "u2 = u1'\<lparr>bp_RAS := (bp_RAS u1')[tid := s'], bp_state := p'\<rparr>"
  define u' where "u' = (case be_ip env of None \<Rightarrow> u2
        | Some ip \<Rightarrow> u2\<lparr>ip_state := ip_deleteIndirectInfo ip (ip_state u2) tid (the (indirectHistory rec))\<rparr>)"
  have "squash_one env tid rec u1' = Inr u'"
    unfolding u'_def u2_def using undo_RAS_undo [OF tid' s'] p'(1) env by (simp add: squash_one_def Let_def)
  moreover have f: "predHist u' = predHist u1'" "bp_BTB u' = bp_BTB u1'" "bp_RAS u' = (bp_RAS u1')[tid := s']" "bp_state u' = p'"
    by (simp_all add: u'_def u2_def split: option.split)
  moreover have "unit_like R tid (above_tos (bp_RAS u ! tid) (rise (kind_of rec # ks))) u u'"
    using like p'(2) ag tid tid' r(1) p by (simp add: unit_like_def f predicted_def)
  ultimately show ?thesis by blast
qed

lemma predict_all_undo:
  assumes "predict_all env tid xs u = Inr u1" and env: "be_dp env = dp"
    and "\<And>inst sn pc. (inst, sn, pc) \<in> set xs \<Longrightarrow> undoable inst"
    and th: "tid < threads" and "inv n u"
    and v: "bp_state v = bp_state u1" "bp_RAS v = bp_RAS u1" "bp_BTB v = bp_BTB u1"
  shows "\<exists>recs u'. predHist u1 = (predHist u)[tid := rev recs @ predHist u ! tid] \<and>
    map seqNum recs = map (\<lambda>(inst, sn, pc). sn) xs \<and>
    squash_all env tid (rev recs) v = Inr u' \<and> predHist u' = predHist v \<and>
    unit_like R tid (above_tos (bp_RAS u ! tid) (rise (map kind_of recs))) u u'"
  using assms(1,3,5)
proof (induction xs arbitrary: u)
  case Nil
  then show ?case using R_refl v by (simp add: unit_like_def ras_agree_def)
next
  case (Cons x xs)
  obtain inst sn pc where x: "x = (inst, sn, pc)" by (cases x)
  from Cons.prems(1) x obtain taken target ua where pa: "predict env inst sn pc tid u = Inr (taken, target, ua)"
    and rest: "predict_all env tid xs ua = Inr u1" by (auto simp: res_simps)
  from predict_predicted [OF pa] obtain rec where p: "predicted env inst pc tid rec u ua" and sn: "seqNum rec = sn" by blast
  obtain r where r: "bp_RAS ua = (bp_RAS u)[tid := r]" "ras_step rec (bp_RAS u ! tid) r"
    and ph: "tid < length (predHist u)" "predHist ua = (predHist u)[tid := rec # predHist u ! tid]"
    using p unfolding predicted_def by blast
  have ia: "inv n ua" using predict_ok [OF env Cons.prems(3) th, of inst sn pc] pa by simp
  note t = unit_inv_thread [OF Cons.prems(3) th]
  have wf: "ras_wf (bp_RAS u ! tid)" using t(3) by (simp add: ras_ok_def)
  obtain recs ua' where IH: "predHist u1 = (predHist ua)[tid := rev recs @ predHist ua ! tid]"
    "map seqNum recs = map (\<lambda>(inst, sn, pc). sn) xs" "squash_all env tid (rev recs) v = Inr ua'" "predHist ua' = predHist v"
    and like: "unit_like R tid (above_tos (bp_RAS ua ! tid) (rise (map kind_of recs))) ua ua'"
    using Cons.IH [OF rest _ ia] Cons.prems(2) by (metis list.set_intros(2))
  have ok: "undoable inst" using Cons.prems(2) x by (metis list.set_intros(1))
  from squash_one_undo [OF p env ok like inv_pok [OF Cons.prems(3)] th wf t(1)] obtain u' where "squash_one env tid rec ua' = Inr u'"
    "predHist u' = predHist ua'" "unit_like R tid (above_tos (bp_RAS u ! tid) (rise (map kind_of (rec # recs)))) u u'" by auto
  with IH ph sn x show ?case
    by (intro exI [of _ "rec # recs"] exI [of _ u']) (simp add: squash_all_append)
qed

text \<open>
  The whole unit: squashing at the sequence number before a run of predictions returns, restores the history,
  the target buffer, the stack pointer and the youngest return addresses, and leaves a direction predictor
  that predicts as before.
\<close>

lemma squash_restores:
  assumes run: "predict_all env tid xs u = Inr u1" and env: "be_dp env = dp"
    and ok: "\<And>inst sn pc. (inst, sn, pc) \<in> set xs \<Longrightarrow> undoable inst \<and> sn0 < sn"
    and old: "predHist u ! tid \<noteq> [] \<Longrightarrow> seqNum (hd (predHist u ! tid)) \<le> sn0"
    and th: "tid < threads" and inv: "inv n u"
  shows "\<exists>u'. bp_squash env sn0 tid u1 = Inr u' \<and> predHist u' = predHist u \<and> R (bp_state u') (bp_state u) \<and>
    bp_BTB u' = bp_BTB u \<and> (\<forall>t. t \<noteq> tid \<longrightarrow> bp_RAS u' ! t = bp_RAS u ! t) \<and>
    ras_restored (rise (map kind_of (rev (take (length xs) (predHist u1 ! tid))))) (bp_RAS u ! tid) (bp_RAS u' ! tid)"
proof -
  note tid = unit_inv_thread(1,2) [OF inv th]
  have wf: "ras_wf (bp_RAS u ! tid)" using unit_inv_thread(3) [OF inv th] by (simp add: ras_ok_def)
  define v where "v = (case be_ip env of None \<Rightarrow> u1 | Some ip \<Rightarrow> u1\<lparr>ip_state := ip_squash ip (ip_state u1) sn0 tid\<rparr>)"
  have v: "bp_state v = bp_state u1" "bp_RAS v = bp_RAS u1" "bp_BTB v = bp_BTB u1" "predHist v = predHist u1"
    by (simp_all add: v_def split: option.split)
  obtain recs u' where ph: "predHist u1 = (predHist u)[tid := rev recs @ predHist u ! tid]"
    and sns: "map seqNum recs = map (\<lambda>(inst, sn, pc). sn) xs" and sq: "squash_all env tid (rev recs) v = Inr u'"
    and phu': "predHist u' = predHist v" and like: "unit_like R tid (above_tos (bp_RAS u ! tid) (rise (map kind_of recs))) u u'"
    using predict_all_undo [OF run env _ th inv v(1-3)] ok by metis
  have len: "length recs = length xs" using arg_cong [OF sns, of length] by simp
  have young: "sn0 < seqNum r" if "r \<in> set (rev recs)" for r
  proof -
    have "seqNum r \<in> set (map seqNum recs)" using that by simp
    then show ?thesis unfolding sns using ok by auto
  qed
  define w where "w = u'\<lparr>predHist := predHist u\<rparr>"
  have "bp_squash env sn0 tid u1 = Inr w"
  proof -
    have "squash_loop env sn0 tid (rev recs @ predHist u ! tid) v = Inr (predHist u ! tid, u')"
      using squash_loop_all [of "rev recs" sn0 "predHist u ! tid" env tid v, OF young old] sq by simp
    then have "squash_loop env sn0 tid (predHist u1 ! tid) v = Inr (predHist u ! tid, u')" using ph tid(2) by simp
    moreover have "(predHist u')[tid := predHist u ! tid] = predHist u" using phu' v(4) ph by simp
    moreover have "tid < length (predHist u1)" "tid < length (predHist u')" using ph tid(2) phu' v(4) by simp_all
    ultimately show ?thesis by (simp add: bp_squash_def Let_def w_def flip: v_def)
  qed
  moreover have "ras_agree (bp_RAS u ! tid) (bp_RAS u' ! tid) (above_tos (bp_RAS u ! tid) (rise (map kind_of recs)))"
    using like by (simp add: unit_like_def)
  then have "ras_restored (rise (map kind_of recs)) (bp_RAS u ! tid) (bp_RAS u' ! tid)" by (rule ras_restoredI [OF wf])
  moreover have "take (length xs) (predHist u1 ! tid) = rev recs" using ph tid(2) by (simp flip: len)
  ultimately show ?thesis using like by (intro exI [of _ w]) (simp add: w_def unit_like_def)
qed

end

subsection \<open>The three predictors can take back their updates\<close>

interpretation locs: speculative_predictor loc_dp threads loc_ok "\<lambda>p h. h = None" "(=)" True for threads
  by unfold_locales (auto simp: loc_dp_def loc_lookup_def loc_uncondBranch_def loc_btbUpdate_def loc_squash_def res_simps)

text \<open>Both kinds of branch shift the global history of the thread and remember it.\<close>

definition bm_shift :: "nat \<Rightarrow> bool \<Rightarrow> BiModeBP \<Rightarrow> BiModeBP" where
  "bm_shift tid b s = s\<lparr>globalHistoryReg := (globalHistoryReg s)[tid :=
     (if b then push_bit 1 (globalHistoryReg s ! tid) OR 1 else push_bit 1 (globalHistoryReg s ! tid)) AND bm_historyRegisterMask s]\<rparr>"

lemma updateGlobalHistReg_Inr: "updateGlobalHistReg tid b s = Inr t \<longleftrightarrow> tid < length (globalHistoryReg s) \<and> t = bm_shift tid b s"
  by (auto simp: updateGlobalHistReg_def bm_shift_def res_simps)

definition bm_saved :: "nat \<Rightarrow> BiModeBP \<Rightarrow> BiModeHistory option \<Rightarrow> bool" where
  "bm_saved tid s h \<longleftrightarrow> tid < length (globalHistoryReg s) \<and> map_option bmh_globalHistoryReg h = Some (globalHistoryReg s ! tid)"

lemma bm_lookup_result: "bm_lookup s tid a = Inr (b, h, t) \<Longrightarrow> bm_saved tid s h \<and> t = bm_shift tid b s"
  unfolding bm_lookup_def Let_def
  by (elim rbind_InrE, simp split: if_split_asm) (elim rbind_InrE; clarsimp simp: updateGlobalHistReg_Inr bm_saved_def)+

lemma bm_uncond_result: "bm_uncondBranch s tid a = Inr (h, t) \<Longrightarrow> bm_saved tid s h \<and> t = bm_shift tid True s"
  unfolding bm_uncondBranch_def by (elim rbind_InrE) (clarsimp simp: updateGlobalHistReg_Inr bm_saved_def)

lemma bm_saved_undo: "bm_saved tid s h \<Longrightarrow> t = bm_shift tid b s \<Longrightarrow> bm_squash t tid h = Inr s"
  by (auto simp: bm_saved_def bm_squash_def bm_shift_def)

lemma bm_saved_btb_undo:
  "bm_saved tid s h \<Longrightarrow> t = bm_shift tid b s \<Longrightarrow> bm_btbUpdate t tid a h = Inr (h2, v) \<Longrightarrow> bm_squash v tid h2 = Inr s"
  by (auto simp: bm_saved_def bm_squash_def bm_shift_def bm_btbUpdate_def res_simps)

interpretation bms: speculative_predictor bm_dp threads "bm_ok threads" "\<lambda>p h. h \<noteq> None" "(=)" True for threads
  by unfold_locales
    (auto simp: bm_dp_def dest!: bm_lookup_result bm_uncond_result intro: bm_saved_undo bm_saved_btb_undo)

text \<open>
  The tournament predictor saves the local history only as far as the local predictor reads it, so the
  squashed state is the old one up to bits of the local histories that no prediction looks at.
\<close>

definition tn_like :: "TournamentBP \<Rightarrow> TournamentBP \<Rightarrow> bool" where
  "tn_like p q \<longleftrightarrow> p = q\<lparr>localHistoryTable := localHistoryTable p\<rparr> \<and>
     list_all2 (\<lambda>x y. x AND localPredictorMask q = y AND localPredictorMask q) (localHistoryTable p) (localHistoryTable q)"

lemma tn_like_refl: "tn_like p p"
  by (simp add: tn_like_def list_all2_refl)

lemma tn_squash_undo:
  assumes s: "tid < length (globalHistory s)" "i < length (localHistoryTable s)"
    and h: "th_globalHistory h = globalHistory s ! tid" "localHistoryIdx h \<noteq> invalidPredictorIndex" "i = unat (localHistoryIdx h)"
      "localHistory h = localHistoryTable s ! i AND localPredictorMask s"
    and t: "t = s\<lparr>globalHistory := (globalHistory s)[tid := x], localHistoryTable := (localHistoryTable s)[i := y]\<rparr>"
    and like: "tn_like t' t"
  shows "\<exists>s'. tn_squash t' tid (Some h) = Inr s' \<and> tn_like s' s"
proof -
  define ls where "ls = localHistoryTable t'"
  have t': "t' = s\<lparr>globalHistory := (globalHistory s)[tid := x], localHistoryTable := ls\<rparr>"
    using like t by (simp add: tn_like_def ls_def)
  have l: "list_all2 (\<lambda>x y. x AND localPredictorMask s = y AND localPredictorMask s) ls ((localHistoryTable s)[i := y])"
    using like t by (simp add: tn_like_def ls_def)
  then have len: "length ls = length (localHistoryTable s)" by (simp add: list_all2_lengthD)
  define s' where "s' = s\<lparr>localHistoryTable := ls[i := localHistory h]\<rparr>"
  have "tn_squash t' tid (Some h) = Inr s'"
    unfolding t' using s h(1,2) len by (simp add: tn_squash_def s'_def Let_def h(3))
  moreover have "list_all2 (\<lambda>x y. x AND localPredictorMask s = y AND localPredictorMask s) (ls[i := localHistory h]) (localHistoryTable s)"
    unfolding list_all2_conv_all_nth
  proof (intro conjI allI impI)
    fix k assume "k < length (ls[i := localHistory h])"
    then show "ls[i := localHistory h] ! k AND localPredictorMask s = localHistoryTable s ! k AND localPredictorMask s"
      using list_all2_nthD2 [OF l, of k] len s(2) h(4) by (cases "k = i") (simp_all add: and.assoc)
  qed (simp add: len)
  then have "tn_like s' s" by (simp add: tn_like_def s'_def)
  ultimately show ?thesis by blast
qed

text \<open>The bits of a local history that are looked at are shifted out before the others are looked at.\<close>

lemma shift_like:
  assumes "x AND mask k = y AND mask k"
  shows "(push_bit 1 x OR c) AND mask k = (push_bit 1 y OR c) AND (mask k :: u32)"
proof (rule bit_word_eqI)
  fix n assume "n < LENGTH(32)"
  have "bit x (n - 1) = bit y (n - 1)" if "n < k" "0 < n"
    using arg_cong [OF assms, of "\<lambda>w. bit w (n - 1)"] that \<open>n < LENGTH(32)\<close> by (auto simp: bit_and_iff bit_mask_iff)
  then show "bit ((push_bit 1 x OR c) AND mask k) n = bit ((push_bit 1 y OR c) AND mask k) n"
    unfolding bit_and_iff bit_or_iff bit_push_bit_iff bit_mask_iff by auto
qed

lemma list_all2_update: "list_all2 P xs ys \<Longrightarrow> P x y \<Longrightarrow> list_all2 P (xs[i := x]) (ys[i := y])"
  by (simp add: list_all2_update_cong)

text \<open>What a lookup decides, given the local history as the local predictor reads it.\<close>

definition tn_taken :: "TournamentBP \<Rightarrow> nat \<Rightarrow> u32 \<Rightarrow> bool" where
  "tn_taken p tid lp = (if above (choiceCtrs p ! unat (globalHistory p ! tid AND choiceHistoryMask p)) (choiceThreshold p)
     then above (globalCtrs p ! unat (globalHistory p ! tid AND globalHistoryMask p)) (globalThreshold p)
     else above (tn_localCtrs p ! unat lp) (localThreshold p))"

definition tn_record :: "TournamentBP \<Rightarrow> nat \<Rightarrow> u32 \<Rightarrow> u32 \<Rightarrow> TournamentHistory" where
  "tn_record p tid li lp = \<lparr>th_globalHistory = globalHistory p ! tid, localHistoryIdx = li, localHistory = lp,
     localPredTaken = above (tn_localCtrs p ! unat lp) (localThreshold p),
     globalPredTaken = above (globalCtrs p ! unat (globalHistory p ! tid AND globalHistoryMask p)) (globalThreshold p),
     globalUsed = above (choiceCtrs p ! unat (globalHistory p ! tid AND choiceHistoryMask p)) (choiceThreshold p)\<rparr>"

definition tn_shift :: "TournamentBP \<Rightarrow> nat \<Rightarrow> nat \<Rightarrow> bool \<Rightarrow> TournamentBP" where
  "tn_shift p tid i b = p\<lparr>
     globalHistory := (globalHistory p)[tid := (push_bit 1 (globalHistory p ! tid) OR of_bool b) AND historyRegisterMask p],
     localHistoryTable := (localHistoryTable p)[i := push_bit 1 (localHistoryTable p ! i) OR of_bool b]\<rparr>"

lemma tn_lookup_eq:
  assumes ok: "tn_ok threads p" and tid: "tid < threads" and li: "li = calcLocHistIdx p a"
    and lp: "lp = localHistoryTable p ! unat li AND localPredictorMask p"
  shows "tn_lookup p tid a = Inr (tn_taken p tid lp, Some (tn_record p tid li lp), tn_shift p tid (unat li) (tn_taken p tid lp))"
proof -
  have l: "tid < length (globalHistory p)" using ok tid by (simp add: tn_ok_def)
  have sh: "(if b then push_bit 1 x OR 1 else push_bit 1 x) = push_bit 1 x OR of_bool b" for b and x :: u32 by simp
  show ?thesis unfolding tn_lookup_def Let_def updateGlobalHist_def updateLocalHist_def sh li [symmetric]
    using l tn_index_in [OF ok] li lp by (simp add: tn_taken_def tn_record_def tn_shift_def)
qed

lemma tn_like_ok: "tn_like s s' \<Longrightarrow> tn_ok threads s \<Longrightarrow> tn_ok threads s'"
  by (drule tn_like_def [THEN iffD1], cases s, cases s') (auto simp: tn_ok_def list_all2_lengthD)

lemma tn_like_sym_ok: "tn_like s s' \<Longrightarrow> tn_ok threads s' \<Longrightarrow> tn_ok threads s"
  by (drule tn_like_def [THEN iffD1], cases s, cases s') (auto simp: tn_ok_def list_all2_lengthD)

lemma tn_lookup_same:
  assumes ok: "tn_ok threads s" and tid: "tid < threads" and like: "tn_like s s'" and l: "tn_lookup s tid a = Inr (b, h, t)"
  shows "\<exists>t'. tn_lookup s' tid a = Inr (b, h, t') \<and> tn_like t t'"
proof -
  define L where "L = localHistoryTable s"
  have e: "s = s'\<lparr>localHistoryTable := L\<rparr>"
    and r: "list_all2 (\<lambda>x y. x AND localPredictorMask s' = y AND localPredictorMask s') L (localHistoryTable s')"
    using like unfolding tn_like_def L_def by auto
  have ok': "tn_ok threads s'" by (rule tn_like_ok [OF like ok])
  then obtain k where M: "localPredictorMask s' = mask k" by (auto simp: tn_ok_def)
  define i where "i = calcLocHistIdx s' a"
  have i: "i = calcLocHistIdx s a" "unat i < length L"
    using tn_index_in(2) [OF ok, of a] by (auto simp: e calcLocHistIdx_def i_def)
  have eq: "L ! unat i AND localPredictorMask s' = localHistoryTable s' ! unat i AND localPredictorMask s'"
    using list_all2_nthD [OF r i(2)] .
  note l1 = tn_lookup_eq [OF ok tid i(1) refl] and l2 = tn_lookup_eq [OF ok' tid i_def refl]
  have "tn_like (tn_shift s tid (unat i) c) (tn_shift s' tid (unat i) c)" for c
  proof -
    have "list_all2 (\<lambda>x y. x AND localPredictorMask s' = y AND localPredictorMask s')
        (L[unat i := push_bit 1 (L ! unat i) OR of_bool c])
        ((localHistoryTable s')[unat i := push_bit 1 (localHistoryTable s' ! unat i) OR of_bool c])"
      by (rule list_all2_update [OF r]) (use shift_like [OF eq [unfolded M]] M in simp)
    then show ?thesis by (simp add: tn_like_def tn_shift_def e)
  qed
  moreover have "tn_taken s tid lp = tn_taken s' tid lp" "tn_record s tid li lp = tn_record s' tid li lp" for lp li
    by (simp_all add: e tn_taken_def tn_record_def)
  ultimately show ?thesis using l1 l2 l eq by (auto simp: e)
qed

lemma tn_shift_btb:
  assumes "tn_btbUpdate (tn_shift s tid (unat i) b) tid a h = Inr (h2, v)" and "i = calcLocHistIdx s a"
  shows "h2 = h \<and> (\<exists>x y. v = s\<lparr>globalHistory := (globalHistory s)[tid := x], localHistoryTable := (localHistoryTable s)[unat i := y]\<rparr>)"
proof -
  have "calcLocHistIdx (tn_shift s tid (unat i) b) a = i" using assms(2) by (simp add: tn_shift_def calcLocHistIdx_def)
  note idx = this
  show ?thesis using assms(1) unfolding tn_btbUpdate_def Let_def idx
  proof (elim rbind_InrE)
    fix g gs l ls
    assume "vset (globalHistory (tn_shift s tid (unat i) b)) tid (g AND (historyRegisterMask (tn_shift s tid (unat i) b) AND NOT 1)) = Inr gs"
      "vset (localHistoryTable (tn_shift s tid (unat i) b)) (unat i) (l AND (localPredictorMask (tn_shift s tid (unat i) b) AND NOT 1)) = Inr ls"
    then have "\<exists>x. gs = (globalHistory s)[tid := x]" "\<exists>y. ls = (localHistoryTable s)[unat i := y]" by (auto simp: tn_shift_def)
    moreover assume "Inr (h, (tn_shift s tid (unat i) b)\<lparr>globalHistory := gs, localHistoryTable := ls\<rparr>) = Inr (h2, v)"
    then have "h2 = h" "v = s\<lparr>globalHistory := gs, localHistoryTable := ls\<rparr>" by (simp_all add: tn_shift_def)
    ultimately show ?thesis by blast
  qed
qed

lemma tn_lookup_undo:
  assumes ok: "tn_ok threads s" and tid: "tid < threads" and l: "tn_lookup s tid a = Inr (b, h, t)"
    and v: "tn_like v' v" "v = t \<and> h2 = h \<or> tn_btbUpdate t tid a h = Inr (h2, v)"
  shows "\<exists>s'. tn_squash v' tid h2 = Inr s' \<and> tn_like s' s"
proof -
  define i where "i = calcLocHistIdx s a"
  define lp where "lp = localHistoryTable s ! unat i AND localPredictorMask s"
  have h: "h = Some (tn_record s tid i lp)" and t: "t = tn_shift s tid (unat i) (tn_taken s tid lp)"
    using l [unfolded tn_lookup_eq [OF ok tid i_def lp_def]] unfolding sum.inject prod.inject by blast+
  have "\<exists>x y. tn_shift s tid (unat i) c =
      s\<lparr>globalHistory := (globalHistory s)[tid := x], localHistoryTable := (localHistoryTable s)[unat i := y]\<rparr>" for c
    unfolding tn_shift_def by blast
  then have "h2 = h \<and> (\<exists>x y. v = s\<lparr>globalHistory := (globalHistory s)[tid := x], localHistoryTable := (localHistoryTable s)[unat i := y]\<rparr>)"
    using v(2) tn_shift_btb [OF _ i_def] unfolding t by metis
  then obtain x y where h2: "h2 = h"
    and vv: "v = s\<lparr>globalHistory := (globalHistory s)[tid := x], localHistoryTable := (localHistoryTable s)[unat i := y]\<rparr>"
    by blast
  have i: "i < localHistoryTableSize s" "unat i < length (localHistoryTable s)" "tid < length (globalHistory s)"
    using tn_index_in(1,2) [OF ok, of a] ok tid by (simp_all add: i_def tn_ok_def)
  have n: "i \<noteq> invalidPredictorIndex"
  proof
    assume "i = invalidPredictorIndex"
    then show False using i(1) unfolding invalidPredictorIndex_def by (simp add: word_order.extremum_strict)
  qed
  define r where "r = tn_record s tid i lp"
  have r: "th_globalHistory r = globalHistory s ! tid" "localHistoryIdx r \<noteq> invalidPredictorIndex" "unat i = unat (localHistoryIdx r)"
    "localHistory r = localHistoryTable s ! unat i AND localPredictorMask s"
    using n by (simp_all add: r_def tn_record_def lp_def)
  show ?thesis unfolding h2 h r_def [symmetric] by (rule tn_squash_undo [OF i(3,2) r vv v(1)])
qed

lemma tn_uncond_undo:
  assumes "tn_uncondBranch s tid a = Inr (h, t)" and like: "tn_like t' t"
  shows "\<exists>s'. tn_squash t' tid h = Inr s' \<and> tn_like s' s"
proof -
  obtain h' x where h: "h = Some h'" "th_globalHistory h' = globalHistory s ! tid" "localHistoryIdx h' = invalidPredictorIndex"
    and t: "tid < length (globalHistory s)" "t = s\<lparr>globalHistory := (globalHistory s)[tid := x]\<rparr>"
    using assms(1) unfolding tn_uncondBranch_def updateGlobalHist_def by (elim rbind_InrE) fastforce
  have "t' = s\<lparr>globalHistory := (globalHistory s)[tid := x], localHistoryTable := localHistoryTable t'\<rparr>"
    using like t(2) by (simp add: tn_like_def)
  then obtain ls where t': "t' = s\<lparr>globalHistory := (globalHistory s)[tid := x], localHistoryTable := ls\<rparr>" by blast
  have "tn_like (s\<lparr>localHistoryTable := ls\<rparr>) s" using like by (simp add: t' t(2) tn_like_def)
  moreover have "tn_squash t' tid h = Inr (s\<lparr>localHistoryTable := ls\<rparr>)" using h t(1) by (simp add: t' tn_squash_def Let_def)
  ultimately show ?thesis by blast
qed

interpretation tns: speculative_predictor tn_dp threads "tn_ok threads" tn_hok tn_like False for threads
proof unfold_locales
  fix s s' tid a b h t assume "tn_ok threads s" "tid < threads" "tn_like s s'" "dp_lookup tn_dp s tid a = Inr (b, h, t)"
  then show "\<exists>t'. dp_lookup tn_dp s' tid a = Inr (b, h, t') \<and> tn_like t t'" by (simp add: tn_dp_def tn_lookup_same)
next
  fix s tid a b h t t' assume "tn_ok threads s" "tid < threads" "dp_lookup tn_dp s tid a = Inr (b, h, t)" "tn_like t' t"
  then show "\<exists>s'. dp_squash tn_dp t' tid h = Inr s' \<and> tn_like s' s" by (simp add: tn_dp_def tn_lookup_undo)
next
  fix s tid a h t t' assume "dp_uncondBranch tn_dp s tid a = Inr (h, t)" "tn_like t' t"
  then show "\<exists>s'. dp_squash tn_dp t' tid h = Inr s' \<and> tn_like s' s" by (simp add: tn_dp_def tn_uncond_undo)
next
  fix s tid a b h t h2 v v' assume "tn_ok threads s" "tid < threads" "dp_lookup tn_dp s tid a = Inr (b, h, t)"
    "dp_btbUpdate tn_dp t tid a h = Inr (h2, v)" "tn_like v' v"
  then show "\<exists>s'. dp_squash tn_dp v' tid h2 = Inr s' \<and> tn_like s' s" by (simp add: tn_dp_def tn_lookup_undo)
qed (simp_all add: tn_like_refl)

context speculative_predictor
begin

lemma predict_all_ok:
  assumes env: "be_dp env = dp" and tid: "tid < threads"
  shows "inv n u \<Longrightarrow> succeeds (predict_all env tid xs u) (inv n)"
proof (induction xs arbitrary: u)
  case (Cons x xs)
  obtain inst sn pc where x: "x = (inst, sn, pc)" by (cases x)
  show ?case unfolding x predict_all.simps
    by (rule succeeds_bind [OF predict_ok [OF env Cons.prems tid]]) (auto intro: Cons.IH)
qed simp

lemma speculation_undone:
  assumes env: "be_dp env = dp" and u0: "inv n u0" and reach: "unit_reach env threads u0 u" and tid: "tid < threads"
    and xs: "\<And>inst sn pc. (inst, sn, pc) \<in> set xs \<Longrightarrow> undoable inst \<and> sn0 < sn"
    and old: "predHist u ! tid \<noteq> [] \<Longrightarrow> seqNum (hd (predHist u ! tid)) \<le> sn0"
  shows "\<exists>u1 u'. predict_all env tid xs u = Inr u1 \<and> bp_squash env sn0 tid u1 = Inr u' \<and> predHist u' = predHist u \<and>
    R (bp_state u') (bp_state u) \<and> bp_BTB u' = bp_BTB u \<and> (\<forall>t. t \<noteq> tid \<longrightarrow> bp_RAS u' ! t = bp_RAS u ! t) \<and>
    ras_restored (rise (map kind_of (rev (take (length xs) (predHist u1 ! tid))))) (bp_RAS u ! tid) (bp_RAS u' ! tid)"
proof -
  note u = reach_inv [OF env u0 reach]
  obtain u1 where u1: "predict_all env tid xs u = Inr u1" using predict_all_ok [OF env tid u] by (blast elim: succeedsE)
  then show ?thesis using squash_restores [where xs = xs and ?sn0.0 = sn0, OF u1 env _ _ tid u] xs old by blast
qed

end

subsection \<open>Properties\<close>

text \<open>The branches of the concrete runs.\<close>

definition cond_branch :: StaticInst where
  "cond_branch = \<lparr>isUncondCtrl = False, isReturn = False, isCall = False, isDirectCtrl = True\<rparr>"

definition call_inst :: StaticInst where
  "call_inst = \<lparr>isUncondCtrl = True, isReturn = False, isCall = True, isDirectCtrl = True\<rparr>"

definition return_inst :: StaticInst where
  "return_inst = \<lparr>isUncondCtrl = True, isReturn = True, isCall = False, isDirectCtrl = False\<rparr>"

lemma inst_simps [simp]:
  "isUncondCtrl cond_branch = False" "isCall call_inst = True" "isReturn return_inst = True"
  by (simp_all add: cond_branch_def call_inst_def return_inst_def)

definition plain_unit :: "'p \<Rightarrow> ('p, 'h, unit, unit, Addr) BPredUnit res" where
  "plain_unit p = BPredUnit_new 0 1 4 8 0 4 p ()"

lemma plain_unit_new: "\<exists>u. plain_unit p = Inr u \<and> predHist u = [[]]"
proof -
  have "\<not> isl (DefaultBTB_new (0 :: Addr) 4 8 0 (of_nat 1))" by code_simp
  then obtain b where "DefaultBTB_new (0 :: Addr) 4 8 0 (of_nat 1) = Inr b" using not_isl by blast
  then show ?thesis by (simp add: plain_unit_def BPredUnit_new_def)
qed

text \<open>
  C23 Squashing undoes speculation, bi-mode predictor. In every reachable state of a unit, any run of predictions of one
  thread, whatever the branches, followed by a squash at the sequence number before the run, returns, and the
  history of predictions, the target buffer, the direction predictor and the stacks of the other threads
  are what they were. The stack pointer of the thread is back too, and so are its return addresses, except as
  many of the oldest as the run had risen above its start.
\<close>

theorem bimode_squash_restores:
  assumes "unit_config threads btbEntries shift rasSize"
    and "BiModeBP_new threads choiceSize choiceBits globalSize globalBits bshift = Inr p"
    and "BPredUnit_new zero threads btbEntries tb shift rasSize p i = Inr u0" and "be_dp env = bm_dp"
    and "unit_reach env threads u0 u" and "tid < threads"
    and "\<forall>(inst, sn, pc) \<in> set xs. sn0 < sn"
    and "predHist u ! tid \<noteq> [] \<Longrightarrow> seqNum (hd (predHist u ! tid)) \<le> sn0"
  shows "\<exists>u1 u'. predict_all env tid xs u = Inr u1 \<and> bp_squash env sn0 tid u1 = Inr u' \<and> predHist u' = predHist u \<and>
    bp_state u' = bp_state u \<and> bp_BTB u' = bp_BTB u \<and> (\<forall>t. t \<noteq> tid \<longrightarrow> bp_RAS u' ! t = bp_RAS u ! t) \<and>
    ras_restored (rise (map kind_of (rev (take (length xs) (predHist u1 ! tid))))) (bp_RAS u ! tid) (bp_RAS u' ! tid)"
proof (rule bms.speculation_undone [OF assms(4) _ assms(5,6) _ assms(8)])
  show "unit_inv threads rasSize (bm_ok threads) (\<lambda>p h. h \<noteq> None) u0"
    by (rule BPredUnit_new_ok [OF assms(3,1)], rule BiModeBP_new_ok [OF assms(2)])
qed (use assms(7) in \<open>auto simp: bms.undoable_def\<close>)

theorem bimode_squash_restores_witness:
  "\<exists>p u0 u1 u'. BiModeBP_new 1 4 2 4 2 0 = Inr p \<and> plain_unit p = Inr u0 \<and>
     predict_all (plain_env bm_dp) 0 [(call_inst, 5, 16), (cond_branch, 6, 20), (return_inst, 7, 24)] u0 = Inr u1 \<and>
     bp_squash (plain_env bm_dp) 4 0 u1 = Inr u' \<and> predHist u' = [[]] \<and> bp_state u' = p"
proof -
  have "\<not> isl (BiModeBP_new 1 4 2 4 2 0)" by code_simp
  then obtain p where p: "BiModeBP_new 1 4 2 4 2 0 = Inr p" using not_isl by blast
  obtain u0 where u0: "plain_unit p = Inr (u0 :: (BiModeBP, BiModeHistory option, unit, unit, Addr) BPredUnit)"
    "predHist u0 = [[]]" using plain_unit_new [of p] by blast
  then have "bp_state u0 = p" by (auto simp: plain_unit_def BPredUnit_new_def res_simps)
  moreover have "unit_config 1 4 0 4" by (simp add: unit_config_def)
  ultimately show ?thesis
    using bimode_squash_restores [of 1 4 0 4 4 2 4 2 0 p 0 8 "()" u0 "plain_env bm_dp" u0 0
      "[(call_inst, 5, 16), (cond_branch, 6, 20), (return_inst, 7, 24)]" 4] p u0
    by (auto simp: plain_unit_def unit_reach.start)
qed

text \<open>
  C8 Squashing undoes speculation, tournament predictor. The same for a unit with the tournament predictor and runs in
  which every unconditional branch is a call or a return: the predictor then comes back to a state in which
  every lookup of every thread makes the same prediction and records the same history as before.
\<close>

theorem tournament_squash_restores:
  assumes "unit_config threads btbEntries shift rasSize"
    and "TournamentBP_new threads localSize localBits histSize globalSize globalBits choiceSize choiceBits tshift = Inr p"
    and "BPredUnit_new zero threads btbEntries tb shift rasSize p i = Inr u0" and env: "be_dp env = tn_dp"
    and reach: "unit_reach env threads u0 u" and "tid < threads"
    and "\<forall>(inst, sn, pc) \<in> set xs. sn0 < sn \<and> (isUncondCtrl inst \<longrightarrow> isCall inst \<or> isReturn inst)"
    and "predHist u ! tid \<noteq> [] \<Longrightarrow> seqNum (hd (predHist u ! tid)) \<le> sn0"
  shows "\<exists>u1 u'. predict_all env tid xs u = Inr u1 \<and> bp_squash env sn0 tid u1 = Inr u' \<and> predHist u' = predHist u \<and>
    (\<forall>t a. t < threads \<longrightarrow> (\<exists>b h s s'. tn_lookup (bp_state u) t a = Inr (b, h, s) \<and> tn_lookup (bp_state u') t a = Inr (b, h, s'))) \<and>
    bp_BTB u' = bp_BTB u \<and> (\<forall>t. t \<noteq> tid \<longrightarrow> bp_RAS u' ! t = bp_RAS u ! t) \<and>
    ras_restored (rise (map kind_of (rev (take (length xs) (predHist u1 ! tid))))) (bp_RAS u ! tid) (bp_RAS u' ! tid)"
proof -
  have inv: "unit_inv threads rasSize (tn_ok threads) tn_hok u0"
    by (rule BPredUnit_new_ok [OF assms(3,1)], rule TournamentBP_new_ok [OF assms(2)])
  have ok: "tn_ok threads (bp_state u)" by (rule tn.inv_pok [OF tn.reach_inv [OF env inv reach]])
  have xs: "tns.undoable inst \<and> sn0 < sn" if "(inst, sn, pc) \<in> set xs" for inst sn pc
    using assms(7) that by (auto simp: tns.undoable_def)
  obtain u1 u' where u: "predict_all env tid xs u = Inr u1" "bp_squash env sn0 tid u1 = Inr u'" "predHist u' = predHist u"
    "tn_like (bp_state u') (bp_state u)" "bp_BTB u' = bp_BTB u" "\<forall>t. t \<noteq> tid \<longrightarrow> bp_RAS u' ! t = bp_RAS u ! t"
    "ras_restored (rise (map kind_of (rev (take (length xs) (predHist u1 ! tid))))) (bp_RAS u ! tid) (bp_RAS u' ! tid)"
    using tns.speculation_undone [where xs = xs and ?sn0.0 = sn0, OF env inv reach assms(6) _ assms(8)] xs by blast
  have "\<exists>b h s s'. tn_lookup (bp_state u) t a = Inr (b, h, s) \<and> tn_lookup (bp_state u') t a = Inr (b, h, s')"
    if t: "t < threads" for t a
  proof -
    have "tn_ok threads (bp_state u')" by (rule tn_like_sym_ok [OF u(4) ok])
    from tn_lookup_eq [OF this t refl refl] tn_lookup_same [OF this t u(4)] show ?thesis by metis
  qed
  with u show ?thesis by blast
qed

theorem tournament_squash_restores_witness:
  "\<exists>p u0 u1 u'. TournamentBP_new 1 8 2 4 4 2 4 2 0 = Inr p \<and> plain_unit p = Inr u0 \<and>
     predict_all (plain_env tn_dp) 0 [(call_inst, 5, 16), (cond_branch, 6, 20), (return_inst, 7, 24)] u0 = Inr u1 \<and>
     bp_squash (plain_env tn_dp) 4 0 u1 = Inr u' \<and> predHist u' = [[]] \<and>
     (\<exists>b h s s'. tn_lookup p 0 20 = Inr (b, h, s) \<and> tn_lookup (bp_state u') 0 20 = Inr (b, h, s'))"
proof -
  have "\<not> isl (TournamentBP_new 1 8 2 4 4 2 4 2 0)" by code_simp
  then obtain p where p: "TournamentBP_new 1 8 2 4 4 2 4 2 0 = Inr p" using not_isl by blast
  obtain u0 where u0: "plain_unit p = Inr (u0 :: (TournamentBP, TournamentHistory option, unit, unit, Addr) BPredUnit)"
    "predHist u0 = [[]]" using plain_unit_new [of p] by blast
  then have "bp_state u0 = p" by (auto simp: plain_unit_def BPredUnit_new_def res_simps)
  moreover have "unit_config 1 4 0 4" by (simp add: unit_config_def)
  ultimately show ?thesis
    using tournament_squash_restores [of 1 4 0 4 8 2 4 4 2 4 2 0 p 0 8 "()" u0 "plain_env tn_dp" u0 0
      "[(call_inst, 5, 16), (cond_branch, 6, 20), (return_inst, 7, 24)]" 4] p u0
    by (auto simp: plain_unit_def unit_reach.start)
qed

subsection \<open>Where speculation is not undone\<close>

text \<open>
  An unconditional branch that misses in the target buffer clears the last outcome of the local history of its
  address, which its history record does not save: the squash leaves it cleared.
\<close>

lemma tournament_uncond_miss_lost:
  assumes ok: "tn_ok threads s" and tid: "tid < threads" and i: "i = unat (calcLocHistIdx s a)"
  shows "\<exists>h t v s'. tn_uncondBranch s tid a = Inr (h, t) \<and> tn_btbUpdate t tid a h = Inr (h, v) \<and> tn_squash v tid h = Inr s' \<and>
    localHistoryTable s' ! i = localHistoryTable s ! i AND (localPredictorMask s AND NOT 1)"
proof -
  have l: "tid < length (globalHistory s)" "i < length (localHistoryTable s)" using tn_index_in(2) [OF ok, of a] ok tid i by (simp_all add: tn_ok_def)
  define x where "x = (push_bit 1 (globalHistory s ! tid) OR 1) AND historyRegisterMask s"
  define h where "h = \<lparr>th_globalHistory = globalHistory s ! tid, localHistoryIdx = invalidPredictorIndex, localHistory = invalidPredictorIndex,
    localPredTaken = True, globalPredTaken = True, globalUsed = True\<rparr>"
  define t where "t = s\<lparr>globalHistory := (globalHistory s)[tid := x]\<rparr>"
  define v where "v = t\<lparr>globalHistory := (globalHistory t)[tid := globalHistory t ! tid AND (historyRegisterMask t AND NOT 1)],
    localHistoryTable := (localHistoryTable t)[i := localHistoryTable t ! i AND (localPredictorMask t AND NOT 1)]\<rparr>"
  have "tn_uncondBranch s tid a = Inr (Some h, t)"
    using l(1) by (simp add: tn_uncondBranch_def updateGlobalHist_def h_def t_def x_def)
  moreover have "unat (calcLocHistIdx t a) = i" using i by (simp add: t_def calcLocHistIdx_def)
  then have "tn_btbUpdate t tid a (Some h) = Inr (Some h, v)"
    using l unfolding tn_btbUpdate_def Let_def v_def by (simp add: t_def)
  moreover have "tn_squash v tid (Some h) = Inr (v\<lparr>globalHistory := (globalHistory v)[tid := globalHistory s ! tid]\<rparr>)"
    using l by (simp add: tn_squash_def h_def v_def t_def)
  moreover have "localHistoryTable v ! i = localHistoryTable s ! i AND (localPredictorMask s AND NOT 1)"
    using l(2) by (simp add: v_def t_def)
  ultimately show ?thesis by fastforce
qed

text \<open>
  A return predicted not taken is corrected to taken by popping the stack and marking the record as having used it,
  but the record has no saved position: squashing it later puts the stack pointer to 0, writes a zero address there
  and does not bring back the call below.
\<close>

lemma corrected_return_lost:
  assumes r: "wasReturn r" "\<not> usedRAS r" "RASIndex r = 0" and c: "correct_taken env target tid r u = Inr (r', u')"
    and ok: "ras_ok n (bp_RAS u ! tid)"
  shows "\<exists>u''. undo_RAS tid r' u' = Inr u'' \<and> tos (bp_RAS u'' ! tid) = 0 \<and> addrStack (bp_RAS u'' ! tid) ! 0 = RASTarget r"
proof -
  have tid: "tid < length (bp_RAS u)" and r': "r' = r\<lparr>usedRAS := True\<rparr>" and u': "bp_RAS u' = (bp_RAS u)[tid := ras_pop (bp_RAS u ! tid)]"
    using c r by (auto simp: correct_taken_def set_RAS_def res_simps Let_def split: if_splits option.splits)
  have "0 < length (addrStack (bp_RAS u ! tid))" using ras_tos_in [OF ok] by auto
  then show ?thesis using tid r by (simp add: undo_RAS_def r' u' ras_restore_def set_RAS_def)
qed

end
