(* ===== verification/MemPacket.thy ===== *)
theory MemPacket
  imports Prelude
begin

text \<open>
  The packets the caches exchange (\<open>mem/packet.hh\<close>, \<open>mem/packet.cc\<close>) and the requests they
  carry (\<open>mem/request.hh\<close>). The command table is the source's array, indexed by the number of
  the command. Packets live in a store, since the miss registers hold pointers to them and change
  them in place; their payloads live in a store of buffers, since a packet with static data shares
  its buffer with the packet it was copied from. A byte that was allocated and never written is
  \<open>None\<close>. The stack of sender states of a packet is a list, its innermost state first; requests
  are values, since no operation modelled here changes one. The labels and the output of a
  print request are not modelled.
\<close>

subsection \<open>Commands\<close>

datatype Command =
    InvalidCmd | ReadReq | ReadResp | ReadRespWithInvalidate | WriteReq | WriteResp |
  WritebackDirty | WritebackClean | WriteClean | CleanEvict | SoftPFReq | SoftPFExReq |
  HardPFReq | SoftPFResp | HardPFResp | WriteLineReq | UpgradeReq | SCUpgradeReq | UpgradeResp
  | SCUpgradeFailReq | UpgradeFailResp | ReadExReq | ReadExResp | ReadCleanReq | ReadSharedReq
  | LoadLockedReq | StoreCondReq | StoreCondFailReq | StoreCondResp | SwapReq | SwapResp |
  MemFenceReq | MemFenceResp | CleanSharedReq | CleanSharedResp | CleanInvalidReq |
  CleanInvalidResp | InvalidDestError | BadAddressError | FunctionalReadError |
  FunctionalWriteError | PrintReq | FlushReq | InvalidateReq | InvalidateResp

datatype Attribute =
    IsRead | IsWrite | IsUpgrade | IsInvalidate | IsClean | NeedsWritable | IsRequest | IsResponse
  | NeedsResponse | IsEviction | IsSWPrefetch | IsHWPrefetch | IsLlsc | HasData | IsError |
  IsPrint | IsFlush | FromCache

text \<open>The numbers the compiler gives the commands: \<open>MemFenceReq = SwapResp + 3\<close> skips two retired ones.\<close>

primrec cmd_toInt :: "Command \<Rightarrow> nat" where
  "cmd_toInt InvalidCmd = 0"
| "cmd_toInt ReadReq = 1"
| "cmd_toInt ReadResp = 2"
| "cmd_toInt ReadRespWithInvalidate = 3"
| "cmd_toInt WriteReq = 4"
| "cmd_toInt WriteResp = 5"
| "cmd_toInt WritebackDirty = 6"
| "cmd_toInt WritebackClean = 7"
| "cmd_toInt WriteClean = 8"
| "cmd_toInt CleanEvict = 9"
| "cmd_toInt SoftPFReq = 10"
| "cmd_toInt SoftPFExReq = 11"
| "cmd_toInt HardPFReq = 12"
| "cmd_toInt SoftPFResp = 13"
| "cmd_toInt HardPFResp = 14"
| "cmd_toInt WriteLineReq = 15"
| "cmd_toInt UpgradeReq = 16"
| "cmd_toInt SCUpgradeReq = 17"
| "cmd_toInt UpgradeResp = 18"
| "cmd_toInt SCUpgradeFailReq = 19"
| "cmd_toInt UpgradeFailResp = 20"
| "cmd_toInt ReadExReq = 21"
| "cmd_toInt ReadExResp = 22"
| "cmd_toInt ReadCleanReq = 23"
| "cmd_toInt ReadSharedReq = 24"
| "cmd_toInt LoadLockedReq = 25"
| "cmd_toInt StoreCondReq = 26"
| "cmd_toInt StoreCondFailReq = 27"
| "cmd_toInt StoreCondResp = 28"
| "cmd_toInt SwapReq = 29"
| "cmd_toInt SwapResp = 30"
| "cmd_toInt MemFenceReq = 33"
| "cmd_toInt MemFenceResp = 34"
| "cmd_toInt CleanSharedReq = 35"
| "cmd_toInt CleanSharedResp = 36"
| "cmd_toInt CleanInvalidReq = 37"
| "cmd_toInt CleanInvalidResp = 38"
| "cmd_toInt InvalidDestError = 39"
| "cmd_toInt BadAddressError = 40"
| "cmd_toInt FunctionalReadError = 41"
| "cmd_toInt FunctionalWriteError = 42"
| "cmd_toInt PrintReq = 43"
| "cmd_toInt FlushReq = 44"
| "cmd_toInt InvalidateReq = 45"
| "cmd_toInt InvalidateResp = 46"

definition commandInfo :: "(Attribute list \<times> Command \<times> string) list" where
  "commandInfo =
     [([], InvalidCmd, ''InvalidCmd''),
      ([IsRead, IsRequest, NeedsResponse], ReadResp, ''ReadReq''),
      ([IsRead, IsResponse, HasData], InvalidCmd, ''ReadResp''),
      ([IsRead, IsResponse, HasData, IsInvalidate], InvalidCmd, ''ReadRespWithInvalidate''),
      ([IsWrite, NeedsWritable, IsRequest, NeedsResponse, HasData], WriteResp, ''WriteReq''),
      ([IsWrite, IsResponse], InvalidCmd, ''WriteResp''),
      ([IsWrite, IsRequest, IsEviction, HasData, FromCache], InvalidCmd, ''WritebackDirty''),
      ([IsWrite, IsRequest, IsEviction, HasData, FromCache], InvalidCmd, ''WritebackClean''),
      ([IsWrite, IsRequest, HasData, FromCache], InvalidCmd, ''WriteClean''),
      ([IsRequest, IsEviction, FromCache], InvalidCmd, ''CleanEvict''),
      ([IsRead, IsRequest, IsSWPrefetch, NeedsResponse], SoftPFResp, ''SoftPFReq''),
      ([IsRead, NeedsWritable, IsInvalidate, IsRequest, IsSWPrefetch, NeedsResponse], SoftPFResp, ''SoftPFExReq''),
      ([IsRead, IsRequest, IsHWPrefetch, NeedsResponse, FromCache], HardPFResp, ''HardPFReq''),
      ([IsRead, IsResponse, IsSWPrefetch, HasData], InvalidCmd, ''SoftPFResp''),
      ([IsRead, IsResponse, IsHWPrefetch, HasData], InvalidCmd, ''HardPFResp''),
      ([IsWrite, NeedsWritable, IsRequest, NeedsResponse, HasData], WriteResp, ''WriteLineReq''),
      ([IsInvalidate, NeedsWritable, IsUpgrade, IsRequest, NeedsResponse, FromCache], UpgradeResp, ''UpgradeReq''),
      ([IsInvalidate, NeedsWritable, IsUpgrade, IsLlsc, IsRequest, NeedsResponse, FromCache], UpgradeResp, ''SCUpgradeReq''),
      ([IsUpgrade, IsResponse], InvalidCmd, ''UpgradeResp''),
      ([IsRead, NeedsWritable, IsInvalidate, IsLlsc, IsRequest, NeedsResponse, FromCache], UpgradeFailResp, ''SCUpgradeFailReq''),
      ([IsRead, IsResponse, HasData], InvalidCmd, ''UpgradeFailResp''),
      ([IsRead, NeedsWritable, IsInvalidate, IsRequest, NeedsResponse, FromCache], ReadExResp, ''ReadExReq''),
      ([IsRead, IsResponse, HasData], InvalidCmd, ''ReadExResp''),
      ([IsRead, IsRequest, NeedsResponse, FromCache], ReadResp, ''ReadCleanReq''),
      ([IsRead, IsRequest, NeedsResponse, FromCache], ReadResp, ''ReadSharedReq''),
      ([IsRead, IsLlsc, IsRequest, NeedsResponse], ReadResp, ''LoadLockedReq''),
      ([IsWrite, NeedsWritable, IsLlsc, IsRequest, NeedsResponse, HasData], StoreCondResp, ''StoreCondReq''),
      ([IsWrite, NeedsWritable, IsLlsc, IsRequest, NeedsResponse, HasData], StoreCondResp, ''StoreCondFailReq''),
      ([IsWrite, IsLlsc, IsResponse], InvalidCmd, ''StoreCondResp''),
      ([IsRead, IsWrite, NeedsWritable, IsRequest, HasData, NeedsResponse], SwapResp, ''SwapReq''),
      ([IsRead, IsWrite, IsResponse, HasData], InvalidCmd, ''SwapResp''),
      ([], InvalidCmd, ''Deprecated_MessageReq''),
      ([], InvalidCmd, ''Deprecated_MessageResp''),
      ([IsRequest, NeedsResponse], MemFenceResp, ''MemFenceReq''),
      ([IsResponse], InvalidCmd, ''MemFenceResp''),
      ([IsRequest, IsClean, NeedsResponse, FromCache], CleanSharedResp, ''CleanSharedReq''),
      ([IsResponse, IsClean], InvalidCmd, ''CleanSharedResp''),
      ([IsRequest, IsInvalidate, IsClean, NeedsResponse, FromCache], CleanInvalidResp, ''CleanInvalidReq''),
      ([IsResponse, IsInvalidate, IsClean], InvalidCmd, ''CleanInvalidResp''),
      ([IsResponse, IsError], InvalidCmd, ''InvalidDestError''),
      ([IsResponse, IsError], InvalidCmd, ''BadAddressError''),
      ([IsRead, IsResponse, IsError], InvalidCmd, ''FunctionalReadError''),
      ([IsWrite, IsResponse, IsError], InvalidCmd, ''FunctionalWriteError''),
      ([IsRequest, IsPrint], InvalidCmd, ''PrintReq''),
      ([IsRequest, IsFlush, NeedsWritable], InvalidCmd, ''FlushReq''),
      ([IsInvalidate, IsRequest, NeedsWritable, NeedsResponse, FromCache], InvalidateResp, ''InvalidateReq''),
      ([IsInvalidate, IsResponse], InvalidCmd, ''InvalidateResp'')]"

definition testCmdAttrib :: "Attribute \<Rightarrow> Command \<Rightarrow> bool" where
  "testCmdAttrib a c \<longleftrightarrow> a \<in> set (fst (commandInfo ! cmd_toInt c))"

definition responseCommand :: "Command \<Rightarrow> Command" where
  "responseCommand c = fst (snd (commandInfo ! cmd_toInt c))"

definition cmd_toString :: "Command \<Rightarrow> string" where
  "cmd_toString c = snd (snd (commandInfo ! cmd_toInt c))"

definition cmd_isRead :: "Command \<Rightarrow> bool" where "cmd_isRead = testCmdAttrib IsRead"
definition cmd_isWrite :: "Command \<Rightarrow> bool" where "cmd_isWrite = testCmdAttrib IsWrite"
definition cmd_isUpgrade :: "Command \<Rightarrow> bool" where "cmd_isUpgrade = testCmdAttrib IsUpgrade"
definition cmd_isRequest :: "Command \<Rightarrow> bool" where "cmd_isRequest = testCmdAttrib IsRequest"
definition cmd_isResponse :: "Command \<Rightarrow> bool" where "cmd_isResponse = testCmdAttrib IsResponse"
definition cmd_needsWritable :: "Command \<Rightarrow> bool" where "cmd_needsWritable = testCmdAttrib NeedsWritable"
definition cmd_needsResponse :: "Command \<Rightarrow> bool" where "cmd_needsResponse = testCmdAttrib NeedsResponse"
definition cmd_isInvalidate :: "Command \<Rightarrow> bool" where "cmd_isInvalidate = testCmdAttrib IsInvalidate"
definition cmd_isEviction :: "Command \<Rightarrow> bool" where "cmd_isEviction = testCmdAttrib IsEviction"
definition cmd_isClean :: "Command \<Rightarrow> bool" where "cmd_isClean = testCmdAttrib IsClean"
definition cmd_fromCache :: "Command \<Rightarrow> bool" where "cmd_fromCache = testCmdAttrib FromCache"
definition cmd_hasData :: "Command \<Rightarrow> bool" where "cmd_hasData = testCmdAttrib HasData"
definition cmd_isLLSC :: "Command \<Rightarrow> bool" where "cmd_isLLSC = testCmdAttrib IsLlsc"
definition cmd_isError :: "Command \<Rightarrow> bool" where "cmd_isError = testCmdAttrib IsError"
definition cmd_isPrint :: "Command \<Rightarrow> bool" where "cmd_isPrint = testCmdAttrib IsPrint"
definition cmd_isFlush :: "Command \<Rightarrow> bool" where "cmd_isFlush = testCmdAttrib IsFlush"

definition cmd_isWriteback :: "Command \<Rightarrow> bool" where
  "cmd_isWriteback c \<longleftrightarrow> testCmdAttrib IsEviction c \<and> testCmdAttrib HasData c"

definition cmd_isPrefetch :: "Command \<Rightarrow> bool" where
  "cmd_isPrefetch c \<longleftrightarrow> testCmdAttrib IsSWPrefetch c \<or> testCmdAttrib IsHWPrefetch c"

lemmas cmd_defs = cmd_isRead_def cmd_isWrite_def cmd_isUpgrade_def cmd_isRequest_def cmd_isResponse_def
  cmd_needsWritable_def cmd_needsResponse_def cmd_isInvalidate_def cmd_isEviction_def cmd_isClean_def
  cmd_fromCache_def cmd_hasData_def cmd_isLLSC_def cmd_isError_def cmd_isPrint_def cmd_isFlush_def
  cmd_isWriteback_def cmd_isPrefetch_def

lemmas cmd_table = cmd_defs testCmdAttrib_def responseCommand_def cmd_toString_def commandInfo_def

subsection \<open>Requests\<close>

definition fl_isSet :: "'a::len word \<Rightarrow> 'a word \<Rightarrow> bool" where
  "fl_isSet fl m \<longleftrightarrow> fl AND m \<noteq> 0"

definition fl_set :: "'a::len word \<Rightarrow> 'a word \<Rightarrow> 'a word" where
  "fl_set fl m = fl OR m"

definition fl_clear :: "'a::len word \<Rightarrow> 'a word \<Rightarrow> 'a word" where
  "fl_clear fl m = fl AND NOT m"

definition UNCACHEABLE :: u64 where "UNCACHEABLE = 0x400"
definition STRICT_ORDER :: u64 where "STRICT_ORDER = 0x800"
definition PRIVILEGED :: u64 where "PRIVILEGED = 0x8000"
definition LLSC :: u64 where "LLSC = 0x200000"
definition MEM_SWAP :: u64 where "MEM_SWAP = 0x400000"
definition MEM_SWAP_COND :: u64 where "MEM_SWAP_COND = 0x800000"
definition PREFETCH :: u64 where "PREFETCH = 0x1000000"
definition PF_EXCLUSIVE :: u64 where "PF_EXCLUSIVE = 0x2000000"
definition SECURE :: u64 where "SECURE = 0x10000000"
definition ATOMIC_RETURN_OP :: u64 where "ATOMIC_RETURN_OP = 0x40000000"
definition ATOMIC_NO_RETURN_OP :: u64 where "ATOMIC_NO_RETURN_OP = 0x80000000"
definition INVALIDATE :: u64 where "INVALIDATE = 0x100000000"
definition CLEAN :: u64 where "CLEAN = 0x200000000"

definition R_VALID_SIZE :: "16 word" where "R_VALID_SIZE = 0x1"
definition R_VALID_PADDR :: "16 word" where "R_VALID_PADDR = 0x2"
definition R_VALID_VADDR :: "16 word" where "R_VALID_VADDR = 0x4"
definition R_VALID_STREAM_ID :: "16 word" where "R_VALID_STREAM_ID = 0x100"

lemmas req_flag_defs = UNCACHEABLE_def STRICT_ORDER_def PRIVILEGED_def LLSC_def MEM_SWAP_def
  MEM_SWAP_COND_def PREFETCH_def PF_EXCLUSIVE_def SECURE_def ATOMIC_RETURN_OP_def
  ATOMIC_NO_RETURN_OP_def INVALIDATE_def CLEAN_def R_VALID_SIZE_def R_VALID_PADDR_def
  R_VALID_VADDR_def R_VALID_STREAM_ID_def

record Request_t =
  rq_paddr :: Addr
  rq_size :: u32
  rq_byteEnable :: "bool list"
  rq_masterId :: "16 word"
  rq_flags :: u64
  rq_memSpaceConfigFlags :: u32
  rq_privateFlags :: "16 word"
  rq_time :: Tick
  rq_taskId :: u32
  rq_streamId :: u32
  rq_substreamId :: u32
  rq_vaddr :: Addr
  rq_extraData :: u64
  rq_contextId :: int
  rq_pc :: Addr
  rq_reqInstSeqNum :: u64

definition rq_empty :: Request_t where
  "rq_empty = \<lparr>rq_paddr = 0, rq_size = 0, rq_byteEnable = [], rq_masterId = - 1, rq_flags = 0,
     rq_memSpaceConfigFlags = 0, rq_privateFlags = 0, rq_time = - 1, rq_taskId = 1024, rq_streamId = 0,
     rq_substreamId = 0, rq_vaddr = - 1, rq_extraData = 0, rq_contextId = - 1, rq_pc = - 1,
     rq_reqInstSeqNum = 0\<rparr>"

text \<open>The constructor for physical requests, and the copy constructor.\<close>

definition Request_phys :: "Tick \<Rightarrow> Addr \<Rightarrow> u32 \<Rightarrow> u64 \<Rightarrow> 16 word \<Rightarrow> Request_t" where
  "Request_phys now paddr sz fl mid =
     rq_empty\<lparr>rq_paddr := paddr, rq_size := sz, rq_masterId := mid, rq_time := now,
       rq_flags := fl_set 0 fl, rq_privateFlags := fl_set 0 (R_VALID_PADDR OR R_VALID_SIZE)\<rparr>"

definition Request_copy :: "Request_t \<Rightarrow> Request_t" where
  "Request_copy r =
     rq_empty\<lparr>rq_paddr := rq_paddr r, rq_size := rq_size r, rq_byteEnable := rq_byteEnable r,
       rq_masterId := rq_masterId r, rq_flags := rq_flags r,
       rq_memSpaceConfigFlags := rq_memSpaceConfigFlags r, rq_privateFlags := rq_privateFlags r,
       rq_time := rq_time r, rq_taskId := rq_taskId r, rq_vaddr := rq_vaddr r,
       rq_extraData := rq_extraData r, rq_contextId := rq_contextId r, rq_pc := rq_pc r,
       rq_reqInstSeqNum := rq_reqInstSeqNum r\<rparr>"

definition rq_hasPaddr :: "Request_t \<Rightarrow> bool" where
  "rq_hasPaddr r = fl_isSet (rq_privateFlags r) R_VALID_PADDR"

definition rq_hasSize :: "Request_t \<Rightarrow> bool" where
  "rq_hasSize r = fl_isSet (rq_privateFlags r) R_VALID_SIZE"

definition rq_getFlags :: "Request_t \<Rightarrow> u64 res" where
  "rq_getFlags r =
     (if fl_isSet (rq_privateFlags r) (R_VALID_PADDR OR R_VALID_VADDR) then Inr (rq_flags r) else Inl AssertFailed)"

definition rq_isMasked :: "Request_t \<Rightarrow> bool" where
  "rq_isMasked r \<longleftrightarrow> False \<in> set (rq_byteEnable r)"

definition rq_isUncacheable :: "Request_t \<Rightarrow> bool" where "rq_isUncacheable r = fl_isSet (rq_flags r) UNCACHEABLE"
definition rq_isPrefetchEx :: "Request_t \<Rightarrow> bool" where "rq_isPrefetchEx r = fl_isSet (rq_flags r) PF_EXCLUSIVE"
definition rq_isLLSC :: "Request_t \<Rightarrow> bool" where "rq_isLLSC r = fl_isSet (rq_flags r) LLSC"
definition rq_isSwap :: "Request_t \<Rightarrow> bool" where "rq_isSwap r = fl_isSet (rq_flags r) (MEM_SWAP OR MEM_SWAP_COND)"
definition rq_isSecure :: "Request_t \<Rightarrow> bool" where "rq_isSecure r = fl_isSet (rq_flags r) SECURE"
definition rq_isCacheClean :: "Request_t \<Rightarrow> bool" where "rq_isCacheClean r = fl_isSet (rq_flags r) CLEAN"
definition rq_isCacheInvalidate :: "Request_t \<Rightarrow> bool" where "rq_isCacheInvalidate r = fl_isSet (rq_flags r) INVALIDATE"
definition rq_isCacheMaintenance :: "Request_t \<Rightarrow> bool" where "rq_isCacheMaintenance r = fl_isSet (rq_flags r) (CLEAN OR INVALIDATE)"

definition rq_isPrefetch :: "Request_t \<Rightarrow> bool" where
  "rq_isPrefetch r \<longleftrightarrow> fl_isSet (rq_flags r) PREFETCH \<or> fl_isSet (rq_flags r) PF_EXCLUSIVE"

definition rq_isAtomic :: "Request_t \<Rightarrow> bool" where
  "rq_isAtomic r \<longleftrightarrow> fl_isSet (rq_flags r) ATOMIC_RETURN_OP \<or> fl_isSet (rq_flags r) ATOMIC_NO_RETURN_OP"

lemma fl_isSet_or: "fl_isSet fl (a OR b) \<longleftrightarrow> fl_isSet fl a \<or> fl_isSet fl b"
  by (simp add: fl_isSet_def bit.conj_disj_distrib or_eq_0_iff)

lemma rq_maintenance: "rq_isCacheMaintenance r \<longleftrightarrow> rq_isCacheClean r \<or> rq_isCacheInvalidate r"
  by (simp add: rq_isCacheMaintenance_def rq_isCacheClean_def rq_isCacheInvalidate_def fl_isSet_or)

subsection \<open>Packets\<close>

definition COPY_FLAGS :: u32 where "COPY_FLAGS = 0x3F"
definition RESPONDER_FLAGS :: u32 where "RESPONDER_FLAGS = 0x9"
definition HAS_SHARERS :: u32 where "HAS_SHARERS = 0x1"
definition EXPRESS_SNOOP :: u32 where "EXPRESS_SNOOP = 0x2"
definition RESPONDER_HAD_WRITABLE :: u32 where "RESPONDER_HAD_WRITABLE = 0x4"
definition CACHE_RESPONDING :: u32 where "CACHE_RESPONDING = 0x8"
definition WRITE_THROUGH :: u32 where "WRITE_THROUGH = 0x10"
definition SATISFIED :: u32 where "SATISFIED = 0x20"
definition VALID_ADDR :: u32 where "VALID_ADDR = 0x100"
definition VALID_SIZE :: u32 where "VALID_SIZE = 0x200"
definition STATIC_DATA :: u32 where "STATIC_DATA = 0x1000"
definition DYNAMIC_DATA :: u32 where "DYNAMIC_DATA = 0x2000"
definition BLOCK_CACHED :: u32 where "BLOCK_CACHED = 0x10000"

lemmas pkt_flag_defs = COPY_FLAGS_def RESPONDER_FLAGS_def HAS_SHARERS_def EXPRESS_SNOOP_def
  RESPONDER_HAD_WRITABLE_def CACHE_RESPONDING_def WRITE_THROUGH_def SATISFIED_def VALID_ADDR_def
  VALID_SIZE_def STATIC_DATA_def DYNAMIC_DATA_def BLOCK_CACHED_def

datatype SenderState = SenderMSHR nat | SenderOther nat

record Packet_t =
  pk_flags :: u32
  pk_cmd :: Command
  pk_id :: u64
  pk_req :: Request_t
  pk_data :: "nat option"   \<comment> \<open>a buffer of the store\<close>
  pk_addr :: Addr
  pk_isSecure :: bool
  pk_size :: u32
  pk_bytesValid :: "bool list"
  pk_qosValue :: u8
  pk_headerDelay :: u32
  pk_snoopDelay :: u32
  pk_payloadDelay :: u32
  pk_senderState :: "SenderState list"

record PktMem =
  curTick :: Tick
  bufs :: "u8 option list list"
  pkts :: "Packet_t list"

definition pkt_at :: "'m PktMem_scheme \<Rightarrow> nat \<Rightarrow> Packet_t res" where
  "pkt_at M p = (if p < length (pkts M) then Inr (pkts M ! p) else Inl NullDeref)"

definition pkt_put :: "nat \<Rightarrow> Packet_t \<Rightarrow> 'm PktMem_scheme \<Rightarrow> 'm PktMem_scheme" where
  "pkt_put p k M = M\<lparr>pkts := (pkts M)[p := k]\<rparr>"

definition pk_is :: "u32 \<Rightarrow> Packet_t \<Rightarrow> bool" where
  "pk_is f k = fl_isSet (pk_flags k) f"

definition pk_setf :: "u32 \<Rightarrow> Packet_t \<Rightarrow> Packet_t" where
  "pk_setf f k = k\<lparr>pk_flags := fl_set (pk_flags k) f\<rparr>"

definition pk_clearf :: "u32 \<Rightarrow> Packet_t \<Rightarrow> Packet_t" where
  "pk_clearf f k = k\<lparr>pk_flags := fl_clear (pk_flags k) f\<rparr>"

definition needsWritable :: "Packet_t \<Rightarrow> bool res" where
  "needsWritable k =
     (if cmd_isRequest (pk_cmd k) then Inr (cmd_needsWritable (pk_cmd k)) else Inl AssertFailed)"

definition hasRespData :: "Packet_t \<Rightarrow> bool" where
  "hasRespData k = cmd_hasData (responseCommand (pk_cmd k))"

definition getAddr :: "Packet_t \<Rightarrow> Addr res" where
  "getAddr k = (if pk_is VALID_ADDR k then Inr (pk_addr k) else Inl AssertFailed)"

definition getSize :: "Packet_t \<Rightarrow> u32 res" where
  "getSize k = (if pk_is VALID_SIZE k then Inr (pk_size k) else Inl AssertFailed)"

definition getOffset :: "u32 \<Rightarrow> Packet_t \<Rightarrow> Addr res" where
  "getOffset blk_size k = rbind (getAddr k) (\<lambda>a. Inr (a AND ucast (blk_size - 1)))"

definition getBlockAddr :: "u32 \<Rightarrow> Packet_t \<Rightarrow> Addr res" where
  "getBlockAddr blk_size k = rbind (getAddr k) (\<lambda>a. Inr (a AND NOT (ucast (blk_size - 1))))"

definition pkt_isSecure :: "Packet_t \<Rightarrow> bool res" where
  "pkt_isSecure k = (if pk_is VALID_ADDR k then Inr (pk_isSecure k) else Inl AssertFailed)"

definition pkt_isWholeLineWrite :: "u32 \<Rightarrow> Packet_t \<Rightarrow> bool res" where
  "pkt_isWholeLineWrite blk_size k =
     (if pk_cmd k = WriteReq \<or> pk_cmd k = WriteLineReq then
        rbind (getOffset blk_size k) (\<lambda>off.
          if off = 0 then rbind (getSize k) (\<lambda>sz. Inr (sz = blk_size)) else Inr False)
      else Inr False)"

definition setCacheResponding :: "Packet_t \<Rightarrow> Packet_t res" where
  "setCacheResponding k =
     (if cmd_isRequest (pk_cmd k) \<and> \<not> pk_is CACHE_RESPONDING k then Inr (pk_setf CACHE_RESPONDING k)
      else Inl AssertFailed)"

definition setHasSharers :: "Packet_t \<Rightarrow> Packet_t" where
  "setHasSharers k = pk_setf HAS_SHARERS k"

definition setResponderHadWritable :: "Packet_t \<Rightarrow> Packet_t res" where
  "setResponderHadWritable k =
     (if pk_is CACHE_RESPONDING k \<and> \<not> pk_is RESPONDER_HAD_WRITABLE k
      then Inr (pk_setf RESPONDER_HAD_WRITABLE k) else Inl AssertFailed)"

definition copyResponderFlags :: "Packet_t \<Rightarrow> Packet_t \<Rightarrow> Packet_t res" where
  "copyResponderFlags other k =
     (if cmd_isRequest (pk_cmd k) \<and> (\<not> pk_is CACHE_RESPONDING other \<or> \<not> pk_is CACHE_RESPONDING k)
      then Inr (pk_setf (pk_flags other AND RESPONDER_FLAGS) k) else Inl AssertFailed)"

definition setWriteThrough :: "Packet_t \<Rightarrow> Packet_t res" where
  "setWriteThrough k =
     (if cmd_isWrite (pk_cmd k) \<and> (cmd_isEviction (pk_cmd k) \<or> pk_cmd k = WriteClean)
      then Inr (pk_setf WRITE_THROUGH k) else Inl AssertFailed)"

definition setSatisfied :: "Packet_t \<Rightarrow> Packet_t res" where
  "setSatisfied k =
     (if cmd_isClean (pk_cmd k) \<and> \<not> pk_is SATISFIED k then Inr (pk_setf SATISFIED k) else Inl AssertFailed)"

definition makeResponse :: "Packet_t \<Rightarrow> Packet_t res" where
  "makeResponse k =
     (if cmd_needsResponse (pk_cmd k) \<and> cmd_isRequest (pk_cmd k)
      then Inr (pk_clearf EXPRESS_SNOOP (k\<lparr>pk_cmd := responseCommand (pk_cmd k)\<rparr>)) else Inl AssertFailed)"

definition setFunctionalResponseStatus :: "bool \<Rightarrow> Packet_t \<Rightarrow> Packet_t" where
  "setFunctionalResponseStatus success k =
     (if success then k
      else if cmd_isWrite (pk_cmd k) then k\<lparr>pk_cmd := FunctionalWriteError\<rparr>
      else k\<lparr>pk_cmd := FunctionalReadError\<rparr>)"

definition matchBlockAddr :: "Addr \<Rightarrow> bool \<Rightarrow> u32 \<Rightarrow> Packet_t \<Rightarrow> bool res" where
  "matchBlockAddr a sec blk_size k =
     rbind (getBlockAddr blk_size k) (\<lambda>b.
       if b = a then rbind (pkt_isSecure k) (\<lambda>s. Inr (s = sec)) else Inr False)"

definition matchBlockAddr_pkt :: "Packet_t \<Rightarrow> u32 \<Rightarrow> Packet_t \<Rightarrow> bool res" where
  "matchBlockAddr_pkt other blk_size k =
     rbind (getBlockAddr blk_size other) (\<lambda>a.
       rbind (pkt_isSecure other) (\<lambda>s. matchBlockAddr a s blk_size k))"

definition pushSenderState :: "SenderState \<Rightarrow> Packet_t \<Rightarrow> Packet_t" where
  "pushSenderState s k = k\<lparr>pk_senderState := s # pk_senderState k\<rparr>"

definition popSenderState :: "Packet_t \<Rightarrow> (SenderState \<times> Packet_t) res" where
  "popSenderState k =
     (case pk_senderState k of [] \<Rightarrow> Inl AssertFailed | s # ss \<Rightarrow> Inr (s, k\<lparr>pk_senderState := ss\<rparr>))"

text \<open>\<open>findNextSenderState<MSHR>\<close>: the first sender state on the stack that is a miss register.\<close>

fun next_mshr :: "SenderState list \<Rightarrow> nat option" where
  "next_mshr [] = None"
| "next_mshr (SenderMSHR m # ss) = Some m"
| "next_mshr (SenderOther i # ss) = next_mshr ss"

definition findNextSenderState :: "Packet_t \<Rightarrow> nat option" where
  "findNextSenderState k = next_mshr (pk_senderState k)"

definition makeReadCmd :: "Request_t \<Rightarrow> Command" where
  "makeReadCmd r =
     (if rq_isLLSC r then LoadLockedReq
      else if rq_isPrefetchEx r then SoftPFExReq
      else if rq_isPrefetch r then SoftPFReq
      else ReadReq)"

definition makeWriteCmd :: "Request_t \<Rightarrow> Command" where
  "makeWriteCmd r =
     (if rq_isLLSC r then StoreCondReq
      else if rq_isSwap r \<or> rq_isAtomic r then SwapReq
      else if rq_isCacheInvalidate r then (if rq_isCacheClean r then CleanInvalidReq else InvalidateReq)
      else if rq_isCacheClean r then CleanSharedReq
      else WriteReq)"

definition isMaskedWrite :: "Packet_t \<Rightarrow> bool" where
  "isMaskedWrite k \<longleftrightarrow> pk_cmd k = WriteReq \<and> rq_isMasked (pk_req k)"

subsection \<open>Construction\<close>

definition pk_blank :: "Request_t \<Rightarrow> Command \<Rightarrow> u64 \<Rightarrow> Packet_t" where
  "pk_blank r c i = \<lparr>pk_flags = 0, pk_cmd = c, pk_id = i, pk_req = r, pk_data = None, pk_addr = 0,
     pk_isSecure = False, pk_size = 0, pk_bytesValid = [], pk_qosValue = 0, pk_headerDelay = 0,
     pk_snoopDelay = 0, pk_payloadDelay = 0, pk_senderState = []\<rparr>"

text \<open>
  The packet id defaults to the address of the request, the argument \<open>rid\<close>. In the block
  constructor the mask is computed on the signed \<open>_blkSize\<close> and widened with its sign.
\<close>

definition Packet_new :: "Request_t \<Rightarrow> Command \<Rightarrow> u64 \<Rightarrow> Packet_t" where
  "Packet_new r c rid =
     (let k = pk_blank r c rid;
          k = (if rq_hasPaddr r then pk_setf VALID_ADDR (k\<lparr>pk_addr := rq_paddr r, pk_isSecure := rq_isSecure r\<rparr>) else k)
      in if rq_hasSize r then pk_setf VALID_SIZE (k\<lparr>pk_size := rq_size r\<rparr>) else k)"

definition Packet_blk :: "Request_t \<Rightarrow> Command \<Rightarrow> u32 \<Rightarrow> u64 \<Rightarrow> u64 \<Rightarrow> Packet_t" where
  "Packet_blk r c blkSize i rid =
     (let k = pk_blank r c (if i \<noteq> 0 then i else rid);
          k = (if rq_hasPaddr r
               then pk_setf VALID_ADDR (k\<lparr>pk_addr := rq_paddr r AND scast (NOT (blkSize - 1)), pk_isSecure := rq_isSecure r\<rparr>)
               else k)
      in pk_setf VALID_SIZE (k\<lparr>pk_size := blkSize\<rparr>))"

definition pkt_allocate :: "'m PktMem_scheme \<Rightarrow> Packet_t \<Rightarrow> (Packet_t \<times> 'm PktMem_scheme) res" where
  "pkt_allocate M k =
     (if cmd_hasData (pk_cmd k) \<or> hasRespData k then
        if pk_is (STATIC_DATA OR DYNAMIC_DATA) k then Inl AssertFailed
        else rbind (getSize k) (\<lambda>sz.
          Inr ((pk_setf DYNAMIC_DATA k)\<lparr>pk_data := Some (length (bufs M))\<rparr>,
               M\<lparr>bufs := bufs M @ [replicate (unat sz) None]\<rparr>))
      else Inr (k, M))"

definition Packet_copy :: "bool \<Rightarrow> bool \<Rightarrow> 'm PktMem_scheme \<Rightarrow> Packet_t \<Rightarrow> (Packet_t \<times> 'm PktMem_scheme) res" where
  "Packet_copy clear_flags alloc_data M pkt =
     (let k = pkt\<lparr>pk_flags := 0, pk_data := None, pk_snoopDelay := 0\<rparr>;
          k = (if clear_flags then k else pk_setf (pk_flags pkt AND COPY_FLAGS) k);
          k = pk_setf (pk_flags pkt AND (VALID_ADDR OR VALID_SIZE)) k
      in if alloc_data then
           if pk_is STATIC_DATA pkt then Inr (pk_setf STATIC_DATA (k\<lparr>pk_data := pk_data pkt\<rparr>), M)
           else pkt_allocate M k
         else Inr (k, M))"

definition pkt_dataStatic :: "nat \<Rightarrow> Packet_t \<Rightarrow> Packet_t res" where
  "pkt_dataStatic b k =
     (if pk_is (STATIC_DATA OR DYNAMIC_DATA) k then Inl AssertFailed
      else Inr (pk_setf STATIC_DATA (k\<lparr>pk_data := Some b\<rparr>)))"

definition getPtr :: "Packet_t \<Rightarrow> nat option res" where
  "getPtr k = (if pk_is (STATIC_DATA OR DYNAMIC_DATA) k \<and> \<not> isMaskedWrite k then Inr (pk_data k) else Inl AssertFailed)"

definition getConstPtr :: "Packet_t \<Rightarrow> nat option res" where
  "getConstPtr k = (if pk_is (STATIC_DATA OR DYNAMIC_DATA) k then Inr (pk_data k) else Inl AssertFailed)"

subsection \<open>Functional accesses\<close>

text \<open>
  \<open>std::memcpy\<close> between two buffers of the store. The loops over \<open>bytesValid\<close> are recursions
  on the number of indices left.
\<close>

definition memcpy :: "nat \<Rightarrow> nat \<Rightarrow> nat \<Rightarrow> nat \<Rightarrow> nat \<Rightarrow> 'm PktMem_scheme \<Rightarrow> 'm PktMem_scheme res" where
  "memcpy d doff s soff n M =
     (if d < length (bufs M) \<and> s < length (bufs M) then
        let dst = bufs M ! d; src = bufs M ! s in
        if doff + n \<le> length dst \<and> soff + n \<le> length src
        then Inr (M\<lparr>bufs := (bufs M)[d := take doff dst @ take n (drop soff src) @ drop (doff + n) dst]\<rparr>)
        else Inl OutOfRange
      else Inl NullDeref)"

fun all_bytes_valid :: "bool list \<Rightarrow> nat \<Rightarrow> nat \<Rightarrow> bool res" where
  "all_bytes_valid bv i 0 = Inr True"
| "all_bytes_valid bv i (Suc n) = rbind (vget bv i) (\<lambda>b. if b then all_bytes_valid bv (Suc i) n else Inr False)"

fun mark_bytes_valid :: "bool list \<Rightarrow> nat \<Rightarrow> nat \<Rightarrow> bool list res" where
  "mark_bytes_valid bv i 0 = Inr bv"
| "mark_bytes_valid bv i (Suc n) = rbind (vset bv i True) (\<lambda>bv'. mark_bytes_valid bv' (Suc i) n)"

definition functional_read :: "nat \<Rightarrow> Packet_t \<Rightarrow> nat \<Rightarrow> nat \<Rightarrow> nat \<Rightarrow> nat \<Rightarrow> nat \<Rightarrow> 'm PktMem_scheme \<Rightarrow>
    (bool \<times> 'm PktMem_scheme) res" where
  "functional_read p k func_offset b val_offset overlap sz M =
     rbind (getPtr k) (\<lambda>d.
       case d of None \<Rightarrow> Inl NullDeref
       | Some d \<Rightarrow>
         rbind (memcpy d func_offset b val_offset overlap M) (\<lambda>M.
           let bv = (if pk_bytesValid k = [] then replicate sz False else pk_bytesValid k) in
           rbind (all_bytes_valid bv 0 func_offset) (\<lambda>before.
             rbind (mark_bytes_valid bv func_offset overlap) (\<lambda>bv'.
               rbind (if before then all_bytes_valid bv' (func_offset + overlap) (sz - (func_offset + overlap))
                      else Inr False) (\<lambda>all_valid.
                 Inr (all_valid, pkt_put p (k\<lparr>pk_bytesValid := bv'\<rparr>) M))))))"

definition functional_write :: "Packet_t \<Rightarrow> nat \<Rightarrow> nat \<Rightarrow> nat \<Rightarrow> nat \<Rightarrow> 'm PktMem_scheme \<Rightarrow> 'm PktMem_scheme res" where
  "functional_write k func_offset b val_offset overlap M =
     rbind (getConstPtr k) (\<lambda>d.
       case d of None \<Rightarrow> Inl NullDeref | Some d \<Rightarrow> memcpy b val_offset d func_offset overlap M)"

definition trySatisfyFunctional :: "nat \<Rightarrow> Addr \<Rightarrow> bool \<Rightarrow> u32 \<Rightarrow> nat option \<Rightarrow> 'm PktMem_scheme \<Rightarrow>
    (bool \<times> 'm PktMem_scheme) res" where
  "trySatisfyFunctional p a is_secure sz' data M =
     rbind (pkt_at M p) (\<lambda>k. rbind (getAddr k) (\<lambda>func_start. rbind (getSize k) (\<lambda>sz.
       let func_end = func_start + ucast sz - 1;
           val_start = a;
           val_end = val_start + scast sz' - 1
       in if is_secure \<noteq> pk_isSecure k \<or> func_start > val_end \<or> val_start > func_end then Inr (False, M)
          else if cmd_isPrint (pk_cmd k) then (if data = None then Inr (False, M) else Inl AssertFailed)
          else case data of None \<Rightarrow> Inr (False, M)
          | Some b \<Rightarrow>
            let val_offset = (if func_start > val_start then func_start - val_start else 0);
                func_offset = (if func_start < val_start then val_start - func_start else 0);
                overlap_size = min val_end func_end + 1 - max val_start func_start
            in if cmd_isRead (pk_cmd k)
               then functional_read p k (unat func_offset) b (unat val_offset) (unat overlap_size) (unat sz) M
               else if cmd_isWrite (pk_cmd k)
               then rbind (functional_write k (unat func_offset) b (unat val_offset) (unat overlap_size) M)
                      (\<lambda>M. Inr (False, M))
               else Inl PanicError)))"

text \<open>The overload that tries another packet. A masked write is skipped; only the assertions of the overlap test before the warning matter.\<close>

definition trySatisfyFunctional_pkt :: "nat \<Rightarrow> nat \<Rightarrow> 'm PktMem_scheme \<Rightarrow> (bool \<times> 'm PktMem_scheme) res" where
  "trySatisfyFunctional_pkt p q M =
     rbind (pkt_at M q) (\<lambda>other.
       if isMaskedWrite other then
         rbind (pkt_at M p) (\<lambda>k. rbind (pkt_isSecure other) (\<lambda>s.
           if pk_isSecure k = s then
             rbind (getAddr k) (\<lambda>x. rbind (getAddr other) (\<lambda>y. rbind (getSize other) (\<lambda>sz.
               if x \<le> y + ucast sz - 1 then rbind (getSize k) (\<lambda>_. Inr (False, M)) else Inr (False, M))))
           else Inr (False, M)))
       else rbind (getAddr other) (\<lambda>a. rbind (pkt_isSecure other) (\<lambda>s. rbind (getSize other) (\<lambda>sz.
         rbind (if cmd_hasData (pk_cmd other) then getPtr other else Inr None) (\<lambda>data.
           trySatisfyFunctional p a s sz data M)))))"

end
