(* ===== verification/FuncAccess.thy ===== *)
theory FuncAccess
  imports MemPacket
begin

text \<open>
  What a functional access reads: the bytes of the overlap with the other packet, and no others. The
  command table is checked for the facts the caches rely on.
\<close>

subsection \<open>The command table\<close>

text \<open>A packet that needs a response gets one of the right kind, and its payload matches its direction.\<close>

lemma command_table:
  "(cmd_needsResponse c \<longrightarrow> cmd_isRequest c \<and> cmd_isResponse (responseCommand c) \<and>
      cmd_hasData (responseCommand c) = cmd_isRead c) \<and>
   cmd_needsResponse c = (responseCommand c \<noteq> InvalidCmd) \<and>
   (cmd_isRequest c \<longrightarrow> cmd_hasData c = cmd_isWrite c) \<and>
   \<not> (cmd_isRequest c \<and> cmd_isResponse c) \<and>
   (cmd_fromCache c \<longrightarrow> cmd_isClean c \<or> cmd_needsWritable c = cmd_isInvalidate c)"
  by (cases c) (simp_all add: cmd_table)

lemma makeResponse_ok:
  assumes "cmd_needsResponse (pk_cmd k)"
  shows "succeeds (makeResponse k) (\<lambda>r. cmd_isResponse (pk_cmd r) \<and> cmd_hasData (pk_cmd r) = cmd_isRead (pk_cmd k) \<and>
    \<not> pk_is EXPRESS_SNOOP r \<and> pk_addr r = pk_addr k \<and> pk_size r = pk_size k \<and> pk_senderState r = pk_senderState k)"
  using assms command_table [of "pk_cmd k"]
  by (simp add: makeResponse_def pk_clearf_def pk_is_def fl_isSet_def fl_clear_def and.assoc)

subsection \<open>Loops over the valid bytes\<close>

lemma all_bytes_valid_eq: "i + n \<le> length bv \<Longrightarrow> all_bytes_valid bv i n = Inr (\<forall>j. i \<le> j \<and> j < i + n \<longrightarrow> bv ! j)"
proof (induction n arbitrary: i)
  case (Suc n)
  have "(\<forall>j. i \<le> j \<and> j < i + Suc n \<longrightarrow> bv ! j) \<longleftrightarrow> bv ! i \<and> (\<forall>j. Suc i \<le> j \<and> j < Suc i + n \<longrightarrow> bv ! j)"
    by (metis Suc_leD Suc_leI add_Suc_right add_Suc_shift le_add1 le_eq_less_or_eq less_Suc_eq_le order_refl)
  with Suc show ?case by simp
qed auto

lemma mark_bytes_valid_eq:
  "i + n \<le> length bv \<Longrightarrow> \<exists>bv'. mark_bytes_valid bv i n = Inr bv' \<and> length bv' = length bv \<and>
     (\<forall>j < length bv. bv' ! j = (bv ! j \<or> i \<le> j \<and> j < i + n))"
proof (induction n arbitrary: i bv)
  case (Suc n)
  then obtain bv' where b: "mark_bytes_valid (bv[i := True]) (Suc i) n = Inr bv'" "length bv' = length bv"
    "\<forall>j < length bv. bv' ! j = (bv[i := True] ! j \<or> Suc i \<le> j \<and> j < Suc i + n)"
    using Suc.IH [of "Suc i" "bv[i := True]"] by auto
  have "\<forall>j < length bv. bv' ! j = (bv ! j \<or> i \<le> j \<and> j < i + Suc n)"
    using b(3) Suc.prems by (auto simp: nth_list_update)
  with b Suc.prems show ?case by auto
qed auto

subsection \<open>The overlap\<close>

lemma unat_last:
  fixes x y :: "64 word"
  assumes "0 < unat y" and "unat x + unat y \<le> 2 ^ 64"
  shows "unat (x + y - 1) = unat x + unat y - 1"
proof -
  have y1: "unat (y - 1) = unat y - 1" using assms(1) by (intro word_dec_pos) auto
  have "unat (x + (y - 1)) = unat x + unat (y - 1)"
    using assms y1 by (simp add: unat_word_ariths)
  then show ?thesis using assms(1) y1 by (simp only: add_diff_eq)
qed

lemma unat_overlap:
  fixes a b :: "64 word"
  assumes "0 < m" and "0 < n" and "m < 2 ^ 64"
    and e: "unat va = unat a + m - 1" and f: "unat fb = unat b + n - 1"
    and "b \<le> va" and "a \<le> fb"
  shows "unat (min va fb + 1 - max a b) = min (unat a + m) (unat b + n) - max (unat a) (unat b)"
proof -
  define x where "x = min va fb"
  define y where "y = max a b"
  have x: "unat x = min (unat a + m - 1) (unat b + n - 1)" and y: "unat y = max (unat a) (unat b)"
    by (simp_all add: x_def y_def min_def max_def word_le_nat_alt e f)
  have "y \<le> x" using assms by (auto simp: word_le_nat_alt x_def y_def min_def max_def)
  then have xy: "unat (x - y) = unat x - unat y" "unat y \<le> unat x" by (simp_all add: unat_sub word_le_nat_alt)
  then have r: "Suc (unat x - unat y) = min (unat a + m) (unat b + n) - max (unat a) (unat b)"
    using assms(1,2) x y by (auto simp: min_def max_def split: if_splits)
  then have "Suc (unat x - unat y) < 2 ^ 64" using assms(3) by (auto simp: min_def max_def split: if_splits)
  then have "unat ((x - y) + 1) = Suc (unat x - unat y)" by (simp add: unat_word_ariths xy(1))
  moreover have e': "min va fb + 1 - max a b = (x - y) + 1" by (simp add: x_def y_def)
  ultimately show ?thesis unfolding e' r by simp
qed

lemma memcpy_ok:
  assumes "d < length (bufs M)" and "s < length (bufs M)" and "d \<noteq> s"
    and "doff + n \<le> length (bufs M ! d)" and "soff + n \<le> length (bufs M ! s)"
  shows "\<exists>M'. memcpy d doff s soff n M = Inr M' \<and> pkts M' = pkts M \<and> length (bufs M') = length (bufs M) \<and>
    length (bufs M' ! d) = length (bufs M ! d) \<and>
    (\<forall>i < length (bufs M ! d). bufs M' ! d ! i =
       (if doff \<le> i \<and> i < doff + n then bufs M ! s ! (soff + (i - doff)) else bufs M ! d ! i)) \<and>
    (\<forall>x. x \<noteq> d \<longrightarrow> bufs M' ! x = bufs M ! x)"
proof -
  have "min (length (bufs M ! d)) doff = doff" "min (length (bufs M ! s) - soff) n = n" using assms by auto
  with assms show ?thesis by (auto simp: memcpy_def Let_def nth_append)
qed

lemma unat_ucast_32_64: "unat (ucast (x :: 32 word) :: 64 word) = unat x"
proof -
  have "unat x < 2 ^ 64" using unsigned_less [of x, where ?'a = nat] by simp
  then show ?thesis by (simp add: unsigned_ucast_eq take_bit_nat_eq_self)
qed

lemma unat_scast_pos:
  fixes sz :: "32 word"
  assumes "unat sz < 2 ^ 31"
  shows "unat (scast sz :: 64 word) = unat sz"
proof -
  have "int (unat sz) < int (2 ^ 31)" using assms by (simp only: of_nat_less_iff)
  then have u: "uint sz < 2 ^ 31" by simp
  then have "signed_take_bit 31 (uint sz) = uint sz"
    by (intro signed_take_bit_int_eq_self) (auto intro: order_trans [of _ 0])
  then have "sint sz = uint sz" by (simp add: sint_uint)
  then have "(scast sz :: 64 word) = ucast sz" by (simp add: scast_eq)
  then show ?thesis by (simp add: unat_ucast_32_64)
qed

subsection \<open>A functional read\<close>

text \<open>
  The packets of an access: a read \<open>k\<close> with a buffer of its size, another packet's range and buffer, of the same
  security space and overlapping, neither reaching past the end of the address space.
\<close>

definition functional_read_ok :: "nat \<Rightarrow> Packet_t \<Rightarrow> nat \<Rightarrow> Addr \<Rightarrow> u32 \<Rightarrow> nat \<Rightarrow> 'm PktMem_scheme \<Rightarrow> bool" where
  "functional_read_ok p k d a sz b M \<longleftrightarrow>
     pkt_at M p = Inr k \<and> pk_is VALID_ADDR k \<and> pk_is VALID_SIZE k \<and> cmd_isRead (pk_cmd k) \<and>
     pk_is (STATIC_DATA OR DYNAMIC_DATA) k \<and> pk_data k = Some d \<and> d \<noteq> b \<and> d < length (bufs M) \<and> b < length (bufs M) \<and>
     length (bufs M ! d) = unat (pk_size k) \<and> length (bufs M ! b) = unat sz \<and> 0 < unat (pk_size k) \<and> 0 < unat sz \<and>
     unat sz < 2 ^ 31 \<and> unat (pk_addr k) + unat (pk_size k) \<le> 2 ^ 64 \<and> unat a + unat sz \<le> 2 ^ 64 \<and>
     pk_bytesValid k \<in> {bv. bv = [] \<or> length bv = unat (pk_size k)} \<and>
     unat a < unat (pk_addr k) + unat (pk_size k) \<and> unat (pk_addr k) < unat a + unat sz"

definition byte_found :: "Packet_t \<Rightarrow> Addr \<Rightarrow> u32 \<Rightarrow> nat \<Rightarrow> bool" where
  "byte_found k a sz i \<longleftrightarrow> unat a \<le> unat (pk_addr k) + i \<and> unat (pk_addr k) + i < unat a + unat sz"

lemma functional_read_eq:
  assumes ok: "functional_read_ok p k d a sz b M"
    and o: "fo = unat a - unat (pk_addr k)" "vo = unat (pk_addr k) - unat a"
      "ov = min (unat a + unat sz) (unat (pk_addr k) + unat (pk_size k)) - max (unat a) (unat (pk_addr k))"
  shows "succeeds (functional_read p k fo b vo ov (unat (pk_size k)) M) (\<lambda>(done, M').
    (\<forall>i < unat (pk_size k).
      bufs M' ! d ! i = (if byte_found k a sz i then bufs M ! b ! (unat (pk_addr k) + i - unat a) else bufs M ! d ! i) \<and>
      pk_bytesValid (pkts M' ! p) ! i = (byte_found k a sz i \<or> pk_bytesValid k \<noteq> [] \<and> pk_bytesValid k ! i)) \<and>
    done = list_all (\<lambda>v. v) (pk_bytesValid (pkts M' ! p)))"
proof -
  let ?n = "unat (pk_size k)"
  define bv where "bv = (if pk_bytesValid k = [] then replicate ?n False else pk_bytesValid k)"
  have bv: "length bv = ?n" using ok by (auto simp: functional_read_ok_def bv_def)
  have nums: "0 < ?n" "0 < unat sz" "unat a < unat (pk_addr k) + ?n" "unat (pk_addr k) < unat a + unat sz"
    using ok by (auto simp: functional_read_ok_def)
  have rng: "fo + ov \<le> ?n" "vo + ov \<le> unat sz" "0 < ov" using nums unfolding o by (auto simp: min_def max_def)
  have in_i: "fo \<le> i \<and> i < fo + ov \<longleftrightarrow> byte_found k a sz i" if "i < ?n" for i
    using that nums unfolding byte_found_def o by (auto simp: min_def max_def)
  have at_i: "vo + (i - fo) = unat (pk_addr k) + i - unat a" if "byte_found k a sz i" "i < ?n" for i
    using that nums unfolding byte_found_def o by auto
  have nm: "\<not> isMaskedWrite k" using ok by (auto simp: functional_read_ok_def isMaskedWrite_def cmd_table)
  have p: "p < length (pkts M)" using ok by (auto simp: functional_read_ok_def pkt_at_def split: if_splits)
  obtain M1 where m: "memcpy d fo b vo ov M = Inr M1" "pkts M1 = pkts M"
    "\<forall>i < ?n. bufs M1 ! d ! i = (if fo \<le> i \<and> i < fo + ov then bufs M ! b ! (vo + (i - fo)) else bufs M ! d ! i)"
    using memcpy_ok [of d M b fo ov vo] ok rng by (auto simp: functional_read_ok_def)
  obtain bv' where v: "mark_bytes_valid bv fo ov = Inr bv'" "length bv' = ?n"
    "\<forall>j < ?n. bv' ! j = (bv ! j \<or> fo \<le> j \<and> j < fo + ov)"
    using mark_bytes_valid_eq [of fo ov bv] bv rng(1) by auto
  define before where "before = (\<forall>j < fo. bv ! j)"
  have b1: "all_bytes_valid bv 0 fo = Inr before" using all_bytes_valid_eq [of 0 fo bv] bv rng(1) by (simp add: before_def)
  have b2: "(if before then all_bytes_valid bv' (fo + ov) (?n - (fo + ov)) else Inr False) = Inr (list_all (\<lambda>v. v) bv')"
  proof -
    have "list_all (\<lambda>v. v) bv' \<longleftrightarrow> before \<and> (\<forall>j. fo + ov \<le> j \<and> j < ?n \<longrightarrow> bv' ! j)"
    proof
      assume "list_all (\<lambda>v. v) bv'"
      then have "\<forall>j < ?n. bv' ! j" using v(2) by (simp add: list_all_length)
      moreover from this have "\<forall>j < fo. bv ! j" using v(3) rng(1) by (metis add_leE not_le order_less_le_trans)
      ultimately show "before \<and> (\<forall>j. fo + ov \<le> j \<and> j < ?n \<longrightarrow> bv' ! j)" by (simp add: before_def)
    next
      assume b: "before \<and> (\<forall>j. fo + ov \<le> j \<and> j < ?n \<longrightarrow> bv' ! j)"
      have "bv' ! j" if "j < ?n" for j
        using that b v(3) unfolding before_def by (cases "j < fo"; cases "j < fo + ov") auto
      then show "list_all (\<lambda>v. v) bv'" using v(2) by (simp add: list_all_length)
    qed
    then show ?thesis using all_bytes_valid_eq [of "fo + ov" "?n - (fo + ov)" bv'] v(2) rng(1) by auto
  qed
  have "functional_read p k fo b vo ov ?n M = Inr (list_all (\<lambda>v. v) bv', pkt_put p (k\<lparr>pk_bytesValid := bv'\<rparr>) M1)"
    using ok nm m(1) b1 v(1) b2 unfolding functional_read_def
    by (simp add: functional_read_ok_def getPtr_def bv_def [symmetric])
  moreover have "pkts (pkt_put p (k\<lparr>pk_bytesValid := bv'\<rparr>) M1) ! p = k\<lparr>pk_bytesValid := bv'\<rparr>"
    "bufs (pkt_put p (k\<lparr>pk_bytesValid := bv'\<rparr>) M1) = bufs M1"
    using p m(2) by (simp_all add: pkt_put_def)
  moreover have "bufs M1 ! d ! i = (if byte_found k a sz i then bufs M ! b ! (unat (pk_addr k) + i - unat a) else bufs M ! d ! i)"
    if "i < ?n" for i
    using m(3) in_i [OF that] at_i [OF _ that] that by simp
  moreover have "bv' ! i = (byte_found k a sz i \<or> pk_bytesValid k \<noteq> [] \<and> pk_bytesValid k ! i)" if "i < ?n" for i
    using v(3) in_i [OF that] that by (auto simp: bv_def)
  ultimately show ?thesis by simp
qed

text \<open>
  C19 A functional read gathers exactly the bytes it overlaps: every byte of the read that lies in the other
  packet's range gets that packet's byte for the same address and is marked valid, every other byte and mark
  stays as it was, and the access reports that it is complete exactly when all its bytes are
  marked, so that it may be put together from several packets.
\<close>

theorem functional_read_exact:
  assumes "functional_read_ok p k d a sz b M"
  shows "succeeds (trySatisfyFunctional p a (pk_isSecure k) sz (Some b) M) (\<lambda>(done, M').
    (\<forall>i < unat (pk_size k).
      bufs M' ! d ! i = (if byte_found k a sz i then bufs M ! b ! (unat (pk_addr k) + i - unat a) else bufs M ! d ! i) \<and>
      pk_bytesValid (pkts M' ! p) ! i = (byte_found k a sz i \<or> pk_bytesValid k \<noteq> [] \<and> pk_bytesValid k ! i)) \<and>
    done = list_all (\<lambda>v. v) (pk_bytesValid (pkts M' ! p)))"
proof -
  note ok = assms [unfolded functional_read_ok_def]
  define fs where "fs = pk_addr k"
  define fe where "fe = fs + ucast (pk_size k) - 1"
  define ve where "ve = a + scast sz - 1"
  note n = unat_ucast_32_64 [of "pk_size k"]
  have fe: "unat fe = unat fs + unat (pk_size k) - 1" unfolding fe_def using ok n by (subst unat_last) (auto simp: fs_def)
  have ve: "unat ve = unat a + unat sz - 1" unfolding ve_def using ok unat_scast_pos [of sz] by (subst unat_last) auto
  have le: "fs \<le> ve" "a \<le> fe" using ok by (auto simp: word_le_nat_alt fe ve fs_def)
  have ov: "unat (min ve fe + 1 - max a fs) = min (unat a + unat sz) (unat fs + unat (pk_size k)) - max (unat a) (unat fs)"
    by (rule unat_overlap [OF _ _ _ ve fe le]) (use ok in auto)
  have fo: "unat (if fs < a then a - fs else 0) = unat a - unat fs"
    by (auto simp: unat_sub word_less_nat_alt word_le_nat_alt)
  have vo: "unat (if fs > a then fs - a else 0) = unat fs - unat a"
    by (auto simp: unat_sub word_less_nat_alt word_le_nat_alt)
  have np: "\<not> cmd_isPrint (pk_cmd k)" using ok by (cases "pk_cmd k") (auto simp: cmd_table)
  have tr: "trySatisfyFunctional p a (pk_isSecure k) sz (Some b) M =
      functional_read p k (unat (if fs < a then a - fs else 0)) b (unat (if fs > a then fs - a else 0))
        (unat (min ve fe + 1 - max a fs)) (unat (pk_size k)) M"
    using ok np unfolding trySatisfyFunctional_def
    by (simp add: leD [OF le(1)] leD [OF le(2)] getAddr_def getSize_def Let_def fs_def [symmetric] fe_def [symmetric] ve_def [symmetric])
  show ?thesis
    unfolding tr fs_def by (rule functional_read_eq [OF assms fo [unfolded fs_def] vo [unfolded fs_def] ov [unfolded fs_def]])
qed

definition func_example :: PktMem where
  "func_example = \<lparr>curTick = 0, bufs = [replicate 8 None, map Some [1, 2, 3, 4]],
     pkts = [projr (pkt_dataStatic 0 (Packet_new (Request_phys 0 0x1000 8 0 0) ReadReq 1))]\<rparr>"

theorem functional_read_exact_witness:
  "succeeds (trySatisfyFunctional 0 0x1002 False 4 (Some 1) func_example) (\<lambda>(done, M').
     bufs M' ! 0 ! 2 = Some 1 \<and> bufs M' ! 0 ! 5 = Some 4 \<and> bufs M' ! 0 ! 6 = None)"
proof -
  define k where "k = pkts func_example ! 0"
  have "pkt_at func_example 0 = Inr k" by (simp add: k_def pkt_at_def func_example_def)
  moreover have "pk_isSecure k = False" "pk_size k = 8" "pk_addr k = 0x1000" "pk_bytesValid k = []" "pk_data k = Some 0"
    "pk_is VALID_ADDR k" "pk_is VALID_SIZE k" "cmd_isRead (pk_cmd k)" "pk_is (STATIC_DATA OR DYNAMIC_DATA) k"
    unfolding k_def by code_simp+
  moreover have "bufs func_example = [replicate 8 None, map Some [1, 2, 3, 4]]" by (simp add: func_example_def)
  ultimately have "functional_read_ok 0 k 0 0x1002 4 1 func_example" and s: "pk_isSecure k = False" and z: "pk_size k = 8" "pk_addr k = 0x1000"
    by (auto simp: functional_read_ok_def)
  from functional_read_exact [OF this(1), unfolded s] show ?thesis
    by (rule succeeds_mono) (auto simp: z byte_found_def func_example_def)
qed

end
