(* ===== verification/CacheQueue.thy ===== *)
theory CacheQueue
  imports MemPacket
begin

text \<open>
  The queue template of the caches (\<open>mem/cache/queue.hh\<close>, \<open>mem/cache/queue_entry.hh\<close>) and its
  first instance, the write queue (\<open>mem/cache/write_queue.*\<close>, \<open>mem/cache/write_queue_entry.*\<close>).
  The entries of all queues live in a store and are named by their index; a class derived from
  \<open>QueueEntry\<close> is an extension of its record. The lists of a queue hold entry names, and the
  iterator an entry keeps into a list is the entry itself, which is in the list at most once. The
  virtual functions of an entry are parameters of the template's operations, and the locale
  \<open>queue_entry\<close> states what the template relies on.
\<close>

subsection \<open>Queue entries\<close>

record QueueEntry =
  readyTime :: Tick
  qe_isUncacheable :: bool
  inService :: bool
  qe_order :: u64
  blkAddr :: Addr
  blkSize :: u32
  qe_isSecure :: bool

definition QueueEntry_new :: QueueEntry where
  "QueueEntry_new = \<lparr>readyTime = 0, qe_isUncacheable = False, inService = False, qe_order = 0,
     blkAddr = 0, blkSize = 0, qe_isSecure = False\<rparr>"

definition ent :: "'e list \<Rightarrow> nat \<Rightarrow> 'e res" where
  "ent es e = (if e < length es then Inr (es ! e) else Inl NullDeref)"

text \<open>
  \<open>matchBlockAddr(addr, is_secure)\<close> and \<open>conflictAddr\<close> have the same body in both derived classes;
  \<open>hasT\<close> is the class's \<open>hasTargets\<close>. The argument of \<open>conflictAddr\<close> is the other entry's
  \<open>matchBlockAddr\<close>.
\<close>

definition entry_matchBlockAddr :: "('e QueueEntry_scheme \<Rightarrow> bool) \<Rightarrow> Addr \<Rightarrow> bool \<Rightarrow> 'e QueueEntry_scheme \<Rightarrow> bool res" where
  "entry_matchBlockAddr hasT a sec E =
     (if hasT E then Inr (blkAddr E = a \<and> qe_isSecure E = sec) else Inl AssertFailed)"

definition entry_matchBlockAddr_pkt :: "('e QueueEntry_scheme \<Rightarrow> bool) \<Rightarrow> Packet_t \<Rightarrow> 'e QueueEntry_scheme \<Rightarrow> bool res" where
  "entry_matchBlockAddr_pkt hasT k E =
     (if hasT E then matchBlockAddr (blkAddr E) (qe_isSecure E) (blkSize E) k else Inl AssertFailed)"

definition entry_conflictAddr :: "('e QueueEntry_scheme \<Rightarrow> bool) \<Rightarrow> (Addr \<Rightarrow> bool \<Rightarrow> bool res) \<Rightarrow> 'e QueueEntry_scheme \<Rightarrow> bool res" where
  "entry_conflictAddr hasT match_other E =
     (if hasT E then match_other (blkAddr E) (qe_isSecure E) else Inl AssertFailed)"

subsection \<open>The template\<close>

datatype DrainState = Running | Draining | Drained | Resuming

record EntryQueue =
  numEntries :: int
  numReserve :: int
  q_entries :: "nat list"
  allocatedList :: "nat list"
  readyList :: "nat list"
  freeList :: "nat list"
  q_numInService :: int
  q_allocated :: int
  q_drainState :: DrainState
  q_drainSignals :: nat   \<comment> \<open>calls of the drain manager's \<open>signalDrainDone\<close>\<close>

text \<open>The constructor; the storage of the entries starts at the name \<open>base\<close>.\<close>

definition EntryQueue_new :: "nat \<Rightarrow> int \<Rightarrow> int \<Rightarrow> EntryQueue" where
  "EntryQueue_new base num_entries reserve =
     (let es = [base ..< base + nat (num_entries + reserve)] in
      \<lparr>numEntries = num_entries + reserve, numReserve = reserve, q_entries = es, allocatedList = [],
       readyList = [], freeList = es, q_numInService = 0, q_allocated = 0, q_drainState = Running,
       q_drainSignals = 0\<rparr>)"

definition list_erase :: "'a \<Rightarrow> 'a list \<Rightarrow> 'a list res" where
  "list_erase x xs = (if x \<in> set xs then Inr (remove1 x xs) else Inl NullDeref)"

fun insert_before_later :: "'e QueueEntry_scheme list \<Rightarrow> Tick \<Rightarrow> nat \<Rightarrow> nat list \<Rightarrow> nat list res" where
  "insert_before_later es t e [] = Inl PanicError"
| "insert_before_later es t e (x # xs) =
     rbind (ent es x) (\<lambda>X.
       if readyTime X > t then Inr (e # x # xs)
       else rbind (insert_before_later es t e xs) (\<lambda>ys. Inr (x # ys)))"

definition addToReadyList :: "'e QueueEntry_scheme list \<Rightarrow> nat \<Rightarrow> EntryQueue \<Rightarrow> EntryQueue res" where
  "addToReadyList es e q =
     rbind (ent es e) (\<lambda>E.
       if readyList q = [] then Inr (q\<lparr>readyList := readyList q @ [e]\<rparr>)
       else rbind (ent es (last (readyList q))) (\<lambda>B.
         if readyTime B \<le> readyTime E then Inr (q\<lparr>readyList := readyList q @ [e]\<rparr>)
         else rbind (insert_before_later es (readyTime E) e (readyList q)) (\<lambda>r. Inr (q\<lparr>readyList := r\<rparr>))))"

definition q_isEmpty :: "EntryQueue \<Rightarrow> bool" where
  "q_isEmpty q \<longleftrightarrow> q_allocated q = 0"

definition q_isFull :: "EntryQueue \<Rightarrow> bool" where
  "q_isFull q \<longleftrightarrow> q_allocated q \<ge> numEntries q - numReserve q"

fun find_match :: "('e QueueEntry_scheme \<Rightarrow> bool) \<Rightarrow> 'e QueueEntry_scheme list \<Rightarrow> Addr \<Rightarrow> bool \<Rightarrow> bool \<Rightarrow> nat list \<Rightarrow> nat option res" where
  "find_match hasT es a sec ign [] = Inr None"
| "find_match hasT es a sec ign (e # xs) =
     rbind (ent es e) (\<lambda>E.
       if ign \<and> qe_isUncacheable E then find_match hasT es a sec ign xs
       else rbind (entry_matchBlockAddr hasT a sec E) (\<lambda>m.
         if m then Inr (Some e) else find_match hasT es a sec ign xs))"

definition q_findMatch :: "('e QueueEntry_scheme \<Rightarrow> bool) \<Rightarrow> 'e QueueEntry_scheme list \<Rightarrow> Addr \<Rightarrow> bool \<Rightarrow> bool \<Rightarrow> EntryQueue \<Rightarrow> nat option res" where
  "q_findMatch hasT es a sec ign q = find_match hasT es a sec ign (allocatedList q)"

fun find_pending :: "('e QueueEntry_scheme \<Rightarrow> bool) \<Rightarrow> 'e QueueEntry_scheme list \<Rightarrow> (Addr \<Rightarrow> bool \<Rightarrow> bool res) \<Rightarrow> nat list \<Rightarrow> nat option res" where
  "find_pending hasT es mo [] = Inr None"
| "find_pending hasT es mo (e # xs) =
     rbind (ent es e) (\<lambda>E. rbind (entry_conflictAddr hasT mo E) (\<lambda>m.
       if m then Inr (Some e) else find_pending hasT es mo xs))"

definition q_findPending :: "('e QueueEntry_scheme \<Rightarrow> bool) \<Rightarrow> 'e QueueEntry_scheme list \<Rightarrow> (Addr \<Rightarrow> bool \<Rightarrow> bool res) \<Rightarrow> EntryQueue \<Rightarrow> nat option res" where
  "q_findPending hasT es mo q = find_pending hasT es mo (readyList q)"

definition getNext :: "'e QueueEntry_scheme list \<Rightarrow> Tick \<Rightarrow> EntryQueue \<Rightarrow> nat option res" where
  "getNext es now q =
     (case readyList q of [] \<Rightarrow> Inr None
      | e # _ \<Rightarrow> rbind (ent es e) (\<lambda>E. Inr (if readyTime E > now then None else Some e)))"

definition nextReadyTime :: "'e QueueEntry_scheme list \<Rightarrow> EntryQueue \<Rightarrow> Tick res" where
  "nextReadyTime es q =
     (case readyList q of [] \<Rightarrow> Inr (- 1) | e # _ \<Rightarrow> rbind (ent es e) (\<lambda>E. Inr (readyTime E)))"

definition signalDrainDone :: "EntryQueue \<Rightarrow> EntryQueue" where
  "signalDrainDone q =
     (if q_drainState q = Draining then q\<lparr>q_drainState := Drained, q_drainSignals := q_drainSignals q + 1\<rparr> else q)"

definition q_deallocate :: "('e QueueEntry_scheme \<Rightarrow> 'e QueueEntry_scheme res) \<Rightarrow> nat \<Rightarrow> 'e QueueEntry_scheme list \<Rightarrow> EntryQueue \<Rightarrow>
    ('e QueueEntry_scheme list \<times> EntryQueue) res" where
  "q_deallocate entry_deallocate e es q =
     rbind (list_erase e (allocatedList q)) (\<lambda>al.
       let q = q\<lparr>allocatedList := al, freeList := e # freeList q, q_allocated := q_allocated q - 1\<rparr> in
       rbind (ent es e) (\<lambda>E.
         rbind (if inService E then Inr (q\<lparr>q_numInService := q_numInService q - 1\<rparr>)
                else rbind (list_erase e (readyList q)) (\<lambda>r. Inr (q\<lparr>readyList := r\<rparr>))) (\<lambda>q.
           rbind (entry_deallocate E) (\<lambda>E'.
             Inr (es[e := E'],
                  if q_drainState q = Draining \<and> q_allocated q = 0 then signalDrainDone q else q)))))"

definition q_drain :: "EntryQueue \<Rightarrow> DrainState" where
  "q_drain q = (if q_allocated q = 0 then Drained else Draining)"

subsection \<open>The write queue\<close>

record QTarget =
  t_recvTime :: Tick
  t_readyTime :: Tick
  t_order :: u64
  t_pkt :: nat

definition QTarget_new :: "Tick \<Rightarrow> nat \<Rightarrow> Tick \<Rightarrow> u64 \<Rightarrow> QTarget" where
  "QTarget_new now p ready_time ord = \<lparr>t_recvTime = now, t_readyTime = ready_time, t_order = ord, t_pkt = p\<rparr>"

record WriteQueueEntry = QueueEntry +
  wq_targets :: "QTarget list"

definition wqe_hasTargets :: "WriteQueueEntry \<Rightarrow> bool" where
  "wqe_hasTargets E \<longleftrightarrow> wq_targets E \<noteq> []"

definition wqe_getTarget :: "WriteQueueEntry \<Rightarrow> QTarget res" where
  "wqe_getTarget E = (if wqe_hasTargets E then Inr (hd (wq_targets E)) else Inl AssertFailed)"

definition wqe_popTarget :: "WriteQueueEntry \<Rightarrow> WriteQueueEntry res" where
  "wqe_popTarget E = (case wq_targets E of [] \<Rightarrow> Inl NullDeref | t # ts \<Rightarrow> Inr (E\<lparr>wq_targets := ts\<rparr>))"

definition wqe_allocate :: "Addr \<Rightarrow> u32 \<Rightarrow> nat \<Rightarrow> Tick \<Rightarrow> u64 \<Rightarrow> 'm PktMem_scheme \<Rightarrow> WriteQueueEntry \<Rightarrow> WriteQueueEntry res" where
  "wqe_allocate blk_addr blk_size p when_ready ord M E =
     rbind (pkt_at M p) (\<lambda>k. rbind (pkt_isSecure k) (\<lambda>s.
       let unc = rq_isUncacheable (pk_req k);
           E = E\<lparr>blkAddr := blk_addr, blkSize := blk_size, qe_isSecure := s, readyTime := when_ready,
                 qe_order := ord, qe_isUncacheable := unc, inService := False\<rparr>
       in if \<not> unc \<and> wq_targets E \<noteq> [] then Inl PanicError
          else if \<not> ((cmd_isWrite (pk_cmd k) \<and> unc) \<or> (cmd_isEviction (pk_cmd k) \<and> \<not> unc) \<or> pk_cmd k = WriteClean)
          then Inl PanicError
          else let E = E\<lparr>wq_targets := wq_targets E @ [QTarget_new (curTick M) p when_ready ord]\<rparr> in
               rbind (pkt_at M (t_pkt (hd (wq_targets E)))) (\<lambda>f. rbind (matchBlockAddr_pkt f blk_size k) (\<lambda>b.
                 if b then Inr E else Inl AssertFailed))))"

definition wqe_deallocate :: "WriteQueueEntry \<Rightarrow> WriteQueueEntry res" where
  "wqe_deallocate E = (if wq_targets E = [] then Inr (E\<lparr>inService := False\<rparr>) else Inl AssertFailed)"

fun satisfy_targets :: "nat \<Rightarrow> 't QTarget_scheme list \<Rightarrow> 'm PktMem_scheme \<Rightarrow> (bool \<times> 'm PktMem_scheme) res" where
  "satisfy_targets p [] M = Inr (False, M)"
| "satisfy_targets p (t # ts) M =
     rbind (trySatisfyFunctional_pkt p (t_pkt t) M) (\<lambda>(b, M). if b then Inr (True, M) else satisfy_targets p ts M)"

definition wqe_trySatisfyFunctional :: "nat \<Rightarrow> WriteQueueEntry \<Rightarrow> 'm PktMem_scheme \<Rightarrow> (bool \<times> 'm PktMem_scheme) res" where
  "wqe_trySatisfyFunctional p E M =
     rbind (pkt_at M p) (\<lambda>k.
       if cmd_isPrint (pk_cmd k) then
         rbind (trySatisfyFunctional p (blkAddr E) (qe_isSecure E) (blkSize E) None M) (\<lambda>(b, M). Inr (False, M))
       else satisfy_targets p (wq_targets E) M)"

text \<open>\<open>Queue::trySatisfyFunctional\<close>, with the entry's own function as a parameter.\<close>

fun satisfy_entries :: "('e QueueEntry_scheme \<Rightarrow> bool) \<Rightarrow> (nat \<Rightarrow> 'e QueueEntry_scheme \<Rightarrow> 'm PktMem_scheme \<Rightarrow> (bool \<times> 'm PktMem_scheme) res) \<Rightarrow>
    nat \<Rightarrow> 'e QueueEntry_scheme list \<Rightarrow> nat list \<Rightarrow> 'm PktMem_scheme \<Rightarrow> (bool \<times> 'm PktMem_scheme) res" where
  "satisfy_entries hasT try_entry p es [] M = Inr (False, M)"
| "satisfy_entries hasT try_entry p es (e # xs) M =
     rbind (ent es e) (\<lambda>E. rbind (pkt_at M p) (\<lambda>k. rbind (entry_matchBlockAddr_pkt hasT k E) (\<lambda>m.
       if m then rbind (try_entry p E M) (\<lambda>(b, M).
         if b then Inr (True, M) else satisfy_entries hasT try_entry p es xs M)
       else satisfy_entries hasT try_entry p es xs M)))"

definition q_trySatisfyFunctional where
  "q_trySatisfyFunctional hasT try_entry p es q M = satisfy_entries hasT try_entry p es (allocatedList q) M"

definition wq_allocate :: "Addr \<Rightarrow> u32 \<Rightarrow> nat \<Rightarrow> Tick \<Rightarrow> u64 \<Rightarrow> 'm PktMem_scheme \<Rightarrow> WriteQueueEntry list \<Rightarrow> EntryQueue \<Rightarrow>
    (nat \<times> WriteQueueEntry list \<times> EntryQueue) res" where
  "wq_allocate blk_addr blk_size p when_ready ord M es q =
     (case freeList q of [] \<Rightarrow> Inl AssertFailed
      | e # fl \<Rightarrow>
        rbind (ent es e) (\<lambda>E.
          if wq_targets E \<noteq> [] then Inl AssertFailed
          else let q = q\<lparr>freeList := fl\<rparr> in
          rbind (wqe_allocate blk_addr blk_size p when_ready ord M E) (\<lambda>E'.
            let es = es[e := E']; q = q\<lparr>allocatedList := allocatedList q @ [e]\<rparr> in
            rbind (addToReadyList es e q) (\<lambda>q.
              Inr (e, es, q\<lparr>q_allocated := q_allocated q + 1\<rparr>)))))"

definition wq_markInService :: "nat \<Rightarrow> WriteQueueEntry list \<Rightarrow> EntryQueue \<Rightarrow> (WriteQueueEntry list \<times> EntryQueue) res" where
  "wq_markInService e es q =
     rbind (ent es e) (\<lambda>E. rbind (wqe_popTarget E) (\<lambda>E'. q_deallocate wqe_deallocate e (es[e := E']) q))"

subsection \<open>The invariant of the lists\<close>

text \<open>
  The allocated and the free entries partition the storage, the ready list holds each allocated
  entry that is not in service exactly once, the counters count, and a free entry has no target.
\<close>

definition queue_inv :: "('e QueueEntry_scheme \<Rightarrow> bool) \<Rightarrow> 'e QueueEntry_scheme list \<Rightarrow> EntryQueue \<Rightarrow> bool" where
  "queue_inv hasT es q \<longleftrightarrow>
     distinct (allocatedList q @ freeList q) \<and>
     set (allocatedList q) \<union> set (freeList q) = set (q_entries q) \<and>
     distinct (q_entries q) \<and> int (length (q_entries q)) = numEntries q \<and>
     (\<forall>e \<in> set (q_entries q). e < length es) \<and>
     distinct (readyList q) \<and>
     set (readyList q) = {e \<in> set (allocatedList q). \<not> inService (es ! e)} \<and>
     q_allocated q = int (length (allocatedList q)) \<and>
     q_numInService q = int (length (filter (\<lambda>e. inService (es ! e)) (allocatedList q))) \<and>
     (\<forall>e \<in> set (freeList q). \<not> hasT (es ! e) \<and> \<not> inService (es ! e))"

abbreviation rt :: "'e QueueEntry_scheme list \<Rightarrow> nat \<Rightarrow> Tick" where
  "rt es e \<equiv> readyTime (es ! e)"

definition ready_sorted :: "'e QueueEntry_scheme list \<Rightarrow> EntryQueue \<Rightarrow> bool" where
  "ready_sorted es q \<longleftrightarrow> sorted (map (rt es) (readyList q))"

lemma queue_inv_ent: "queue_inv hasT es q \<Longrightarrow> e \<in> set (q_entries q) \<Longrightarrow> ent es e = Inr (es ! e)"
  by (auto simp: queue_inv_def ent_def)

lemma queue_inv_ready: "queue_inv hasT es q \<Longrightarrow> e \<in> set (readyList q) \<Longrightarrow> e \<in> set (q_entries q)"
  by (auto simp: queue_inv_def)

lemma insert_before_later_eq:
  assumes "\<forall>x \<in> set xs. x < length es" and "\<exists>x \<in> set xs. t < rt es x"
  shows "insert_before_later es t e xs =
    Inr (takeWhile (\<lambda>x. rt es x \<le> t) xs @ e # dropWhile (\<lambda>x. rt es x \<le> t) xs)"
  using assms
proof (induction xs)
  case (Cons a xs)
  show ?case
  proof (cases "t < rt es a")
    case False
    then have "\<exists>x \<in> set xs. t < rt es x" using Cons.prems(2) by auto
    moreover have "rt es a \<le> t" using False by simp
    ultimately show ?thesis using Cons.IH Cons.prems(1) False by (auto simp: ent_def)
  qed (use Cons.prems(1) in \<open>auto simp: ent_def not_le\<close>)
qed simp

lemma addToReadyList_eq:
  assumes "\<forall>x \<in> set (readyList q). x < length es" and "e < length es"
  shows "addToReadyList es e q = Inr (q\<lparr>readyList :=
     (if readyList q = [] \<or> rt es (last (readyList q)) \<le> rt es e then readyList q @ [e]
      else takeWhile (\<lambda>x. rt es x \<le> rt es e) (readyList q) @ e # dropWhile (\<lambda>x. rt es x \<le> rt es e) (readyList q))\<rparr>)"
proof (cases "readyList q = []")
  case False
  have "\<not> rt es (last (readyList q)) \<le> rt es e \<Longrightarrow> \<exists>x \<in> set (readyList q). rt es e < rt es x"
    using False by (meson last_in_set not_le)
  from insert_before_later_eq [OF assms(1) this]
  show ?thesis using assms False by (auto simp: addToReadyList_def ent_def)
qed (use assms in \<open>simp add: addToReadyList_def ent_def\<close>)

text \<open>Seen on a sorted list, \<open>addToReadyList\<close> is a stable ordered insertion.\<close>

lemma addToReadyList_sorted:
  assumes "\<forall>x \<in> set (readyList q). x < length es" and "e < length es" and "ready_sorted es q"
  shows "addToReadyList es e q = Inr (q\<lparr>readyList :=
     takeWhile (\<lambda>x. rt es x \<le> rt es e) (readyList q) @ e # dropWhile (\<lambda>x. rt es x \<le> rt es e) (readyList q)\<rparr>)"
proof -
  have "rt es x \<le> rt es (last (readyList q))" if "x \<in> set (readyList q)" for x
    using assms(3) that by (cases "readyList q" rule: rev_cases) (auto simp: ready_sorted_def sorted_append)
  then have "readyList q = [] \<or> rt es (last (readyList q)) \<le> rt es e \<Longrightarrow> \<forall>x \<in> set (readyList q). rt es x \<le> rt es e"
    by (auto intro: order_trans)
  then have "takeWhile (\<lambda>x. rt es x \<le> rt es e) (readyList q) = readyList q"
    and "dropWhile (\<lambda>x. rt es x \<le> rt es e) (readyList q) = []"
    if "readyList q = [] \<or> rt es (last (readyList q)) \<le> rt es e"
    using that unfolding takeWhile_eq_all_conv dropWhile_eq_Nil_conv by blast+
  then show ?thesis
    by (cases "readyList q = [] \<or> rt es (last (readyList q)) \<le> rt es e")
      (simp_all only: addToReadyList_eq [OF assms(1,2)] if_True if_False)
qed

lemma addToReadyList_split:
  assumes "\<forall>x \<in> set (readyList q). x < length es" and "e < length es" and "addToReadyList es e q = Inr q'"
  obtains ys zs where "readyList q = ys @ zs" and "q' = q\<lparr>readyList := ys @ e # zs\<rparr>"
proof (cases "readyList q = [] \<or> rt es (last (readyList q)) \<le> rt es e")
  case True
  with addToReadyList_eq [OF assms(1,2)] assms(3) show ?thesis by (intro that [of "readyList q" "[]"]) auto
next
  case False
  with addToReadyList_eq [OF assms(1,2)] assms(3) show ?thesis
    by (intro that [OF takeWhile_dropWhile_id [symmetric]]) auto
qed

lemma queue_inv_cong:
  assumes "queue_inv hasT es q" and "length es' = length es"
    and "\<And>e. e \<in> set (q_entries q) \<Longrightarrow> inService (es' ! e) = inService (es ! e)"
    and "\<And>e. e \<in> set (freeList q) \<Longrightarrow> hasT (es' ! e) = hasT (es ! e)"
  shows "queue_inv hasT es' q"
proof -
  have al: "\<forall>e \<in> set (allocatedList q). inService (es' ! e) = inService (es ! e)"
    and fr: "\<forall>e \<in> set (freeList q). inService (es' ! e) = inService (es ! e)"
    using assms(1,3) by (auto simp: queue_inv_def)
  then have "filter (\<lambda>e. inService (es' ! e)) (allocatedList q) = filter (\<lambda>e. inService (es ! e)) (allocatedList q)"
    by (intro filter_cong) auto
  moreover have "{e \<in> set (allocatedList q). \<not> inService (es' ! e)} = {e \<in> set (allocatedList q). \<not> inService (es ! e)}"
    using al by auto
  ultimately show ?thesis using assms(1,2,4) fr unfolding queue_inv_def by simp
qed

text \<open>An allocated entry may be changed freely as long as it stays in, or out of, service.\<close>

lemma queue_inv_update:
  assumes "queue_inv hasT es q" and "e \<in> set (allocatedList q)" and "inService E' = inService (es ! e)"
  shows "queue_inv hasT (es[e := E']) q"
proof (rule queue_inv_cong [OF assms(1)])
  have e: "e < length es" "e \<notin> set (freeList q)" using assms(1,2) by (auto simp: queue_inv_def)
  show "inService (es[e := E'] ! x) = inService (es ! x)" for x
    using e(1) assms(3) by (cases "x = e") auto
  show "hasT (es[e := E'] ! x) = hasT (es ! x)" if "x \<in> set (freeList q)" for x
    using e(2) that by (cases "x = e") auto
qed simp

lemma filter_upd_notin: "e \<notin> set xs \<Longrightarrow> filter (\<lambda>x. P (es[e := E] ! x)) xs = filter (\<lambda>x. P (es ! x)) xs"
  by (induction xs) auto

lemma queue_enter_inv:
  assumes inv: "queue_inv hasT es q" and fl: "freeList q = e # fl" and ns: "\<not> inService E'"
    and add: "addToReadyList (es[e := E']) e (q\<lparr>freeList := fl, allocatedList := allocatedList q @ [e]\<rparr>) = Inr q1"
  shows "queue_inv hasT (es[e := E']) (q1\<lparr>q_allocated := q_allocated q1 + 1\<rparr>)"
proof -
  have e: "e < length es" "e \<notin> set (allocatedList q)" "e \<notin> set fl"
    using inv fl by (auto simp: queue_inv_def)
  have r: "\<forall>x \<in> set (readyList q). x < length es" using inv by (auto simp: queue_inv_def)
  from addToReadyList_split [OF _ _ add] r e(1) obtain ys zs where s: "readyList q = ys @ zs"
    and q1: "q1 = q\<lparr>freeList := fl, allocatedList := allocatedList q @ [e], readyList := ys @ e # zs\<rparr>"
    by auto
  have rs: "set (readyList q) = {x \<in> set (allocatedList q). \<not> inService (es ! x)}"
    using inv by (simp add: queue_inv_def)
  then have "set (ys @ e # zs) = {x \<in> insert e (set (allocatedList q)). \<not> inService (es[e := E'] ! x)}"
    using s e ns by (auto simp: nth_list_update split: if_splits)
  moreover have "distinct (ys @ e # zs)" using inv s e(2) rs by (auto simp: queue_inv_def)
  moreover have "filter (\<lambda>x. inService (es[e := E'] ! x)) (allocatedList q @ [e]) =
      filter (\<lambda>x. inService (es ! x)) (allocatedList q)"
    using e ns by (simp add: filter_upd_notin)
  moreover have "\<forall>x \<in> set fl. es[e := E'] ! x = es ! x" using e(3) by (metis nth_list_update_neq)
  ultimately show ?thesis
    using inv fl e unfolding queue_inv_def q1 by auto
qed

subsection \<open>What the template relies on\<close>

locale queue_entry =
  fixes hasT :: "'e QueueEntry_scheme \<Rightarrow> bool"
    and entry_deallocate :: "'e QueueEntry_scheme \<Rightarrow> 'e QueueEntry_scheme res"
  assumes deallocate_frees: "entry_deallocate E = Inr E' \<Longrightarrow> \<not> hasT E' \<and> \<not> inService E'"
    and deallocate_empty: "entry_deallocate E = Inr E' \<Longrightarrow> \<not> hasT E"
begin

lemma deallocate_effect:
  assumes inv: "queue_inv hasT es q" and d: "q_deallocate entry_deallocate e es q = Inr (es', q')"
  shows "e \<in> set (allocatedList q)" and "\<not> hasT (es ! e)"
    and "\<exists>E'. entry_deallocate (es ! e) = Inr E' \<and> es' = es[e := E']"
    and "allocatedList q' = remove1 e (allocatedList q)" and "freeList q' = e # freeList q"
    and "readyList q' = remove1 e (readyList q)" and "q_allocated q' = q_allocated q - 1"
    and "q_entries q' = q_entries q" and "numEntries q' = numEntries q" and "numReserve q' = numReserve q"
    and "q_numInService q' = q_numInService q - (if inService (es ! e) then 1 else 0)"
proof -
  have "inService (es ! e) \<Longrightarrow> remove1 e (readyList q) = readyList q"
    using inv by (intro remove1_idem) (auto simp: queue_inv_def)
  with d show "e \<in> set (allocatedList q)" and "\<not> hasT (es ! e)"
    and "\<exists>E'. entry_deallocate (es ! e) = Inr E' \<and> es' = es[e := E']"
    and "allocatedList q' = remove1 e (allocatedList q)" and "freeList q' = e # freeList q"
    and "readyList q' = remove1 e (readyList q)" and "q_allocated q' = q_allocated q - 1"
    and "q_entries q' = q_entries q" and "numEntries q' = numEntries q" and "numReserve q' = numReserve q"
    and "q_numInService q' = q_numInService q - (if inService (es ! e) then 1 else 0)"
    by (auto simp: q_deallocate_def list_erase_def ent_def Let_def signalDrainDone_def rbind_eq_Inr
        dest: deallocate_empty split: if_splits)
qed

lemma deallocate_inv:
  assumes inv: "queue_inv hasT es q" and d: "q_deallocate entry_deallocate e es q = Inr (es', q')"
  shows "queue_inv hasT es' q'"
proof -
  note eff = deallocate_effect [OF assms]
  from eff(3) obtain E' where E': "entry_deallocate (es ! e) = Inr E'" and es': "es' = es[e := E']" by blast
  have e: "e < length es" "e \<notin> set (freeList q)" "distinct (allocatedList q)" "distinct (readyList q)"
    using inv eff(1) by (auto simp: queue_inv_def)
  have f: "\<not> hasT E'" "\<not> inService E'" using deallocate_frees [OF E'] by auto
  have cnt: "int (length (filter (\<lambda>x. inService (es ! x)) (remove1 e (allocatedList q)))) =
      int (length (filter (\<lambda>x. inService (es ! x)) (allocatedList q))) - (if inService (es ! e) then 1 else 0)"
  proof (cases "inService (es ! e)")
    case True
    then have "e \<in> set (filter (\<lambda>x. inService (es ! x)) (allocatedList q))" using eff(1) by simp
    with True length_pos_if_in_set [OF this] show ?thesis
      by (simp add: filter_remove1 length_remove1 of_nat_diff Suc_le_eq)
  qed (simp add: filter_remove1 remove1_idem)
  have flt: "filter (\<lambda>x. inService (es' ! x)) (allocatedList q') = filter (\<lambda>x. inService (es ! x)) (remove1 e (allocatedList q))"
    using e(3) by (simp add: eff(4) es' filter_upd_notin)
  have sv: "x \<noteq> e \<Longrightarrow> es' ! x = es ! x" for x by (simp add: es')
  have e': "es' ! e = E'" using e(1) by (simp add: es')
  have al: "set (allocatedList q') = set (allocatedList q) - {e}" using e(3) by (simp add: eff(4))
  have rd: "set (readyList q') = set (readyList q) - {e}" using e(4) by (simp add: eff(6))
  show ?thesis
    unfolding queue_inv_def
  proof (intro conjI)
    show "distinct (allocatedList q' @ freeList q')" using inv al e(2,3) by (auto simp: queue_inv_def eff(4,5))
    show "set (allocatedList q') \<union> set (freeList q') = set (q_entries q')"
      using inv al eff(1) by (auto simp: queue_inv_def eff(5,8))
    show "set (readyList q') = {x \<in> set (allocatedList q'). \<not> inService (es' ! x)}"
      using inv al rd sv by (auto simp: queue_inv_def)
    show "q_allocated q' = int (length (allocatedList q'))"
      using inv eff(1) length_pos_if_in_set [OF eff(1)]
      by (simp add: queue_inv_def eff(4,7) length_remove1 of_nat_diff Suc_le_eq)
    show "q_numInService q' = int (length (filter (\<lambda>x. inService (es' ! x)) (allocatedList q')))"
      using inv by (simp only: flt cnt eff(11) queue_inv_def)
    show "\<forall>x \<in> set (freeList q'). \<not> hasT (es' ! x) \<and> \<not> inService (es' ! x)"
      using inv f e(2) e' sv by (metis (no_types, lifting) eff(5) queue_inv_def set_ConsD)
  qed (use inv e(4) in \<open>simp_all add: queue_inv_def eff(6,8,9) es'\<close>)
qed

end

interpretation wq: queue_entry wqe_hasTargets wqe_deallocate
  by unfold_locales (auto simp: wqe_deallocate_def wqe_hasTargets_def split: if_splits)

lemma Queue_new_inv:
  assumes "0 \<le> num_entries + reserve" and "length es = base + nat (num_entries + reserve)"
    and "\<forall>e < length es. \<not> hasT (es ! e) \<and> \<not> inService (es ! e)"
  shows "queue_inv hasT es (EntryQueue_new base num_entries reserve)"
  using assms by (auto simp: queue_inv_def EntryQueue_new_def Let_def)

text \<open>While the queue is not full, more entries are free than the reserve holds.\<close>

lemma not_full_reserve:
  assumes "queue_inv hasT es q" and "\<not> q_isFull q"
  shows "numReserve q < int (length (freeList q))"
proof -
  have "distinct (allocatedList q @ freeList q)" "set (allocatedList q @ freeList q) = set (q_entries q)"
    "distinct (q_entries q)"
    using assms(1) by (auto simp: queue_inv_def)
  then have "length (allocatedList q) + length (freeList q) = length (q_entries q)"
    by (metis distinct_card length_append)
  with assms show ?thesis by (auto simp: q_isFull_def queue_inv_def)
qed

subsection \<open>Runs of the write queue\<close>

definition WriteQueueEntry_new :: WriteQueueEntry where
  "WriteQueueEntry_new = QueueEntry.extend QueueEntry_new \<lparr>wq_targets = []\<rparr>"

text \<open>The packets are those of the caches, and may be any at every call.\<close>

inductive wq_reach :: "int \<Rightarrow> int \<Rightarrow> WriteQueueEntry list \<Rightarrow> EntryQueue \<Rightarrow> bool" for n r where
  wq_init: "wq_reach n r (replicate (nat (n + r)) WriteQueueEntry_new) (EntryQueue_new 0 n r)"
| wq_alloc: "wq_reach n r es q \<Longrightarrow> wq_allocate a sz p t ord (M :: PktMem) es q = Inr (e, es', q') \<Longrightarrow> wq_reach n r es' q'"
| wq_serve: "wq_reach n r es q \<Longrightarrow> wq_markInService e es q = Inr (es', q') \<Longrightarrow> wq_reach n r es' q'"

definition wq_inv :: "WriteQueueEntry list \<Rightarrow> EntryQueue \<Rightarrow> bool" where
  "wq_inv es q \<longleftrightarrow> queue_inv wqe_hasTargets es q \<and> ready_sorted es q \<and>
     (\<forall>e \<in> set (allocatedList q). \<not> inService (es ! e) \<and> length (wq_targets (es ! e)) = 1)"

lemma wqe_allocate_effect:
  assumes "wqe_allocate a sz p t ord M E = Inr E'" and "wq_targets E = []"
  shows "\<not> inService E' \<and> readyTime E' = t \<and> length (wq_targets E') = 1"
  using assms by (auto simp: wqe_allocate_def Let_def rbind_eq_Inr split: if_splits)

lemma sorted_insert_stable:
  fixes f :: "'a \<Rightarrow> 'k::linorder"
  assumes "sorted (map f xs)"
  shows "sorted (map f (takeWhile (\<lambda>x. f x \<le> k) xs) @ k # map f (dropWhile (\<lambda>x. f x \<le> k) xs))"
  using assms
proof (induction xs)
  case (Cons a xs)
  then show ?case by (auto dest: set_takeWhileD set_dropWhileD intro: less_imp_le less_le_trans simp: not_le)
qed simp

lemma wq_allocate_effect:
  assumes inv: "wq_inv es q" and al: "wq_allocate a sz p t ord M es q = Inr (e, es', q')"
  shows "wq_inv es' q'" and "\<exists>fl. freeList q = e # fl" and "rt es' e = t"
    and "\<forall>x. x \<noteq> e \<longrightarrow> es' ! x = es ! x" and "length es' = length es"
    and "readyList q' = takeWhile (\<lambda>x. rt es x \<le> t) (readyList q) @ e # dropWhile (\<lambda>x. rt es x \<le> t) (readyList q)"
    and "numEntries q' = numEntries q \<and> numReserve q' = numReserve q"
proof -
  have qi: "queue_inv wqe_hasTargets es q" using inv by (simp add: wq_inv_def)
  from al obtain fl E' q1 where fl: "freeList q = e # fl" and em: "wq_targets (es ! e) = []"
    and E': "wqe_allocate a sz p t ord M (es ! e) = Inr E'" and es': "es' = es[e := E']"
    and add: "addToReadyList (es[e := E']) e (q\<lparr>freeList := fl, allocatedList := allocatedList q @ [e]\<rparr>) = Inr q1"
    and q': "q' = q1\<lparr>q_allocated := q_allocated q1 + 1\<rparr>"
    by (auto simp: wq_allocate_def Let_def rbind_eq_Inr ent_def split: list.splits if_splits)
  note E = wqe_allocate_effect [OF E' em]
  have e: "e < length es" "e \<notin> set (allocatedList q)" "e \<notin> set (readyList q)"
    and r: "\<forall>x \<in> set (readyList q). x < length es"
    using qi fl by (auto simp: queue_inv_def)
  have sv: "\<forall>x. x \<noteq> e \<longrightarrow> es' ! x = es ! x" and e': "es' ! e = E'" using e(1) by (auto simp: es')
  then have m: "x \<in> set (readyList q) \<Longrightarrow> rt es' x = rt es x" for x using e(3) by metis
  then have ms: "map (rt es') (readyList q) = map (rt es) (readyList q)" by (intro map_cong) auto
  have so: "sorted (map (rt es) (readyList q))" using inv by (simp add: wq_inv_def ready_sorted_def)
  define q0 where "q0 = q\<lparr>freeList := fl, allocatedList := allocatedList q @ [e]\<rparr>"
  have "addToReadyList es' e q0 = Inr (q0\<lparr>readyList :=
     takeWhile (\<lambda>x. rt es' x \<le> rt es' e) (readyList q0) @ e # dropWhile (\<lambda>x. rt es' x \<le> rt es' e) (readyList q0)\<rparr>)"
  proof (rule addToReadyList_sorted)
    have "sorted (map (rt es') (readyList q))" unfolding ms by (rule so)
    then show "ready_sorted es' q0" by (simp add: ready_sorted_def q0_def)
  qed (use r e in \<open>simp_all add: es' q0_def\<close>)
  then have "readyList q' = takeWhile (\<lambda>x. rt es' x \<le> t) (readyList q) @ e # dropWhile (\<lambda>x. rt es' x \<le> t) (readyList q)"
    using add E by (simp add: q' es' q0_def e(1))
  moreover have "takeWhile (\<lambda>x. rt es' x \<le> t) (readyList q) = takeWhile (\<lambda>x. rt es x \<le> t) (readyList q)"
    and "dropWhile (\<lambda>x. rt es' x \<le> t) (readyList q) = dropWhile (\<lambda>x. rt es x \<le> t) (readyList q)"
    using m by (auto intro!: takeWhile_cong dropWhile_cong)
  ultimately show rl: "readyList q' = takeWhile (\<lambda>x. rt es x \<le> t) (readyList q) @ e # dropWhile (\<lambda>x. rt es x \<le> t) (readyList q)"
    by simp
  show "\<exists>fl. freeList q = e # fl" using fl by blast
  show "rt es' e = t" using E e' by simp
  show "\<forall>x. x \<noteq> e \<longrightarrow> es' ! x = es ! x" by (rule sv)
  show "length es' = length es" by (simp add: es')
  have "map (rt es') (readyList q') = map (rt es) (takeWhile (\<lambda>x. rt es x \<le> t) (readyList q)) @ t # map (rt es) (dropWhile (\<lambda>x. rt es x \<le> t) (readyList q))"
    using m E e' by (auto simp: rl dest: set_takeWhileD set_dropWhileD)
  then have srt: "ready_sorted es' q'"
    using sorted_insert_stable [OF so, of t] unfolding ready_sorted_def by simp
  have "queue_inv wqe_hasTargets es' q'"
    unfolding es' q' by (rule queue_enter_inv [OF qi fl _ add]) (use E in simp)
  moreover obtain ys where q1: "q1 = q0\<lparr>readyList := ys\<rparr>"
    using addToReadyList_split [OF _ _ add] r e(1) unfolding q0_def by auto
  have ql: "allocatedList q' = allocatedList q @ [e] \<and> numEntries q' = numEntries q \<and> numReserve q' = numReserve q"
    by (simp add: q' q1 q0_def)
  ultimately show "wq_inv es' q'"
    using ql srt inv sv e' E e(2) by (auto simp: wq_inv_def)
  show "numEntries q' = numEntries q \<and> numReserve q' = numReserve q" using ql by simp
qed

lemma wq_markInService_inv:
  assumes inv: "wq_inv es q" and al: "wq_markInService e es q = Inr (es', q')"
  shows "wq_inv es' q'" and "readyList q' = remove1 e (readyList q)" and "allocatedList q' = remove1 e (allocatedList q)"
    and "freeList q' = e # freeList q" and "e \<in> set (allocatedList q)"
    and "numEntries q' = numEntries q \<and> numReserve q' = numReserve q"
proof -
  have qi: "queue_inv wqe_hasTargets es q" using inv by (simp add: wq_inv_def)
  from al have e: "e < length es"
    by (auto simp: wq_markInService_def rbind_eq_Inr ent_def split: if_splits)
  with al obtain ts where d: "q_deallocate wqe_deallocate e (es[e := (es ! e)\<lparr>wq_targets := ts\<rparr>]) q = Inr (es', q')"
    by (cases "wq_targets (es ! e)") (auto simp: wq_markInService_def ent_def wqe_popTarget_def)
  from d have ea: "e \<in> set (allocatedList q)"
    by (auto simp: q_deallocate_def list_erase_def rbind_eq_Inr Let_def split: if_splits)
  then have qi': "queue_inv wqe_hasTargets (es[e := (es ! e)\<lparr>wq_targets := ts\<rparr>]) q"
    by (intro queue_inv_update [OF qi]) auto
  note eff = wq.deallocate_effect [OF qi' d]
  from eff(3) obtain E' where es': "es' = es[e := E']" by auto
  have so: "sorted (map (rt es) (readyList q))" using inv by (simp add: wq_inv_def ready_sorted_def)
  have di: "distinct (readyList q)" "distinct (allocatedList q)" using qi by (auto simp: queue_inv_def)
  have "map (rt es') (readyList q') = map (rt es) (remove1 e (readyList q))"
    using di by (auto simp: eff(6) es')
  moreover have "sorted (map (rt es) (remove1 e (readyList q)))"
    using so by (simp add: sorted_map_remove1)
  ultimately show "wq_inv es' q'"
    using wq.deallocate_inv [OF qi' d] inv di by (auto simp: wq_inv_def ready_sorted_def eff(4) es')
  show "readyList q' = remove1 e (readyList q)" "allocatedList q' = remove1 e (allocatedList q)"
    "freeList q' = e # freeList q" "e \<in> set (allocatedList q)"
    by (fact eff(6) eff(4) eff(5) ea)+
  show "numEntries q' = numEntries q \<and> numReserve q' = numReserve q" by (simp add: eff(9,10))
qed

lemma wq_reach_invs:
  assumes "wq_reach n r es q" and "0 \<le> n + r"
  shows "wq_inv es q \<and> numEntries q = n + r \<and> numReserve q = r"
  using assms
proof (induction rule: wq_reach.induct)
  case wq_init
  have "queue_inv wqe_hasTargets (replicate (nat (n + r)) WriteQueueEntry_new) (EntryQueue_new 0 n r)"
    by (rule Queue_new_inv)
      (use wq_init in \<open>auto simp: WriteQueueEntry_new_def QueueEntry.defs QueueEntry_new_def wqe_hasTargets_def\<close>)
  then show ?case by (simp add: wq_inv_def ready_sorted_def EntryQueue_new_def Let_def)
next
  case (wq_alloc es q a sz p t ord M e es' q')
  then show ?case using wq_allocate_effect(1,7) by metis
next
  case (wq_serve es q e es' q')
  then show ?case using wq_markInService_inv(1,6) by metis
qed

lemmas wq_reach_inv = wq_reach_invs [THEN conjunct1] wq_reach_invs [THEN conjunct2, THEN conjunct1]
  wq_reach_invs [THEN conjunct2, THEN conjunct2]

lemma sorted_takeWhile_filter:
  fixes f :: "'a \<Rightarrow> 'k::linorder"
  assumes "sorted (map f xs)"
  shows "takeWhile (\<lambda>x. f x \<le> k) xs = filter (\<lambda>x. f x \<le> k) xs"
    and "dropWhile (\<lambda>x. f x \<le> k) xs = filter (\<lambda>x. k < f x) xs"
  using assms
proof (induction xs)
  case (Cons a xs)
  {
    case 1
    have "\<not> f a \<le> k \<Longrightarrow> filter (\<lambda>x. f x \<le> k) xs = []"
      using 1 by (auto simp: filter_empty_conv)
    with 1 Cons.IH(1) show ?case by auto
  next
    case 2
    have "k < f a \<Longrightarrow> filter (\<lambda>x. k < f x) xs = xs"
      using 2 by (auto simp: filter_id_conv intro: less_le_trans)
    with 2 Cons.IH(2) show ?case by (auto simp: not_le)
  }
qed simp_all

lemma getNext_sorted:
  assumes "queue_inv hasT es q" and "ready_sorted es q"
  shows "succeeds (getNext es now q) (\<lambda>r. case r of
      None \<Rightarrow> \<forall>x \<in> set (readyList q). now < rt es x
    | Some e \<Rightarrow> e \<in> set (readyList q) \<and> rt es e \<le> now \<and> (\<forall>x \<in> set (readyList q). rt es e \<le> rt es x))"
proof (cases "readyList q")
  case (Cons e xs)
  then have "e < length es" using assms(1) by (auto simp: queue_inv_def)
  with Cons assms(2) show ?thesis
    by (auto simp: getNext_def ent_def ready_sorted_def intro: less_le_trans)
qed (simp add: getNext_def)

text \<open>
  C20 In every state the write queue can reach, its lists are well formed (the allocated and the free
  entries partition the storage, every allocated entry is on the ready list once, the counters
  count) and \<open>getNext\<close> answers without an error: it returns an allocated entry whose time has come and
  that no other entry precedes, and returns none exactly when no entry is ready yet.
\<close>

theorem write_queue_serves_earliest:
  assumes "wq_reach n r es q" and "0 \<le> n + r"
  shows "queue_inv wqe_hasTargets es q \<and> set (readyList q) = set (allocatedList q) \<and>
    succeeds (getNext es now q) (\<lambda>res. case res of
      None \<Rightarrow> \<forall>x \<in> set (allocatedList q). now < rt es x
    | Some e \<Rightarrow> e \<in> set (allocatedList q) \<and> rt es e \<le> now \<and> (\<forall>x \<in> set (allocatedList q). rt es e \<le> rt es x))"
proof -
  note inv = wq_reach_inv(1) [OF assms]
  then have "queue_inv wqe_hasTargets es q" and s: "set (readyList q) = set (allocatedList q)"
    and "ready_sorted es q"
    by (auto simp: wq_inv_def queue_inv_def)
  with getNext_sorted show ?thesis by (simp flip: s)
qed

text \<open>A packet the write queue takes: an uncacheable write, a cacheable eviction, or a write clean.\<close>

definition wq_takes :: "Packet_t \<Rightarrow> bool" where
  "wq_takes k \<longleftrightarrow> pk_is VALID_ADDR k \<and>
     (cmd_isWrite (pk_cmd k) \<and> rq_isUncacheable (pk_req k) \<or>
      cmd_isEviction (pk_cmd k) \<and> \<not> rq_isUncacheable (pk_req k) \<or> pk_cmd k = WriteClean)"

lemma wqe_allocate_ok:
  assumes "pkt_at M p = Inr k" and "wq_takes k" and "wq_targets E = []"
  shows "succeeds (wqe_allocate a sz p t ord M E) (\<lambda>_. True)"
  using assms by (auto simp: wqe_allocate_def wq_takes_def pkt_isSecure_def matchBlockAddr_pkt_def matchBlockAddr_def
      getBlockAddr_def getAddr_def QTarget_new_def Let_def)

lemma wq_allocate_ok:
  assumes "wq_reach n r es q" and "0 \<le> n + r" and "0 \<le> r" and "\<not> q_isFull q"
    and "pkt_at M p = Inr k" and "wq_takes k"
  shows "succeeds (wq_allocate a sz p t ord M es q) (\<lambda>(e, es', q').
    e \<in> set (freeList q) \<and> rt es' e = t \<and> (\<forall>x \<in> set (allocatedList q). es' ! x = es ! x) \<and>
    readyList q' = filter (\<lambda>x. rt es x \<le> t) (readyList q) @ e # filter (\<lambda>x. t < rt es x) (readyList q))"
proof -
  note inv = wq_reach_inv [OF assms(1,2)]
  then have qi: "queue_inv wqe_hasTargets es q" and so: "sorted (map (rt es) (readyList q))"
    by (auto simp: wq_inv_def ready_sorted_def)
  from not_full_reserve [OF qi assms(4)] inv(3) assms(3) obtain e fl where fl: "freeList q = e # fl"
    by (cases "freeList q") auto
  have e: "e < length es" "wq_targets (es ! e) = []" "e \<notin> set (allocatedList q)" and r: "\<forall>x \<in> set (readyList q). x < length es"
    using qi fl by (auto simp: queue_inv_def wqe_hasTargets_def)
  obtain E' where E': "wqe_allocate a sz p t ord M (es ! e) = Inr E'"
    using wqe_allocate_ok [OF assms(5,6) e(2), of a sz t ord] by (auto simp: succeeds_def)
  have "\<exists>q1. addToReadyList (es[e := E']) e (q\<lparr>freeList := fl, allocatedList := allocatedList q @ [e]\<rparr>) = Inr q1"
    by (subst addToReadyList_eq) (use r e in auto)
  then obtain q1 where "addToReadyList (es[e := E']) e (q\<lparr>freeList := fl, allocatedList := allocatedList q @ [e]\<rparr>) = Inr q1" ..
  with fl e E' have al: "wq_allocate a sz p t ord M es q = Inr (e, es[e := E'], q1\<lparr>q_allocated := q_allocated q1 + 1\<rparr>)"
    by (simp add: wq_allocate_def ent_def Let_def)
  note eff = wq_allocate_effect [OF inv(1) al]
  have "\<forall>x \<in> set (allocatedList q). es[e := E'] ! x = es ! x" using eff(4) e(3) by metis
  then show ?thesis unfolding al using eff(3,6) fl
    by (auto simp: sorted_takeWhile_filter [OF so])
qed

text \<open>
  C21 A write queue that is not full accepts every packet it is meant for, without an error, and enters it
  behind all the entries that are ready no later and in front of all that are ready later: entries of
  one ready time leave in the order they came.
\<close>

theorem write_queue_accepts:
  assumes "wq_reach n r es q" and "0 \<le> n + r" and "0 \<le> r" and "\<not> q_isFull q"
    and "pkt_at M p = Inr k" and "wq_takes k"
  shows "succeeds (wq_allocate a sz p t ord M es q) (\<lambda>(e, es', q').
    e \<in> set (freeList q) \<and> rt es' e = t \<and> (\<forall>x \<in> set (allocatedList q). es' ! x = es ! x) \<and>
    readyList q' = filter (\<lambda>x. rt es x \<le> t) (readyList q) @ e # filter (\<lambda>x. t < rt es x) (readyList q))"
  using assms by (rule wq_allocate_ok)

definition wq_example_mem :: PktMem where
  "wq_example_mem = \<lparr>curTick = 5, bufs = [], pkts = [Packet_new (Request_phys 0 0x1000 64 0 0) WritebackDirty 1]\<rparr>"

definition wq_example :: "WriteQueueEntry list \<times> EntryQueue" where
  "wq_example = (case wq_allocate 0x1000 64 0 10 1 wq_example_mem (replicate 3 WriteQueueEntry_new) (EntryQueue_new 0 2 1) of
     Inl _ \<Rightarrow> ([], EntryQueue_new 0 0 0) | Inr (e, es, q) \<Rightarrow> (es, q))"

lemmas wq_eval = Packet_new_def Request_phys_def rq_empty_def pk_blank_def pk_setf_def pk_is_def fl_isSet_def fl_set_def
  rq_hasPaddr_def rq_hasSize_def rq_isSecure_def rq_isUncacheable_def req_flag_defs pkt_flag_defs

lemma wq_example_pkt:
  "pkt_at wq_example_mem 0 = Inr (Packet_new (Request_phys 0 0x1000 64 0 0) WritebackDirty 1)"
  "wq_takes (Packet_new (Request_phys 0 0x1000 64 0 0) WritebackDirty 1)"
  by (simp_all add: wq_example_mem_def pkt_at_def wq_takes_def wq_eval cmd_table)

theorem write_queue_accepts_witness:
  "succeeds (wq_allocate 0x1000 64 0 10 1 wq_example_mem (replicate (nat (2 + 1)) WriteQueueEntry_new) (EntryQueue_new 0 2 1))
    (\<lambda>(e, es', q'). e \<in> {0, 1, 2} \<and> rt es' e = 10 \<and> readyList q' = [e])"
  by (rule succeeds_mono [OF write_queue_accepts [OF wq_init _ _ _ wq_example_pkt]])
    (auto simp: q_isFull_def EntryQueue_new_def Let_def)

lemma wq_example_step:
  "\<exists>e. wq_allocate 0x1000 64 0 10 1 wq_example_mem (replicate (nat (2 + 1)) WriteQueueEntry_new) (EntryQueue_new 0 2 1) =
     Inr (e, fst wq_example, snd wq_example)"
proof -
  have "succeeds (wq_allocate 0x1000 64 0 10 1 wq_example_mem (replicate (nat (2 + 1)) WriteQueueEntry_new) (EntryQueue_new 0 2 1)) (\<lambda>_. True)"
    by (rule succeeds_mono [OF wq_allocate_ok [OF wq_init _ _ _ wq_example_pkt]])
      (auto simp: q_isFull_def EntryQueue_new_def Let_def)
  then show ?thesis by (auto simp: succeeds_def wq_example_def)
qed

theorem write_queue_serves_earliest_witness:
  "wq_reach 2 1 (fst wq_example) (snd wq_example) \<and> length (allocatedList (snd wq_example)) = 1 \<and>
   queue_inv wqe_hasTargets (fst wq_example) (snd wq_example) \<and> succeeds (getNext (fst wq_example) 20 (snd wq_example)) (\<lambda>r. True)"
proof -
  have r: "wq_reach 2 1 (fst wq_example) (snd wq_example)"
    using wq_example_step wq_alloc [OF wq_init] by blast
  moreover have "length (allocatedList (snd wq_example)) = 1"
    by code_simp
  ultimately show ?thesis
    using write_queue_serves_earliest [OF r, of 20] by (auto intro: succeeds_mono)
qed

end
