(* ===== verification/MSHR.thy ===== *)
theory MSHR
  imports CacheQueue RunMonad
begin

text \<open>
  The miss status registers (\<open>mem/cache/mshr.hh\<close>, \<open>mem/cache/mshr.cc\<close>) and their queue
  (\<open>mem/cache/mshr_queue.hh\<close>, \<open>mem/cache/mshr_queue.cc\<close>). All registers of all caches live in one
  store, since a register reaches the registers of the caches above through the sender states of
  its packets and sets or clears their \<open>downstreamPending\<close> flags. The recursion over those registers
  is a \<open>partial_function\<close>, and a theorem shows that it ends.
\<close>

subsection \<open>Targets\<close>

datatype Source = FromCPU | FromSnoop | FromPrefetcher

record Target = QTarget +
  t_source :: Source
  t_markedPending :: bool
  t_allocOnFill :: bool

definition Target_new :: "Tick \<Rightarrow> nat \<Rightarrow> Tick \<Rightarrow> u64 \<Rightarrow> Source \<Rightarrow> bool \<Rightarrow> bool \<Rightarrow> Target" where
  "Target_new now p ready_time ord src marked aof =
     QTarget.extend (QTarget_new now p ready_time ord)
       \<lparr>t_source = src, t_markedPending = marked, t_allocOnFill = aof\<rparr>"

record TargetList =
  tl_list :: "Target list"
  tl_needsWritable :: bool
  tl_hasUpgrade :: bool
  tl_allocOnFill :: bool
  tl_hasFromCache :: bool
  tl_blkAddr :: Addr
  tl_blkSize :: Addr
  tl_canMergeWrites :: bool
  tl_writesBitmap :: "bool list"

text \<open>\<open>blkAddr\<close>, \<open>blkSize\<close> and \<open>canMergeWrites\<close> are not set by the constructor; \<open>init\<close> sets them before any use.\<close>

definition TargetList_new :: TargetList where
  "TargetList_new = \<lparr>tl_list = [], tl_needsWritable = False, tl_hasUpgrade = False, tl_allocOnFill = False,
     tl_hasFromCache = False, tl_blkAddr = 0, tl_blkSize = 0, tl_canMergeWrites = False, tl_writesBitmap = []\<rparr>"

definition resetFlags :: "TargetList \<Rightarrow> TargetList" where
  "resetFlags L = L\<lparr>tl_canMergeWrites := True, tl_writesBitmap := map (\<lambda>_. False) (tl_writesBitmap L),
     tl_needsWritable := False, tl_hasUpgrade := False, tl_allocOnFill := False, tl_hasFromCache := False\<rparr>"

text \<open>\<open>std::vector::resize\<close> keeps the bytes it has room for; \<open>resetFlags\<close> clears them all.\<close>

definition tl_init :: "Addr \<Rightarrow> Addr \<Rightarrow> TargetList \<Rightarrow> TargetList" where
  "tl_init blk_addr blk_size L =
     resetFlags (L\<lparr>tl_blkAddr := blk_addr, tl_blkSize := blk_size,
       tl_writesBitmap := take (unat blk_size) (tl_writesBitmap L) @
         replicate (unat blk_size - length (tl_writesBitmap L)) False\<rparr>)"

definition tl_isReset :: "TargetList \<Rightarrow> bool" where
  "tl_isReset L \<longleftrightarrow> \<not> tl_needsWritable L \<and> \<not> tl_hasUpgrade L \<and> \<not> tl_allocOnFill L \<and>
     \<not> tl_hasFromCache L \<and> tl_canMergeWrites L"

definition tl_isWholeLineWrite :: "TargetList \<Rightarrow> bool" where
  "tl_isWholeLineWrite L \<longleftrightarrow> list_all (\<lambda>b. b) (tl_writesBitmap L)"

definition no_merge_flags :: u64 where
  "no_merge_flags = UNCACHEABLE OR STRICT_ORDER OR PRIVILEGED OR LLSC OR MEM_SWAP OR MEM_SWAP_COND OR SECURE"

definition bitmap_fill :: "nat \<Rightarrow> nat \<Rightarrow> bool list \<Rightarrow> bool list res" where
  "bitmap_fill off n bm =
     (if off + n \<le> length bm then Inr (take off bm @ replicate n True @ drop (off + n) bm) else Inl OutOfRange)"

definition updateWriteFlags :: "Packet_t \<Rightarrow> TargetList \<Rightarrow> TargetList res" where
  "updateWriteFlags k L =
     (if tl_isWholeLineWrite L then Inr L
      else if tl_canMergeWrites L then
        if \<not> cmd_isWrite (pk_cmd k) then Inr (L\<lparr>tl_canMergeWrites := False\<rparr>)
        else rbind (rq_getFlags (pk_req k)) (\<lambda>fl.
          let compat_write = \<not> fl_isSet fl no_merge_flags;
              first_write = (tl_list L = [])
          in rbind (if first_write \<or> compat_write then
                      rbind (getOffset (ucast (tl_blkSize L)) k) (\<lambda>off. rbind (getSize k) (\<lambda>sz.
                        bitmap_fill (unat off) (unat sz) (tl_writesBitmap L)))
                    else Inr (tl_writesBitmap L)) (\<lambda>bm.
               Inr (L\<lparr>tl_writesBitmap := bm, tl_canMergeWrites := tl_canMergeWrites L \<and> compat_write\<rparr>)))
      else Inr L)"

definition updateFlags :: "Packet_t \<Rightarrow> Source \<Rightarrow> bool \<Rightarrow> TargetList \<Rightarrow> TargetList res" where
  "updateFlags k source alloc_on_fill L =
     (if source \<noteq> FromSnoop then
        rbind (needsWritable k) (\<lambda>nw.
          let L = (if nw then L\<lparr>tl_needsWritable := True\<rparr> else L);
              L = (if cmd_isUpgrade (pk_cmd k) \<or> pk_cmd k = StoreCondReq then L\<lparr>tl_hasUpgrade := True\<rparr> else L);
              L = L\<lparr>tl_allocOnFill := tl_allocOnFill L \<or> alloc_on_fill\<rparr>
          in if source \<noteq> FromPrefetcher
             then updateWriteFlags k (L\<lparr>tl_hasFromCache := tl_hasFromCache L \<or> cmd_fromCache (pk_cmd k)\<rparr>)
             else Inr L)
      else Inr L)"

fun update_flags_all :: "'m PktMem_scheme \<Rightarrow> Target list \<Rightarrow> TargetList \<Rightarrow> TargetList res" where
  "update_flags_all M [] L = Inr L"
| "update_flags_all M (t # ts) L =
     rbind (pkt_at M (t_pkt t)) (\<lambda>k. rbind (updateFlags k (t_source t) (t_allocOnFill t) L) (update_flags_all M ts))"

definition populateFlags :: "'m PktMem_scheme \<Rightarrow> TargetList \<Rightarrow> TargetList res" where
  "populateFlags M L = update_flags_all M (tl_list L) (resetFlags L)"

subsection \<open>Registers\<close>

record MSHR = QueueEntry +
  downstreamPending :: bool
  pendingModified :: bool
  postInvalidate :: bool
  postDowngrade :: bool
  wasWholeLineWrite :: bool
  isForward :: bool
  targets :: TargetList
  deferredTargets :: TargetList

definition MSHR_new :: MSHR where
  "MSHR_new = QueueEntry.extend QueueEntry_new
     \<lparr>downstreamPending = False, pendingModified = False, postInvalidate = False, postDowngrade = False,
      wasWholeLineWrite = False, isForward = False, targets = TargetList_new, deferredTargets = TargetList_new\<rparr>"

record MemSys = PktMem +
  mshrs :: "MSHR list"

definition mshr_at :: "MemSys \<Rightarrow> nat \<Rightarrow> MSHR res" where
  "mshr_at S m = ent (mshrs S) m"

definition mshr_upd :: "nat \<Rightarrow> (MSHR \<Rightarrow> MSHR) \<Rightarrow> MemSys \<Rightarrow> MemSys" where
  "mshr_upd m f S = S\<lparr>mshrs := (mshrs S)[m := f (mshrs S ! m)]\<rparr>"

definition mshr_hasTargets :: "MSHR \<Rightarrow> bool" where
  "mshr_hasTargets h \<longleftrightarrow> tl_list (targets h) \<noteq> []"

definition getNumTargets :: "MSHR \<Rightarrow> nat" where
  "getNumTargets h = length (tl_list (targets h)) + length (tl_list (deferredTargets h))"

definition isPendingModified :: "MSHR \<Rightarrow> bool res" where
  "isPendingModified h = (if inService h then Inr (pendingModified h) else Inl AssertFailed)"

definition hasPostInvalidate :: "MSHR \<Rightarrow> bool res" where
  "hasPostInvalidate h = (if inService h then Inr (postInvalidate h) else Inl AssertFailed)"

definition hasPostDowngrade :: "MSHR \<Rightarrow> bool res" where
  "hasPostDowngrade h = (if inService h then Inr (postDowngrade h) else Inl AssertFailed)"

definition tl_front :: "TargetList \<Rightarrow> Target res" where
  "tl_front L = (case tl_list L of [] \<Rightarrow> Inl NullDeref | t # _ \<Rightarrow> Inr t)"

definition isCleaning :: "nat \<Rightarrow> MemSys \<Rightarrow> bool res" where
  "isCleaning m S =
     rbind (mshr_at S m) (\<lambda>h. rbind (tl_front (targets h)) (\<lambda>t. rbind (pkt_at S (t_pkt t)) (\<lambda>k.
       Inr (cmd_isClean (pk_cmd k)))))"

definition popTarget :: "MSHR \<Rightarrow> MSHR res" where
  "popTarget h =
     (case tl_list (targets h) of [] \<Rightarrow> Inl NullDeref
      | t # ts \<Rightarrow> Inr (h\<lparr>targets := (targets h)\<lparr>tl_list := ts\<rparr>\<rparr>))"

subsection \<open>Adding targets\<close>

text \<open>\<open>TargetList::add\<close>: the list is returned, the store holds the changed register above.\<close>

definition tl_add :: "nat \<Rightarrow> Tick \<Rightarrow> u64 \<Rightarrow> Source \<Rightarrow> bool \<Rightarrow> bool \<Rightarrow> TargetList \<Rightarrow> MemSys \<Rightarrow> (TargetList \<times> MemSys) res" where
  "tl_add p ready_time ord source markPending alloc_on_fill L S =
     rbind (pkt_at S p) (\<lambda>k. rbind (updateFlags k source alloc_on_fill L) (\<lambda>L.
       rbind (if markPending then
                case findNextSenderState k of
                  Some m \<Rightarrow> rbind (mshr_at S m) (\<lambda>h.
                    if downstreamPending h then Inl AssertFailed
                    else Inr (True, mshr_upd m (\<lambda>h. h\<lparr>downstreamPending := True\<rparr>) S))
                | None \<Rightarrow> Inr (False, S)
              else Inr (False, S)) (\<lambda>(marked, S).
         Inr (L\<lparr>tl_list := tl_list L @ [Target_new (curTick S) p ready_time ord source marked alloc_on_fill]\<rparr>, S))))"

definition replaceUpgrade :: "nat \<Rightarrow> 'm PktMem_scheme \<Rightarrow> 'm PktMem_scheme res" where
  "replaceUpgrade p M =
     rbind (pkt_at M p) (\<lambda>k.
       let has_data = (cmd_hasData (pk_cmd k) \<or> hasRespData k);
           k = (if pk_cmd k = UpgradeReq then k\<lparr>pk_cmd := ReadExReq\<rparr>
                else if pk_cmd k = SCUpgradeReq then k\<lparr>pk_cmd := SCUpgradeFailReq\<rparr>
                else if pk_cmd k = StoreCondReq then k\<lparr>pk_cmd := StoreCondFailReq\<rparr>
                else k)
       in if \<not> has_data then
            if cmd_hasData (pk_cmd k) then Inl AssertFailed
            else if hasRespData k then rbind (pkt_allocate M k) (\<lambda>(k, M). Inr (pkt_put p k M))
            else Inr (pkt_put p k M)
          else Inr (pkt_put p k M))"

fun replace_all :: "Target list \<Rightarrow> 'm PktMem_scheme \<Rightarrow> 'm PktMem_scheme res" where
  "replace_all [] M = Inr M"
| "replace_all (t # ts) M = rbind (replaceUpgrade (t_pkt t) M) (replace_all ts)"

definition replaceUpgrades :: "TargetList \<Rightarrow> 'm PktMem_scheme \<Rightarrow> (TargetList \<times> 'm PktMem_scheme) res" where
  "replaceUpgrades L M =
     (if \<not> tl_hasUpgrade L then Inr (L, M)
      else rbind (replace_all (tl_list L) M) (\<lambda>M. Inr (L\<lparr>tl_hasUpgrade := False\<rparr>, M)))"

subsection \<open>Clearing the pending flags of the registers above\<close>

definition sel_list :: "bool \<Rightarrow> MSHR \<Rightarrow> TargetList" where
  "sel_list d h = (if d then deferredTargets h else targets h)"

definition clear_marked :: "bool \<Rightarrow> nat \<Rightarrow> MSHR \<Rightarrow> MSHR" where
  "clear_marked d i h =
     (let L = sel_list d h; ts = tl_list L; L' = L\<lparr>tl_list := ts[i := (ts ! i)\<lparr>t_markedPending := False\<rparr>]\<rparr>
      in if d then h\<lparr>deferredTargets := L'\<rparr> else h\<lparr>targets := L'\<rparr>)"

text \<open>
  The loop of \<open>TargetList::clearDownstreamPending\<close> over \<open>n\<close> targets from index \<open>i\<close> of one of the two
  lists of a register; \<open>rec\<close> is \<open>MSHR::clearDownstreamPending\<close>.
\<close>

fun clear_targets :: "(nat \<Rightarrow> MemSys \<Rightarrow> MemSys run) \<Rightarrow> bool \<Rightarrow> nat \<Rightarrow> nat \<Rightarrow> nat \<Rightarrow> MemSys \<Rightarrow> MemSys run" where
  "clear_targets rec d m i 0 S = ret S"
| "clear_targets rec d m i (Suc n) S =
     obind (Some (mshr_at S m)) (\<lambda>h.
       let ts = tl_list (sel_list d h) in
       if i < length ts then
         if t_markedPending (ts ! i) then
           obind (Some (pkt_at S (t_pkt (ts ! i)))) (\<lambda>k.
             obind (case findNextSenderState k of Some m' \<Rightarrow> rec m' S | None \<Rightarrow> ret S) (\<lambda>S.
               clear_targets rec d m (Suc i) n (mshr_upd m (clear_marked d i) S)))
         else clear_targets rec d m (Suc i) n S
       else fail NullDeref)"

lemma clear_targets_mono [partial_function_mono]:
  assumes "\<And>a b. monotone (fun_ord option_ord) option_ord (\<lambda>f. g f a b)"
  shows "monotone (fun_ord option_ord) option_ord (\<lambda>f. clear_targets (g f) d m i n S)"
proof (induction n arbitrary: i S)
  case 0
  show ?case by (simp add: option.const_mono)
next
  case (Suc n)
  have c: "monotone (fun_ord option_ord) option_ord (\<lambda>f. case x of None \<Rightarrow> ret S | Some m' \<Rightarrow> g f m' S)" for x S
    using assms by (cases x) (simp_all add: option.const_mono)
  show ?case
    unfolding clear_targets.simps Let_def
    by (intro obind_mono if_mono option.const_mono Suc.IH c)
qed

partial_function (option) clearDownstreamPending :: "nat \<Rightarrow> MemSys \<Rightarrow> MemSys run" where
  "clearDownstreamPending m S =
     obind (Some (mshr_at S m)) (\<lambda>h.
       if downstreamPending h then
         clear_targets clearDownstreamPending False m 0 (length (tl_list (targets h)))
           (mshr_upd m (\<lambda>h. h\<lparr>downstreamPending := False\<rparr>) S)
       else fail AssertFailed)"

declare clearDownstreamPending.simps [code]

subsection \<open>Operations of a register\<close>

text \<open>The members \<open>MSHR::allocate\<close> sets before it adds the first target.\<close>

definition mshr_reset :: "Addr \<Rightarrow> u32 \<Rightarrow> bool \<Rightarrow> Tick \<Rightarrow> u64 \<Rightarrow> bool \<Rightarrow> MSHR \<Rightarrow> MSHR" where
  "mshr_reset blk_addr blk_size s when_ready ord unc h =
     h\<lparr>blkAddr := blk_addr, blkSize := blk_size, qe_isSecure := s, readyTime := when_ready,
       qe_order := ord, isForward := False, wasWholeLineWrite := False,
       qe_isUncacheable := unc, inService := False, downstreamPending := False,
       targets := tl_init blk_addr (ucast blk_size) (targets h),
       deferredTargets := tl_init blk_addr (ucast blk_size) (deferredTargets h)\<rparr>"

definition mshr_allocate :: "Addr \<Rightarrow> u32 \<Rightarrow> nat \<Rightarrow> Tick \<Rightarrow> u64 \<Rightarrow> bool \<Rightarrow> nat \<Rightarrow> MemSys \<Rightarrow> MemSys res" where
  "mshr_allocate blk_addr blk_size p when_ready ord alloc_on_fill m S =
     rbind (mshr_at S m) (\<lambda>_. rbind (pkt_at S p) (\<lambda>k. rbind (pkt_isSecure k) (\<lambda>s.
       let S = mshr_upd m (mshr_reset blk_addr blk_size s when_ready ord (rq_isUncacheable (pk_req k))) S;
           source = (if pk_cmd k = HardPFReq then FromPrefetcher else FromCPU)
       in rbind (tl_add p when_ready ord source True alloc_on_fill (targets (mshrs S ! m)) S) (\<lambda>(L, S).
            let S = mshr_upd m (\<lambda>h. h\<lparr>targets := L\<rparr>) S in
            rbind (tl_front L) (\<lambda>t. rbind (pkt_at S (t_pkt t)) (\<lambda>f. rbind (matchBlockAddr_pkt f blk_size k) (\<lambda>b.
              if b then Inr S else Inl AssertFailed)))))))"

definition mshr_markInService :: "nat \<Rightarrow> bool \<Rightarrow> MemSys \<Rightarrow> MemSys run" where
  "mshr_markInService m pending_modified_resp S =
     obind (Some (mshr_at S m)) (\<lambda>h.
       if inService h then fail AssertFailed
       else let S = mshr_upd m (\<lambda>h. h\<lparr>inService := True,
                      pendingModified := tl_needsWritable (targets h) \<or> pending_modified_resp,
                      postInvalidate := False, postDowngrade := False\<rparr>) S in
            obind (if \<not> downstreamPending h
                   then clear_targets clearDownstreamPending False m 0 (length (tl_list (targets h))) S
                   else ret S) (\<lambda>S.
              ret (mshr_upd m (\<lambda>h. h\<lparr>wasWholeLineWrite := tl_isWholeLineWrite (targets h)\<rparr>) S)))"

definition mshr_deallocate :: "MSHR \<Rightarrow> MSHR res" where
  "mshr_deallocate h =
     (if tl_list (targets h) = [] then
        let h = h\<lparr>targets := resetFlags (targets h)\<rparr> in
        if tl_isReset (deferredTargets h) then Inr (h\<lparr>inService := False\<rparr>) else Inl AssertFailed
      else Inl AssertFailed)"

text \<open>The condition under which \<open>allocateTarget\<close> defers a target, evaluated from left to right.\<close>

definition must_defer :: "Packet_t \<Rightarrow> Packet_t \<Rightarrow> MSHR \<Rightarrow> bool res" where
  "must_defer k tgt h =
     (if rq_isCacheMaintenance (pk_req k) \<or> rq_isCacheMaintenance (pk_req tgt) \<or> tl_list (deferredTargets h) \<noteq> []
      then Inr True
      else if \<not> inService h then Inr False
      else rbind (hasPostInvalidate h) (\<lambda>pinv.
        if pinv then Inr True
        else rbind (needsWritable k) (\<lambda>nw.
          if nw then rbind (isPendingModified h) (\<lambda>pm. rbind (hasPostDowngrade h) (\<lambda>pd. Inr (\<not> pm \<or> pd \<or> isForward h)))
          else Inr False)))"

definition allocateTarget :: "nat \<Rightarrow> Tick \<Rightarrow> u64 \<Rightarrow> bool \<Rightarrow> nat \<Rightarrow> MemSys \<Rightarrow> MemSys res" where
  "allocateTarget p whenReady ord alloc_on_fill m S =
     rbind (mshr_at S m) (\<lambda>h. rbind (pkt_at S p) (\<lambda>k.
       if pk_cmd k = HardPFReq then Inl AssertFailed
       else rbind (tl_front (targets h)) (\<lambda>t. rbind (pkt_at S (t_pkt t)) (\<lambda>tgt.
         rbind (must_defer k tgt h) (\<lambda>defer.
           if defer then
             rbind (if inService h \<and> postInvalidate h then replaceUpgrade p S else Inr S) (\<lambda>S.
               rbind (tl_add p whenReady ord FromCPU True alloc_on_fill (deferredTargets h) S) (\<lambda>(L, S).
                 Inr (mshr_upd m (\<lambda>h. h\<lparr>deferredTargets := L\<rparr>) S)))
           else rbind (tl_add p whenReady ord FromCPU (\<not> inService h) alloc_on_fill (targets h) S) (\<lambda>(L, S).
             Inr (mshr_upd m (\<lambda>h. h\<lparr>targets := L\<rparr>) S)))))))"

text \<open>
  The branch of \<open>handleSnoop\<close> that saves a copy of the snooped packet as a target; \<open>rid\<close> is the
  address of the copied request.
\<close>

definition save_snoop :: "nat \<Rightarrow> u64 \<Rightarrow> u64 \<Rightarrow> nat \<Rightarrow> bool \<Rightarrow> MemSys \<Rightarrow> MemSys res" where
  "save_snoop p ord rid m will_respond S =
     rbind (mshr_at S m) (\<lambda>h. rbind (pkt_at S p) (\<lambda>k.
       rbind (if will_respond then Packet_copy True True S k
              else Inr (Packet_blk (Request_copy (pk_req k)) (pk_cmd k) (blkSize h) (pk_id k) rid, S)) (\<lambda>(cp, S).
         let cp_pkt = length (pkts S); S = S\<lparr>pkts := pkts S @ [cp]\<rparr> in
         rbind (if will_respond then rbind (setCacheResponding k) setResponderHadWritable
                else if pendingModified h \<and> cmd_isClean (pk_cmd k) then setSatisfied k else Inr k) (\<lambda>k.
           let S = pkt_put p k S in
           rbind (tl_add cp_pkt (curTick S) ord FromSnoop (downstreamPending h \<and> tl_needsWritable (targets h)) False (targets h) S)
             (\<lambda>(L, S). rbind (needsWritable k) (\<lambda>nw.
               Inr (mshr_upd m (\<lambda>h. h\<lparr>targets := L,
                 postInvalidate := (if nw \<or> cmd_isInvalidate (pk_cmd k) then True else postInvalidate h)\<rparr>) S)))))))"

text \<open>
  \<open>handleSnoop\<close>: a snoop that precedes the request of the register only turns upgrades into exclusive
  reads; one that follows it is replayed when the response comes. \<open>invd\<close> is the condition
  \<open>needsWritable || isCacheInvalidate\<close> of the code.
\<close>

definition snoop_before :: "bool \<Rightarrow> nat \<Rightarrow> MemSys \<Rightarrow> (bool \<times> MemSys) res" where
  "snoop_before invd m S =
     rbind (mshr_at S m) (\<lambda>h.
       if invd then
         rbind (replaceUpgrades (targets h) S) (\<lambda>(L, S).
           rbind (replaceUpgrades (deferredTargets h) (mshr_upd m (\<lambda>h. h\<lparr>targets := L\<rparr>) S)) (\<lambda>(D, S).
             Inr (False, mshr_upd m (\<lambda>h. h\<lparr>deferredTargets := D\<rparr>) S)))
       else Inr (False, S))"

definition snoop_replay :: "nat \<Rightarrow> u64 \<Rightarrow> u64 \<Rightarrow> nat \<Rightarrow> MemSys \<Rightarrow> (bool \<times> MemSys) res" where
  "snoop_replay p ord rid m S =
     rbind (mshr_at S m) (\<lambda>h. rbind (tl_front (targets h)) (\<lambda>t. rbind (pkt_at S (t_pkt t)) (\<lambda>tgt.
       rbind (hasPostInvalidate h) (\<lambda>pinv.
         if pinv \<or> rq_isCacheInvalidate (pk_req tgt) then Inr (True, S)
         else rbind (pkt_at S p) (\<lambda>k. rbind (isPendingModified h) (\<lambda>pm.
           let will_respond = (pm \<and> cmd_needsResponse (pk_cmd k) \<and> \<not> cmd_isClean (pk_cmd k)) in
           rbind (if pm \<or> cmd_isInvalidate (pk_cmd k) then save_snoop p ord rid m will_respond S else Inr S) (\<lambda>S.
           rbind (pkt_at S p) (\<lambda>k. rbind (needsWritable k) (\<lambda>nw.
             if \<not> nw \<and> \<not> rq_isUncacheable (pk_req k)
             then Inr (will_respond, mshr_upd m (\<lambda>h. h\<lparr>postDowngrade := True\<rparr>) (pkt_put p (setHasSharers k) S))
             else Inr (will_respond, S))))))))))"

definition snoop_after :: "bool \<Rightarrow> nat \<Rightarrow> u64 \<Rightarrow> u64 \<Rightarrow> nat \<Rightarrow> MemSys \<Rightarrow> (bool \<times> MemSys) res" where
  "snoop_after invd p ord rid m S =
     rbind (mshr_at S m) (\<lambda>h.
       rbind (if invd then rbind (replaceUpgrades (deferredTargets h) S) (\<lambda>(D, S). Inr (mshr_upd m (\<lambda>h. h\<lparr>deferredTargets := D\<rparr>) S))
              else Inr S) (snoop_replay p ord rid m))"

definition handleSnoop :: "nat \<Rightarrow> u64 \<Rightarrow> u64 \<Rightarrow> nat \<Rightarrow> MemSys \<Rightarrow> (bool \<times> MemSys) res" where
  "handleSnoop p ord rid m S =
     rbind (mshr_at S m) (\<lambda>h. rbind (pkt_at S p) (\<lambda>k. rbind (needsWritable k) (\<lambda>nw.
       if nw \<noteq> cmd_isInvalidate (pk_cmd k) \<and> \<not> rq_isCacheMaintenance (pk_req k) then Inl PanicError
       else let invd = (nw \<or> rq_isCacheInvalidate (pk_req k)) in
            if \<not> inService h \<or> pk_is EXPRESS_SNOOP k \<and> downstreamPending h then snoop_before invd m S
            else snoop_after invd p ord rid m S)))"

fun split_snoops :: "Target list \<Rightarrow> (Target list \<times> Target list) res" where
  "split_snoops [] = Inr ([], [])"
| "split_snoops (t # ts) =
     (if t_source t = FromCPU then rbind (split_snoops ts) (\<lambda>(sn, rest). Inr (sn, t # rest))
      else if t_source t = FromSnoop then rbind (split_snoops ts) (\<lambda>(sn, rest). Inr (t # sn, rest))
      else Inl AssertFailed)"

text \<open>The two branches of \<open>extractServiceableTargets\<close>: the ready targets and those that stay.\<close>

definition pick_serviceable :: "Packet_t \<Rightarrow> MSHR \<Rightarrow> 'm PktMem_scheme \<Rightarrow> (TargetList \<times> TargetList) res" where
  "pick_serviceable k h M =
     (let ready = tl_init (blkAddr h) (ucast (blkSize h)) TargetList_new in
      if pk_cmd k = ReadRespWithInvalidate then
        case tl_list (targets h) of [] \<Rightarrow> Inl NullDeref
        | t # ts \<Rightarrow>
          if t_source t = FromCPU \<or> t_source t = FromPrefetcher then
            rbind (split_snoops ts) (\<lambda>(sn, rest).
              rbind (populateFlags M (ready\<lparr>tl_list := t # sn\<rparr>)) (\<lambda>R. Inr (R, (targets h)\<lparr>tl_list := rest\<rparr>)))
          else Inl AssertFailed
      else Inr (targets h, ready))"

definition extractServiceableTargets :: "nat \<Rightarrow> nat \<Rightarrow> MemSys \<Rightarrow> (TargetList \<times> MemSys) res" where
  "extractServiceableTargets p m S =
     rbind (mshr_at S m) (\<lambda>h. rbind (pkt_at S p) (\<lambda>k. rbind (pick_serviceable k h S) (\<lambda>(R, L).
       rbind (populateFlags S L) (\<lambda>L. Inr (R, mshr_upd m (\<lambda>h. h\<lparr>targets := L\<rparr>) S)))))"

text \<open>\<open>std::find_if_not\<close> on a list, cutting it where the predicate first fails.\<close>

fun span_res :: "('a \<Rightarrow> bool res) \<Rightarrow> 'a list \<Rightarrow> ('a list \<times> 'a list) res" where
  "span_res P [] = Inr ([], [])"
| "span_res P (x # xs) =
     rbind (P x) (\<lambda>b. if b then rbind (span_res P xs) (\<lambda>(ys, zs). Inr (x # ys, zs)) else Inr ([], x # xs))"

text \<open>
  The two \<open>splice\<close> calls: the deferred targets in front of the first cache maintenance request are
  appended to the targets; if that request is the first, it moves alone, and only to an empty list.
\<close>

definition promote_lists :: "'a list \<Rightarrow> 'a list \<Rightarrow> 'a list \<Rightarrow> 'a list \<times> 'a list" where
  "promote_lists ts pre post =
     (if pre = [] then (if ts = [] then (take 1 post, drop 1 post) else (ts, post)) else (ts @ pre, post))"

definition promoteDeferredTargets :: "nat \<Rightarrow> MemSys \<Rightarrow> (bool \<times> MemSys) res" where
  "promoteDeferredTargets m S =
     rbind (mshr_at S m) (\<lambda>h.
       let ts = tl_list (targets h); ds = tl_list (deferredTargets h) in
       if ts = [] \<and> ds = [] then Inr (False, S)
       else rbind (span_res (\<lambda>t. rbind (pkt_at S (t_pkt t)) (\<lambda>k. Inr (\<not> rq_isCacheMaintenance (pk_req k)))) ds) (\<lambda>(pre, post).
         rbind (populateFlags S ((deferredTargets h)\<lparr>tl_list := snd (promote_lists ts pre post)\<rparr>)) (\<lambda>D.
           rbind (populateFlags S ((targets h)\<lparr>tl_list := fst (promote_lists ts pre post)\<rparr>)) (\<lambda>L.
             rbind (tl_front L) (\<lambda>f.
               Inr (True, mshr_upd m (\<lambda>h. h\<lparr>targets := L, deferredTargets := D, qe_order := t_order f,
                                              readyTime := max (curTick S) (t_readyTime f)\<rparr>) S))))))"

definition promoteIf :: "(Target \<Rightarrow> bool res) \<Rightarrow> nat \<Rightarrow> MemSys \<Rightarrow> MemSys run" where
  "promoteIf pred m S =
     obind (Some (mshr_at S m)) (\<lambda>h.
       if downstreamPending h then fail AssertFailed
       else obind (Some (span_res pred (tl_list (deferredTargets h)))) (\<lambda>(pre, post).
         obind (clear_targets clearDownstreamPending True m 0 (length pre) S) (\<lambda>S.
           obind (Some (mshr_at S m)) (\<lambda>h.
             let ds = tl_list (deferredTargets h); n = length pre in
             obind (Some (populateFlags S ((deferredTargets h)\<lparr>tl_list := drop n ds\<rparr>))) (\<lambda>D.
               ret (mshr_upd m (\<lambda>h. h\<lparr>targets := (targets h)\<lparr>tl_list := tl_list (targets h) @ take n ds\<rparr>,
                                        deferredTargets := D\<rparr>) S))))))"

definition pred_readable :: "MemSys \<Rightarrow> Target \<Rightarrow> bool res" where
  "pred_readable S t =
     (if t_source t = FromCPU then
        rbind (pkt_at S (t_pkt t)) (\<lambda>k.
          if rq_isCacheInvalidate (pk_req k) then Inr False
          else rbind (needsWritable k) (\<lambda>nw. Inr (\<not> nw)))
      else Inl AssertFailed)"

definition pred_writable :: "MemSys \<Rightarrow> Target \<Rightarrow> bool res" where
  "pred_writable S t =
     (if t_source t = FromCPU then rbind (pkt_at S (t_pkt t)) (\<lambda>k. Inr (\<not> rq_isCacheInvalidate (pk_req k)))
      else Inl AssertFailed)"

definition promoteReadable :: "nat \<Rightarrow> MemSys \<Rightarrow> MemSys run" where
  "promoteReadable m S =
     obind (Some (mshr_at S m)) (\<lambda>h.
       if tl_list (deferredTargets h) \<noteq> [] then
         obind (Some (hasPostInvalidate h)) (\<lambda>pinv. if pinv then ret S else promoteIf (pred_readable S) m S)
       else ret S)"

text \<open>The front of the deferred list is read before anything is tested.\<close>

definition promoteWritable :: "nat \<Rightarrow> MemSys \<Rightarrow> MemSys run" where
  "promoteWritable m S =
     obind (Some (mshr_at S m)) (\<lambda>h.
       obind (Some (tl_front (deferredTargets h))) (\<lambda>t.
         if tl_needsWritable (deferredTargets h) then
           obind (Some (hasPostInvalidate h)) (\<lambda>pinv. obind (Some (hasPostDowngrade h)) (\<lambda>pd.
             if pinv \<or> pd then ret S
             else obind (Some (pkt_at S (t_pkt t))) (\<lambda>k.
               if rq_isCacheInvalidate (pk_req k) then ret S
               else if tl_needsWritable (targets h) then fail AssertFailed
               else promoteIf (pred_writable S) m
                      (mshr_upd m (\<lambda>h. h\<lparr>targets := (targets h)\<lparr>tl_needsWritable := True\<rparr>\<rparr>) S))))
         else ret S))"

definition mshr_trySatisfyFunctional :: "nat \<Rightarrow> MSHR \<Rightarrow> 'm PktMem_scheme \<Rightarrow> (bool \<times> 'm PktMem_scheme) res" where
  "mshr_trySatisfyFunctional p h M =
     rbind (pkt_at M p) (\<lambda>k.
       if cmd_isPrint (pk_cmd k) then
         rbind (trySatisfyFunctional p (blkAddr h) (qe_isSecure h) (blkSize h) None M) (\<lambda>(b, M). Inr (False, M))
       else rbind (satisfy_targets p (tl_list (targets h)) M) (\<lambda>(b, M).
         if b then Inr (True, M) else satisfy_targets p (tl_list (deferredTargets h)) M))"

definition mshr_delay :: "Tick \<Rightarrow> nat \<Rightarrow> MemSys \<Rightarrow> MemSys res" where
  "mshr_delay delay_ticks m S =
     rbind (mshr_at S m) (\<lambda>h.
       if readyTime h \<le> curTick S then Inr (mshr_upd m (\<lambda>h. h\<lparr>readyTime := curTick S + delay_ticks\<rparr>) S)
       else Inl AssertFailed)"

subsection \<open>The queue of registers\<close>

definition mq_allocate :: "Addr \<Rightarrow> u32 \<Rightarrow> nat \<Rightarrow> Tick \<Rightarrow> u64 \<Rightarrow> bool \<Rightarrow> MemSys \<Rightarrow> EntryQueue \<Rightarrow> (nat \<times> MemSys \<times> EntryQueue) res" where
  "mq_allocate blk_addr blk_size p when_ready ord alloc_on_fill S q =
     (case freeList q of [] \<Rightarrow> Inl AssertFailed
      | m # fl \<Rightarrow>
        rbind (mshr_at S m) (\<lambda>h.
          if getNumTargets h \<noteq> 0 then Inl AssertFailed
          else let q = q\<lparr>freeList := fl\<rparr> in
          rbind (mshr_allocate blk_addr blk_size p when_ready ord alloc_on_fill m S) (\<lambda>S.
            rbind (addToReadyList (mshrs S) m (q\<lparr>allocatedList := allocatedList q @ [m]\<rparr>)) (\<lambda>q.
              Inr (m, S, q\<lparr>q_allocated := q_allocated q + 1\<rparr>)))))"

definition moveToFront :: "nat \<Rightarrow> MemSys \<Rightarrow> EntryQueue \<Rightarrow> EntryQueue res" where
  "moveToFront m S q =
     rbind (mshr_at S m) (\<lambda>h.
       if \<not> inService h then rbind (list_erase m (readyList q)) (\<lambda>r. Inr (q\<lparr>readyList := m # r\<rparr>)) else Inr q)"

text \<open>
  \<open>delay\<close> looks, from the entry's own position on, for an entry that is ready no later than the delayed
  one, and splices the entry in front of it; splicing an element in front of itself does nothing.
\<close>

definition mq_delay :: "nat \<Rightarrow> Tick \<Rightarrow> MemSys \<Rightarrow> EntryQueue \<Rightarrow> (MemSys \<times> EntryQueue) res" where
  "mq_delay m delay_ticks S q =
     rbind (mshr_delay delay_ticks m S) (\<lambda>S.
       let before = takeWhile (\<lambda>x. x \<noteq> m) (readyList q);
           from = dropWhile (\<lambda>x. x \<noteq> m) (readyList q);
           later = (\<lambda>x. \<not> rt (mshrs S) m \<ge> rt (mshrs S) x)
       in if from = [] then Inl NullDeref
          else let skipped = takeWhile later from; it = dropWhile later from in
               Inr (S, q\<lparr>readyList := before @ (if skipped = [] then it else tl skipped @ m # it)\<rparr>))"

definition mq_markInService :: "nat \<Rightarrow> bool \<Rightarrow> MemSys \<Rightarrow> EntryQueue \<Rightarrow> (MemSys \<times> EntryQueue) run" where
  "mq_markInService m pending_modified_resp S q =
     obind (mshr_markInService m pending_modified_resp S) (\<lambda>S.
       obind (Some (list_erase m (readyList q))) (\<lambda>r.
         ret (S, q\<lparr>readyList := r, q_numInService := q_numInService q + 1\<rparr>)))"

definition mq_markPending :: "nat \<Rightarrow> MemSys \<Rightarrow> EntryQueue \<Rightarrow> (MemSys \<times> EntryQueue) res" where
  "mq_markPending m S q =
     rbind (mshr_at S m) (\<lambda>h.
       if inService h then
         let S = mshr_upd m (\<lambda>h. h\<lparr>inService := False\<rparr>) S in
         rbind (addToReadyList (mshrs S) m (q\<lparr>q_numInService := q_numInService q - 1\<rparr>)) (\<lambda>q. Inr (S, q))
       else Inl AssertFailed)"

definition mq_deallocate :: "nat \<Rightarrow> MemSys \<Rightarrow> EntryQueue \<Rightarrow> (MemSys \<times> EntryQueue) res" where
  "mq_deallocate m S q = rbind (q_deallocate mshr_deallocate m (mshrs S) q) (\<lambda>(es, q). Inr (S\<lparr>mshrs := es\<rparr>, q))"

definition forceDeallocateTarget :: "nat \<Rightarrow> MemSys \<Rightarrow> EntryQueue \<Rightarrow> (bool \<times> MemSys \<times> EntryQueue) res" where
  "forceDeallocateTarget m S q =
     (let was_full = q_isFull q in
      rbind (mshr_at S m) (\<lambda>h.
        if \<not> mshr_hasTargets h then Inl AssertFailed
        else rbind (popTarget h) (\<lambda>h'.
          let S = mshr_upd m (\<lambda>_. h') S in
          rbind (if \<not> mshr_hasTargets h' then
                   rbind (promoteDeferredTargets m S) (\<lambda>(promoted, S).
                     if promoted then Inr (S, q) else mq_deallocate m S q)
                 else Inr (S, q)) (\<lambda>(S, q).
            Inr (was_full \<and> \<not> q_isFull q, S, q)))))"

definition havePending :: "EntryQueue \<Rightarrow> bool" where
  "havePending q \<longleftrightarrow> readyList q \<noteq> []"

definition canPrefetch :: "int \<Rightarrow> EntryQueue \<Rightarrow> bool" where
  "canPrefetch demandReserve q \<longleftrightarrow> q_allocated q < numEntries q - (numReserve q + 1 + demandReserve)"

end
