(* ===== verification/MSHRProps.thy ===== *)
theory MSHRProps
  imports MSHR
begin

text \<open>
  What the operations of the miss registers keep. An operation on one register changes the others
  only in their pending flags; clearing those flags through the caches above always ends; the requests
  of the processor are served in the order they arrived, whatever snoops, deferrals and promotions
  come between; the lists of the register queue stay well formed.
\<close>

subsection \<open>Registers up to their pending flags\<close>

definition unmark_target :: "Target \<Rightarrow> Target" where
  "unmark_target t = t\<lparr>t_markedPending := False\<rparr>"

definition unmark_list :: "TargetList \<Rightarrow> TargetList" where
  "unmark_list L = L\<lparr>tl_list := map unmark_target (tl_list L)\<rparr>"

definition unmark :: "MSHR \<Rightarrow> MSHR" where
  "unmark h = h\<lparr>downstreamPending := False, targets := unmark_list (targets h),
     deferredTargets := unmark_list (deferredTargets h)\<rparr>"

text \<open>\<open>same_regs X S S'\<close>: the registers not in \<open>X\<close> are the same up to those flags.\<close>

definition same_regs :: "nat set \<Rightarrow> MemSys \<Rightarrow> MemSys \<Rightarrow> bool" where
  "same_regs X S S' \<longleftrightarrow> length (mshrs S') = length (mshrs S) \<and>
     (\<forall>i. i \<notin> X \<longrightarrow> unmark (mshrs S' ! i) = unmark (mshrs S ! i))"

lemma same_regs_refl [simp]: "same_regs X S S"
  by (simp add: same_regs_def)

lemma same_regs_trans: "same_regs X S S1 \<Longrightarrow> same_regs X S1 S2 \<Longrightarrow> same_regs X S S2"
  by (simp add: same_regs_def)

lemma same_regs_mono: "same_regs X S S' \<Longrightarrow> X \<subseteq> Y \<Longrightarrow> same_regs Y S S'"
  by (auto simp: same_regs_def)

lemma same_regs_upd: "same_regs {m} S (mshr_upd m f S)"
  by (auto simp: same_regs_def mshr_upd_def)

lemma same_regs_unmarked:
  assumes "\<And>h. unmark (f h) = unmark h"
  shows "same_regs {} S (mshr_upd m f S)"
proof -
  have "unmark ((mshrs S)[m := f (mshrs S ! m)] ! i) = unmark (mshrs S ! i)" for i
    by (cases "i = m \<and> m < length (mshrs S)") (auto simp: assms nth_list_update list_update_beyond)
  then show ?thesis by (simp add: same_regs_def mshr_upd_def)
qed

lemma unmark_clear_marked [simp]: "unmark (clear_marked d i h) = unmark h"
proof -
  have "map unmark_target (ts[i := (ts ! i)\<lparr>t_markedPending := False\<rparr>]) = map unmark_target ts" for ts :: "Target list"
  proof -
    have "unmark_target ((ts ! i)\<lparr>t_markedPending := False\<rparr>) = unmark_target (ts ! i)" by (simp add: unmark_target_def)
    then show ?thesis by (metis list_update_id map_update)
  qed
  then show ?thesis by (simp add: unmark_def unmark_list_def clear_marked_def sel_list_def Let_def)
qed

lemma unmark_pending [simp]: "unmark (h\<lparr>downstreamPending := b\<rparr>) = unmark h"
  by (simp add: unmark_def)

lemma unmark_eqD:
  assumes "unmark h = unmark h'"
  shows "inService h = inService h'" and "readyTime h = readyTime h'" and "blkAddr h = blkAddr h'"
    and "map unmark_target (tl_list (targets h)) = map unmark_target (tl_list (targets h'))"
    and "map unmark_target (tl_list (deferredTargets h)) = map unmark_target (tl_list (deferredTargets h'))"
    and "postInvalidate h = postInvalidate h'" and "pendingModified h = pendingModified h'"
    and "mshr_hasTargets h = mshr_hasTargets h'"
proof -
  have e: "targets (unmark h) = targets (unmark h')" "deferredTargets (unmark h) = deferredTargets (unmark h')"
    using assms by simp_all
  from e show t: "map unmark_target (tl_list (targets h)) = map unmark_target (tl_list (targets h'))"
    by (auto simp: unmark_def unmark_list_def dest: arg_cong [where f = tl_list])
  from e show "map unmark_target (tl_list (deferredTargets h)) = map unmark_target (tl_list (deferredTargets h'))"
    by (auto simp: unmark_def unmark_list_def dest: arg_cong [where f = tl_list])
  from t show "mshr_hasTargets h = mshr_hasTargets h'" by (metis mshr_hasTargets_def map_is_Nil_conv)
  have "inService (unmark h) = inService (unmark h')" "readyTime (unmark h) = readyTime (unmark h')"
    "blkAddr (unmark h) = blkAddr (unmark h')" "postInvalidate (unmark h) = postInvalidate (unmark h')"
    "pendingModified (unmark h) = pendingModified (unmark h')"
    by (simp_all add: assms)
  then show "inService h = inService h'" "readyTime h = readyTime h'" "blkAddr h = blkAddr h'"
    "postInvalidate h = postInvalidate h'" "pendingModified h = pendingModified h'"
    by (simp_all add: unmark_def)
qed

subsection \<open>Clearing ends\<close>

definition pending_regs :: "MemSys \<Rightarrow> nat set" where
  "pending_regs S = {i. i < length (mshrs S) \<and> downstreamPending (mshrs S ! i)}"

text \<open>What a clearing may do: flags go down, nothing else changes.\<close>

definition cleared :: "MemSys \<Rightarrow> MemSys \<Rightarrow> bool" where
  "cleared S S' \<longleftrightarrow> same_regs {} S S' \<and> pending_regs S' \<subseteq> pending_regs S \<and> pkts S' = pkts S \<and> bufs S' = bufs S \<and> curTick S' = curTick S"

lemma cleared_refl [simp]: "cleared S S"
  by (simp add: cleared_def)

lemma cleared_trans: "cleared S S1 \<Longrightarrow> cleared S1 S2 \<Longrightarrow> cleared S S2"
  by (auto simp: cleared_def intro: same_regs_trans)

lemma finite_pending [simp]: "finite (pending_regs S)"
  by (simp add: pending_regs_def)

lemma cleared_card: "cleared S S' \<Longrightarrow> card (pending_regs S') \<le> card (pending_regs S)"
  by (simp add: cleared_def card_mono)

lemma cleared_upd:
  assumes "\<And>h. unmark (f h) = unmark h" and "\<And>h. downstreamPending (f h) \<Longrightarrow> downstreamPending h"
  shows "cleared S (mshr_upd m f S)"
proof -
  have "pending_regs (mshr_upd m f S) \<subseteq> pending_regs S"
  proof
    fix i assume "i \<in> pending_regs (mshr_upd m f S)"
    then show "i \<in> pending_regs S"
      using assms(2) by (cases "i = m") (auto simp: pending_regs_def mshr_upd_def)
  qed
  then show ?thesis
    using same_regs_unmarked [of f S m] assms(1) by (simp add: cleared_def mshr_upd_def)
qed

lemma downstreamPending_clear_marked [simp]: "downstreamPending (clear_marked d i h) = downstreamPending h"
  by (simp add: clear_marked_def Let_def)

text \<open>The loop over the targets ends when the recursion does on every state with no more pending registers.\<close>

lemma clear_targets_ends:
  assumes "\<And>m' S'. card (pending_regs S') \<le> card (pending_regs S) \<Longrightarrow> ends (rec m' S') (cleared S')"
  shows "ends (clear_targets rec d m i n S) (cleared S)"
  using assms
proof (induction n arbitrary: i S)
  case (Suc n)
  have step: "ends (clear_targets rec d m (Suc i) n S1) (cleared S)" if "cleared S S1" for S1
  proof (rule ends_mono)
    show "ends (clear_targets rec d m (Suc i) n S1) (cleared S1)"
      using Suc.prems cleared_card [OF that] by (intro Suc.IH) (meson order_trans)
  qed (use that in \<open>blast intro: cleared_trans\<close>)
  have up: "ends (clear_targets rec d m (Suc i) n (mshr_upd m (clear_marked d i) S1)) (cleared S)" if "cleared S S1" for S1
    by (rule step) (use that cleared_upd [of "clear_marked d i" S1 m] in \<open>auto intro: cleared_trans\<close>)
  have mid: "ends (case x of Some m' \<Rightarrow> rec m' S | None \<Rightarrow> ret S) (cleared S)" for x
    using Suc.prems by (cases x) auto
  show ?case
    unfolding clear_targets.simps Let_def
    by (intro ends_bind_res ends_if ends_fail step up ends_bind [OF mid]) auto
qed simp

lemma clear_ends: "ends (clearDownstreamPending m S) (cleared S)"
proof (induction "card (pending_regs S)" arbitrary: m S rule: less_induct)
  case less
  define S1 where "S1 = mshr_upd m (\<lambda>h. h\<lparr>downstreamPending := False\<rparr>) S"
  have c: "cleared S S1" unfolding S1_def by (rule cleared_upd) auto
  have "ends (clear_targets clearDownstreamPending False m 0 n S1) (cleared S)"
    if "mshr_at S m = Inr h" "downstreamPending h" for h n
  proof (rule ends_mono)
    have "m \<in> pending_regs S" using that by (auto simp: pending_regs_def mshr_at_def ent_def split: if_splits)
    moreover have "m \<notin> pending_regs S1" by (auto simp: pending_regs_def S1_def mshr_upd_def)
    ultimately have "pending_regs S1 \<subset> pending_regs S" using c by (auto simp: cleared_def)
    then have "card (pending_regs S1) < card (pending_regs S)" by (simp add: psubset_card_mono)
    then show "ends (clear_targets clearDownstreamPending False m 0 n S1) (cleared S1)"
      by (intro clear_targets_ends less.hyps) simp
  qed (use c in \<open>blast intro: cleared_trans\<close>)
  then show ?case
    by (subst clearDownstreamPending.simps) (intro ends_bind_res ends_if ends_fail, auto simp: S1_def)
qed

lemma ends_conj: "ends m P \<Longrightarrow> ends m Q \<Longrightarrow> ends m (\<lambda>x. P x \<and> Q x)"
  by (simp add: ends_def)

lemma clear_list_ends: "ends (clear_targets clearDownstreamPending d m i n S) (cleared S)"
  by (intro clear_targets_ends clear_ends)

text \<open>
  \<open>MSHR::clearDownstreamPending\<close> always ends, even if the sender states form a cycle. When it returns, it has
  cleared the flag of the register it starts from, set no flag anywhere, and left the packets, their data and
  the registers otherwise as they were.
\<close>

lemma clearing_ends:
  "ends (clearDownstreamPending m S) (\<lambda>S'.
     m \<notin> pending_regs S' \<and> pending_regs S' \<subseteq> pending_regs S \<and> same_regs {} S S' \<and>
     pkts S' = pkts S \<and> bufs S' = bufs S \<and> curTick S' = curTick S)"
proof -
  define S1 where "S1 = mshr_upd m (\<lambda>h. h\<lparr>downstreamPending := False\<rparr>) S"
  have "m \<notin> pending_regs S1" by (auto simp: pending_regs_def S1_def mshr_upd_def)
  then have "cleared S1 S' \<Longrightarrow> m \<notin> pending_regs S'" for S' by (auto simp: cleared_def)
  then have "ends (clearDownstreamPending m S) (\<lambda>S'. m \<notin> pending_regs S')"
    by (subst clearDownstreamPending.simps, fold S1_def)
      (intro ends_bind_res ends_if ends_fail ends_mono [OF clear_list_ends])
  from ends_conj [OF this clear_ends] show ?thesis by (rule ends_mono) (simp add: cleared_def)
qed

subsection \<open>The order of the processor's requests\<close>

abbreviation from_cpu :: "Target list \<Rightarrow> nat list" where
  "from_cpu ts \<equiv> map t_pkt (filter (\<lambda>t. t_source t \<noteq> FromSnoop) ts)"

definition cpu_pkts :: "MSHR \<Rightarrow> nat list" where
  "cpu_pkts h = from_cpu (tl_list (targets h) @ tl_list (deferredTargets h))"

lemma from_cpu_unmark [simp]: "from_cpu (map unmark_target ts) = from_cpu ts"
  by (induction ts) (auto simp: unmark_target_def)

lemma cpu_pkts_unmark: "unmark h = unmark h' \<Longrightarrow> cpu_pkts h = cpu_pkts h'"
  using unmark_eqD(4,5) [of h h'] unfolding cpu_pkts_def by (metis from_cpu_unmark map_append)

lemma updateWriteFlags_list: "updateWriteFlags k L = Inr L' \<Longrightarrow> tl_list L' = tl_list L"
  by (auto simp: updateWriteFlags_def Let_def rbind_eq_Inr split: if_splits)

lemma updateFlags_list:
  assumes "updateFlags k src a L = Inr L'"
  shows "tl_list L' = tl_list L"
proof (cases "src = FromSnoop")
  case False
  with assms obtain nw where "needsWritable k = Inr nw" by (auto simp: updateFlags_def rbind_eq_Inr)
  with assms False show ?thesis
    by (cases nw; cases "cmd_isUpgrade (pk_cmd k) \<or> pk_cmd k = StoreCondReq"; cases src)
      (auto simp: updateFlags_def Let_def dest!: updateWriteFlags_list)
qed (use assms in \<open>simp add: updateFlags_def\<close>)

lemma update_flags_all_list: "update_flags_all M ts L = Inr L' \<Longrightarrow> tl_list L' = tl_list L"
  by (induction ts arbitrary: L) (auto simp: rbind_eq_Inr dest!: updateFlags_list)

lemma populateFlags_list: "populateFlags M L = Inr L' \<Longrightarrow> tl_list L' = tl_list L"
  by (auto simp: populateFlags_def resetFlags_def dest!: update_flags_all_list)

lemma tl_add_effect:
  assumes "tl_add p t ord src mark a L S = Inr (L', S')"
  shows "\<exists>x. tl_list L' = tl_list L @ [x] \<and> t_pkt x = p \<and> t_source x = src"
    and "same_regs {} S S'" and "pkts S' = pkts S" and "bufs S' = bufs S" and "curTick S' = curTick S"
proof -
  from assms obtain k L1 marked where u: "updateFlags k src a L = Inr L1"
    and L': "L' = L1\<lparr>tl_list := tl_list L1 @ [Target_new (curTick S') p t ord src marked a]\<rparr>"
    and S': "S' = S \<or> (\<exists>m. S' = mshr_upd m (\<lambda>h. h\<lparr>downstreamPending := True\<rparr>) S)"
    unfolding tl_add_def rbind_eq_Inr by (fastforce split: if_splits option.splits simp: rbind_eq_Inr)
  then show "\<exists>x. tl_list L' = tl_list L @ [x] \<and> t_pkt x = p \<and> t_source x = src"
    by (auto simp: updateFlags_list [OF u] Target_new_def QTarget.defs QTarget_new_def)
  from S' show "same_regs {} S S'" "pkts S' = pkts S" "bufs S' = bufs S" "curTick S' = curTick S"
    using same_regs_unmarked [of "\<lambda>h. h\<lparr>downstreamPending := True\<rparr>" S] by (auto simp: mshr_upd_def)
qed

lemma pkt_allocate_effect:
  assumes "pkt_allocate M k = Inr (k', M')"
  shows "pk_cmd k' = pk_cmd k \<and> pk_req k' = pk_req k \<and> pk_senderState k' = pk_senderState k \<and> pkts M' = pkts M"
    and "\<exists>bs. M' = M\<lparr>bufs := bs\<rparr>"
proof -
  show "pk_cmd k' = pk_cmd k \<and> pk_req k' = pk_req k \<and> pk_senderState k' = pk_senderState k \<and> pkts M' = pkts M"
    using assms by (auto simp: pkt_allocate_def rbind_eq_Inr pk_setf_def split: if_splits)
  have "M' = M\<lparr>bufs := bufs M\<rparr> \<or> (\<exists>sz :: u32. M' = M\<lparr>bufs := bufs M @ [replicate (unat sz) None]\<rparr>)"
    using assms by (auto simp: pkt_allocate_def rbind_eq_Inr split: if_splits)
  then show "\<exists>bs. M' = M\<lparr>bufs := bs\<rparr>" by blast
qed

text \<open>\<open>replaceUpgrade\<close> changes one packet, and not its request.\<close>

lemma replaceUpgrade_effect:
  assumes "replaceUpgrade p M = Inr M'"
  shows "\<exists>k bs. M' = M\<lparr>pkts := (pkts M)[p := k], bufs := bs\<rparr> \<and> p < length (pkts M) \<and>
    pk_req k = pk_req (pkts M ! p) \<and> pk_senderState k = pk_senderState (pkts M ! p) \<and>
    pk_cmd k = (case pk_cmd (pkts M ! p) of UpgradeReq \<Rightarrow> ReadExReq | SCUpgradeReq \<Rightarrow> SCUpgradeFailReq
      | StoreCondReq \<Rightarrow> StoreCondFailReq | c \<Rightarrow> c)"
proof -
  define k0 where "k0 = pkts M ! p"
  define k1 where "k1 = (if pk_cmd k0 = UpgradeReq then k0\<lparr>pk_cmd := ReadExReq\<rparr>
    else if pk_cmd k0 = SCUpgradeReq then k0\<lparr>pk_cmd := SCUpgradeFailReq\<rparr>
    else if pk_cmd k0 = StoreCondReq then k0\<lparr>pk_cmd := StoreCondFailReq\<rparr> else k0)"
  have k1: "pk_req k1 = pk_req k0" "pk_senderState k1 = pk_senderState k0"
    "pk_cmd k1 = (case pk_cmd k0 of UpgradeReq \<Rightarrow> ReadExReq | SCUpgradeReq \<Rightarrow> SCUpgradeFailReq
      | StoreCondReq \<Rightarrow> StoreCondFailReq | c \<Rightarrow> c)"
    by (auto simp: k1_def split: Command.split)
  have p: "p < length (pkts M)" and r: "M' = pkt_put p k1 M \<or> (\<exists>k M1. pkt_allocate M k1 = Inr (k, M1) \<and> M' = pkt_put p k M1)"
    using assms unfolding replaceUpgrade_def
    by (auto simp: pkt_at_def k0_def [symmetric] k1_def [symmetric] Let_def rbind_eq_Inr split: if_splits)
  have id: "M = M\<lparr>bufs := bufs M\<rparr>" by simp
  from r show ?thesis
  proof
    assume "M' = pkt_put p k1 M"
    then have "M' = M\<lparr>pkts := (pkts M)[p := k1], bufs := bufs M\<rparr>" by (simp add: pkt_put_def)
    with p k1 show ?thesis unfolding k0_def by blast
  next
    assume "\<exists>k M1. pkt_allocate M k1 = Inr (k, M1) \<and> M' = pkt_put p k M1"
    then obtain k M1 where a: "pkt_allocate M k1 = Inr (k, M1)" and M': "M' = pkt_put p k M1" by blast
    from pkt_allocate_effect(2) [OF a] obtain bs where M1: "M1 = M\<lparr>bufs := bs\<rparr>" by blast
    have "M' = M\<lparr>pkts := (pkts M)[p := k], bufs := bs\<rparr>" by (simp add: M' M1 pkt_put_def)
    with p k1 pkt_allocate_effect(1) [OF a] show ?thesis unfolding k0_def by force
  qed
qed

lemma same_regs_cpu:
  assumes "same_regs X S S'" and "m \<notin> X"
  shows "from_cpu (tl_list (targets (mshrs S' ! m))) = from_cpu (tl_list (targets (mshrs S ! m)))"
    and "from_cpu (tl_list (deferredTargets (mshrs S' ! m))) = from_cpu (tl_list (deferredTargets (mshrs S ! m)))"
    and "cpu_pkts (mshrs S' ! m) = cpu_pkts (mshrs S ! m)"
proof -
  have u: "unmark (mshrs S' ! m) = unmark (mshrs S ! m)" using assms by (simp add: same_regs_def)
  from unmark_eqD(4) [OF u] show "from_cpu (tl_list (targets (mshrs S' ! m))) = from_cpu (tl_list (targets (mshrs S ! m)))"
    by (metis from_cpu_unmark)
  from unmark_eqD(5) [OF u] show "from_cpu (tl_list (deferredTargets (mshrs S' ! m))) = from_cpu (tl_list (deferredTargets (mshrs S ! m)))"
    by (metis from_cpu_unmark)
  show "cpu_pkts (mshrs S' ! m) = cpu_pkts (mshrs S ! m)" by (rule cpu_pkts_unmark [OF u])
qed

lemma same_regs_eq: "mshrs S' = mshrs S \<Longrightarrow> same_regs X S S'"
  by (simp add: same_regs_def)

lemma same_regs_empty: "same_regs {} S S' \<Longrightarrow> same_regs X S S'"
  by (auto simp: same_regs_def)

lemma same_regs_then_upd: "same_regs {m} S S1 \<Longrightarrow> same_regs {m} S (mshr_upd m f S1)"
  by (rule same_regs_trans [OF _ same_regs_upd])

lemma mshr_upd_same [simp]: "m < length (mshrs S) \<Longrightarrow> mshrs (mshr_upd m f S) ! m = f (mshrs S ! m)"
  by (simp add: mshr_upd_def)

lemma mshr_upd_simps [simp]:
  "length (mshrs (mshr_upd m f S)) = length (mshrs S)" "pkts (mshr_upd m f S) = pkts S"
  "bufs (mshr_upd m f S) = bufs S" "curTick (mshr_upd m f S) = curTick S"
  by (simp_all add: mshr_upd_def)

lemma mshr_at_Inr: "mshr_at S m = Inr h \<longleftrightarrow> m < length (mshrs S) \<and> h = mshrs S ! m"
  by (auto simp: mshr_at_def ent_def)

lemma same_regs_length: "same_regs X S S' \<Longrightarrow> length (mshrs S') = length (mshrs S)"
  by (simp add: same_regs_def)

text \<open>What replacing the upgrades does to a whole list.\<close>

definition replaced_cmd :: "Command \<Rightarrow> Command" where
  "replaced_cmd c = (case c of UpgradeReq \<Rightarrow> ReadExReq | SCUpgradeReq \<Rightarrow> SCUpgradeFailReq
     | StoreCondReq \<Rightarrow> StoreCondFailReq | c \<Rightarrow> c)"

definition pkts_kept :: "'m PktMem_scheme \<Rightarrow> 'm PktMem_scheme \<Rightarrow> bool" where
  "pkts_kept M M' \<longleftrightarrow> length (pkts M) \<le> length (pkts M') \<and> curTick M' = curTick M \<and>
     (\<forall>p < length (pkts M). pk_req (pkts M' ! p) = pk_req (pkts M ! p) \<and>
        pk_cmd (pkts M' ! p) \<in> {pk_cmd (pkts M ! p), replaced_cmd (pk_cmd (pkts M ! p))})"

lemma replaced_cmd_idem [simp]: "replaced_cmd (replaced_cmd c) = replaced_cmd c"
  by (cases c) (simp_all add: replaced_cmd_def)

lemma pkts_kept_refl [simp]: "pkts_kept M M"
  by (simp add: pkts_kept_def)

lemma pkts_kept_trans:
  assumes "pkts_kept M M1" and "pkts_kept M1 M2"
  shows "pkts_kept M M2"
  unfolding pkts_kept_def
proof (intro conjI allI impI)
  fix p assume p: "p < length (pkts M)"
  then have p1: "p < length (pkts M1)" using assms(1) by (auto simp: pkts_kept_def)
  show "pk_req (pkts M2 ! p) = pk_req (pkts M ! p)" using assms p p1 by (simp add: pkts_kept_def)
  show "pk_cmd (pkts M2 ! p) \<in> {pk_cmd (pkts M ! p), replaced_cmd (pk_cmd (pkts M ! p))}"
    using assms p p1 unfolding pkts_kept_def by (metis insert_iff replaced_cmd_idem singletonD)
qed (use assms in \<open>auto simp: pkts_kept_def\<close>)

lemma replaceUpgrade_kept:
  fixes M :: MemSys
  assumes "replaceUpgrade p M = Inr M'"
  shows "mshrs M' = mshrs M" and "pkts_kept M M'" and "p < length (pkts M)"
    and "pk_cmd (pkts M' ! p) = replaced_cmd (pk_cmd (pkts M ! p))" and "length (pkts M') = length (pkts M)"
proof -
  from replaceUpgrade_effect [OF assms] obtain k bs where M': "M' = M\<lparr>pkts := (pkts M)[p := k], bufs := bs\<rparr>"
    and p: "p < length (pkts M)" and k: "pk_req k = pk_req (pkts M ! p)" "pk_cmd k = replaced_cmd (pk_cmd (pkts M ! p))"
    unfolding replaced_cmd_def by blast
  show "mshrs M' = mshrs M" "p < length (pkts M)" "length (pkts M') = length (pkts M)"
    "pk_cmd (pkts M' ! p) = replaced_cmd (pk_cmd (pkts M ! p))"
    using p k by (simp_all add: M')
  show "pkts_kept M M'" using k by (auto simp: pkts_kept_def M' nth_list_update p)
qed

lemma replace_all_kept:
  fixes M :: MemSys
  assumes "replace_all ts M = Inr M'"
  shows "mshrs M' = mshrs M \<and> pkts_kept M M' \<and> length (pkts M') = length (pkts M) \<and>
    (\<forall>t \<in> set ts. t_pkt t < length (pkts M) \<and> pk_cmd (pkts M' ! t_pkt t) = replaced_cmd (pk_cmd (pkts M ! t_pkt t)))"
  using assms
proof (induction ts arbitrary: M)
  case (Cons t ts)
  then obtain M1 where r: "replaceUpgrade (t_pkt t) M = Inr M1" and a: "replace_all ts M1 = Inr M'"
    by (auto simp: rbind_eq_Inr)
  note k = replaceUpgrade_kept [OF r] and ih = Cons.IH [OF a]
  have "pk_cmd (pkts M' ! x) = replaced_cmd (pk_cmd (pkts M ! x))"
    if x: "x < length (pkts M)" and "x = t_pkt t \<or> pk_cmd (pkts M' ! x) = replaced_cmd (pk_cmd (pkts M1 ! x))" for x
    using that k(2,4,5) ih unfolding pkts_kept_def by (metis insert_iff replaced_cmd_idem singletonD)
  then show ?case using k ih by (auto intro: pkts_kept_trans)
qed simp

lemma replaceUpgrades_kept:
  fixes S :: MemSys
  assumes "replaceUpgrades L S = Inr (L', S')"
  shows "tl_list L' = tl_list L" and "mshrs S' = mshrs S" and "pkts_kept S S'" and "length (pkts S') = length (pkts S)"
  using assms replace_all_kept unfolding replaceUpgrades_def
  by (auto simp: rbind_eq_Inr split: if_splits)

text \<open>Replacing one list of register \<open>m\<close>, after flags elsewhere may have changed.\<close>

lemma cpu_pkts_set_targets:
  assumes "m < length (mshrs S)" and "same_regs {} S S1"
  shows "same_regs {m} S (mshr_upd m (\<lambda>h. h\<lparr>targets := L\<rparr>) S1)"
    and "cpu_pkts (mshrs (mshr_upd m (\<lambda>h. h\<lparr>targets := L\<rparr>) S1) ! m) =
      from_cpu (tl_list L) @ from_cpu (tl_list (deferredTargets (mshrs S ! m)))"
  using assms same_regs_cpu(2) [OF assms(2), of m] same_regs_length [OF assms(2)]
  by (auto intro: same_regs_then_upd same_regs_empty simp: cpu_pkts_def)

lemma cpu_pkts_set_deferred:
  assumes "m < length (mshrs S)" and "same_regs {} S S1"
  shows "same_regs {m} S (mshr_upd m (\<lambda>h. h\<lparr>deferredTargets := L\<rparr>) S1)"
    and "cpu_pkts (mshrs (mshr_upd m (\<lambda>h. h\<lparr>deferredTargets := L\<rparr>) S1) ! m) =
      from_cpu (tl_list (targets (mshrs S ! m))) @ from_cpu (tl_list L)"
  using assms same_regs_cpu(1) [OF assms(2), of m] same_regs_length [OF assms(2)]
  by (auto intro: same_regs_then_upd same_regs_empty simp: cpu_pkts_def)

lemma must_defer_False: "must_defer k tgt h = Inr False \<Longrightarrow> tl_list (deferredTargets h) = []"
  by (auto simp: must_defer_def split: if_splits)

lemma allocateTarget_cases:
  assumes "allocateTarget p t ord a m S = Inr S'"
  obtains (deferred) S1 L S2 where "mshrs S1 = mshrs S" and "m < length (mshrs S)"
      "tl_add p t ord FromCPU True a (deferredTargets (mshrs S ! m)) S1 = Inr (L, S2)"
      "S' = mshr_upd m (\<lambda>h. h\<lparr>deferredTargets := L\<rparr>) S2"
      "inService (mshrs S ! m) \<and> postInvalidate (mshrs S ! m) \<longrightarrow> replaceUpgrade p S = Inr S1"
  | (at_once) L S2 k tgt where "m < length (mshrs S)" "pkt_at S p = Inr k"
      "pkt_at S (t_pkt (hd (tl_list (targets (mshrs S ! m))))) = Inr tgt" "must_defer k tgt (mshrs S ! m) = Inr False"
      "tl_add p t ord FromCPU (\<not> inService (mshrs S ! m)) a (targets (mshrs S ! m)) S = Inr (L, S2)"
      "S' = mshr_upd m (\<lambda>h. h\<lparr>targets := L\<rparr>) S2"
proof -
  let ?h = "mshrs S ! m"
  from assms obtain k f tgt d where m: "m < length (mshrs S)" and k: "pkt_at S p = Inr k" "pk_cmd k \<noteq> HardPFReq"
    and f: "tl_front (targets ?h) = Inr f" and tgt: "pkt_at S (t_pkt f) = Inr tgt" and d: "must_defer k tgt ?h = Inr d"
    unfolding allocateTarget_def by (elim rbind_InrE) (auto simp: mshr_at_Inr elim!: rbind_InrE split: if_splits)
  have f': "f = hd (tl_list (targets ?h))" using f by (auto simp: tl_front_def split: list.splits)
  show ?thesis
  proof (cases d)
    case True
    have "rbind (if inService ?h \<and> postInvalidate ?h then replaceUpgrade p S else Inr S) (\<lambda>S1.
        rbind (tl_add p t ord FromCPU True a (deferredTargets ?h) S1) (\<lambda>(L, S2). Inr (mshr_upd m (\<lambda>h. h\<lparr>deferredTargets := L\<rparr>) S2))) = Inr S'"
      using assms m k f tgt d True unfolding allocateTarget_def mshr_at_def ent_def by simp
    then obtain S1 L S2 where s: "(if inService ?h \<and> postInvalidate ?h then replaceUpgrade p S else Inr S) = Inr S1"
      and l: "tl_add p t ord FromCPU True a (deferredTargets ?h) S1 = Inr (L, S2)"
      and S': "S' = mshr_upd m (\<lambda>h. h\<lparr>deferredTargets := L\<rparr>) S2"
      by (elim rbind_InrE) auto
    have "mshrs S1 = mshrs S" using s replaceUpgrade_kept(1) by (auto split: if_splits)
    from deferred [OF this m l S'] s show ?thesis by (auto split: if_splits)
  next
    case False
    have "rbind (tl_add p t ord FromCPU (\<not> inService ?h) a (targets ?h) S) (\<lambda>(L, S2). Inr (mshr_upd m (\<lambda>h. h\<lparr>targets := L\<rparr>) S2)) = Inr S'"
      using assms m k f tgt d False unfolding allocateTarget_def mshr_at_def ent_def by simp
    then obtain L S2 where l: "tl_add p t ord FromCPU (\<not> inService ?h) a (targets ?h) S = Inr (L, S2)"
      and S': "S' = mshr_upd m (\<lambda>h. h\<lparr>targets := L\<rparr>) S2" by (elim rbind_InrE) auto
    show ?thesis by (rule at_once [OF m k(1) _ _ l S']) (use tgt d False f' in simp_all)
  qed
qed

lemma allocateTarget_order:
  assumes "allocateTarget p t ord a m S = Inr S'"
  shows "m < length (mshrs S) \<and> same_regs {m} S S' \<and> cpu_pkts (mshrs S' ! m) = cpu_pkts (mshrs S ! m) @ [p]"
  using assms
proof (cases rule: allocateTarget_cases)
  case (deferred S1 L S2)
  note e = tl_add_effect [OF deferred(3)]
  have r: "same_regs {} S S2" using e(2) deferred(1) by (simp add: same_regs_def)
  show ?thesis
    using cpu_pkts_set_deferred [OF deferred(2) r, of L] e(1) deferred(2,4) by (auto simp: cpu_pkts_def)
next
  case (at_once L S2 k tgt)
  note e = tl_add_effect [OF at_once(5)]
  show ?thesis
    using cpu_pkts_set_targets [OF at_once(1) e(2), of L] e(1) at_once(1,6) must_defer_False [OF at_once(4)]
    by (auto simp: cpu_pkts_def)
qed

lemma Packet_copy_mshrs: "Packet_copy c a (S :: MemSys) k = Inr (k', S') \<Longrightarrow> mshrs S' = mshrs S \<and> pkts S' = pkts S \<and> curTick S' = curTick S"
  by (auto simp: Packet_copy_def Let_def dest!: pkt_allocate_effect(2) split: if_splits)

lemma save_snoop_effect:
  assumes "save_snoop p ord rid m wr S = Inr S'"
  shows "m < length (mshrs S) \<and> same_regs {m} S S' \<and> cpu_pkts (mshrs S' ! m) = cpu_pkts (mshrs S ! m) \<and>
    (cmd_isInvalidate (pk_cmd (pkts S ! p)) \<longrightarrow> postInvalidate (mshrs S' ! m)) \<and>
    inService (mshrs S' ! m) = inService (mshrs S ! m) \<and> pkts_kept S S' \<and> mshr_hasTargets (mshrs S' ! m)"
proof -
  let ?h = "mshrs S ! m"
  from assms have m: "m < length (mshrs S)" and p: "p < length (pkts S)"
    unfolding save_snoop_def by (auto simp: mshr_at_Inr pkt_at_def elim!: rbind_InrE split: if_splits)
  define k where "k = pkts S ! p"
  from assms m p obtain cp S1 k1 L S2 nw where
    c: "(if wr then Packet_copy True True S k else Inr (Packet_blk (Request_copy (pk_req k)) (pk_cmd k) (blkSize ?h) (pk_id k) rid, S)) = Inr (cp, S1)"
    and k1: "(if wr then rbind (setCacheResponding k) setResponderHadWritable
       else if pendingModified ?h \<and> cmd_isClean (pk_cmd k) then setSatisfied k else Inr k) = Inr k1"
    and l: "tl_add (length (pkts S1)) (curTick S1) ord FromSnoop (downstreamPending ?h \<and> tl_needsWritable (targets ?h)) False (targets ?h)
        (pkt_put p k1 (S1\<lparr>pkts := pkts S1 @ [cp]\<rparr>)) = Inr (L, S2)"
    and S': "S' = mshr_upd m (\<lambda>h. h\<lparr>targets := L,
                 postInvalidate := (if nw \<or> cmd_isInvalidate (pk_cmd k1) then True else postInvalidate h)\<rparr>) S2"
    unfolding save_snoop_def by (auto simp: mshr_at_def ent_def pkt_at_def k_def [symmetric] Let_def pkt_put_def elim!: rbind_InrE)
  have S1: "mshrs S1 = mshrs S" "pkts S1 = pkts S" "curTick S1 = curTick S"
    using c Packet_copy_mshrs [of True True S k] by (auto split: if_splits)
  have kk: "pk_cmd k1 = pk_cmd k" "pk_req k1 = pk_req k"
    using k1 by (auto simp: setCacheResponding_def setResponderHadWritable_def setSatisfied_def pk_setf_def rbind_eq_Inr split: if_splits)
  note e = tl_add_effect [OF l]
  have r: "same_regs {} S S2" using e(2) by (simp add: same_regs_def pkt_put_def S1)
  then have m2: "m < length (mshrs S2)" using m same_regs_length by metis
  have u: "unmark (mshrs S2 ! m) = unmark ?h" using r by (simp add: same_regs_def)
  have "pkts S' = (pkts S @ [cp])[p := k1]" by (simp add: S' e(3) pkt_put_def S1)
  then have "pkts_kept S S'"
    using p kk by (auto simp: pkts_kept_def nth_append nth_list_update k_def S' e(5) pkt_put_def S1)
  then show ?thesis
    using m m2 e(1) same_regs_then_upd [OF same_regs_empty [OF r], of m] kk same_regs_cpu(2) [OF r, of m] unmark_eqD(1) [OF u]
    by (auto simp: S' cpu_pkts_def k_def mshr_hasTargets_def)
qed

text \<open>What a snoop leaves of the register: its processor requests in order, and its place in the queue.\<close>

definition reg_kept :: "nat \<Rightarrow> MemSys \<Rightarrow> MemSys \<Rightarrow> bool" where
  "reg_kept m S S' \<longleftrightarrow> m < length (mshrs S) \<and> same_regs {m} S S' \<and> cpu_pkts (mshrs S' ! m) = cpu_pkts (mshrs S ! m) \<and>
     inService (mshrs S' ! m) = inService (mshrs S ! m) \<and> pkts_kept S S' \<and>
     (mshr_hasTargets (mshrs S ! m) \<longrightarrow> mshr_hasTargets (mshrs S' ! m)) \<and>
     (postInvalidate (mshrs S ! m) \<longrightarrow> postInvalidate (mshrs S' ! m))"

lemma reg_kept_refl: "m < length (mshrs S) \<Longrightarrow> reg_kept m S S"
  by (simp add: reg_kept_def)

lemma reg_kept_trans: "reg_kept m S S1 \<Longrightarrow> reg_kept m S1 S2 \<Longrightarrow> reg_kept m S S2"
  unfolding reg_kept_def by (metis pkts_kept_trans same_regs_trans)

lemma reg_kept_upd:
  assumes "m < length (mshrs S)" and "mshrs S1 = mshrs S" and "pkts_kept S S1"
    and "tl_list (targets (f (mshrs S ! m))) = tl_list (targets (mshrs S ! m))"
    and "tl_list (deferredTargets (f (mshrs S ! m))) = tl_list (deferredTargets (mshrs S ! m))"
    and "inService (f (mshrs S ! m)) = inService (mshrs S ! m)"
    and "postInvalidate (mshrs S ! m) \<longrightarrow> postInvalidate (f (mshrs S ! m))"
  shows "reg_kept m S (mshr_upd m f S1)"
proof -
  have "same_regs {m} S (mshr_upd m f S1)" by (rule same_regs_then_upd) (simp add: assms(2) same_regs_eq)
  moreover have "pkts_kept S (mshr_upd m f S1)" using assms(3) by (simp add: pkts_kept_def)
  ultimately show ?thesis using assms by (simp add: reg_kept_def cpu_pkts_def mshr_hasTargets_def)
qed

lemma snoop_before_kept:
  assumes "snoop_before invd m S = Inr (b, S')"
  shows "reg_kept m S S'"
proof -
  let ?h = "mshrs S ! m"
  from assms have m: "m < length (mshrs S)" unfolding snoop_before_def by (auto simp: mshr_at_Inr elim!: rbind_InrE)
  show ?thesis
  proof (cases invd)
    case True
    with assms m obtain L S1 D S2 where r1: "replaceUpgrades (targets ?h) S = Inr (L, S1)"
      and r2: "replaceUpgrades (deferredTargets ?h) (mshr_upd m (\<lambda>h. h\<lparr>targets := L\<rparr>) S1) = Inr (D, S2)"
      and S': "S' = mshr_upd m (\<lambda>h. h\<lparr>deferredTargets := D\<rparr>) S2"
      unfolding snoop_before_def mshr_at_def ent_def by (auto elim!: rbind_InrE)
    note k1 = replaceUpgrades_kept [OF r1] and k2 = replaceUpgrades_kept [OF r2]
    define S1' where "S1' = mshr_upd m (\<lambda>h. h\<lparr>targets := L\<rparr>) S1"
    have a: "reg_kept m S S1'" unfolding S1'_def by (rule reg_kept_upd) (use m k1 in auto)
    have "reg_kept m S1' S'" unfolding S'
      by (rule reg_kept_upd) (use m k1 k2 in \<open>simp_all add: S1'_def\<close>)
    with a show ?thesis by (rule reg_kept_trans)
  qed (use assms m in \<open>auto simp: snoop_before_def mshr_at_def ent_def intro: reg_kept_refl\<close>)
qed

lemma snoop_replay_kept:
  assumes "snoop_replay p ord rid m S = Inr (b, S')"
  shows "reg_kept m S S'" and "cmd_isInvalidate (pk_cmd (pkts S ! p)) \<Longrightarrow>
    postInvalidate (mshrs S' ! m) \<or> (S' = S \<and> (\<exists>tgt. pkt_at S (t_pkt (hd (tl_list (targets (mshrs S ! m))))) = Inr tgt \<and>
      rq_isCacheInvalidate (pk_req tgt)))"
proof -
  let ?h = "mshrs S ! m"
  from assms obtain f tgt pinv where m: "m < length (mshrs S)" and f: "tl_front (targets ?h) = Inr f"
    and tgt: "pkt_at S (t_pkt f) = Inr tgt" and pinv: "hasPostInvalidate ?h = Inr pinv"
    unfolding snoop_replay_def by (auto simp: mshr_at_Inr elim!: rbind_InrE)
  have f': "f = hd (tl_list (targets ?h))" using f by (auto simp: tl_front_def split: list.splits)
  have pi: "pinv = postInvalidate ?h" using pinv by (simp add: hasPostInvalidate_def split: if_splits)
  have "reg_kept m S S' \<and> (cmd_isInvalidate (pk_cmd (pkts S ! p)) \<longrightarrow>
    postInvalidate (mshrs S' ! m) \<or> (S' = S \<and> rq_isCacheInvalidate (pk_req tgt)))"
  proof (cases "pinv \<or> rq_isCacheInvalidate (pk_req tgt)")
    case True
    with assms m f tgt pinv have "S' = S" unfolding snoop_replay_def mshr_at_def ent_def by simp
    with m True pi show ?thesis by (auto intro: reg_kept_refl)
  next
    case False
    define k where "k = pkts S ! p"
    define wr where "wr = (pendingModified ?h \<and> cmd_needsResponse (pk_cmd k) \<and> \<not> cmd_isClean (pk_cmd k))"
    from assms m f tgt pinv False obtain S2 where
      s: "(if pendingModified ?h \<or> cmd_isInvalidate (pk_cmd k) then save_snoop p ord rid m wr S else Inr S) = Inr S2"
      and S': "S' = S2 \<or> S' = mshr_upd m (\<lambda>h. h\<lparr>postDowngrade := True\<rparr>) (pkt_put p (setHasSharers (pkts S2 ! p)) S2)"
      unfolding snoop_replay_def mshr_at_def ent_def
      by (auto simp: Let_def pkt_at_def isPendingModified_def k_def [symmetric] wr_def [symmetric] elim!: rbind_InrE split: if_splits)
    have a: "reg_kept m S S2 \<and> (cmd_isInvalidate (pk_cmd k) \<longrightarrow> postInvalidate (mshrs S2 ! m))"
      using s save_snoop_effect [of p ord rid m wr S S2] m False pi
      by (auto simp: k_def reg_kept_def split: if_splits)
    have "pkts_kept S2 (pkt_put p (setHasSharers (pkts S2 ! p)) S2)"
    proof -
      have "pk_req ((pkts S2)[p := setHasSharers (pkts S2 ! p)] ! x) = pk_req (pkts S2 ! x) \<and>
          pk_cmd ((pkts S2)[p := setHasSharers (pkts S2 ! p)] ! x) = pk_cmd (pkts S2 ! x)" if "x < length (pkts S2)" for x
        using that by (cases "x = p") (auto simp: setHasSharers_def pk_setf_def)
      then show ?thesis by (simp add: pkts_kept_def pkt_put_def)
    qed
    then have "reg_kept m S2 (mshr_upd m (\<lambda>h. h\<lparr>postDowngrade := True\<rparr>) (pkt_put p (setHasSharers (pkts S2 ! p)) S2))"
      by (intro reg_kept_upd) (use a m in \<open>auto simp: pkt_put_def reg_kept_def same_regs_def\<close>)
    moreover from this have "postInvalidate (mshrs S2 ! m) \<longrightarrow> postInvalidate (mshrs S' ! m)" using S' by (auto simp: reg_kept_def)
    ultimately show ?thesis using a S' unfolding k_def by (auto intro: reg_kept_trans)
  qed
  then show "reg_kept m S S'" and "cmd_isInvalidate (pk_cmd (pkts S ! p)) \<Longrightarrow>
    postInvalidate (mshrs S' ! m) \<or> (S' = S \<and> (\<exists>tgt. pkt_at S (t_pkt (hd (tl_list (targets ?h)))) = Inr tgt \<and>
      rq_isCacheInvalidate (pk_req tgt)))"
    using tgt f' by blast+
qed

lemma replaced_isInvalidate [simp]: "cmd_isInvalidate (replaced_cmd c) = cmd_isInvalidate c"
  by (cases c) (simp_all add: replaced_cmd_def cmd_table)

lemma pkts_kept_invalidate:
  "pkts_kept S S' \<Longrightarrow> p < length (pkts S) \<Longrightarrow> cmd_isInvalidate (pk_cmd (pkts S' ! p)) = cmd_isInvalidate (pk_cmd (pkts S ! p))"
  unfolding pkts_kept_def by (metis insert_iff replaced_isInvalidate singletonD)

definition front_invalidates :: "nat \<Rightarrow> MemSys \<Rightarrow> bool" where
  "front_invalidates m S \<longleftrightarrow> (\<exists>tgt. pkt_at S (t_pkt (hd (tl_list (targets (mshrs S ! m))))) = Inr tgt \<and>
     rq_isCacheInvalidate (pk_req tgt))"

lemma snoop_after_kept:
  assumes "snoop_after invd p ord rid m S = Inr (b, S')"
  shows "reg_kept m S S'" and "p < length (pkts S) \<Longrightarrow> cmd_isInvalidate (pk_cmd (pkts S ! p)) \<Longrightarrow>
    postInvalidate (mshrs S' ! m) \<or> front_invalidates m S'"
proof -
  let ?h = "mshrs S ! m"
  from assms obtain S1 where m: "m < length (mshrs S)"
    and s: "(if invd then rbind (replaceUpgrades (deferredTargets ?h) S) (\<lambda>(D, S). Inr (mshr_upd m (\<lambda>h. h\<lparr>deferredTargets := D\<rparr>) S))
              else Inr S) = Inr S1" and r: "snoop_replay p ord rid m S1 = Inr (b, S')"
    unfolding snoop_after_def by (auto simp: mshr_at_Inr elim!: rbind_InrE)
  have k: "reg_kept m S S1"
  proof (cases invd)
    case True
    with s obtain D S0 where d: "replaceUpgrades (deferredTargets ?h) S = Inr (D, S0)"
      and S1: "S1 = mshr_upd m (\<lambda>h. h\<lparr>deferredTargets := D\<rparr>) S0" by (auto elim!: rbind_InrE)
    show ?thesis unfolding S1 by (rule reg_kept_upd) (use m replaceUpgrades_kept [OF d] in auto)
  qed (use s m in \<open>auto intro: reg_kept_refl\<close>)
  note rk = snoop_replay_kept [OF r]
  show "reg_kept m S S'" using k rk(1) by (rule reg_kept_trans)
  show "postInvalidate (mshrs S' ! m) \<or> front_invalidates m S'"
    if p: "p < length (pkts S)" and i: "cmd_isInvalidate (pk_cmd (pkts S ! p))"
    using rk(2) pkts_kept_invalidate [OF _ p, of S1] k i by (auto simp: reg_kept_def front_invalidates_def)
qed

lemma handleSnoop_kept:
  assumes "handleSnoop p ord rid m S = Inr (b, S')"
  shows "reg_kept m S S'"
    and "inService (mshrs S ! m) \<Longrightarrow> \<not> (pk_is EXPRESS_SNOOP (pkts S ! p) \<and> downstreamPending (mshrs S ! m)) \<Longrightarrow>
      cmd_isInvalidate (pk_cmd (pkts S ! p)) \<Longrightarrow> postInvalidate (mshrs S' ! m) \<or> front_invalidates m S'"
proof -
  define k where "k = pkts S ! p"
  from assms obtain nw where m: "m < length (mshrs S)" and p: "p < length (pkts S)" and nw: "needsWritable k = Inr nw"
    unfolding handleSnoop_def by (auto simp: mshr_at_Inr pkt_at_def k_def elim!: rbind_InrE split: if_splits)
  define i where "i = (nw \<or> rq_isCacheInvalidate (pk_req k))"
  have s: "(if \<not> inService (mshrs S ! m) \<or> pk_is EXPRESS_SNOOP k \<and> downstreamPending (mshrs S ! m)
      then snoop_before i m S else snoop_after i p ord rid m S) = Inr (b, S')"
    using assms m p nw unfolding handleSnoop_def mshr_at_def ent_def pkt_at_def k_def [symmetric] i_def
    by (auto simp: Let_def split: if_splits)
  then show "reg_kept m S S'" using snoop_before_kept snoop_after_kept(1) by (auto split: if_splits)
  show "inService (mshrs S ! m) \<Longrightarrow> \<not> (pk_is EXPRESS_SNOOP (pkts S ! p) \<and> downstreamPending (mshrs S ! m)) \<Longrightarrow>
      cmd_isInvalidate (pk_cmd (pkts S ! p)) \<Longrightarrow> postInvalidate (mshrs S' ! m) \<or> front_invalidates m S'"
    using s snoop_after_kept(2) [of i p ord rid m S b S'] p by (auto simp: k_def)
qed

text \<open>Clearing the flags of the registers above, then replacing the lists of \<open>m\<close>.\<close>

lemma cleared_same: "cleared S S' \<Longrightarrow> same_regs {} S S'"
  by (simp add: cleared_def)

definition moved :: "(bool \<Rightarrow> bool) \<Rightarrow> nat \<Rightarrow> MemSys \<Rightarrow> MemSys \<Rightarrow> bool" where
  "moved g m S S' \<longleftrightarrow> m < length (mshrs S) \<and> same_regs {m} S S' \<and> cpu_pkts (mshrs S' ! m) = cpu_pkts (mshrs S ! m) \<and>
     inService (mshrs S' ! m) = g (inService (mshrs S ! m))"

lemma moved_refl: "m < length (mshrs S) \<Longrightarrow> moved id m S S"
  by (simp add: moved_def)

lemma moved_trans: "moved g m S S1 \<Longrightarrow> moved id m S1 S2 \<Longrightarrow> moved g m S S2"
  unfolding moved_def by (metis same_regs_trans id_apply)

lemma moved_upd:
  assumes "m < length (mshrs S)" and "same_regs {} S S1" and "cpu_pkts (f (mshrs S1 ! m)) = cpu_pkts (mshrs S1 ! m)"
    and "inService (f (mshrs S1 ! m)) = g (inService (mshrs S1 ! m))"
  shows "moved g m S (mshr_upd m f S1)"
proof -
  have "unmark (mshrs S1 ! m) = unmark (mshrs S ! m)" using assms(2) by (simp add: same_regs_def)
  from unmark_eqD(1) [OF this] show ?thesis
    using assms same_regs_cpu(3) [OF assms(2), of m] same_regs_length [OF assms(2)]
    by (auto simp: moved_def intro: same_regs_then_upd same_regs_empty)
qed

lemma span_res_append: "span_res P xs = Inr (ys, zs) \<Longrightarrow> xs = ys @ zs"
  by (induction xs arbitrary: ys zs) (auto simp: rbind_eq_Inr split: if_splits)

lemma markInService_moved: "ends (mshr_markInService m pm S) (moved (\<lambda>_. True) m S)"
proof -
  have "moved (\<lambda>_. True) m S (mshr_upd m (\<lambda>h. h\<lparr>wasWholeLineWrite := tl_isWholeLineWrite (targets h)\<rparr>) S2)"
    if m: "m < length (mshrs S)" and c: "cleared S1 S2"
      and S1: "S1 = mshr_upd m (\<lambda>h. h\<lparr>inService := True, pendingModified := tl_needsWritable (targets h) \<or> pm,
        postInvalidate := False, postDowngrade := False\<rparr>) S"
    for S1 S2
  proof (rule moved_trans)
    show "moved (\<lambda>_. True) m S S1" unfolding S1 by (rule moved_upd) (use m in \<open>auto simp: cpu_pkts_def\<close>)
    show "moved id m S1 (mshr_upd m (\<lambda>h. h\<lparr>wasWholeLineWrite := tl_isWholeLineWrite (targets h)\<rparr>) S2)"
      by (rule moved_upd [OF _ cleared_same [OF c]]) (use m in \<open>auto simp: cpu_pkts_def S1\<close>)
  qed
  then show ?thesis
    unfolding mshr_markInService_def Let_def
    by (intro ends_bind_res ends_if ends_fail) (auto simp: mshr_at_Inr intro!: ends_bind [OF clear_list_ends])
qed

lemma promoteIf_moved: "ends (promoteIf pred m S) (moved id m S)"
  unfolding promoteIf_def Let_def
proof (intro ends_bind_res ends_if ends_fail)
  fix h x assume h: "mshr_at S m = Inr h" and x: "span_res pred (tl_list (deferredTargets h)) = Inr x"
  obtain pre post where x': "x = (pre, post)" by fastforce
  have "moved id m S (mshr_upd m (\<lambda>h. h\<lparr>targets := (targets h)\<lparr>tl_list := tl_list (targets h) @ take n (tl_list (deferredTargets h1))\<rparr>,
      deferredTargets := D\<rparr>) S1)"
    if c: "cleared S S1" and h1: "mshr_at S1 m = Inr h1"
      and D: "populateFlags S1 ((deferredTargets h1)\<lparr>tl_list := drop n (tl_list (deferredTargets h1))\<rparr>) = Inr D" for S1 h1 D n
  proof (rule moved_upd [OF _ cleared_same [OF c]])
    show "m < length (mshrs S)" using h by (simp add: mshr_at_Inr)
    have "from_cpu (take n (tl_list (deferredTargets h1))) @ from_cpu (tl_list D) = from_cpu (tl_list (deferredTargets h1))"
      using populateFlags_list [OF D] by (simp flip: map_append filter_append)
    then show "cpu_pkts ((mshrs S1 ! m)\<lparr>targets := (targets (mshrs S1 ! m))\<lparr>tl_list := tl_list (targets (mshrs S1 ! m)) @
        take n (tl_list (deferredTargets h1))\<rparr>, deferredTargets := D\<rparr>) = cpu_pkts (mshrs S1 ! m)"
      using h1 by (simp add: cpu_pkts_def mshr_at_Inr)
  qed simp
  then show "ends (case x of (pre, post) \<Rightarrow>
      obind (clear_targets clearDownstreamPending True m 0 (length pre) S) (\<lambda>S.
        obind (Some (mshr_at S m)) (\<lambda>h.
          obind (Some (populateFlags S ((deferredTargets h)\<lparr>tl_list := drop (length pre) (tl_list (deferredTargets h))\<rparr>))) (\<lambda>D.
            ret (mshr_upd m (\<lambda>ha. ha\<lparr>targets := (targets ha)\<lparr>tl_list := tl_list (targets ha) @ take (length pre) (tl_list (deferredTargets h))\<rparr>,
              deferredTargets := D\<rparr>) S))))) (moved id m S)"
    unfolding x' by (auto intro!: ends_bind [OF clear_list_ends] ends_bind_res)
qed

lemma promoteReadable_moved: "ends (promoteReadable m S) (moved id m S)"
  unfolding promoteReadable_def
  by (intro ends_bind_res ends_if promoteIf_moved) (auto simp: mshr_at_Inr intro: moved_refl)

lemma promoteWritable_moved: "ends (promoteWritable m S) (moved id m S)"
proof -
  have "ends (promoteIf P m (mshr_upd m (\<lambda>h. h\<lparr>targets := (targets h)\<lparr>tl_needsWritable := True\<rparr>\<rparr>) S)) (moved id m S)"
    if "m < length (mshrs S)" for P
  proof (rule ends_mono [OF promoteIf_moved])
    have "moved id m S (mshr_upd m (\<lambda>h. h\<lparr>targets := (targets h)\<lparr>tl_needsWritable := True\<rparr>\<rparr>) S)"
      by (rule moved_upd) (use that in \<open>auto simp: cpu_pkts_def\<close>)
    then show "moved id m (mshr_upd m (\<lambda>h. h\<lparr>targets := (targets h)\<lparr>tl_needsWritable := True\<rparr>\<rparr>) S) S' \<Longrightarrow> moved id m S S'" for S'
      by (rule moved_trans)
  qed
  then show ?thesis
    unfolding promoteWritable_def
    by (intro ends_bind_res ends_if ends_fail) (auto simp: mshr_at_Inr intro: moved_refl)
qed

lemma promoteDeferredTargets_moved:
  assumes "promoteDeferredTargets m S = Inr (b, S')"
  shows "moved id m S S'"
proof -
  let ?h = "mshrs S ! m"
  let ?ts = "tl_list (targets ?h)" and ?ds = "tl_list (deferredTargets ?h)"
  from assms have m: "m < length (mshrs S)" unfolding promoteDeferredTargets_def by (auto simp: mshr_at_Inr elim!: rbind_InrE)
  show ?thesis
  proof (cases "?ts = [] \<and> ?ds = []")
    case True
    with assms m show ?thesis by (simp add: promoteDeferredTargets_def mshr_at_def ent_def Let_def moved_refl)
  next
    case False
    have "moved id m S (mshr_upd m (\<lambda>h. h\<lparr>targets := L, deferredTargets := D, qe_order := x, readyTime := y\<rparr>) S)"
      if s: "?ds = pre @ post"
        and D: "populateFlags S ((deferredTargets ?h)\<lparr>tl_list := snd (promote_lists ?ts pre post)\<rparr>) = Inr D"
        and L: "populateFlags S ((targets ?h)\<lparr>tl_list := fst (promote_lists ?ts pre post)\<rparr>) = Inr L" for pre post D L x y
    proof (rule moved_upd [OF m same_regs_refl])
      have "fst (promote_lists ?ts pre post) @ snd (promote_lists ?ts pre post) = ?ts @ ?ds"
        using s by (simp add: promote_lists_def)
      then have "from_cpu (tl_list L @ tl_list D) = from_cpu (?ts @ ?ds)"
        using populateFlags_list [OF D] populateFlags_list [OF L] by simp
      then show "cpu_pkts (?h\<lparr>targets := L, deferredTargets := D, qe_order := x, readyTime := y\<rparr>) = cpu_pkts ?h"
        by (simp add: cpu_pkts_def)
    qed simp
    with assms m False show ?thesis
      unfolding promoteDeferredTargets_def mshr_at_def ent_def Let_def
      by (auto elim!: rbind_InrE dest!: span_res_append)
  qed
qed

lemma split_snoops_cpu: "split_snoops ts = Inr (sn, rest) \<Longrightarrow> from_cpu sn = [] \<and> from_cpu rest = from_cpu ts"
  by (induction ts arbitrary: sn rest) (auto simp: rbind_eq_Inr split: if_splits)

lemma pick_serviceable_cpu:
  assumes "pick_serviceable k h M = Inr (R, L)"
  shows "from_cpu (tl_list R) @ from_cpu (tl_list L) = from_cpu (tl_list (targets h))"
  using assms
  by (auto simp: pick_serviceable_def Let_def tl_init_def resetFlags_def TargetList_new_def elim!: rbind_InrE
      dest!: split_snoops_cpu populateFlags_list split: if_splits list.splits)

lemma extract_order:
  assumes "extractServiceableTargets p m S = Inr (R, S')"
  shows "m < length (mshrs S)" and "same_regs {m} S S'" and "inService (mshrs S' ! m) = inService (mshrs S ! m)"
    and "from_cpu (tl_list R) @ cpu_pkts (mshrs S' ! m) = cpu_pkts (mshrs S ! m)"
proof -
  from assms obtain L0 L k where m: "m < length (mshrs S)" and c: "pick_serviceable k (mshrs S ! m) S = Inr (R, L0)"
    and L: "populateFlags S L0 = Inr L" and S': "S' = mshr_upd m (\<lambda>h. h\<lparr>targets := L\<rparr>) S"
    unfolding extractServiceableTargets_def by (auto simp: mshr_at_Inr elim!: rbind_InrE)
  show "m < length (mshrs S)" "same_regs {m} S S'" "inService (mshrs S' ! m) = inService (mshrs S ! m)"
    using m by (simp_all add: S' same_regs_upd)
  show "from_cpu (tl_list R) @ cpu_pkts (mshrs S' ! m) = cpu_pkts (mshrs S ! m)"
    using m populateFlags_list [OF L] pick_serviceable_cpu [OF c] by (simp add: S' cpu_pkts_def)
qed

lemma mshr_allocate_order:
  assumes "mshr_allocate ba bs p t ord a m S = Inr S'" and "getNumTargets (mshrs S ! m) = 0"
  shows "m < length (mshrs S)" and "same_regs {m} S S'" and "\<not> inService (mshrs S' ! m)"
    and "cpu_pkts (mshrs S' ! m) = [p]" and "readyTime (mshrs S' ! m) = t" and "mshr_hasTargets (mshrs S' ! m)"
proof -
  from assms(1) obtain s u L S2 src where m: "m < length (mshrs S)" and src: "src \<noteq> FromSnoop"
    and l: "tl_add p t ord src True a (targets (mshr_reset ba bs s t ord u (mshrs S ! m))) (mshr_upd m (mshr_reset ba bs s t ord u) S) = Inr (L, S2)"
    and S': "S' = mshr_upd m (\<lambda>h. h\<lparr>targets := L\<rparr>) S2"
  proof -
    from assms(1) obtain k s where m: "m < length (mshrs S)" and k: "pkt_at S p = Inr k" "pkt_isSecure k = Inr s"
      unfolding mshr_allocate_def by (auto simp: mshr_at_Inr elim!: rbind_InrE)
    define src where "src = (if pk_cmd k = HardPFReq then FromPrefetcher else FromCPU)"
    define f where "f = mshr_reset ba bs s t ord (rq_isUncacheable (pk_req k))"
    have "rbind (tl_add p t ord src True a (targets (f (mshrs S ! m))) (mshr_upd m f S)) (\<lambda>(L, S).
            let S = mshr_upd m (\<lambda>h. h\<lparr>targets := L\<rparr>) S in
            rbind (tl_front L) (\<lambda>t. rbind (pkt_at S (t_pkt t)) (\<lambda>f. rbind (matchBlockAddr_pkt f bs k) (\<lambda>b.
              if b then Inr S else Inl AssertFailed)))) = Inr S'"
      using assms(1) m k unfolding mshr_allocate_def by (simp add: mshr_at_def ent_def f_def src_def Let_def)
    then obtain L S2 where l: "tl_add p t ord src True a (targets (f (mshrs S ! m))) (mshr_upd m f S) = Inr (L, S2)"
      and S': "S' = mshr_upd m (\<lambda>h. h\<lparr>targets := L\<rparr>) S2"
      by (elim rbind_InrE) (auto simp: Let_def elim!: rbind_InrE split: if_splits)
    show ?thesis by (rule that [OF m _ l [unfolded f_def] S']) (simp add: src_def)
  qed
  define f where "f = mshr_reset ba bs s t ord u"
  define S1 where "S1 = mshr_upd m f S"
  have f: "tl_list (targets (f (mshrs S ! m))) = []" "tl_list (deferredTargets (f (mshrs S ! m))) = []"
      "\<not> inService (f (mshrs S ! m))" "readyTime (f (mshrs S ! m)) = t"
    using assms(2) by (auto simp: f_def mshr_reset_def getNumTargets_def tl_init_def resetFlags_def)
  note l = l [folded f_def, folded S1_def]
  note S1 = S1_def
  note e = tl_add_effect [OF l]
  have r: "same_regs {} S1 S2" by (rule e(2))
  have m2: "m < length (mshrs S2)" "m < length (mshrs S1)" using m same_regs_length [OF r] by (auto simp: S1)
  have u: "unmark (mshrs S2 ! m) = unmark (mshrs S1 ! m)" using r by (simp add: same_regs_def)
  show "m < length (mshrs S)" by (rule m)
  show "same_regs {m} S S'" unfolding S' by (rule same_regs_then_upd [OF same_regs_trans [OF _ same_regs_empty [OF r]]])
      (simp add: S1 same_regs_upd)
  show "\<not> inService (mshrs S' ! m)" "readyTime (mshrs S' ! m) = t"
    using unmark_eqD(1,2) [OF u] f(3,4) m m2 by (simp_all add: S' S1)
  show "cpu_pkts (mshrs S' ! m) = [p]" "mshr_hasTargets (mshrs S' ! m)"
    using e(1) unmark_eqD(5) [OF u] f(1,2) m m2 src by (auto simp: S' S1 cpu_pkts_def mshr_hasTargets_def)
qed

end
