(* ===== verification/MSHRFlags.thy ===== *)
theory MSHRFlags
  imports MSHRProps
begin

text \<open>
  The write bitmap of a target list: when plain writes only wait for a block, the list is recognised as a
  write of the whole line exactly when the writes cover every byte. The remaining lemmas record where
  the flags of a list are not what its comments say.
\<close>

subsection \<open>Plain writes\<close>

definition write_span :: "Addr \<Rightarrow> Packet_t \<Rightarrow> nat \<Rightarrow> bool" where
  "write_span blk_size k i \<longleftrightarrow>
     (let off = unat (pk_addr k AND ucast (ucast blk_size - 1 :: u32)) in off \<le> i \<and> i < off + unat (pk_size k))"

text \<open>A request of the processor that writes inside its block and has none of the flags that forbid merging.\<close>

definition plain_write :: "Addr \<Rightarrow> Packet_t \<Rightarrow> bool" where
  "plain_write blk_size k \<longleftrightarrow> cmd_isRequest (pk_cmd k) \<and> cmd_isWrite (pk_cmd k) \<and> pk_is VALID_ADDR k \<and> pk_is VALID_SIZE k \<and>
     fl_isSet (rq_privateFlags (pk_req k)) (R_VALID_PADDR OR R_VALID_VADDR) \<and> \<not> fl_isSet (rq_flags (pk_req k)) no_merge_flags \<and>
     unat (pk_addr k AND ucast (ucast blk_size - 1 :: u32)) + unat (pk_size k) \<le> unat blk_size"

definition plain_target :: "'m PktMem_scheme \<Rightarrow> Addr \<Rightarrow> Target \<Rightarrow> bool" where
  "plain_target M blk_size t \<longleftrightarrow> t_source t = FromCPU \<and> t_pkt t < length (pkts M) \<and> plain_write blk_size (pkts M ! t_pkt t)"

lemma bitmap_fill_eq:
  assumes "off + n \<le> length bm"
  shows "\<exists>bm'. bitmap_fill off n bm = Inr bm' \<and> length bm' = length bm \<and>
    (\<forall>i < length bm. bm' ! i = (bm ! i \<or> off \<le> i \<and> i < off + n))"
proof -
  have "min (length bm) off = off" using assms by simp
  with assms show ?thesis by (auto simp: bitmap_fill_def nth_append)
qed

text \<open>One plain write sets exactly the bits of the bytes it writes.\<close>

lemma updateFlags_plain:
  assumes k: "plain_write (tl_blkSize L) k" and L: "length (tl_writesBitmap L) = unat (tl_blkSize L)" "tl_canMergeWrites L"
  shows "\<exists>L'. updateFlags k FromCPU a L = Inr L' \<and> tl_blkSize L' = tl_blkSize L \<and> tl_canMergeWrites L' \<and>
    length (tl_writesBitmap L') = length (tl_writesBitmap L) \<and>
    (\<forall>i < length (tl_writesBitmap L). tl_writesBitmap L' ! i = (tl_writesBitmap L ! i \<or> write_span (tl_blkSize L) k i))"
proof -
  define L1 where "L1 = L\<lparr>tl_needsWritable := (if cmd_needsWritable (pk_cmd k) then True else tl_needsWritable L),
    tl_hasUpgrade := (if cmd_isUpgrade (pk_cmd k) \<or> pk_cmd k = StoreCondReq then True else tl_hasUpgrade L),
    tl_allocOnFill := tl_allocOnFill L \<or> a, tl_hasFromCache := tl_hasFromCache L \<or> cmd_fromCache (pk_cmd k)\<rparr>"
  have u: "updateFlags k FromCPU a L = updateWriteFlags k L1"
    using k by (simp add: updateFlags_def needsWritable_def plain_write_def Let_def L1_def)
  have L1: "tl_writesBitmap L1 = tl_writesBitmap L" "tl_blkSize L1 = tl_blkSize L" "tl_canMergeWrites L1" "tl_list L1 = tl_list L"
    using L(2) by (simp_all add: L1_def)
  show ?thesis
  proof (cases "tl_isWholeLineWrite L1")
    case True
    then have "\<forall>i < length (tl_writesBitmap L). tl_writesBitmap L ! i" by (simp add: tl_isWholeLineWrite_def L1 list_all_length)
    then show ?thesis using True by (simp add: u updateWriteFlags_def L1)
  next
    case False
    define off where "off = unat (pk_addr k AND ucast (ucast (tl_blkSize L) - 1 :: u32))"
    have "off + unat (pk_size k) \<le> length (tl_writesBitmap L)" using k L(1) by (simp add: plain_write_def off_def)
    from bitmap_fill_eq [OF this] obtain bm where b: "bitmap_fill off (unat (pk_size k)) (tl_writesBitmap L) = Inr bm"
      "length bm = length (tl_writesBitmap L)"
      "\<forall>i < length (tl_writesBitmap L). bm ! i = (tl_writesBitmap L ! i \<or> off \<le> i \<and> i < off + unat (pk_size k))" by blast
    have "updateWriteFlags k L1 = Inr (L1\<lparr>tl_writesBitmap := bm, tl_canMergeWrites := True\<rparr>)"
      using False k b(1) L1
      by (simp add: updateWriteFlags_def plain_write_def rq_getFlags_def getOffset_def getAddr_def getSize_def off_def [symmetric])
    then show ?thesis using b(2,3) L1 by (simp add: u write_span_def off_def Let_def)
  qed
qed

lemma update_flags_all_plain:
  assumes "\<forall>t \<in> set ts. plain_target M (tl_blkSize L) t"
    and "length (tl_writesBitmap L) = unat (tl_blkSize L)" and "tl_canMergeWrites L"
  shows "\<exists>L'. update_flags_all M ts L = Inr L' \<and> length (tl_writesBitmap L') = length (tl_writesBitmap L) \<and>
    (\<forall>i < length (tl_writesBitmap L). tl_writesBitmap L' ! i =
       (tl_writesBitmap L ! i \<or> (\<exists>t \<in> set ts. write_span (tl_blkSize L) (pkts M ! t_pkt t) i)))"
  using assms
proof (induction ts arbitrary: L)
  case (Cons t ts)
  have t: "t_source t = FromCPU" "t_pkt t < length (pkts M)" "plain_write (tl_blkSize L) (pkts M ! t_pkt t)"
    using Cons.prems(1) by (auto simp: plain_target_def)
  from updateFlags_plain [OF t(3) Cons.prems(2,3), of "t_allocOnFill t"] obtain L1 where
    u: "updateFlags (pkts M ! t_pkt t) FromCPU (t_allocOnFill t) L = Inr L1" "tl_blkSize L1 = tl_blkSize L" "tl_canMergeWrites L1"
      "length (tl_writesBitmap L1) = length (tl_writesBitmap L)"
      "\<forall>i < length (tl_writesBitmap L). tl_writesBitmap L1 ! i = (tl_writesBitmap L ! i \<or> write_span (tl_blkSize L) (pkts M ! t_pkt t) i)"
    by blast
  from Cons.IH [of L1] obtain L' where "update_flags_all M ts L1 = Inr L'" "length (tl_writesBitmap L') = length (tl_writesBitmap L1)"
    "\<forall>i < length (tl_writesBitmap L1). tl_writesBitmap L' ! i =
       (tl_writesBitmap L1 ! i \<or> (\<exists>t \<in> set ts. write_span (tl_blkSize L1) (pkts M ! t_pkt t) i))"
    using Cons.prems u by auto
  then show ?case using t u by (auto simp: pkt_at_def)
qed simp

text \<open>
  C18 When the targets of a list are all plain writes of the processor inside the block, recomputing the
  flags succeeds, and the list then counts as a write of the whole line, for which no data are
  fetched, exactly when every byte of the block is written by one of the targets.
\<close>

theorem whole_line_exact:
  assumes "\<forall>t \<in> set (tl_list L). plain_target M (tl_blkSize L) t" and "length (tl_writesBitmap L) = unat (tl_blkSize L)"
  shows "succeeds (populateFlags M L) (\<lambda>L'. tl_isWholeLineWrite L' \<longleftrightarrow>
    (\<forall>i < unat (tl_blkSize L). \<exists>t \<in> set (tl_list L). write_span (tl_blkSize L) (pkts M ! t_pkt t) i))"
proof -
  have "\<exists>L'. update_flags_all M (tl_list L) (resetFlags L) = Inr L' \<and>
      length (tl_writesBitmap L') = length (tl_writesBitmap (resetFlags L)) \<and>
      (\<forall>i < length (tl_writesBitmap (resetFlags L)). tl_writesBitmap L' ! i =
       (tl_writesBitmap (resetFlags L) ! i \<or> (\<exists>t \<in> set (tl_list L). write_span (tl_blkSize (resetFlags L)) (pkts M ! t_pkt t) i)))"
    by (rule update_flags_all_plain) (use assms in \<open>simp_all add: resetFlags_def\<close>)
  then show ?thesis
    using assms(2) by (auto simp: populateFlags_def resetFlags_def tl_isWholeLineWrite_def list_all_length)
qed

definition line_example :: "PktMem \<times> TargetList" where
  "line_example =
     (\<lparr>curTick = 0, bufs = [], pkts = [Packet_new (Request_phys 0 0x1000 4 0 0) WriteReq 1, Packet_new (Request_phys 0 0x1004 4 0 0) WriteReq 2]\<rparr>,
      (tl_init 0x1000 8 TargetList_new)\<lparr>tl_list := [Target_new 0 0 0 0 FromCPU False True, Target_new 0 1 0 1 FromCPU False True]\<rparr>)"

theorem whole_line_exact_witness:
  "succeeds (populateFlags (fst line_example) (snd line_example)) tl_isWholeLineWrite"
proof -
  have p: "\<forall>t \<in> set (tl_list (snd line_example)). plain_target (fst line_example) (tl_blkSize (snd line_example)) t"
    "length (tl_writesBitmap (snd line_example)) = unat (tl_blkSize (snd line_example))" by code_simp+
  have "\<forall>i < unat (tl_blkSize (snd line_example)). \<exists>t \<in> set (tl_list (snd line_example)).
      write_span (tl_blkSize (snd line_example)) (pkts (fst line_example) ! t_pkt t) i" by code_simp
  with whole_line_exact [OF p] show ?thesis by (auto simp: succeeds_def)
qed

subsection \<open>Where the flags are not what they should be\<close>

text \<open>
  A first write with a special flag is taken as a whole line write when it is added to the empty list,
  and is not any more once the flags are recomputed, since the list is not empty then.
\<close>

lemma special_line_write_lost:
  "let M = \<lparr>curTick = 0, bufs = [], pkts = [Packet_new (Request_phys 0 0x1000 8 SECURE 0) WriteReq 1]\<rparr>;
       L = tl_init 0x1000 8 TargetList_new;
       L1 = (projr (updateFlags (pkts M ! 0) FromCPU True L))\<lparr>tl_list := [Target_new 0 0 0 0 FromCPU False True]\<rparr>
   in tl_isWholeLineWrite L1 \<and> \<not> tl_isWholeLineWrite (projr (populateFlags (M :: PktMem) L1))"
  by code_simp

text \<open>\<open>promoteWritable\<close> reads the front of the deferred list before it knows that there is one.\<close>

lemma promoteWritable_empty:
  "m < length (mshrs S) \<Longrightarrow> tl_list (deferredTargets (mshrs S ! m)) = [] \<Longrightarrow> promoteWritable m S = fail NullDeref"
  by (simp add: promoteWritable_def mshr_at_def ent_def tl_front_def)

text \<open>A copied request keeps the mark that its stream id is valid, and loses the id.\<close>

lemma request_copy_stream:
  "rq_privateFlags (Request_copy r) = rq_privateFlags r \<and> rq_streamId (Request_copy r) = 0 \<and> rq_substreamId (Request_copy r) = 0"
  by (simp add: Request_copy_def rq_empty_def)

end
