(* ===== verification/MSHRForest.thy ===== *)
theory MSHRForest
  imports MSHRProps
begin

text \<open>
  When the recursion through the registers of the caches above succeeds. A target that is marked as
  pending points to the register above that its packet came from. If no register is pointed to
  twice, the pending registers form a forest, no assertion fails and exactly the registers that can be
  reached from the first one are cleared.
\<close>

subsection \<open>The forest of pending registers\<close>

definition above :: "MemSys \<Rightarrow> Target \<Rightarrow> nat option" where
  "above S t = (if t_markedPending t then findNextSenderState (pkts S ! t_pkt t) else None)"

definition marks :: "MemSys \<Rightarrow> Target list \<Rightarrow> nat list" where
  "marks S ts = List.map_filter (above S) ts"

abbreviation reg_marks :: "MemSys \<Rightarrow> nat \<Rightarrow> nat list" where
  "reg_marks S i \<equiv> marks S (tl_list (targets (mshrs S ! i)))"

definition edges :: "MemSys \<Rightarrow> (nat \<times> nat) set" where
  "edges S = {(i, x). i \<in> pending_regs S \<and> x \<in> set (reg_marks S i)}"

definition forest :: "MemSys \<Rightarrow> bool" where
  "forest S \<longleftrightarrow> (\<forall>i \<in> pending_regs S.
     (\<forall>t \<in> set (tl_list (targets (mshrs S ! i))). t_pkt t < length (pkts S)) \<and>
     distinct (reg_marks S i) \<and> set (reg_marks S i) \<subseteq> pending_regs S \<and>
     (\<forall>j \<in> pending_regs S. i \<noteq> j \<longrightarrow> set (reg_marks S i) \<inter> set (reg_marks S j) = {}))"

definition forest_root :: "MemSys \<Rightarrow> nat \<Rightarrow> bool" where
  "forest_root S m \<longleftrightarrow> m \<in> pending_regs S \<and> (\<forall>i. (i, m) \<notin> edges S)"

text \<open>
  Exactly the registers that can be reached from \<open>R\<close> were cleared; the target lists of all others are the same, but for
  the one register \<open>m\<close> that is being worked on.
\<close>

definition cleared_from :: "nat option \<Rightarrow> nat set \<Rightarrow> MemSys \<Rightarrow> MemSys \<Rightarrow> bool" where
  "cleared_from m R S S' \<longleftrightarrow> pending_regs S' = pending_regs S - (edges S)\<^sup>* `` R \<and>
     (\<forall>x. Some x \<noteq> m \<and> x \<notin> pending_regs S - pending_regs S' \<longrightarrow> targets (mshrs S' ! x) = targets (mshrs S ! x)) \<and>
     pkts S' = pkts S \<and> length (mshrs S') = length (mshrs S)"

lemma marks_Nil [simp]: "marks S [] = []"
  by (simp add: marks_def List.map_filter_def)

lemma marks_Cons [simp]: "marks S (t # ts) = (case above S t of None \<Rightarrow> marks S ts | Some m \<Rightarrow> m # marks S ts)"
  by (simp add: marks_def List.map_filter_def split: option.split)

lemma marks_pkts: "pkts S' = pkts S \<Longrightarrow> marks S' ts = marks S ts"
  unfolding marks_def by (rule arg_cong [where f = "\<lambda>f. List.map_filter f ts"]) (simp add: above_def fun_eq_iff)

lemma forest_one_source: "forest S \<Longrightarrow> (i, x) \<in> edges S \<Longrightarrow> (j, x) \<in> edges S \<Longrightarrow> i = j"
  by (auto simp: forest_def edges_def)

lemma forest_edge: "forest S \<Longrightarrow> (i, x) \<in> edges S \<Longrightarrow> x \<in> pending_regs S"
  by (auto simp: forest_def edges_def)

lemma cleared_from_kept:
  assumes "cleared_from m R S S'" and "\<forall>i. m = Some i \<longrightarrow> i \<notin> pending_regs S'" and "i \<in> pending_regs S'"
  shows "targets (mshrs S' ! i) = targets (mshrs S ! i)" and "reg_marks S' i = reg_marks S i"
proof -
  have "Some i \<noteq> m" using assms(2,3) by blast
  then show "targets (mshrs S' ! i) = targets (mshrs S ! i)" using assms(1,3) unfolding cleared_from_def by blast
  then show "reg_marks S' i = reg_marks S i" using assms(1) marks_pkts unfolding cleared_from_def by metis
qed

lemma edges_cleared:
  assumes "cleared_from m R S S'" and "\<forall>i. m = Some i \<longrightarrow> i \<notin> pending_regs S'"
  shows "edges S' = {(i, x) \<in> edges S. i \<in> pending_regs S'}"
proof -
  have "pending_regs S' \<subseteq> pending_regs S" using assms(1) by (auto simp: cleared_from_def)
  then show ?thesis using cleared_from_kept(2) [OF assms] by (auto simp: edges_def)
qed

text \<open>What is left after a clearing is a forest again, and the roots that were not cleared are roots of it.\<close>

lemma forest_cleared:
  assumes f: "forest S" and c: "cleared_from m R S S'" and m: "\<forall>i. m = Some i \<longrightarrow> i \<notin> pending_regs S'"
    and R: "\<forall>r \<in> R. forest_root S r"
  shows "forest S'" and "forest_root S x \<Longrightarrow> x \<notin> R \<Longrightarrow> forest_root S' x"
proof -
  have p: "pending_regs S' = pending_regs S - (edges S)\<^sup>* `` R" "pkts S' = pkts S" using c by (auto simp: cleared_from_def)
  note same = cleared_from_kept(1) [OF c m] and mk = cleared_from_kept(2) [OF c m]
  have kept: "x \<in> pending_regs S'" if i: "i \<in> pending_regs S'" and e: "(i, x) \<in> edges S" for i x
  proof (rule ccontr)
    assume "x \<notin> pending_regs S'"
    then have "x \<in> (edges S)\<^sup>* `` R" using p(1) forest_edge [OF f e] by blast
    then obtain r where r: "r \<in> R" "(r, x) \<in> (edges S)\<^sup>*" by blast
    from r(2) show False
    proof (cases rule: rtranclE)
      case base
      then show ?thesis using R r(1) e by (auto simp: forest_root_def)
    next
      case (step y)
      with forest_one_source [OF f e] have "i \<in> (edges S)\<^sup>* `` R" using r(1) by blast
      then show ?thesis using i p(1) by simp
    qed
  qed
  have sub: "pending_regs S' \<subseteq> pending_regs S" using p(1) by blast
  show "forest S'"
    unfolding forest_def
  proof (intro ballI conjI)
    fix i assume i: "i \<in> pending_regs S'"
    have fi: "(\<forall>t \<in> set (tl_list (targets (mshrs S ! i))). t_pkt t < length (pkts S)) \<and> distinct (reg_marks S i) \<and>
        (\<forall>j \<in> pending_regs S. i \<noteq> j \<longrightarrow> set (reg_marks S i) \<inter> set (reg_marks S j) = {})"
      using f i sub by (auto simp: forest_def)
    show "t_pkt t < length (pkts S')" if "t \<in> set (tl_list (targets (mshrs S' ! i)))" for t
      using fi that same [OF i] p(2) by simp
    show "distinct (reg_marks S' i)" using fi mk [OF i] by simp
    show "set (reg_marks S' i) \<subseteq> pending_regs S'"
      using kept [OF i] i sub mk [OF i] by (auto simp: edges_def)
    show "i \<noteq> j \<longrightarrow> set (reg_marks S' i) \<inter> set (reg_marks S' j) = {}" if "j \<in> pending_regs S'" for j
      using fi mk [OF i] mk [OF that] that sub by auto
  qed
  show "forest_root S' x" if x: "forest_root S x" "x \<notin> R"
  proof -
    have "(r, x) \<notin> (edges S)\<^sup>*" if "r \<in> R" for r
      using that x by (auto simp: forest_root_def elim: rtranclE)
    then have "x \<in> pending_regs S'" using x p(1) by (auto simp: forest_root_def)
    then show ?thesis using x edges_cleared [OF c m] by (auto simp: forest_root_def)
  qed
qed

lemma reach_split:
  assumes "E' = {(i, x) \<in> E. i \<in> P - E\<^sup>* `` A}" and "E \<subseteq> P \<times> UNIV"
  shows "E\<^sup>* `` A \<union> E'\<^sup>* `` B = E\<^sup>* `` (A \<union> B)"
proof -
  have "E'\<^sup>* \<subseteq> E\<^sup>*" by (rule rtrancl_mono) (use assms(1) in auto)
  moreover have "x \<in> E\<^sup>* `` A \<union> E'\<^sup>* `` B" if "(b, x) \<in> E\<^sup>*" "b \<in> B" for b x
    using that
  proof (induction rule: rtrancl_induct)
    case (step y z)
    then have y: "y \<in> E\<^sup>* `` A \<union> E'\<^sup>* `` B" by blast
    show ?case
    proof (cases "y \<in> E\<^sup>* `` A")
      case True
      with step(2) show ?thesis by (meson Image_iff UnI1 rtrancl.rtrancl_into_rtrancl)
    next
      case False
      with step(2) assms have "(y, z) \<in> E'" by auto
      with False y show ?thesis by (meson Image_iff UnE UnI2 rtrancl.rtrancl_into_rtrancl)
    qed
  qed blast
  ultimately show ?thesis by blast
qed

lemma cleared_from_trans:
  assumes c1: "cleared_from m A S S1" and c2: "cleared_from m B S1 S2" and m: "\<forall>i. m = Some i \<longrightarrow> i \<notin> pending_regs S1"
  shows "cleared_from m (A \<union> B) S S2"
proof -
  note d = c1 [unfolded cleared_from_def] c2 [unfolded cleared_from_def]
  have "edges S1 = {(i, x) \<in> edges S. i \<in> pending_regs S - (edges S)\<^sup>* `` A}"
    using edges_cleared [OF c1 m] d(1) by simp
  from reach_split [OF this, of B] have "pending_regs S2 = pending_regs S - (edges S)\<^sup>* `` (A \<union> B)"
    using d by (auto simp: edges_def)
  moreover have "targets (mshrs S2 ! x) = targets (mshrs S ! x)"
    if "Some x \<noteq> m" "x \<notin> pending_regs S - pending_regs S2" for x
  proof -
    have "x \<notin> pending_regs S - pending_regs S1" "x \<notin> pending_regs S1 - pending_regs S2" using that d by auto
    then show ?thesis using that(1) d by simp
  qed
  ultimately show ?thesis using d unfolding cleared_from_def by auto
qed

subsection \<open>The loop and the recursion\<close>

lemma pending_upd:
  "(\<And>h. downstreamPending (f h) = downstreamPending h) \<Longrightarrow> pending_regs (mshr_upd m f S) = pending_regs S"
proof -
  assume f: "\<And>h. downstreamPending (f h) = downstreamPending h"
  have "downstreamPending ((mshrs S)[m := f (mshrs S ! m)] ! i) = downstreamPending (mshrs S ! i)" if "i < length (mshrs S)" for i
    using that f by (cases "i = m") auto
  then show ?thesis by (auto simp: pending_regs_def mshr_upd_def)
qed

lemma cleared_from_unmark: "cleared_from (Some m) {} S (mshr_upd m (clear_marked False i) S)"
  by (auto simp: cleared_from_def pending_upd) (simp_all add: mshr_upd_def)

lemma cleared_from_weaken: "cleared_from None R S S' \<Longrightarrow> cleared_from (Some m) R S S'"
  by (simp add: cleared_from_def)

lemma clear_marked_drop:
  "drop (Suc i) (tl_list (targets (clear_marked False i h))) = drop (Suc i) (tl_list (targets h))"
  "length (tl_list (targets (clear_marked False i h))) = length (tl_list (targets h))"
  "map t_pkt (tl_list (targets (clear_marked False i h))) = map t_pkt (tl_list (targets h))"
proof -
  have "map t_pkt (ts[i := (ts ! i)\<lparr>t_markedPending := False\<rparr>]) = map t_pkt ts" for ts :: "Target list"
  proof -
    have "t_pkt ((ts ! i)\<lparr>t_markedPending := False\<rparr>) = t_pkt (ts ! i)" by simp
    then show ?thesis by (metis list_update_id map_update)
  qed
  then show "drop (Suc i) (tl_list (targets (clear_marked False i h))) = drop (Suc i) (tl_list (targets h))"
    "length (tl_list (targets (clear_marked False i h))) = length (tl_list (targets h))"
    "map t_pkt (tl_list (targets (clear_marked False i h))) = map t_pkt (tl_list (targets h))"
    by (simp_all add: clear_marked_def sel_list_def Let_def)
qed

abbreviation works :: "(nat \<Rightarrow> MemSys \<Rightarrow> MemSys run) \<Rightarrow> nat \<Rightarrow> bool" where
  "works rec k \<equiv> (\<forall>m S. card (pending_regs S) \<le> k \<and> forest S \<and> forest_root S m \<longrightarrow>
     (\<exists>S'. rec m S = ret S' \<and> cleared_from None {m} S S'))"

lemma clear_targets_forest:
  assumes "works rec (card (pending_regs S))" and "m < length (mshrs S)" and "m \<notin> pending_regs S" and "forest S"
    and "i + n = length (tl_list (targets (mshrs S ! m)))"
    and "\<forall>p \<in> set (map t_pkt (tl_list (targets (mshrs S ! m)))). p < length (pkts S)"
    and "distinct (marks S (drop i (tl_list (targets (mshrs S ! m)))))"
    and "\<forall>x \<in> set (marks S (drop i (tl_list (targets (mshrs S ! m))))). forest_root S x"
  shows "\<exists>S'. clear_targets rec False m i n S = ret S' \<and>
    cleared_from (Some m) (set (marks S (drop i (tl_list (targets (mshrs S ! m)))))) S S'"
  using assms
proof (induction n arbitrary: i S)
  case 0
  then show ?case by (simp add: cleared_from_def)
next
  case (Suc n)
  let ?ts = "tl_list (targets (mshrs S ! m))"
  define t where "t = ?ts ! i"
  have i: "i < length ?ts" using Suc.prems(5) by simp
  then have d: "drop i ?ts = t # drop (Suc i) ?ts" by (simp add: t_def Cons_nth_drop_Suc)
  show ?case
  proof (cases "t_markedPending t")
    case False
    then have "above S t = None" by (simp add: above_def)
    then show ?thesis
      using Suc.IH [of S "Suc i"] Suc.prems False i
      by (simp add: d mshr_at_def ent_def sel_list_def t_def [symmetric])
  next
    case True
    let ?A = "set_option (above S t)"
    have tp: "t_pkt t < length (pkts S)" using Suc.prems(6) i by (simp add: t_def)
    have "\<exists>S1. (case findNextSenderState (pkts S ! t_pkt t) of None \<Rightarrow> ret S | Some m' \<Rightarrow> rec m' S) = ret S1 \<and>
        cleared_from None ?A S S1"
      using Suc.prems(1,4,8) True
      by (cases "findNextSenderState (pkts S ! t_pkt t)") (simp_all add: above_def d, simp add: cleared_from_def)
    then obtain S1 where S1: "(case findNextSenderState (pkts S ! t_pkt t) of None \<Rightarrow> ret S | Some m' \<Rightarrow> rec m' S) = ret S1"
      "cleared_from None ?A S S1" by blast
    define S2 where "S2 = mshr_upd m (clear_marked False i) S1"
    have same: "targets (mshrs S1 ! m) = targets (mshrs S ! m)" "length (mshrs S1) = length (mshrs S)" "pkts S1 = pkts S"
      using S1(2) Suc.prems(3) by (auto simp: cleared_from_def)
    have m1: "m \<notin> pending_regs S1" using S1(2) Suc.prems(3) by (auto simp: cleared_from_def)
    have c: "cleared_from (Some m) ?A S S2"
      using cleared_from_trans [OF cleared_from_weaken [OF S1(2)] cleared_from_unmark [of m S1 i]] m1
      by (simp add: S2_def)
    have h2: "mshrs S2 ! m = clear_marked False i (mshrs S1 ! m)" "pkts S2 = pkts S" "length (mshrs S2) = length (mshrs S)"
      using Suc.prems(2) same by (simp_all add: S2_def mshr_upd_def)
    have p2: "pending_regs S2 = pending_regs S1" unfolding S2_def by (rule pending_upd) simp
    have sub: "card (pending_regs S2) \<le> card (pending_regs S)"
      using S1(2) by (intro card_mono) (auto simp: p2 cleared_from_def)
    have rest: "drop (Suc i) (tl_list (targets (mshrs S2 ! m))) = drop (Suc i) ?ts"
      by (simp add: h2 clear_marked_drop same)
    have mk: "marks S2 ts = marks S ts" for ts using h2(2) by (rule marks_pkts)
    have dist: "distinct (marks S (drop (Suc i) ?ts))" "?A \<inter> set (marks S (drop (Suc i) ?ts)) = {}" "\<forall>x \<in> ?A. forest_root S x"
      using Suc.prems(7,8) by (auto simp: d split: option.splits)
    note fc = forest_cleared [OF Suc.prems(4) c _ dist(3)]
    have "\<exists>S'. clear_targets rec False m (Suc i) n S2 = ret S' \<and>
        cleared_from (Some m) (set (marks S2 (drop (Suc i) (tl_list (targets (mshrs S2 ! m)))))) S2 S'"
    proof (rule Suc.IH)
      show "works rec (card (pending_regs S2))" using Suc.prems(1) sub by (meson order_trans)
      show "forest S2" by (rule fc(1)) (use m1 p2 in simp)
      show "Suc i + n = length (tl_list (targets (mshrs S2 ! m)))" using Suc.prems(5) by (simp add: h2 clear_marked_drop same)
      show "\<forall>p \<in> set (map t_pkt (tl_list (targets (mshrs S2 ! m)))). p < length (pkts S2)"
        using Suc.prems(6) by (simp only: h2 clear_marked_drop same)
      show "\<forall>x \<in> set (marks S2 (drop (Suc i) (tl_list (targets (mshrs S2 ! m))))). forest_root S2 x"
        using Suc.prems(8) dist(2) m1 p2 by (auto simp: rest mk d intro!: fc(2) split: option.splits)
    qed (use Suc.prems(2) m1 dist(1) in \<open>simp_all add: h2(3) p2 rest mk\<close>)
    then obtain S' where S': "clear_targets rec False m (Suc i) n S2 = ret S'"
      "cleared_from (Some m) (set (marks S (drop (Suc i) ?ts))) S2 S'" by (auto simp: rest mk)
    have "clear_targets rec False m i (Suc n) S = ret S'"
      using Suc.prems(2) i True tp S1(1) S'(1)
      by (simp add: mshr_at_def ent_def sel_list_def t_def [symmetric] pkt_at_def S2_def)
    moreover have "set (marks S (drop i ?ts)) = ?A \<union> set (marks S (drop (Suc i) ?ts))"
      by (auto simp: d split: option.splits)
    ultimately show ?thesis
      using cleared_from_trans [OF c S'(2)] m1 p2 by simp
  qed
qed

lemma clear_forest:
  assumes "forest S" and "forest_root S m"
  shows "\<exists>S'. clearDownstreamPending m S = ret S' \<and> cleared_from None {m} S S'"
  using assms
proof (induction "card (pending_regs S)" arbitrary: m S rule: less_induct)
  case less
  let ?ts = "tl_list (targets (mshrs S ! m))"
  define S1 where "S1 = mshr_upd m (\<lambda>h. h\<lparr>downstreamPending := False\<rparr>) S"
  have m: "m \<in> pending_regs S" "m < length (mshrs S)" "downstreamPending (mshrs S ! m)"
    using less.prems(2) by (auto simp: forest_root_def pending_regs_def)
  have p: "pending_regs S1 = pending_regs S - {m}"
    using m(2) by (auto simp: S1_def mshr_upd_def pending_regs_def nth_list_update)
  have t: "targets (mshrs S1 ! i) = targets (mshrs S ! i)" for i
    using m(2) by (cases "i = m") (simp_all add: S1_def mshr_upd_def)
  have f: "pkts S1 = pkts S" "length (mshrs S1) = length (mshrs S)" by (simp_all add: S1_def mshr_upd_def)
  have mk: "marks S1 ts = marks S ts" for ts using f(1) by (rule marks_pkts)
  have e: "edges S1 = {(i, x) \<in> edges S. i \<noteq> m}" by (auto simp: edges_def p t mk)
  have out: "(m, x) \<in> edges S \<longleftrightarrow> x \<in> set (marks S ?ts)" for x using m(1) by (simp add: edges_def)
  have nm: "(i, m) \<notin> edges S" for i using less.prems(2) by (simp add: forest_root_def)
  have fS: "\<forall>t \<in> set ?ts. t_pkt t < length (pkts S)" "distinct (marks S ?ts)" "set (marks S ?ts) \<subseteq> pending_regs S"
    using less.prems(1) m(1) by (auto simp: forest_def)
  have "card (pending_regs S1) < card (pending_regs S)" using m(1) unfolding p by (intro card_Diff1_less) simp_all
  then have w: "works clearDownstreamPending (card (pending_regs S1))" using less.hyps by auto
  have "set (reg_marks S i) \<subseteq> pending_regs S - {m}" if "i \<in> pending_regs S" for i
    using less.prems(1) nm [of i] that by (auto simp: forest_def edges_def)
  then have forest1: "forest S1" using less.prems(1) unfolding forest_def p t mk f(1) by (metis DiffD1)
  have roots: "forest_root S1 x" if "x \<in> set (marks S ?ts)" for x
    using that fS(3) out nm [of m] forest_one_source [OF less.prems(1), of m x] by (auto simp: forest_root_def p e)
  from clear_targets_forest [OF w, of m 0 "length ?ts"] m(2) fS roots forest1 obtain S' where
    S': "clear_targets clearDownstreamPending False m 0 (length ?ts) S1 = ret S'"
    "cleared_from (Some m) (set (marks S ?ts)) S1 S'" by (auto simp: p t mk f)
  have "clearDownstreamPending m S = ret S'"
    using m(2,3) S'(1) by (subst clearDownstreamPending.simps) (simp add: mshr_at_def ent_def S1_def)
  moreover have "cleared_from None {m} S S'"
  proof -
    have "x \<in> insert m ((edges S1)\<^sup>* `` set (marks S ?ts))" if "(m, x) \<in> (edges S)\<^sup>*" for x
      using that
    proof (induction rule: rtrancl_induct)
      case (step y z)
      show ?case
      proof (cases "y = m")
        case True
        with step(2) out show ?thesis by auto
      next
        case False
        then have "(y, z) \<in> edges S1" using step(2) by (simp add: e)
        with False step(3) show ?thesis by (auto intro: rtrancl_into_rtrancl)
      qed
    qed simp
    moreover have "(m, x) \<in> (edges S)\<^sup>*" if "(y, x) \<in> (edges S1)\<^sup>*" "y \<in> set (marks S ?ts)" for x y
    proof -
      have "(y, x) \<in> (edges S)\<^sup>*" using that(1) rtrancl_mono [of "edges S1" "edges S"] by (auto simp: e)
      then show ?thesis using that(2) out by (meson converse_rtrancl_into_rtrancl)
    qed
    ultimately have "(edges S)\<^sup>* `` {m} = insert m ((edges S1)\<^sup>* `` set (marks S ?ts))" by auto
    then have pp: "pending_regs S' = pending_regs S - (edges S)\<^sup>* `` {m}"
      using S'(2) p unfolding cleared_from_def by auto
    have "targets (mshrs S' ! x) = targets (mshrs S ! x)" if "x \<notin> pending_regs S - pending_regs S'" for x
    proof -
      have "x \<noteq> m" "x \<notin> pending_regs S1 - pending_regs S'" using that m(1) p pp by auto
      then show ?thesis using S'(2) t unfolding cleared_from_def by simp
    qed
    then show ?thesis using S'(2) f pp unfolding cleared_from_def by simp
  qed
  ultimately show ?case by blast
qed

text \<open>
  C17 \<open>MSHR::clearDownstreamPending\<close>, which recurses through the registers of the caches above, always ends, with a
  result or with a failed assertion, even if the sender states form a cycle; what it returns differs only in
  pending flags that went down, among them that of the register it starts from. If the marked targets of pending
  registers point to pending registers, no register is pointed to by two of them, so that the pending registers
  form a forest, and it is called on a root of it, then
  no assertion fails and exactly the registers that can be reached from the root are cleared.
\<close>

theorem clearing_exact:
  "ends (clearDownstreamPending m S) (\<lambda>S'. m \<notin> pending_regs S' \<and> cleared S S') \<and>
   (forest S \<and> forest_root S m \<longrightarrow>
     (\<exists>S'. clearDownstreamPending m S = ret S' \<and> pending_regs S' = pending_regs S - (edges S)\<^sup>* `` {m}))"
proof
  show "ends (clearDownstreamPending m S) (\<lambda>S'. m \<notin> pending_regs S' \<and> cleared S S')"
    by (rule ends_mono [OF clearing_ends]) (simp add: cleared_def)
  show "forest S \<and> forest_root S m \<longrightarrow>
     (\<exists>S'. clearDownstreamPending m S = ret S' \<and> pending_regs S' = pending_regs S - (edges S)\<^sup>* `` {m})"
    using clear_forest [of S m] unfolding cleared_from_def by blast
qed

text \<open>A request of register 0 waits in register 1 below it, and neither has been sent on.\<close>

lemma pending_regs_code [code]: "pending_regs S = set (filter (\<lambda>i. downstreamPending (mshrs S ! i)) [0 ..< length (mshrs S)])"
  by (auto simp: pending_regs_def)

lemma forest_root_code [code]: "forest_root S m \<longleftrightarrow> m \<in> pending_regs S \<and> (\<forall>i \<in> pending_regs S. m \<notin> set (reg_marks S i))"
  by (auto simp: forest_root_def edges_def)

definition two_levels :: MemSys where
  "two_levels = \<lparr>curTick = 0, bufs = [],
     pkts = [pushSenderState (SenderMSHR 0) (Packet_new (Request_phys 0 0x1000 64 0 0) ReadSharedReq 1)],
     mshrs = [MSHR_new\<lparr>downstreamPending := True\<rparr>,
       MSHR_new\<lparr>downstreamPending := True, targets := TargetList_new\<lparr>tl_list := [Target_new 0 0 0 0 FromCPU True True]\<rparr>\<rparr>]\<rparr>"

theorem clearing_exact_witness:
  "\<exists>S'. clearDownstreamPending 1 two_levels = ret S' \<and> pending_regs S' = {}"
proof -
  have f: "forest two_levels" "forest_root two_levels 1" "pending_regs two_levels = {0, 1}" "0 \<in> set (reg_marks two_levels 1)" by code_simp+
  then have "(1, 0) \<in> edges two_levels" by (simp add: edges_def)
  then have "pending_regs two_levels \<subseteq> (edges two_levels)\<^sup>* `` {1}" using f(3) by auto
  then show ?thesis using clearing_exact [of 1 two_levels] f(1,2) by auto
qed

end
