(* ===== verification/MSHRRun.thy ===== *)
theory MSHRRun
  imports MSHRProps
begin

text \<open>
  Runs of a cache's register queue: any sequence of misses, further targets, snoops, issued requests,
  retries, responses, promotions, dropped prefetches and releases, while the rest of the system may
  change the packets between them. Every such run keeps the lists of the queue well formed and serves the
  requests of the processor to each register in the order they came.
\<close>

subsection \<open>The queue\<close>

interpretation mq: queue_entry mshr_hasTargets mshr_deallocate
  by unfold_locales
    (auto simp: mshr_deallocate_def mshr_hasTargets_def resetFlags_def Let_def split: if_splits)

abbreviation mq_inv :: "MemSys \<Rightarrow> EntryQueue \<Rightarrow> bool" where
  "mq_inv S q \<equiv> queue_inv mshr_hasTargets (mshrs S) q"

lemma same_regs_inService: "same_regs X S S' \<Longrightarrow> i \<notin> X \<Longrightarrow> inService (mshrs S' ! i) = inService (mshrs S ! i)"
  by (rule unmark_eqD(1)) (simp add: same_regs_def)

lemma same_regs_hasTargets: "same_regs X S S' \<Longrightarrow> i \<notin> X \<Longrightarrow> mshr_hasTargets (mshrs S' ! i) = mshr_hasTargets (mshrs S ! i)"
  by (rule unmark_eqD(8)) (simp add: same_regs_def)

lemma mq_inv_same:
  assumes "mq_inv S q" and "same_regs {m} S S'" and "m \<in> set (allocatedList q)"
    and "inService (mshrs S' ! m) = inService (mshrs S ! m)"
  shows "mq_inv S' q"
proof (rule queue_inv_cong [OF assms(1)])
  have "m \<notin> set (freeList q)" using assms(1,3) by (auto simp: queue_inv_def)
  then show "mshr_hasTargets (mshrs S' ! e) = mshr_hasTargets (mshrs S ! e)" if "e \<in> set (freeList q)" for e
    using that by (intro same_regs_hasTargets [OF assms(2)]) auto
  show "inService (mshrs S' ! e) = inService (mshrs S ! e)" for e
    using assms(4) same_regs_inService [OF assms(2), of e] by (cases "e = m") auto
qed (use assms(2) in \<open>simp add: same_regs_def\<close>)

text \<open>An allocated entry goes into service, or comes back from it.\<close>

lemma length_filter_flip:
  assumes "distinct xs" and "m \<in> set xs" and "\<not> P m" and "Q m" and "\<And>x. x \<noteq> m \<Longrightarrow> Q x = P x"
  shows "length (filter Q xs) = Suc (length (filter P xs))"
proof -
  obtain ys zs where xs: "xs = ys @ m # zs" using assms(2) by (meson split_list)
  then have "\<forall>x \<in> set ys \<union> set zs. x \<noteq> m" using assms(1) by auto
  then have "filter Q ys = filter P ys" "filter Q zs = filter P zs"
    using assms(5) by (auto intro!: filter_cong)
  with xs assms(3,4) show ?thesis by simp
qed

lemma mq_inv_issue:
  assumes "mq_inv S q" and "same_regs {m} S S'" and "m \<in> set (allocatedList q)"
    and "\<not> inService (mshrs S ! m)" and "inService (mshrs S' ! m)"
  shows "mq_inv S' (q\<lparr>readyList := remove1 m (readyList q), q_numInService := q_numInService q + 1\<rparr>)"
proof -
  have o: "e \<noteq> m \<Longrightarrow> inService (mshrs S' ! e) = inService (mshrs S ! e)"
    "e \<noteq> m \<Longrightarrow> mshr_hasTargets (mshrs S' ! e) = mshr_hasTargets (mshrs S ! e)" for e
    using same_regs_inService [OF assms(2), of e] same_regs_hasTargets [OF assms(2), of e] by auto
  have d: "distinct (allocatedList q)" "m \<notin> set (freeList q)" using assms(1,3) by (auto simp: queue_inv_def)
  have "length (filter (\<lambda>e. inService (mshrs S' ! e)) (allocatedList q)) = Suc (length (filter (\<lambda>e. inService (mshrs S ! e)) (allocatedList q)))"
    by (rule length_filter_flip [OF d(1) assms(3)]) (use assms(4,5) o(1) in auto)
  moreover have "set (remove1 m (readyList q)) = {e \<in> set (allocatedList q). \<not> inService (mshrs S' ! e)}"
  proof (rule set_eqI)
    fix x show "x \<in> set (remove1 m (readyList q)) \<longleftrightarrow> x \<in> {e \<in> set (allocatedList q). \<not> inService (mshrs S' ! e)}"
      using assms(1,5) o(1) [of x] by (cases "x = m") (auto simp: queue_inv_def)
  qed
  moreover have "\<forall>e \<in> set (freeList q). \<not> mshr_hasTargets (mshrs S' ! e) \<and> \<not> inService (mshrs S' ! e)"
    using assms(1) d(2) o by (metis queue_inv_def)
  ultimately show ?thesis
    using assms(1) same_regs_length [OF assms(2)] unfolding queue_inv_def by simp
qed

lemma mq_inv_retry:
  assumes "mq_inv S q" and "same_regs {m} S S'" and "m \<in> set (allocatedList q)"
    and "inService (mshrs S ! m)" and "\<not> inService (mshrs S' ! m)"
    and "readyList q = ys @ zs"
  shows "mq_inv S' (q\<lparr>q_numInService := q_numInService q - 1, readyList := ys @ m # zs\<rparr>)"
proof -
  have o: "e \<noteq> m \<Longrightarrow> inService (mshrs S' ! e) = inService (mshrs S ! e)"
    "e \<noteq> m \<Longrightarrow> mshr_hasTargets (mshrs S' ! e) = mshr_hasTargets (mshrs S ! e)" for e
    using same_regs_inService [OF assms(2), of e] same_regs_hasTargets [OF assms(2), of e] by auto
  have d: "distinct (allocatedList q)" "m \<notin> set (freeList q)" "m \<notin> set (readyList q)"
    and r: "set (readyList q) = {e \<in> set (allocatedList q). \<not> inService (mshrs S ! e)}" "distinct (readyList q)"
    using assms(1,3,4) by (auto simp: queue_inv_def)
  have "length (filter (\<lambda>e. inService (mshrs S ! e)) (allocatedList q)) = Suc (length (filter (\<lambda>e. inService (mshrs S' ! e)) (allocatedList q)))"
    by (rule length_filter_flip [OF d(1) assms(3)]) (use assms(4,5) o(1) in auto)
  moreover have "set (ys @ m # zs) = {e \<in> set (allocatedList q). \<not> inService (mshrs S' ! e)}"
  proof -
    have "set (ys @ m # zs) = insert m (set (readyList q))" using assms(6) by auto
    then have "x \<in> set (ys @ m # zs) \<longleftrightarrow> x \<in> {e \<in> set (allocatedList q). \<not> inService (mshrs S' ! e)}" for x
      using assms(3,5) o(1) [of x] r(1) by (cases "x = m") auto
    then show ?thesis by blast
  qed
  moreover have "distinct (ys @ m # zs)" using r(2) d(3) assms(6) by auto
  moreover have "\<forall>e \<in> set (freeList q). \<not> mshr_hasTargets (mshrs S' ! e) \<and> \<not> inService (mshrs S' ! e)"
    using assms(1) d(2) o by (metis queue_inv_def)
  ultimately show ?thesis
    using assms(1) same_regs_length [OF assms(2)] unfolding queue_inv_def by simp
qed

lemma mq_inv_reorder:
  assumes "mq_inv S q" and "set r = set (readyList q)" and "distinct r"
  shows "mq_inv S (q\<lparr>readyList := r\<rparr>)"
  using assms by (simp add: queue_inv_def)

subsection \<open>Delayed entries\<close>

text \<open>The entry at which the search of \<open>MSHRQueue::delay\<close> starts always satisfies its condition.\<close>

lemma mq_delay_effect:
  assumes "mq_delay m t S q = Inr (S', q')"
  shows "q' = q" and "m < length (mshrs S)" and "rt (mshrs S) m \<le> curTick S"
    and "S' = mshr_upd m (\<lambda>h. h\<lparr>readyTime := curTick S + t\<rparr>) S" and "m \<in> set (readyList q)"
proof -
  from assms have d: "mshr_delay t m S = Inr S'"
    unfolding mq_delay_def by (auto simp: Let_def elim!: rbind_InrE split: if_splits)
  show "m < length (mshrs S)" "rt (mshrs S) m \<le> curTick S" "S' = mshr_upd m (\<lambda>h. h\<lparr>readyTime := curTick S + t\<rparr>) S"
    using d by (auto simp: mshr_delay_def mshr_at_Inr elim!: rbind_InrE split: if_splits)
  from assms d have ne: "dropWhile (\<lambda>x. x \<noteq> m) (readyList q) \<noteq> []"
    by (auto simp: mq_delay_def Let_def split: if_splits)
  then obtain zs where f: "dropWhile (\<lambda>x. x \<noteq> m) (readyList q) = m # zs"
    by (metis (mono_tags, lifting) hd_dropWhile list.collapse)
  then show "m \<in> set (readyList q)" by (metis list.set_intros(1) set_dropWhileD)
  have "takeWhile (\<lambda>x. x \<noteq> m) (readyList q) @ m # zs = readyList q"
    using f by (metis takeWhile_dropWhile_id)
  then show "q' = q"
    using assms d by (simp add: mq_delay_def Let_def f)
qed

subsection \<open>Steps\<close>

datatype miss_op =
    Miss Addr u32 nat Tick u64 bool
  | MoreTarget nat nat Tick u64 bool
  | Snooped nat nat u64 u64
  | Issue nat bool
  | Retry nat
  | Response nat nat
  | PromoteDeferred nat
  | PromoteReadable nat
  | PromoteWritable nat
  | DropTarget nat
  | Release nat
  | ToFront nat
  | DelayBy nat Tick

text \<open>The register an operation is called on; a miss takes the first free one.\<close>

fun op_reg :: "miss_op \<Rightarrow> EntryQueue \<Rightarrow> nat" where
  "op_reg (Miss _ _ _ _ _ _) q = hd (freeList q)"
| "op_reg (MoreTarget m _ _ _ _) q = m"
| "op_reg (Snooped m _ _ _) q = m"
| "op_reg (Issue m _) q = m"
| "op_reg (Retry m) q = m"
| "op_reg (Response m _) q = m"
| "op_reg (PromoteDeferred m) q = m"
| "op_reg (PromoteReadable m) q = m"
| "op_reg (PromoteWritable m) q = m"
| "op_reg (DropTarget m) q = m"
| "op_reg (Release m) q = m"
| "op_reg (ToFront m) q = m"
| "op_reg (DelayBy m _) q = m"

text \<open>The packet that arrives from the processor with an operation, if any.\<close>

fun op_arrival :: "miss_op \<Rightarrow> nat list" where
  "op_arrival (Miss _ _ p _ _ _) = [p]"
| "op_arrival (MoreTarget _ p _ _ _) = [p]"
| "op_arrival _ = []"

text \<open>An operation of the queue or of one of its registers, with the targets it takes out to be served or dropped.\<close>

fun miss_do :: "miss_op \<Rightarrow> MemSys \<Rightarrow> EntryQueue \<Rightarrow> (Target list \<times> MemSys \<times> EntryQueue) run" where
  "miss_do (Miss ba bs p t ord a) S q = Some (rbind (mq_allocate ba bs p t ord a S q) (\<lambda>(m, S, q). Inr ([], S, q)))"
| "miss_do (MoreTarget m p t ord a) S q = Some (rbind (allocateTarget p t ord a m S) (\<lambda>S. Inr ([], S, q)))"
| "miss_do (Snooped m p ord rid) S q = Some (rbind (handleSnoop p ord rid m S) (\<lambda>(b, S). Inr ([], S, q)))"
| "miss_do (Issue m pm) S q = obind (mq_markInService m pm S q) (\<lambda>(S, q). ret ([], S, q))"
| "miss_do (Retry m) S q = Some (rbind (mq_markPending m S q) (\<lambda>(S, q). Inr ([], S, q)))"
| "miss_do (Response m p) S q = Some (rbind (extractServiceableTargets p m S) (\<lambda>(R, S). Inr (tl_list R, S, q)))"
| "miss_do (PromoteDeferred m) S q = Some (rbind (promoteDeferredTargets m S) (\<lambda>(b, S). Inr ([], S, q)))"
| "miss_do (PromoteReadable m) S q = obind (promoteReadable m S) (\<lambda>S. ret ([], S, q))"
| "miss_do (PromoteWritable m) S q = obind (promoteWritable m S) (\<lambda>S. ret ([], S, q))"
| "miss_do (DropTarget m) S q =
     Some (rbind (forceDeallocateTarget m S q) (\<lambda>(b, S', q'). Inr (take 1 (tl_list (targets (mshrs S ! m))), S', q')))"
| "miss_do (Release m) S q = Some (rbind (mq_deallocate m S q) (\<lambda>(S, q). Inr ([], S, q)))"
| "miss_do (ToFront m) S q = Some (rbind (moveToFront m S q) (\<lambda>q. Inr ([], S, q)))"
| "miss_do (DelayBy m t) S q = Some (rbind (mq_delay m t S q) (\<lambda>(S, q). Inr ([], S, q)))"

definition is_miss :: "miss_op \<Rightarrow> bool" where
  "is_miss op \<longleftrightarrow> (case op of Miss _ _ _ _ _ _ \<Rightarrow> True | _ \<Rightarrow> False)"

text \<open>What a step does to the register it is called on, to the others, and to the queue.\<close>

definition step_ok :: "nat \<Rightarrow> nat list \<Rightarrow> Target list \<Rightarrow> MemSys \<Rightarrow> MemSys \<Rightarrow> EntryQueue \<Rightarrow> bool" where
  "step_ok m new out S S' q' \<longleftrightarrow> same_regs {m} S S' \<and> mq_inv S' q' \<and>
     from_cpu out @ cpu_pkts (mshrs S' ! m) = cpu_pkts (mshrs S ! m) @ new"

lemma step_ok_same:
  assumes "mq_inv S q" and "m \<in> set (allocatedList q)" and "same_regs {m} S S'"
    and "inService (mshrs S' ! m) = inService (mshrs S ! m)"
    and "from_cpu out @ cpu_pkts (mshrs S' ! m) = cpu_pkts (mshrs S ! m) @ new"
  shows "step_ok m new out S S' q"
  using assms mq_inv_same by (simp add: step_ok_def)

lemma step_ok_moved: "mq_inv S q \<Longrightarrow> m \<in> set (allocatedList q) \<Longrightarrow> moved id m S S' \<Longrightarrow> step_ok m [] [] S S' q"
  by (rule step_ok_same) (auto simp: moved_def)

lemma unmark_flags [simp]:
  "cpu_pkts (h\<lparr>inService := b\<rparr>) = cpu_pkts h" "cpu_pkts (h\<lparr>readyTime := t\<rparr>) = cpu_pkts h"
  by (simp_all add: cpu_pkts_def)

lemma allocateTarget_inService:
  assumes "allocateTarget p t ord a m S = Inr S'"
  shows "inService (mshrs S' ! m) = inService (mshrs S ! m)"
  using assms
proof (cases rule: allocateTarget_cases)
  case (deferred S1 L S2)
  have r: "same_regs {} S1 S2" by (rule tl_add_effect(2) [OF deferred(3)])
  then show ?thesis using deferred same_regs_inService [OF r, of m] same_regs_length [OF r] by simp
next
  case (at_once L S2 k tgt)
  have r: "same_regs {} S S2" by (rule tl_add_effect(2) [OF at_once(5)])
  then show ?thesis using at_once same_regs_inService [OF r, of m] same_regs_length [OF r] by simp
qed

lemma miss_ok:
  assumes inv: "mq_inv S q" and d: "mq_allocate ba bs p t ord a S q = Inr (m, S', q')"
  shows "m = hd (freeList q)" and "step_ok m [p] [] S S' q'"
proof -
  from d obtain fl q1 where fl: "freeList q = m # fl" and n: "getNumTargets (mshrs S ! m) = 0"
    and al: "mshr_allocate ba bs p t ord a m S = Inr S'"
    and add: "addToReadyList (mshrs S') m (q\<lparr>freeList := fl, allocatedList := allocatedList q @ [m]\<rparr>) = Inr q1"
    and q': "q' = q1\<lparr>q_allocated := q_allocated q1 + 1\<rparr>"
    unfolding mq_allocate_def by (auto simp: Let_def mshr_at_Inr elim!: rbind_InrE split: list.splits if_splits)
  show "m = hd (freeList q)" by (simp add: fl)
  note e = mshr_allocate_order [OF al n]
  define E where "E = mshrs S' ! m"
  define es where "es = (mshrs S')[m := mshrs S ! m]"
  have m: "m < length (mshrs S')" using e(1,2) same_regs_length by metis
  have es: "es[m := E] = mshrs S'" by (simp add: es_def E_def)
  have "queue_inv mshr_hasTargets es q"
  proof (rule queue_inv_cong [OF inv])
    show "length es = length (mshrs S)" using same_regs_length [OF e(2)] by (simp add: es_def)
    show "inService (es ! x) = inService (mshrs S ! x)" "mshr_hasTargets (es ! x) = mshr_hasTargets (mshrs S ! x)" for x
      using m same_regs_inService [OF e(2), of x] same_regs_hasTargets [OF e(2), of x] by (cases "x = m"; simp add: es_def)+
  qed
  from queue_enter_inv [OF this fl, of E] add e(3) have "mq_inv S' q'" unfolding q' es by (simp add: E_def)
  moreover have "cpu_pkts (mshrs S ! m) = []" using n by (simp add: getNumTargets_def cpu_pkts_def)
  ultimately show "step_ok m [p] [] S S' q'" using e by (simp add: step_ok_def)
qed

lemma issue_ok:
  assumes inv: "mq_inv S q" and al: "m \<in> set (allocatedList q)"
  shows "ends (mq_markInService m pm S q) (\<lambda>(S', q'). step_ok m [] [] S S' q')"
  unfolding mq_markInService_def
proof (rule ends_bind)
  show "ends (mshr_markInService m pm S) (\<lambda>S'. moved (\<lambda>_. True) m S S' \<and> \<not> inService (mshrs S ! m))"
  proof (rule ends_conj [OF markInService_moved])
    show "ends (mshr_markInService m pm S) (\<lambda>_. \<not> inService (mshrs S ! m))"
      unfolding mshr_markInService_def Let_def
      by (intro ends_bind_res ends_if ends_fail) (auto simp: mshr_at_Inr intro!: ends_bind [OF clear_list_ends])
  qed
next
  fix S' assume c: "moved (\<lambda>_. True) m S S' \<and> \<not> inService (mshrs S ! m)"
  then have "mq_inv S' (q\<lparr>readyList := remove1 m (readyList q), q_numInService := q_numInService q + 1\<rparr>)"
    by (intro mq_inv_issue [OF inv _ al]) (auto simp: moved_def)
  with c show "ends (obind (Some (list_erase m (readyList q))) (\<lambda>r. ret (S', q\<lparr>readyList := r, q_numInService := q_numInService q + 1\<rparr>)))
      (\<lambda>(S', q'). step_ok m [] [] S S' q')"
    by (intro ends_bind_res) (auto simp: list_erase_def step_ok_def moved_def split: if_splits)
qed

lemma retry_ok:
  assumes inv: "mq_inv S q" and al: "m \<in> set (allocatedList q)" and d: "mq_markPending m S q = Inr (S', q')"
  shows "step_ok m [] [] S S' q'"
proof -
  from d have m: "m < length (mshrs S)" and sv: "inService (mshrs S ! m)" and S': "S' = mshr_upd m (\<lambda>h. h\<lparr>inService := False\<rparr>) S"
    and add: "addToReadyList (mshrs S') m (q\<lparr>q_numInService := q_numInService q - 1\<rparr>) = Inr q'"
    unfolding mq_markPending_def by (auto simp: Let_def mshr_at_Inr elim!: rbind_InrE split: if_splits)
  have "\<forall>x \<in> set (readyList q). x < length (mshrs S')" using inv by (auto simp: queue_inv_def S')
  with addToReadyList_split [OF _ _ add] m obtain ys zs where r: "readyList q = ys @ zs"
    and q': "q' = q\<lparr>q_numInService := q_numInService q - 1, readyList := ys @ m # zs\<rparr>" by (auto simp: S')
  have r': "same_regs {m} S S'" unfolding S' by (rule same_regs_upd)
  have "mq_inv S' (q\<lparr>q_numInService := q_numInService q - 1, readyList := ys @ m # zs\<rparr>)"
    by (rule mq_inv_retry [OF inv r' al sv _ r]) (use m in \<open>simp add: S'\<close>)
  with r' m show ?thesis by (simp add: step_ok_def q' S')
qed

lemma release_ok:
  assumes inv: "mq_inv S q" and d: "mq_deallocate m S q = Inr (S', q')"
  shows "step_ok m [] [] S S' q'"
proof -
  from d obtain es where e: "q_deallocate mshr_deallocate m (mshrs S) q = Inr (es, q')" and S': "S' = S\<lparr>mshrs := es\<rparr>"
    unfolding mq_deallocate_def by (auto elim!: rbind_InrE)
  note eff = mq.deallocate_effect [OF inv e]
  from eff(3) obtain h' where h': "mshr_deallocate (mshrs S ! m) = Inr h'" and es: "es = (mshrs S)[m := h']" by blast
  have m: "m < length (mshrs S)" using eff(1) inv by (auto simp: queue_inv_def)
  have "cpu_pkts h' = cpu_pkts (mshrs S ! m)"
    using h' by (auto simp: mshr_deallocate_def Let_def cpu_pkts_def resetFlags_def split: if_splits)
  moreover have "same_regs {m} S S'" by (simp add: same_regs_def S' es)
  ultimately show ?thesis using mq.deallocate_inv [OF inv e] m by (simp add: step_ok_def S' es)
qed

lemma step_ok_trans:
  assumes "same_regs {m} S S1" and "from_cpu out @ cpu_pkts (mshrs S1 ! m) = cpu_pkts (mshrs S ! m)" and "step_ok m [] [] S1 S2 q'"
  shows "step_ok m [] out S S2 q'"
  using assms by (auto simp: step_ok_def intro: same_regs_trans)

lemma drop_ok:
  assumes inv: "mq_inv S q" and al: "m \<in> set (allocatedList q)" and d: "forceDeallocateTarget m S q = Inr (b, S', q')"
  shows "step_ok m [] (take 1 (tl_list (targets (mshrs S ! m)))) S S' q'"
proof -
  let ?h = "mshrs S ! m"
  from d obtain t ts where m: "m < length (mshrs S)" and ts: "tl_list (targets ?h) = t # ts"
    unfolding forceDeallocateTarget_def
    by (cases "tl_list (targets ?h)") (auto simp: Let_def mshr_at_Inr mshr_hasTargets_def elim!: rbind_InrE split: if_splits)
  define h' where "h' = ?h\<lparr>targets := (targets ?h)\<lparr>tl_list := ts\<rparr>\<rparr>"
  define S1 where "S1 = mshr_upd m (\<lambda>_. h') S"
  have c: "(if \<not> mshr_hasTargets h' then
        rbind (promoteDeferredTargets m S1) (\<lambda>(promoted, S). if promoted then Inr (S, q) else mq_deallocate m S q)
      else Inr (S1, q)) = Inr (S', q')"
    using d m ts unfolding forceDeallocateTarget_def
    by (auto simp: Let_def mshr_at_def ent_def mshr_hasTargets_def popTarget_def h'_def S1_def elim!: rbind_InrE split: if_splits)
  have r: "same_regs {m} S S1" unfolding S1_def by (rule same_regs_upd)
  have o: "from_cpu (take 1 (tl_list (targets ?h))) @ cpu_pkts (mshrs S1 ! m) = cpu_pkts ?h"
    using m ts by (simp add: S1_def h'_def cpu_pkts_def)
  have inv1: "mq_inv S1 q" by (rule mq_inv_same [OF inv r al]) (use m in \<open>simp add: S1_def h'_def\<close>)
  have "step_ok m [] [] S1 S' q'"
  proof (cases "mshr_hasTargets h'")
    case True
    with c inv1 show ?thesis by (simp add: step_ok_def)
  next
    case False
    with c obtain pr S2 where p: "promoteDeferredTargets m S1 = Inr (pr, S2)"
      and e: "(if pr then Inr (S2, q) else mq_deallocate m S2 q) = Inr (S', q')" by (auto elim!: rbind_InrE)
    have k: "step_ok m [] [] S1 S2 q" by (rule step_ok_moved [OF inv1 al promoteDeferredTargets_moved [OF p]])
    show ?thesis
    proof (cases pr)
      case True
      with e k show ?thesis by simp
    next
      case False
      with e have "mq_deallocate m S2 q = Inr (S', q')" by simp
      from release_ok [OF _ this] k have "step_ok m [] [] S2 S' q'" by (simp add: step_ok_def)
      with k show ?thesis by (auto simp: step_ok_def intro: same_regs_trans)
    qed
  qed
  with r o show ?thesis by (rule step_ok_trans)
qed

lemma miss_do_ok:
  assumes inv: "mq_inv S q" and al: "is_miss op \<or> op_reg op q \<in> set (allocatedList q)"
    and d: "miss_do op S q = ret (out, S', q')"
  shows "step_ok (op_reg op q) (op_arrival op) out S S' q'"
proof (cases op)
  case (Miss ba bs p t ord a)
  with d obtain m where e: "mq_allocate ba bs p t ord a S q = Inr (m, S', q')" "out = []" by (auto simp: ret_def elim!: rbind_InrE)
  from miss_ok [OF inv e(1)] e(2) Miss show ?thesis by simp
next
  case (MoreTarget m p t ord a)
  with d have e: "allocateTarget p t ord a m S = Inr S'" "out = []" "q' = q" by (auto simp: ret_def elim!: rbind_InrE)
  with allocateTarget_order [OF e(1)] allocateTarget_inService [OF e(1)] al MoreTarget show ?thesis
    by (auto simp: is_miss_def intro!: step_ok_same [OF inv])
next
  case (Snooped m p ord rid)
  with d obtain b where e: "handleSnoop p ord rid m S = Inr (b, S')" "out = []" "q' = q" by (auto simp: ret_def elim!: rbind_InrE)
  with handleSnoop_kept(1) [OF e(1)] al Snooped show ?thesis
    by (auto simp: is_miss_def reg_kept_def intro!: step_ok_same [OF inv])
next
  case (Issue m pm)
  with al have "m \<in> set (allocatedList q)" by (simp add: is_miss_def)
  from issue_ok [OF inv this, of pm] d Issue show ?thesis by (auto simp: obind_eq_ret dest!: endsD)
next
  case (Retry m)
  with d al show ?thesis by (auto simp: ret_def is_miss_def elim!: rbind_InrE intro: retry_ok [OF inv])
next
  case (Response m p)
  with d obtain R where e: "extractServiceableTargets p m S = Inr (R, S')" "out = tl_list R" "q' = q"
    by (auto simp: ret_def elim!: rbind_InrE)
  with extract_order [OF e(1)] al Response show ?thesis
    by (auto simp: is_miss_def intro!: step_ok_same [OF inv])
next
  case (PromoteDeferred m)
  with d obtain b where e: "promoteDeferredTargets m S = Inr (b, S')" "out = []" "q' = q" by (auto simp: ret_def elim!: rbind_InrE)
  with promoteDeferredTargets_moved [OF e(1)] al PromoteDeferred show ?thesis
    by (auto simp: is_miss_def intro!: step_ok_moved [OF inv])
next
  case (PromoteReadable m)
  with d have e: "promoteReadable m S = ret S'" "out = []" "q' = q" by (auto simp: obind_eq_ret)
  with endsD [OF promoteReadable_moved e(1)] al PromoteReadable show ?thesis
    by (auto simp: is_miss_def intro!: step_ok_moved [OF inv])
next
  case (PromoteWritable m)
  with d have e: "promoteWritable m S = ret S'" "out = []" "q' = q" by (auto simp: obind_eq_ret)
  with endsD [OF promoteWritable_moved e(1)] al PromoteWritable show ?thesis
    by (auto simp: is_miss_def intro!: step_ok_moved [OF inv])
next
  case (DropTarget m)
  with d al show ?thesis by (auto simp: ret_def is_miss_def elim!: rbind_InrE dest: drop_ok [OF inv])
next
  case (Release m)
  with d show ?thesis by (auto simp: ret_def elim!: rbind_InrE intro: release_ok [OF inv])
next
  case (ToFront m)
  with d have e: "moveToFront m S q = Inr q'" "out = []" "S' = S" by (auto simp: ret_def elim!: rbind_InrE)
  have "distinct (readyList q)" using inv by (simp add: queue_inv_def)
  then have "mq_inv S q'"
    using e(1) inv by (auto simp: moveToFront_def list_erase_def elim!: rbind_InrE intro!: mq_inv_reorder split: if_splits)
  with e ToFront show ?thesis by (simp add: step_ok_def)
next
  case (DelayBy m t)
  with d have e: "mq_delay m t S q = Inr (S', q')" "out = []" by (auto simp: ret_def elim!: rbind_InrE)
  note f = mq_delay_effect [OF e(1)]
  have "step_ok m [] [] S S' q"
    by (rule step_ok_same [OF inv]) (use f al DelayBy in \<open>auto simp: is_miss_def same_regs_upd\<close>)
  with e f DelayBy show ?thesis by simp
qed

subsection \<open>Runs\<close>

text \<open>
  \<open>miss_run S q arr srv S' q'\<close>: from \<open>S\<close> and \<open>q\<close> a sequence of operations leads to \<open>S'\<close> and \<open>q'\<close>, during which
  the packets \<open>arr m\<close> arrived from the processor at register \<open>m\<close> and the packets \<open>srv m\<close> were taken out of it.
  Between the operations the rest of the system may change the clock, the packets and their data.
\<close>

inductive miss_run :: "MemSys \<Rightarrow> EntryQueue \<Rightarrow> (nat \<Rightarrow> nat list) \<Rightarrow> (nat \<Rightarrow> nat list) \<Rightarrow> MemSys \<Rightarrow> EntryQueue \<Rightarrow> bool" for S q where
  run_start: "miss_run S q (\<lambda>_. []) (\<lambda>_. []) S q"
| run_other: "miss_run S q arr srv S1 q1 \<Longrightarrow> mshrs S2 = mshrs S1 \<Longrightarrow> miss_run S q arr srv S2 q1"
| run_op: "miss_run S q arr srv S1 q1 \<Longrightarrow> is_miss op \<or> op_reg op q1 \<in> set (allocatedList q1) \<Longrightarrow>
    miss_do op S1 q1 = ret (out, S2, q2) \<Longrightarrow> m = op_reg op q1 \<Longrightarrow>
    miss_run S q (arr(m := arr m @ op_arrival op)) (srv(m := srv m @ from_cpu out)) S2 q2"

lemma miss_run_ok:
  assumes "miss_run S q arr srv S' q'" and "mq_inv S q"
  shows "mq_inv S' q' \<and> (\<forall>m. srv m @ cpu_pkts (mshrs S' ! m) = cpu_pkts (mshrs S ! m) @ arr m)"
  using assms
proof (induction rule: miss_run.induct)
  case (run_op arr srv S1 q1 op out S2 q2 m)
  then have ih: "mq_inv S1 q1" "srv i @ cpu_pkts (mshrs S1 ! i) = cpu_pkts (mshrs S ! i) @ arr i" for i by auto
  from miss_do_ok [OF ih(1) run_op.hyps(2,3)] have st: "step_ok m (op_arrival op) out S1 S2 q2" by (simp add: run_op.hyps(4))
  have "(srv(m := srv m @ from_cpu out)) i @ cpu_pkts (mshrs S2 ! i) = cpu_pkts (mshrs S ! i) @ (arr(m := arr m @ op_arrival op)) i" for i
  proof (cases "i = m")
    case True
    have "srv m @ from_cpu out @ cpu_pkts (mshrs S2 ! m) = srv m @ cpu_pkts (mshrs S1 ! m) @ op_arrival op"
      using st by (simp add: step_ok_def)
    also have "\<dots> = cpu_pkts (mshrs S ! m) @ arr m @ op_arrival op" using ih(2) [of m] by (metis append.assoc)
    finally show ?thesis using True by simp
  next
    case False
    with st same_regs_cpu(3) [of "{m}" S1 S2 i] ih(2) [of i] show ?thesis by (simp add: step_ok_def)
  qed
  with st show ?case by (simp add: step_ok_def)
qed (auto simp: queue_inv_def)

text \<open>
  C9 Whatever sequence of misses, further targets, snoops, issued requests, retries, responses,
  promotions, dropped prefetches, releases and delays a register queue goes through, its lists stay well
  formed: every register is allocated or free and not both, every allocated register that waits to be issued
  is on the ready list exactly once, the counters count, and a free register holds no target. Registers
  of other caches in the same system may be set or cleared as pending meanwhile.
\<close>

theorem mshr_queue_invariant:
  assumes "miss_run S q arr srv S' q'" and "queue_inv mshr_hasTargets (mshrs S) q"
  shows "queue_inv mshr_hasTargets (mshrs S') q'"
  using miss_run_ok [OF assms] by blast

text \<open>
  C4 Each miss register serves the requests of the processor (and of the caches above) in the order
  they arrived: in every run of the queue, the packets taken out of a register to be answered or dropped,
  followed by those it still holds, are the packets it held at the start followed by those that arrived
  since. No snoop, deferral, promotion or retry reorders, loses or repeats one, and no operation on
  another register does.
\<close>

theorem mshr_serves_in_order:
  assumes "miss_run S q arr srv S' q'" and "queue_inv mshr_hasTargets (mshrs S) q"
  shows "srv m @ cpu_pkts (mshrs S' ! m) = cpu_pkts (mshrs S ! m) @ arr m"
  using miss_run_ok [OF assms] by blast

text \<open>
  C40 \<open>MSHRQueue::delay\<close> never moves an entry: the ready list is the same afterwards, although the
  entry is ready only \<open>t\<close> ticks later (added modulo \<open>2^64\<close>) and those behind it keep their ready
  times. When the delayed entry is the first one, the queue as the delay leaves it has nothing to issue at any
  tick before the delay is over, even if the entries behind it are ready, and issues the delayed entry from
  then on.
\<close>

theorem delay_blocks_queue:
  assumes "mq_delay m t S q = Inr (S', q')"
  shows "readyList q' = readyList q \<and> (\<forall>x. x \<noteq> m \<longrightarrow> mshrs S' ! x = mshrs S ! x) \<and>
    (hd (readyList q) = m \<longrightarrow> (\<forall>now. getNext (mshrs S') now q' = Inr (if now < curTick S + t then None else Some m)))"
proof -
  note f = mq_delay_effect [OF assms]
  from f(5) obtain x xs where r: "readyList q = x # xs" by (cases "readyList q") auto
  have "getNext (mshrs S') now q' = Inr (if now < curTick S + t then None else Some m)" if "x = m" for now
    using that f(2) by (simp add: f(1) f(4) getNext_def r ent_def)
  moreover have "mshrs S' ! y = mshrs S ! y" if "y \<noteq> m" for y using that by (simp add: f(4) mshr_upd_def)
  ultimately show ?thesis by (auto simp: f(1) r)
qed

text \<open>
  C6 A request of the processor that arrives after an invalidation was snooped is never answered by the
  response already on its way: once an invalidating snoop has been handled by a register in service
  (and was not sent ahead by a cache below that still holds the request), the next target the register
  takes goes to the deferred list, behind those already there, and the targets being served stay as
  they are. If the invalidation is recorded as pending, the deferred packet is no upgrade any more.
\<close>

theorem late_requests_deferred:
  assumes "handleSnoop p ord rid m S = Inr (b, S1)"
    and "inService (mshrs S ! m)" and "\<not> (pk_is EXPRESS_SNOOP (pkts S ! p) \<and> downstreamPending (mshrs S ! m))"
    and "cmd_isInvalidate (pk_cmd (pkts S ! p))"
    and "allocateTarget p' t ord' a m S1 = Inr S2"
  shows "map unmark_target (tl_list (targets (mshrs S2 ! m))) = map unmark_target (tl_list (targets (mshrs S1 ! m))) \<and>
    from_cpu (tl_list (deferredTargets (mshrs S2 ! m))) = from_cpu (tl_list (deferredTargets (mshrs S1 ! m))) @ [p'] \<and>
    (postInvalidate (mshrs S1 ! m) \<longrightarrow> pk_cmd (pkts S2 ! p') \<notin> {UpgradeReq, SCUpgradeReq, StoreCondReq})"
proof -
  note k = handleSnoop_kept [OF assms(1)]
  have i1: "inService (mshrs S1 ! m)" using k(1) assms(2) by (simp add: reg_kept_def)
  have pf: "postInvalidate (mshrs S1 ! m) \<or> front_invalidates m S1" by (rule k(2)) (use assms in auto)
  from assms(5) show ?thesis
  proof (cases rule: allocateTarget_cases)
    case (deferred S3 L S4)
    note e = tl_add_effect [OF deferred(3)]
    have r: "same_regs {} S1 S4" using e(2) deferred(1) by (simp add: same_regs_def)
    then have u: "unmark (mshrs S4 ! m) = unmark (mshrs S1 ! m)" by (simp add: same_regs_def)
    have m: "m < length (mshrs S4)" using deferred(2) same_regs_length [OF r] by simp
    have "pk_cmd (pkts S2 ! p') = replaced_cmd (pk_cmd (pkts S1 ! p'))" if "postInvalidate (mshrs S1 ! m)"
      using that deferred(4,5) i1 e(3) replaceUpgrade_kept(4) by auto
    moreover have "replaced_cmd c \<notin> {UpgradeReq, SCUpgradeReq, StoreCondReq}" for c
      by (cases c) (simp_all add: replaced_cmd_def)
    ultimately show ?thesis using unmark_eqD(4) [OF u] m e(1) deferred(4) by auto
  next
    case (at_once L S3 k tgt)
    have "must_defer k tgt (mshrs S1 ! m) = Inr True"
      using pf at_once(3) i1
      by (auto simp: must_defer_def front_invalidates_def rq_maintenance hasPostInvalidate_def)
    with at_once(4) show ?thesis by simp
  qed
qed

subsection \<open>Examples\<close>

text \<open>Runs by evaluation: the operations are called on allocated registers, and none fails.\<close>

fun miss_trace :: "miss_op list \<Rightarrow> (nat \<Rightarrow> nat list) \<times> (nat \<Rightarrow> nat list) \<times> MemSys \<times> EntryQueue \<Rightarrow>
    ((nat \<Rightarrow> nat list) \<times> (nat \<Rightarrow> nat list) \<times> MemSys \<times> EntryQueue) option" where
  "miss_trace [] st = Some st"
| "miss_trace (op # ops) (arr, srv, S, q) =
     (if is_miss op \<or> op_reg op q \<in> set (allocatedList q) then
        case miss_do op S q of
          Some (Inr (out, S', q')) \<Rightarrow>
            miss_trace ops (arr(op_reg op q := arr (op_reg op q) @ op_arrival op),
              srv(op_reg op q := srv (op_reg op q) @ from_cpu out), S', q')
        | _ \<Rightarrow> None
      else None)"

lemma miss_trace_run:
  assumes "miss_run S0 q0 arr srv S q" and "miss_trace ops (arr, srv, S, q) = Some (arr', srv', S', q')"
  shows "miss_run S0 q0 arr' srv' S' q'"
  using assms
proof (induction ops arbitrary: arr srv S q)
  case (Cons op ops)
  then obtain out S1 q1 where g: "is_miss op \<or> op_reg op q \<in> set (allocatedList q)"
    and d: "miss_do op S q = Some (Inr (out, S1, q1))"
    and r: "miss_trace ops (arr(op_reg op q := arr (op_reg op q) @ op_arrival op),
              srv(op_reg op q := srv (op_reg op q) @ from_cpu out), S1, q1) = Some (arr', srv', S', q')"
    by (auto split: if_splits option.splits sum.splits prod.splits)
  show ?case by (rule Cons.IH [OF run_op [OF Cons.prems(1) g d [folded ret_def] refl] r])
qed simp

definition ex_pkt :: "Addr \<Rightarrow> u32 \<Rightarrow> u64 \<Rightarrow> Command \<Rightarrow> u64 \<Rightarrow> Packet_t" where
  "ex_pkt a sz fl c i = Packet_new (Request_phys 0 a sz fl 0) c i"

definition ex_sys :: MemSys where
  "ex_sys = \<lparr>curTick = 5, bufs = [],
     pkts = [ex_pkt 0x1000 8 0 ReadReq 1, ex_pkt 0x1008 8 0 ReadReq 2, ex_pkt 0x1000 64 0 ReadExReq 3,
             ex_pkt 0x1010 8 0 ReadReq 4, ex_pkt 0x1000 64 0 ReadResp 5],
     mshrs = replicate 3 MSHR_new\<rparr>"

definition ex_queue :: EntryQueue where
  "ex_queue = EntryQueue_new 0 2 1"

lemma ex_inv: "queue_inv mshr_hasTargets (mshrs ex_sys) ex_queue"
  unfolding ex_queue_def
  by (rule Queue_new_inv)
    (auto simp: ex_sys_def MSHR_new_def QueueEntry.defs QueueEntry_new_def mshr_hasTargets_def TargetList_new_def less_Suc_eq
      numeral_3_eq_3)

text \<open>A miss, a second target, the request issued, a snooped invalidation, a target that is deferred, the response, the next round.\<close>

definition ex_ops :: "miss_op list" where
  "ex_ops = [Miss 0x1000 64 0 5 1 True, MoreTarget 0 1 5 2 True, Issue 0 False, Snooped 0 2 3 9,
     MoreTarget 0 3 6 4 True, Response 0 4, PromoteDeferred 0]"

definition ex_end where
  "ex_end = the (miss_trace ex_ops (\<lambda>_. [], \<lambda>_. [], ex_sys, ex_queue))"

lemma ex_trace: "miss_trace ex_ops (\<lambda>_. [], \<lambda>_. [], ex_sys, ex_queue) \<noteq> None"
  by code_simp

lemma ex_run: "miss_run ex_sys ex_queue (fst ex_end) (fst (snd ex_end)) (fst (snd (snd ex_end))) (snd (snd (snd ex_end)))"
proof -
  have "miss_trace ex_ops (\<lambda>_. [], \<lambda>_. [], ex_sys, ex_queue) =
      Some (fst ex_end, fst (snd ex_end), fst (snd (snd ex_end)), snd (snd (snd ex_end)))"
    using ex_trace by (auto simp: ex_end_def)
  then show ?thesis by (rule miss_trace_run [OF run_start])
qed

theorem mshr_serves_in_order_witness:
  "fst ex_end 0 = [0, 1, 3] \<and> fst (snd ex_end) 0 @ cpu_pkts (mshrs (fst (snd (snd ex_end))) ! 0) = [0, 1, 3]"
proof -
  have "fst ex_end 0 = [0, 1, 3]" "cpu_pkts (mshrs ex_sys ! 0) = []" by code_simp+
  then show ?thesis using mshr_serves_in_order [OF ex_run ex_inv, of 0] by simp
qed

theorem mshr_queue_invariant_witness:
  "queue_inv mshr_hasTargets (mshrs (fst (snd (snd ex_end)))) (snd (snd (snd ex_end)))"
  by (rule mshr_queue_invariant [OF ex_run ex_inv])

text \<open>Two misses; the first is delayed, and the second, which is ready, is not issued.\<close>

definition ex_two :: "MemSys \<times> EntryQueue" where
  "ex_two = snd (snd (the (miss_trace [Miss 0x1000 64 0 5 1 True, Miss 0x2000 64 1 5 2 True] (\<lambda>_. [], \<lambda>_. [],
     ex_sys\<lparr>pkts := [ex_pkt 0x1000 8 0 ReadReq 1, ex_pkt 0x2000 8 0 ReadReq 2]\<rparr>, ex_queue))))"

definition ex_delayed :: "MemSys \<times> EntryQueue" where
  "ex_delayed = projr (mq_delay 0 100 (fst ex_two) (snd ex_two))"

theorem delay_blocks_queue_witness:
  "mq_delay 0 100 (fst ex_two) (snd ex_two) = Inr ex_delayed \<and> readyList (snd ex_delayed) = [0, 1] \<and>
   rt (mshrs (fst ex_delayed)) 1 \<le> curTick (fst ex_two) \<and>
   getNext (mshrs (fst ex_delayed)) (curTick (fst ex_two)) (snd ex_delayed) = Inr None \<and>
   getNext (mshrs (fst ex_delayed)) (curTick (fst ex_two) + 99) (snd ex_delayed) = Inr None \<and>
   getNext (mshrs (fst ex_delayed)) (curTick (fst ex_two) + 100) (snd ex_delayed) = Inr (Some 0)"
proof -
  have n: "\<not> isl (mq_delay 0 100 (fst ex_two) (snd ex_two))" by code_simp
  then have d: "mq_delay 0 100 (fst ex_two) (snd ex_two) = Inr (fst ex_delayed, snd ex_delayed)"
    by (cases "mq_delay 0 100 (fst ex_two) (snd ex_two)") (auto simp: ex_delayed_def)
  have "readyList (snd ex_two) = [0, 1]" "rt (mshrs (fst ex_two)) 1 \<le> curTick (fst ex_two)"
    "curTick (fst ex_two) < curTick (fst ex_two) + 100" "curTick (fst ex_two) + 99 < curTick (fst ex_two) + 100" by code_simp+
  with delay_blocks_queue [OF d] d show ?thesis by simp
qed

definition ex_issued :: MemSys where
  "ex_issued = fst (snd (snd (the (miss_trace [Miss 0x1000 64 0 5 1 True, Issue 0 False] (\<lambda>_. [], \<lambda>_. [], ex_sys, ex_queue)))))"

definition ex_snooped :: "bool \<times> MemSys" where
  "ex_snooped = projr (handleSnoop 2 3 9 0 ex_issued)"

definition ex_late :: MemSys where
  "ex_late = projr (allocateTarget 3 6 4 True 0 (snd ex_snooped))"

theorem late_requests_deferred_witness:
  "from_cpu (tl_list (deferredTargets (mshrs ex_late ! 0))) = [3] \<and>
   map unmark_target (tl_list (targets (mshrs ex_late ! 0))) = map unmark_target (tl_list (targets (mshrs (snd ex_snooped) ! 0)))"
proof -
  have "\<not> isl (handleSnoop 2 3 9 0 ex_issued)" "\<not> isl (allocateTarget 3 6 4 True 0 (snd ex_snooped))" by code_simp+
  then have s: "handleSnoop 2 3 9 0 ex_issued = Inr (fst ex_snooped, snd ex_snooped)"
    and a: "allocateTarget 3 6 4 True 0 (snd ex_snooped) = Inr ex_late"
    by (cases "handleSnoop 2 3 9 0 ex_issued"; cases "allocateTarget 3 6 4 True 0 (snd ex_snooped)";
        auto simp: ex_snooped_def ex_late_def)+
  have "inService (mshrs ex_issued ! 0)" "\<not> (pk_is EXPRESS_SNOOP (pkts ex_issued ! 2) \<and> downstreamPending (mshrs ex_issued ! 0))"
    "cmd_isInvalidate (pk_cmd (pkts ex_issued ! 2))" "tl_list (deferredTargets (mshrs (snd ex_snooped) ! 0)) = []"
    by code_simp+
  with late_requests_deferred [OF s _ _ _ a] show ?thesis by simp
qed

end
