(* ===== verification/CacheMiss.thy ===== *)
theory CacheMiss
  imports CacheAlloc MSHRRun
begin

text \<open>
  The cache and its miss registers together: \<open>handleEvictions\<close> asks the queue of miss registers for an
  outstanding request on the block it is about to evict. Here the question is answered by the model of
  the queue, and an allocation is shown to leave every block with an outstanding request where it is.
\<close>

subsection \<open>The question\<close>

text \<open>
  What \<open>BaseCache::handleEvictions\<close> learns from \<open>mshrQueue.findMatch\<close>: whether there is a register for the
  block, and the two tests of its assertion, \<open>needsWritable\<close> and \<open>isCleaning\<close>.
\<close>

definition mshr_match :: "MemSys \<Rightarrow> EntryQueue \<Rightarrow> Addr \<Rightarrow> bool \<Rightarrow> (bool \<times> bool) option res" where
  "mshr_match S q a sec =
     rbind (q_findMatch mshr_hasTargets (mshrs S) a sec True q) (\<lambda>r.
       case r of
         None \<Rightarrow> Inr None
       | Some m \<Rightarrow> rbind (mshr_at S m) (\<lambda>h. rbind (isCleaning m S) (\<lambda>c. Inr (Some (tl_needsWritable (targets h), c)))))"

text \<open>Every allocated register has a target, and its packet is there: between the handling of two packets.\<close>

definition mq_settled :: "MemSys \<Rightarrow> EntryQueue \<Rightarrow> bool" where
  "mq_settled S q \<longleftrightarrow> (\<forall>m \<in> set (allocatedList q). m < length (mshrs S) \<and> mshr_hasTargets (mshrs S ! m) \<and>
     (\<forall>t \<in> set (tl_list (targets (mshrs S ! m))). t_pkt t < length (pkts S)))"

definition serves :: "Addr \<Rightarrow> bool \<Rightarrow> 'e QueueEntry_scheme \<Rightarrow> bool" where
  "serves a sec h \<longleftrightarrow> \<not> qe_isUncacheable h \<and> blkAddr h = a \<and> qe_isSecure h = sec"

definition outstanding :: "MemSys \<Rightarrow> EntryQueue \<Rightarrow> Addr \<Rightarrow> bool \<Rightarrow> bool" where
  "outstanding S q a sec \<longleftrightarrow> (\<exists>m \<in> set (allocatedList q). serves a sec (mshrs S ! m))"

lemma find_match_settled:
  assumes "\<forall>m \<in> set xs. m < length es \<and> hasT (es ! m)"
  shows "(find_match hasT es a sec True xs = Inr None \<and> (\<forall>m \<in> set xs. \<not> serves a sec (es ! m))) \<or>
    (\<exists>m \<in> set xs. find_match hasT es a sec True xs = Inr (Some m) \<and> serves a sec (es ! m))"
  using assms
proof (induction xs)
  case (Cons x xs)
  have "find_match hasT es a sec True (x # xs) = (if serves a sec (es ! x) then Inr (Some x) else find_match hasT es a sec True xs)"
    using Cons.prems by (auto simp: ent_def entry_matchBlockAddr_def serves_def)
  with Cons show ?case by auto
qed simp

text \<open>The question is always answered, and finds a register exactly when a request is outstanding.\<close>

lemma mshr_match_settled:
  assumes "mq_settled S q"
  shows "\<exists>r. mshr_match S q a sec = Inr r \<and> (r \<noteq> None \<longleftrightarrow> outstanding S q a sec)"
proof -
  have "\<forall>m \<in> set (allocatedList q). m < length (mshrs S) \<and> mshr_hasTargets (mshrs S ! m)"
    using assms by (simp add: mq_settled_def)
  from find_match_settled [OF this, of a sec] show ?thesis
  proof (elim disjE bexE conjE)
    fix m assume m: "m \<in> set (allocatedList q)" "serves a sec (mshrs S ! m)"
      and f: "find_match mshr_hasTargets (mshrs S) a sec True (allocatedList q) = Inr (Some m)"
    then obtain t ts where "m < length (mshrs S)" "tl_list (targets (mshrs S ! m)) = t # ts" "t_pkt t < length (pkts S)"
      using assms by (cases "tl_list (targets (mshrs S ! m))") (auto simp: mq_settled_def mshr_hasTargets_def)
    moreover have "outstanding S q a sec" using m by (auto simp: outstanding_def)
    ultimately show ?thesis
      using f by (simp add: mshr_match_def q_findMatch_def isCleaning_def mshr_at_def ent_def tl_front_def pkt_at_def)
  qed (simp add: mshr_match_def q_findMatch_def outstanding_def)
qed

subsection \<open>Allocation asks before it evicts\<close>

context tag_store
begin

lemma abs_block_cong:
  assumes inv: "tags_inv ip_wf iv rp_inv rp_cands T" and "block_of (indexingPolicy T) a = block_of (indexingPolicy T) b"
  shows "tag_abs iv T a sec = tag_abs iv T b sec"
proof -
  have wf: "ip_wf (indexingPolicy T) (blks T)" using inv by (simp add: tags_inv_def)
  have "resident iv T a sec e = resident iv T b sec e" for e
    using same_block_same_place [OF wf, of a b] assms(2) by (simp add: resident_def)
  with abs_resident [OF inv] have "tag_abs iv T a sec = Some e \<longleftrightarrow> tag_abs iv T b sec = Some e" for e by simp
  then show ?thesis by (metis option.exhaust)
qed

lemma allocateBlock_unmatched:
  assumes inv: "tags_inv ip_wf iv rp_inv rp_cands (tags C)" and "env_ok env"
    and run: "allocateBlock cfg iv rv findMatch env C pkt = Inr (Some v, wbs, C')" and "tag_abs iv (tags C) a sec = Some v"
  shows "findMatch (block_of (indexingPolicy (tags C)) a) sec = Inr None"
proof -
  from findVictim_ok [OF inv assms(2), of "pkt_addr pkt"] obtain v' T where
    v: "findVictim iv rv env (tags C) (pkt_addr pkt) = Inr (v', [v'], T)" "indexingPolicy T = indexingPolicy (tags C)"
      "blks T = blks (tags C)" "v' \<in> dom (blks (tags C))" by (auto elim!: succeedsE)
  with run have vv: "v' = v" by (auto simp: allocateBlock_def elim!: rbind_InrE split: if_splits)
  note g = regenerate_resident [OF inv assms(4)]
  from v(4) vv obtain b where b: "blks (tags C) v = Some b" by blast
  have "resident iv (tags C) a sec v" using abs_resident [OF inv] assms(4) by simp
  then have valid: "isValid b" "isSecure b = sec" using b by (auto simp: resident_def)
  have "regenerateBlkAddr iv T v = Inr (block_of (indexingPolicy (tags C)) a)"
    using g(1) v(2,3) by (simp add: regenerateBlkAddr_def blk_get_def)
  moreover have "\<exists>w C2. handleEvictions cfg iv rv findMatch env (C\<lparr>tags := T\<rparr>) [v] = Inr (True, w, C2)"
    using run v(1) vv by (auto simp: allocateBlock_def elim!: rbind_InrE split: if_splits)
  ultimately show ?thesis
    using b valid v(3)
    by (auto simp: handleEvictions_def blk_get_def cache_regenerateBlkAddr_def elim!: rbind_InrE split: option.splits if_splits prod.splits)
qed

lemma allocateBlock_keeps_matched:
  assumes inv: "tags_inv ip_wf iv rp_inv rp_cands (tags C)" and d: "data_ok (tags C)" and env: "env_ok env"
    and cfg: "\<not> isReadOnly cfg \<or> writebackClean cfg"
    and miss: "tag_abs iv (tags C) (pkt_addr pkt) (Packet.pkt_isSecure pkt) = None"
    and ma: "unat (req_masterId (pkt_req pkt)) < maxMasters cfg"
    and run: "allocateBlock cfg iv rv findMatch env C pkt = Inr (r, wbs, C')"
    and h: "tag_abs iv (tags C) a sec = Some e" "findMatch (block_of (indexingPolicy (tags C)) a) sec \<noteq> Inr None"
  shows "tag_abs iv (tags C') a sec = Some e \<and> blks (tags C') e = blks (tags C) e"
proof (cases r)
  case None
  with allocateBlock_ok [OF assms(1-6), of findMatch] run h show ?thesis by simp
next
  case (Some v)
  have "v \<noteq> e" using allocateBlock_unmatched [OF inv env run [unfolded Some]] h by auto
  moreover have "\<not> (block_of (indexingPolicy (tags C)) a = block_of (indexingPolicy (tags C)) (pkt_addr pkt) \<and> sec = Packet.pkt_isSecure pkt)"
    using abs_block_cong [OF inv, of a "pkt_addr pkt" sec] miss h(1) by (cases "sec = Packet.pkt_isSecure pkt") auto
  ultimately show ?thesis using allocateBlock_ok [OF assms(1-6), of findMatch] run h Some by auto
qed

end

subsection \<open>The cache with DRRIP and its miss registers\<close>

text \<open>What the answer of a settled queue says about the register that was found.\<close>

lemma mshr_match_Some:
  assumes "mq_settled S Q" and "mshr_match S Q a sec = Inr (Some (nw, cl))"
  shows "\<exists>m \<in> set (allocatedList Q). serves a sec (mshrs S ! m) \<and>
    nw = tl_needsWritable (targets (mshrs S ! m)) \<and> isCleaning m S = Inr cl"
proof -
  have st: "\<forall>m \<in> set (allocatedList Q). m < length (mshrs S) \<and> mshr_hasTargets (mshrs S ! m)"
    using assms(1) by (simp add: mq_settled_def)
  from assms(2) obtain m h where m: "find_match mshr_hasTargets (mshrs S) a sec True (allocatedList Q) = Inr (Some m)"
    "mshr_at S m = Inr h" "nw = tl_needsWritable (targets h)" "isCleaning m S = Inr cl"
    by (auto simp: mshr_match_def q_findMatch_def elim!: rbind_InrE split: option.splits)
  have "m \<in> set (allocatedList Q)" "serves a sec (mshrs S ! m)" using find_match_settled [OF st, of a sec] m(1) by auto
  moreover have "h = mshrs S ! m" using m(2) by (auto simp: mshr_at_def ent_def split: if_splits)
  ultimately show ?thesis using m(3,4) by blast
qed

text \<open>
  C10 A block on which a request is outstanding is never evicted. The cache allocates a block for an address
  that is not resident and asks its queue of miss registers before it evicts; every allocated register has a
  target whose packet exists, the cache is not read-only or writes back clean blocks, the random numbers are in
  range and the master is known. Then, if the allocation returns (with a block or refused), every resident
  block for whose address a cacheable register is allocated is found at the same place afterwards, unchanged.
  The allocation fails only by the assertion of \<open>handleEvictions\<close>, when the register outstanding on a
  resident block is neither an upgrade of a block that is not writable nor a clean request.
\<close>

theorem outstanding_block_kept:
  assumes "drrip_tags_inv q (tags C)" and "data_ok (tags C)" and "env_ok env"
    and "\<not> isReadOnly cfg \<or> writebackClean cfg"
    and "tag_abs sa_vtable (tags C) (pkt_addr pkt) (Packet.pkt_isSecure pkt) = None"
    and "unat (req_masterId (pkt_req pkt)) < maxMasters cfg" and "mq_settled S Q"
  shows "case allocateBlock cfg sa_vtable (DRRIP q) (mshr_match S Q) env C pkt of
     Inr (r, wbs, C') \<Rightarrow> \<forall>a sec e.
       tag_abs sa_vtable (tags C) a sec = Some e \<and> outstanding S Q (block_addr (indexingPolicy (tags C)) a) sec \<longrightarrow>
       tag_abs sa_vtable (tags C') a sec = Some e \<and> blks (tags C') e = blks (tags C) e
   | Inl err \<Rightarrow> err = AssertFailed \<and> (\<exists>a sec e b m.
       tag_abs sa_vtable (tags C) a sec = Some e \<and> blks (tags C) e = Some b \<and>
       m \<in> set (allocatedList Q) \<and> serves (block_addr (indexingPolicy (tags C)) a) sec (mshrs S ! m) \<and>
       \<not> (\<not> isWritable b \<and> tl_needsWritable (targets (mshrs S ! m))) \<and> isCleaning m S = Inr False)"
proof (cases "allocateBlock cfg sa_vtable (DRRIP q) (mshr_match S Q) env C pkt")
  case (Inl err)
  then obtain a sec e b where e: "tag_abs sa_vtable (tags C) a sec = Some e" "blks (tags C) e = Some b"
    and cl: "mshr_clash (mshr_match S Q) (block_addr (indexingPolicy (tags C)) a) sec b err"
    using sa_drrip.allocateBlock_ok [OF assms(1-6), of "mshr_match S Q"] by (auto simp: evict_clash_def)
  have "mshr_match S Q (block_addr (indexingPolicy (tags C)) a) sec \<noteq> Inl err"
    using mshr_match_settled [OF assms(7), of "block_addr (indexingPolicy (tags C)) a" sec] by auto
  with cl obtain nw c where w: "mshr_match S Q (block_addr (indexingPolicy (tags C)) a) sec = Inr (Some (nw, c))"
    "\<not> ((\<not> isWritable b \<and> nw) \<or> c)" "err = AssertFailed" unfolding mshr_clash_def by blast
  from mshr_match_Some [OF assms(7) w(1)] obtain m where "m \<in> set (allocatedList Q)"
    "serves (block_addr (indexingPolicy (tags C)) a) sec (mshrs S ! m)" "nw = tl_needsWritable (targets (mshrs S ! m))"
    "isCleaning m S = Inr c" by blast
  with w e Inl show ?thesis by (simp del: not_all) blast
next
  case (Inr res)
  obtain r wbs C' where res: "res = (r, wbs, C')" by (cases res)
  have "mshr_match S Q x sec \<noteq> Inr None" if "outstanding S Q x sec" for x sec
    using mshr_match_settled [OF assms(7), of x sec] that by auto
  then show ?thesis
    using sa_drrip.allocateBlock_keeps_matched [OF assms(1-6), of "mshr_match S Q" r wbs C'] by (auto simp: Inr res)
qed

text \<open>A clean request is outstanding on block 0x1040, and 0x2040 would take its place.\<close>

definition clean_miss :: "MemSys \<times> EntryQueue" where
  "clean_miss = snd (snd (the (miss_trace [MSHRRun.Miss 0x1040 64 0 5 1 True] (\<lambda>_. [], \<lambda>_. [],
     ex_sys\<lparr>pkts := [ex_pkt 0x1040 64 CLEAN CleanSharedReq 1]\<rparr>, ex_queue))))"

lemma clean_miss_ok:
  "mq_settled (fst clean_miss) (snd clean_miss)" "outstanding (fst clean_miss) (snd clean_miss) 0x1040 False"
  "m \<in> set (allocatedList (snd clean_miss)) \<Longrightarrow> isCleaning m (fst clean_miss) = Inr True"
proof -
  show "mq_settled (fst clean_miss) (snd clean_miss)" "outstanding (fst clean_miss) (snd clean_miss) 0x1040 False" by code_simp+
  have "allocatedList (snd clean_miss) = [0]" and "isCleaning 0 (fst clean_miss) = Inr True" by code_simp+
  then show "m \<in> set (allocatedList (snd clean_miss)) \<Longrightarrow> isCleaning m (fst clean_miss) = Inr True" by simp
qed

theorem outstanding_block_kept_witness:
  "\<exists>r wbs C'. allocateBlock example_cfg sa_vtable (DRRIP example_q) (mshr_match (fst clean_miss) (snd clean_miss))
       example_env example_C1 (example_pkt 0x2040) = Inr (r, wbs, C') \<and> tag_abs sa_vtable (tags C') 0x1040 False = Some 1"
proof -
  have m: "tag_abs sa_vtable (tags example_C1) (pkt_addr (example_pkt 0x2040)) (Packet.pkt_isSecure (example_pkt 0x2040)) = None"
    "block_addr (indexingPolicy (tags example_C1)) 0x1040 = 0x1040" by code_simp+
  note kept = outstanding_block_kept [OF example_C1_ok(1,2) example_side(1,2) m(1) example_side(3) clean_miss_ok(1)]
  show ?thesis
  proof (cases "allocateBlock example_cfg sa_vtable (DRRIP example_q) (mshr_match (fst clean_miss) (snd clean_miss))
       example_env example_C1 (example_pkt 0x2040)")
    case (Inl err)
    with kept obtain x where "x \<in> set (allocatedList (snd clean_miss))" "isCleaning x (fst clean_miss) = Inr False" by auto
    with clean_miss_ok(3) show ?thesis by auto
  next
    case (Inr res)
    with kept example_C1_ok(3) clean_miss_ok(2) m(2) show ?thesis by (cases res) fastforce
  qed
qed

end
