(* ===== verification/Spec2Isabelle.thy ===== *)
theory Spec2Isabelle
  imports TickPolicies TreePLRU Bitfield CacheAlloc MinorStage EventSchedule BPredSquash FuncAccess MSHRFlags MSHRForest CacheMiss
begin

text \<open>
  A verification development for the simulator in \<^verbatim>\<open>src/ece565\<close>.

  \<^bold>\<open>The program.\<close> The repository holds three copies of the gem5 simulator: the original
  (\<^verbatim>\<open>gem5_org\<close>), one in which a programming assignment adds a Dummy stage to the Minor processor
  (\<^verbatim>\<open>programming_assignment/pa1-divantjain\<close>) and one in which a project adds the DRRIP cache
  replacement policy (\<^verbatim>\<open>project/DRRIP_project\<close>). The theories follow the project's copy, except for the
  Minor pipeline, which follows the assignment's. File names below are relative to the \<^verbatim>\<open>src\<close> directory
  of those copies.

  The simulator is a discrete event simulator: objects schedule events on a queue and the queue advances
  the clock. A processor model fetches instructions along the path a branch prediction unit predicts, moves
  them through pipeline stages joined by latches and input buffers, and accesses memory through caches. A cache
  finds blocks through a tag store, which asks an indexing policy where an address may live and a replacement
  policy which block to give up; what it has to write back waits in a write queue, and the requests that miss wait
  in miss status registers until the response arrives. What travels between them are packets, made from requests.

  \<^bold>\<open>The theories\<close>, from the bottom up:

  \<^item> \<^verbatim>\<open>Prelude\<close>: machine words at their width, the result type \<^verbatim>\<open>'a res\<close> in which every
    \<^verbatim>\<open>assert\<close>, \<^verbatim>\<open>fatal\<close>, \<^verbatim>\<open>panic\<close>, bad index, division by zero, undefined shift and signed
    overflow that the models flag is a value, checked vector accesses, and the shared facts on scans and words.
  \<^item> \<^verbatim>\<open>SatCounter\<close> (\<^verbatim>\<open>base/sat_counter.hh\<close>), \<^verbatim>\<open>Bitfield\<close> (\<^verbatim>\<open>base/bitfield.hh\<close>,
    \<^verbatim>\<open>base/bitfield.cc\<close>, \<^verbatim>\<open>base/intmath.hh\<close>): the arithmetic the other parts use, with bounds,
    wrap-around, the exact operands on which the counter's operators are undefined and the correctness of the binary searches.
  \<^item> \<^verbatim>\<open>ReplPolicy\<close>, \<^verbatim>\<open>TickPolicies\<close>, \<^verbatim>\<open>RRIP\<close>, \<^verbatim>\<open>TreePLRU\<close>
    (\<^verbatim>\<open>mem/cache/replacement_policies\<close>): all replacement policies. The virtual functions of the base class
    are a record of operations; \<^verbatim>\<open>replacement_policy\<close>, \<^verbatim>\<open>invalid_first_policy\<close> and
    \<^verbatim>\<open>data_policy\<close> are the locales of the contract, interpreted on each policy that keeps it. For DRRIP:
    where the dedicated sets are, how the policy selector moves and stays in range, the insertion position of every
    kind of set, and what goes wrong when the policy is not told the number of sets. The victim search of BRRIP is
    equal to the published algorithm; LRU, FIFO, second chance and tree PLRU evict what they should.
  \<^item> \<^verbatim>\<open>Indexing\<close> (\<^verbatim>\<open>mem/cache/tags/indexing_policies\<close>), \<^verbatim>\<open>CacheBlk\<close>
    (\<^verbatim>\<open>mem/cache/cache_blk.hh\<close>, \<^verbatim>\<open>.cc\<close>), \<^verbatim>\<open>Tags\<close> (\<^verbatim>\<open>mem/cache/tags/base.cc\<close>,
    \<^verbatim>\<open>base_set_assoc.hh\<close>, \<^verbatim>\<open>.cc\<close>), \<^verbatim>\<open>CacheAlloc\<close> (allocation and eviction of
    \<^verbatim>\<open>mem/cache/base.cc\<close> and \<^verbatim>\<open>cache.cc\<close>): a cache from address to block. The locale
    \<^verbatim>\<open>indexing_policy\<close> is interpreted on the set associative and the skewed policy, \<^verbatim>\<open>tag_store\<close> joins
    it with a replacement policy and is interpreted on set associative indexing with DRRIP. A cache with DRRIP
    refines an abstract set of blocks, up to a fill that the assertion of \<^verbatim>\<open>handleEvictions\<close> stops; no dirty block is
    lost; load locks and store conditionals are characterised, where they differ from their comments too.
  \<^item> \<^verbatim>\<open>MinorBuffers\<close> (\<^verbatim>\<open>cpu/timebuf.hh\<close>, \<^verbatim>\<open>cpu/minor/buffers.hh\<close>), \<^verbatim>\<open>MinorStage\<close>
    (\<^verbatim>\<open>cpu/minor/dummy.cc\<close>, \<^verbatim>\<open>decode.cc\<close>, \<^verbatim>\<open>pipe_data.cc\<close>, \<^verbatim>\<open>dyn_inst.hh\<close>): latches deliver
    after their delay, input buffers are bounded queues, and the Dummy stage forwards the instructions of
    every thread once and in program order, and drains.
  \<^item> \<^verbatim>\<open>MemPacket\<close>, \<^verbatim>\<open>FuncAccess\<close> (\<^verbatim>\<open>mem/packet.hh\<close>, \<^verbatim>\<open>packet.cc\<close>, \<^verbatim>\<open>mem/request.hh\<close>):
    the commands and their table of attributes, requests, packets with their flags, sender states and data buffers, and
    functional accesses, which gather exactly the bytes they overlap. Packets live in a store, since several parts hold
    pointers to one packet.
  \<^item> \<^verbatim>\<open>CacheQueue\<close> (\<^verbatim>\<open>mem/cache/queue.hh\<close>, \<^verbatim>\<open>queue_entry.hh\<close>, \<^verbatim>\<open>write_queue.*\<close>,
    \<^verbatim>\<open>write_queue_entry.*\<close>): the queue template with its entries' functions as parameters, the locale
    \<^verbatim>\<open>queue_entry\<close> being what the template relies on, and the write queue: its lists stay well formed, it serves the
    entry that is ready first, and entries of one ready time in the order they came.
  \<^item> \<^verbatim>\<open>MSHR\<close>, \<^verbatim>\<open>MSHRProps\<close>, \<^verbatim>\<open>MSHRForest\<close>, \<^verbatim>\<open>MSHRFlags\<close>, \<^verbatim>\<open>MSHRRun\<close> (\<^verbatim>\<open>mem/cache/mshr.*\<close>,
    \<^verbatim>\<open>mshr_queue.*\<close>): the miss status registers of all caches in one store, and their queue, the second
    interpretation of \<^verbatim>\<open>queue_entry\<close>. Whatever misses, snoops, deferrals, promotions and retries come, each register
    serves its requests in the order they arrived and the queue stays well formed; a request that arrives after a
    snooped invalidation waits for the next response; the recursion through the registers of the caches above ends, and
    clears what it should; writes that cover a line are recognised.
  \<^item> \<^verbatim>\<open>CacheMiss\<close>: the cache together with its miss registers; a block on which a request is outstanding is never evicted,
    and an allocation fails only by the assertion on the outstanding request.
  \<^item> \<^verbatim>\<open>RunMonad\<close>: computations that may fail or not end, for the two parts that follow pointers.
  \<^item> \<^verbatim>\<open>EventQueue\<close>, \<^verbatim>\<open>EventSchedule\<close> (\<^verbatim>\<open>sim/eventq.hh\<close>, \<^verbatim>\<open>eventq.cc\<close>,
    \<^verbatim>\<open>eventq_impl.hh\<close>): events in a store, linked by pointers as in the code. The reachable states (\<^verbatim>\<open>eq_reach\<close>)
    take in the calls of all threads in any mode, the merge of the events other threads inserted, restored checkpoints,
    a clock set from outside and the service of events by handlers that make such calls (the locale \<^verbatim>\<open>event_handlers\<close>).
    Every such queue represents a sorted list of bins, and service takes the first event. No event lies in the past and
    the clock does not move backwards as long as the clock is not moved past a scheduled event, which is the rule the code
    documents for events of other threads; without it, a merge may bring in events of the past. Descheduling undoes
    scheduling, unless the event waits to be merged; destruction ends; the self check and the checkpoint code are
    characterised, including where they differ from their description.
  \<^item> \<^verbatim>\<open>BranchPred\<close>, \<^verbatim>\<open>BPredUnit\<close>, \<^verbatim>\<open>BPredSafe\<close>, \<^verbatim>\<open>BPredSquash\<close> (\<^verbatim>\<open>cpu/pred\<close>): the return
    address stack, the target buffer, the local, bi-mode and tournament predictors and the unit that joins them. The
    locale \<^verbatim>\<open>total_predictor\<close> is the contract under which the unit never fails, its extension
    \<^verbatim>\<open>speculative_predictor\<close> the one under which a squash takes back a run of predictions; both are interpreted
    on the three predictors.

  \<^bold>\<open>How state and operations correspond.\<close> A structure or class is a record with the members of the code under
  their names (a prefix is added where two classes share one), an operation is a definition that takes the
  record and returns it updated, and a pointer is a number into a heap, or a value where nothing is shared. Virtual
  functions are records of operations. Loops are structural recursion or \<^verbatim>\<open>fun\<close> with a measure; the loops over
  the pointers of the event queue and the recursion through the miss registers are \<^verbatim>\<open>partial_function (option)\<close>, so that
  one that does not end is \<^verbatim>\<open>None\<close>, and the properties show that they do end, the loops on every reachable queue and
  the recursion on every state. No fuel is used anywhere. Integers
  keep their width where the code computes with them: addresses and ticks are 64 bit words, indices, sizes and
  the operands of the counters 32 bit words, counters 8 bit words. A shift by the width or more is an error value, except
  for the address shift of the direction predictors' indices, where it gives 0. The assertions of the accessors of
  requests and packets that a field is valid are kept in \<^verbatim>\<open>MemPacket\<close>; the smaller records of \<^verbatim>\<open>CacheBlk\<close> always have
  their fields.

  \<^bold>\<open>Parameters.\<close> The random number generator and the simulated time are read through an environment; instructions
  and program counter states belong to the instruction set, which the build generates from descriptions, and are
  type variables with operations; allocation in a cache takes the question it asks of the miss status queue as an argument, which
  \<^verbatim>\<open>CacheMiss\<close> instantiates with the model of that queue; event handlers are functions on queues.

  \<^bold>\<open>Not modelled.\<close> Output (tracing, statistics registration, dumps, probes), the mutexes of the event queues and
  the use Ruby makes of \<^verbatim>\<open>replaceHead\<close> to set a queue aside (it is defined, but not a step of the reachable states),
  ports and the coherence protocol of the caches, the typed data accessors and the printing of packets, requests by
  virtual address, compressors and prefetchers; the larger branch
  predictors (TAGE, perceptron, statistical correctors); the out of order and the simple processors and the remaining
  stages of Minor; DRAM, Ruby, devices, the GPU, SystemC, the instruction sets, the Python configuration layer, and the
  vendored libraries under \<^verbatim>\<open>ext\<close>. They are either glue between the parts above and the outside, or generated or
  vendored code, or large independent models to which the same treatment would have to be given separately.
\<close>

end
